(* ===== verification/Prelude.thy ===== *)
theory Prelude
  imports Main "HOL-Library.Word"
begin

text \<open>
  Shared vocabulary of the libyimmo development: the machine types of the C sources
  (LP64: \<^verbatim>\<open>size_t\<close> is 64 bits wide, \<^verbatim>\<open>char\<close> is a signed byte), the status codes of
  \<^verbatim>\<open>ymo_status_t\<close>, the collections of simplification rules that the component theories
  extend, and the generic lemmas on bytes, lists and exhaustive byte enumeration that they share.
\<close>

unbundle bit_operations_syntax

section \<open>Machine types\<close>

type_synonym byte = "8 word"
type_synonym u16 = "16 word"
type_synonym u32 = "32 word"
type_synonym u64 = "64 word"
type_synonym bytes = "byte list"

text \<open>
  The result codes the library passes around.  \<^verbatim>\<open>YMO_OKAY\<close> is 0 in C; every other
  constructor is the POSIX \<^verbatim>\<open>errno\<close> value of the same name.
\<close>

datatype ymo_status =
    YMO_OKAY | EINVAL | ENOMEM | EILSEQ | EBADMSG | EFBIG | EAGAIN | ENOBUFS | ENOENT
  | EOVERFLOW | EPIPE | EADDRNOTAVAIL | ENOPROTOOPT | EPROTOTYPE | ENOSYS
  | EPROTONOSUPPORT | ENOTSUP | ECONNREFUSED | EACCES | EMSGSIZE | EPROTO
  | ECONNABORTED | ECONNRESET

section \<open>Outcomes\<close>

text \<open>
  What a function that works on shared objects does: it returns, runs forever, or uses memory that is not
  there.
\<close>

datatype 'a run = Ret 'a | Hang | Fault

fun run_bind :: "'a run \<Rightarrow> ('a \<Rightarrow> 'b run) \<Rightarrow> 'b run" where
  "run_bind (Ret x) f = f x"
| "run_bind Hang f = Hang"
| "run_bind Fault f = Fault"

section \<open>Collections\<close>

named_theorems ymo_defs \<open>definitions the component proofs unfold together\<close>
named_theorems ymo_inv \<open>preservation of component invariants\<close>

section \<open>Bytes\<close>

text \<open>Reads a C character literal as a byte.\<close>

definition chr :: "char \<Rightarrow> byte" where
  "chr c = of_char c"

definition str :: "string \<Rightarrow> bytes" where
  "str s = map chr s"

text \<open>What the C library's \<^verbatim>\<open>strcasecmp\<close> takes for the same string, in the C locale.\<close>

definition c_tolower :: "byte \<Rightarrow> byte" where
  "c_tolower c = (if chr CHR ''A'' \<le> c \<and> c \<le> chr CHR ''Z'' then c + 32 else c)"

definition strcaseeq :: "bytes \<Rightarrow> bytes \<Rightarrow> bool" where
  "strcaseeq s t \<longleftrightarrow> map c_tolower s = map c_tolower t"

text \<open>
  A statement about every byte is a statement about 256 numerals; the explicit list lets the
  simplifier decide it by evaluating the statement at each numeral.
\<close>

definition all_bytes :: bytes where
  "all_bytes =
     [0, 1, 2, 3, 4, 5, 6, 7, 8, 9, 10, 11, 12, 13, 14, 15,
      16, 17, 18, 19, 20, 21, 22, 23, 24, 25, 26, 27, 28, 29, 30, 31,
      32, 33, 34, 35, 36, 37, 38, 39, 40, 41, 42, 43, 44, 45, 46, 47,
      48, 49, 50, 51, 52, 53, 54, 55, 56, 57, 58, 59, 60, 61, 62, 63,
      64, 65, 66, 67, 68, 69, 70, 71, 72, 73, 74, 75, 76, 77, 78, 79,
      80, 81, 82, 83, 84, 85, 86, 87, 88, 89, 90, 91, 92, 93, 94, 95,
      96, 97, 98, 99, 100, 101, 102, 103, 104, 105, 106, 107, 108, 109, 110, 111,
      112, 113, 114, 115, 116, 117, 118, 119, 120, 121, 122, 123, 124, 125, 126, 127,
      128, 129, 130, 131, 132, 133, 134, 135, 136, 137, 138, 139, 140, 141, 142, 143,
      144, 145, 146, 147, 148, 149, 150, 151, 152, 153, 154, 155, 156, 157, 158, 159,
      160, 161, 162, 163, 164, 165, 166, 167, 168, 169, 170, 171, 172, 173, 174, 175,
      176, 177, 178, 179, 180, 181, 182, 183, 184, 185, 186, 187, 188, 189, 190, 191,
      192, 193, 194, 195, 196, 197, 198, 199, 200, 201, 202, 203, 204, 205, 206, 207,
      208, 209, 210, 211, 212, 213, 214, 215, 216, 217, 218, 219, 220, 221, 222, 223,
      224, 225, 226, 227, 228, 229, 230, 231, 232, 233, 234, 235, 236, 237, 238, 239,
      240, 241, 242, 243, 244, 245, 246, 247, 248, 249, 250, 251, 252, 253, 254, 255]"

lemma all_bytes_eq: "all_bytes = map word_of_nat [0..<256]"
  by (simp add: all_bytes_def upt_rec)

lemma in_all_bytes: "c \<in> set all_bytes"
proof -
  have "unat c < 256" using unsigned_less [of c] by simp
  then have "(word_of_nat (unat c) :: byte) \<in> word_of_nat ` {0..<256}" by (intro imageI) simp
  then show ?thesis by (simp add: all_bytes_eq)
qed

lemma numeral_le_one_byte [simp]: "(numeral n :: byte) \<le> 1 \<longleftrightarrow> unat (numeral n :: byte) \<le> 1"
  by (simp add: word_le_nat_alt)

lemma numeral_less_one_byte [simp]: "(numeral n :: byte) < 1 \<longleftrightarrow> unat (numeral n :: byte) < 1"
  by (simp add: word_less_nat_alt)

lemmas byte_order = word_less_nat_alt word_le_nat_alt

lemma all_bytesI: "list_all P all_bytes \<Longrightarrow> P c"
  using in_all_bytes [of c] by (auto simp: list_all_iff)

text \<open>Equality of bytes bit by bit, for goals about shifts and masks.\<close>

lemma byte_bit_beyond [simp]: "8 \<le> n \<Longrightarrow> \<not> bit (c::byte) n"
  by (auto dest: bit_imp_le_length)

lemma byte_eqI:
  assumes "bit a 0 \<longleftrightarrow> bit b 0" "bit a 1 \<longleftrightarrow> bit b 1" "bit a 2 \<longleftrightarrow> bit b 2" "bit a 3 \<longleftrightarrow> bit b 3"
    and "bit a 4 \<longleftrightarrow> bit b 4" "bit a 5 \<longleftrightarrow> bit b 5" "bit a 6 \<longleftrightarrow> bit b 6" "bit a 7 \<longleftrightarrow> bit b 7"
  shows "a = (b::byte)"
proof (rule bit_word_eqI)
  fix n assume "n < LENGTH(8)"
  then have "n \<in> {0, 1, 2, 3, 4, 5, 6, 7}" by auto
  with assms show "bit a n \<longleftrightarrow> bit b n" by auto
qed

lemma u32_of_nat_eq_0_iff: "n < 2 ^ 32 \<Longrightarrow> (word_of_nat n :: u32) = 0 \<longleftrightarrow> n = 0"
  by (auto simp: word_of_nat_eq_0_iff dest: nat_dvd_not_less [rotated])

text \<open>Counting down a 64-bit counter.\<close>

lemma unat_sub_word_of_nat: "k \<le> unat r \<Longrightarrow> unat ((r :: u64) - word_of_nat k) = unat r - k"
proof -
  assume k: "k \<le> unat r"
  moreover have "unat r < 2 ^ LENGTH(64)" by (rule unsigned_less)
  ultimately have "k < 2 ^ 64" by simp
  then have "unat (word_of_nat k :: u64) = k" by (simp add: unat_of_nat take_bit_nat_eq_self)
  with k show ?thesis by (simp add: unat_sub word_le_nat_alt)
qed

lemma unat_plus_small: "unat x + unat y < 2 ^ 64 \<Longrightarrow> unat ((x :: u64) + y) = unat x + unat y"
  by (simp add: unat_word_ariths(1) unat_add_lem [THEN iffD1])

text \<open>
  Reading through a pointer into a NUL-terminated string: past the stored characters there is
  the terminator.
\<close>

definition deref :: "bytes \<Rightarrow> byte" where
  "deref s = (case s of [] \<Rightarrow> 0 | c # _ \<Rightarrow> c)"

lemma deref_simps [simp]: "deref [] = 0" "deref (c # s) = c"
  by (simp_all add: deref_def)

end
