(* ===== verification/Util.thy ===== *)
theory Util
  imports Prelude
begin

text \<open>
  The string utilities of \<^verbatim>\<open>include/ymo_util.h\<close> and \<^verbatim>\<open>src/core/ymo_util.c\<close>: branch-free case
  folding of one character, case-insensitive comparison, the strided whole-buffer case folding,
  Base64 encoding, and the incremental UTF-8 validator.
\<close>

section \<open>Case folding of one character\<close>

text \<open>
  C promotes the \<^verbatim>\<open>char\<close> to a signed \<^verbatim>\<open>int\<close> before subtracting and shifts the (possibly
  negative) exclusive-or arithmetically; the mask is truncated back to a byte.
\<close>

definition ymo_tolower :: "byte \<Rightarrow> byte" where
  "ymo_tolower c =
     (let i = scast c :: u32;
          m = ucast (signed_drop_bit 2 ((0x40 - i) XOR (0x5a - i)) AND 0x20) :: byte
      in c XOR m)"

definition ymo_toupper :: "byte \<Rightarrow> byte" where
  "ymo_toupper c =
     (let i = scast c :: u32;
          m = ucast (signed_drop_bit 2 ((0x60 - i) XOR (0x7a - i)) AND 0x20) :: byte
      in c XOR m)"

lemma ymo_tolower_eq:
  "ymo_tolower c =
     (if 0x41 \<le> c \<and> c \<le> 0x5a \<or> 0xc1 \<le> c \<and> c \<le> 0xda then c + 0x20 else c)"
  by (rule all_bytesI [of _ c]) (simp add: all_bytes_def ymo_tolower_def Let_def)

lemma ymo_toupper_eq:
  "ymo_toupper c =
     (if 0x61 \<le> c \<and> c \<le> 0x7a \<or> 0xe1 \<le> c \<and> c \<le> 0xfa then c - 0x20 else c)"
  by (rule all_bytesI [of _ c]) (simp add: all_bytes_def ymo_toupper_def Let_def)

lemma ymo_tolower_zero_iff [simp]: "ymo_tolower c = 0 \<longleftrightarrow> c = 0"
  by (rule all_bytesI [of _ c]) (simp add: all_bytes_def ymo_tolower_eq)

lemma ymo_tolower_idem [simp]: "ymo_tolower (ymo_tolower c) = ymo_tolower c"
  by (rule all_bytesI [of _ c]) (simp add: all_bytes_def ymo_tolower_eq)

section \<open>Comparison of counted strings\<close>

text \<open>\<^verbatim>\<open>memcmp\<close> over the first \<open>n\<close> bytes, as far as its callers look at it: zero or not.\<close>

definition ymo_strcmp :: "bytes \<Rightarrow> nat \<Rightarrow> bytes \<Rightarrow> nat \<Rightarrow> int" where
  "ymo_strcmp s1 l1 s2 l2 =
     (if l1 = l2 then (if take l1 s1 = take l1 s2 then 0 else 1) else -1)"

text \<open>
  The loop of \<^verbatim>\<open>ymo_strcasecmp\<close> runs on the incremented \<open>l2\<close> and returns what is left of it;
  the \<^verbatim>\<open>size_t\<close> counter is truncated to the \<^verbatim>\<open>int\<close> result.
\<close>

fun strcasecmp_loop :: "nat \<Rightarrow> bytes \<Rightarrow> bytes \<Rightarrow> nat" where
  "strcasecmp_loop 0 s1 s2 = 0"
| "strcasecmp_loop (Suc l2) s1 s2 =
     (if 0 < l2 \<and> ymo_tolower (deref s1) = ymo_tolower (deref s2)
      then strcasecmp_loop l2 (tl s1) (tl s2) else l2)"

definition ymo_strcasecmp :: "bytes \<Rightarrow> nat \<Rightarrow> bytes \<Rightarrow> nat \<Rightarrow> u32" where
  "ymo_strcasecmp s1 l1 s2 l2 =
     (if l1 = l2 then word_of_nat (strcasecmp_loop (l2 + 1) s1 s2) else -1)"

lemma strcasecmp_loop_le: "strcasecmp_loop (Suc n) s1 s2 \<le> n"
proof (induction n arbitrary: s1 s2)
  case (Suc n)
  show ?case using Suc.IH [of "tl s1" "tl s2"] by simp
qed simp

lemma strcasecmp_loop_0_iff:
  "length s1 = n \<Longrightarrow> length s2 = n \<Longrightarrow>
   strcasecmp_loop (Suc n) s1 s2 = 0 \<longleftrightarrow> map ymo_tolower s1 = map ymo_tolower s2"
proof (induction n arbitrary: s1 s2)
  case (Suc n)
  then obtain a s1' b s2' where s: "s1 = a # s1'" "s2 = b # s2'"
    by (cases s1; cases s2) auto
  with Suc.prems have "length s1' = n" "length s2' = n" by auto
  then show ?case using Suc.IH [of s1' s2'] s by auto
qed simp

lemma strcasecmp_eq_0_iff:
  assumes "length s1 < 2 ^ 32" and "length s2 < 2 ^ 32"
  shows "ymo_strcasecmp s1 (length s1) s2 (length s2) = 0 \<longleftrightarrow>
         map ymo_tolower s1 = map ymo_tolower s2"
proof (cases "length s1 = length s2")
  case True
  let ?r = "strcasecmp_loop (Suc (length s2)) s1 s2"
  have "?r < 2 ^ 32"
    using strcasecmp_loop_le [of "length s2" s1 s2] assms(2) by linarith
  then have "(word_of_nat ?r :: u32) = 0 \<longleftrightarrow> ?r = 0"
    by (rule u32_of_nat_eq_0_iff)
  moreover have "?r = 0 \<longleftrightarrow> map ymo_tolower s1 = map ymo_tolower s2"
    using True by (intro strcasecmp_loop_0_iff) simp_all
  ultimately show ?thesis
    using True by (simp only: ymo_strcasecmp_def Suc_eq_plus1 if_True simp_thms)
next
  case False
  then show ?thesis by (auto simp: ymo_strcasecmp_def dest: map_eq_imp_length_eq)
qed

section \<open>Base64\<close>

definition YMO_BASE64_TABLE :: bytes where
  "YMO_BASE64_TABLE =
     str ''ABCDEFGHIJKLMNOPQRSTUVWXYZabcdefghijklmnopqrstuvwxyz0123456789+/''"

definition b64_at :: "byte \<Rightarrow> byte" where
  "b64_at i = YMO_BASE64_TABLE ! unat i"

definition YMO_B64_PAD :: byte where
  "YMO_B64_PAD = chr CHR ''=''"

text \<open>The four table indices of a group.\<close>

definition b64_s0 :: "byte \<Rightarrow> byte" where "b64_s0 a = drop_bit 2 a AND 0x3f"
definition b64_s1 :: "byte \<Rightarrow> byte \<Rightarrow> byte" where "b64_s1 a b = push_bit 4 (a AND 0x03) OR drop_bit 4 b"
definition b64_s2 :: "byte \<Rightarrow> byte \<Rightarrow> byte" where "b64_s2 b c = push_bit 2 (b AND 0x0f) OR drop_bit 6 c"
definition b64_s3 :: "byte \<Rightarrow> byte" where "b64_s3 c = c AND 0x3f"

fun base64_groups :: "bytes \<Rightarrow> bytes" where
  "base64_groups (a # b # c # rest) =
     b64_at (b64_s0 a) # b64_at (b64_s1 a b) # b64_at (b64_s2 b c) # b64_at (b64_s3 c)
     # base64_groups rest"
| "base64_groups [a] =
     [b64_at (b64_s0 a), b64_at (push_bit 4 (a AND 0x03)), YMO_B64_PAD, YMO_B64_PAD]"
| "base64_groups [a, b] =
     [b64_at (b64_s0 a), b64_at (b64_s1 a b), b64_at (push_bit 2 (b AND 0x0f)), YMO_B64_PAD]"
| "base64_groups [] = []"

text \<open>The inverse of the table, and the decoder of RFC 4648 as the reference for the encoder.\<close>

definition b64_val :: "byte \<Rightarrow> byte" where
  "b64_val c =
     (if 0x41 \<le> c \<and> c \<le> 0x5a then c - 0x41
      else if 0x61 \<le> c \<and> c \<le> 0x7a then c - 0x61 + 26
      else if 0x30 \<le> c \<and> c \<le> 0x39 then c - 0x30 + 52
      else if c = 0x2b then 62 else 63)"

fun base64_decode :: "bytes \<Rightarrow> bytes" where
  "base64_decode (w # x # y # z # rest) =
     (if y = YMO_B64_PAD
      then [push_bit 2 (b64_val w) OR drop_bit 4 (b64_val x)]
      else if z = YMO_B64_PAD
      then [push_bit 2 (b64_val w) OR drop_bit 4 (b64_val x),
            push_bit 4 (b64_val x) OR drop_bit 2 (b64_val y)]
      else (push_bit 2 (b64_val w) OR drop_bit 4 (b64_val x))
         # (push_bit 4 (b64_val x) OR drop_bit 2 (b64_val y))
         # (push_bit 6 (b64_val y) OR b64_val z)
         # base64_decode rest)"
| "base64_decode _ = []"


lemma b64_at_val:
  assumes "i < 64"
  shows "b64_val (b64_at i) = i" and "b64_at i \<noteq> YMO_B64_PAD" and "b64_at i \<noteq> 0"
proof -
  have "i < 64 \<longrightarrow> b64_val (b64_at i) = i \<and> b64_at i \<noteq> YMO_B64_PAD \<and> b64_at i \<noteq> 0"
    by (rule all_bytesI [of _ i])
      (simp add: all_bytes_def b64_val_def b64_at_def YMO_B64_PAD_def YMO_BASE64_TABLE_def str_def chr_def)
  with assms show "b64_val (b64_at i) = i" and "b64_at i \<noteq> YMO_B64_PAD" and "b64_at i \<noteq> 0"
    by simp_all
qed

lemma bit_masks:
  "bit (0x03::byte) n \<longleftrightarrow> n < 2" "bit (0x0f::byte) n \<longleftrightarrow> n < 4" "bit (0x3f::byte) n \<longleftrightarrow> n < 6"
proof -
  have "(0x03::byte) = mask 2" "(0x0f::byte) = mask 4" "(0x3f::byte) = mask 6"
    by (simp_all add: mask_eq_exp_minus_1)
  then show "bit (0x03::byte) n \<longleftrightarrow> n < 2" "bit (0x0f::byte) n \<longleftrightarrow> n < 4" "bit (0x3f::byte) n \<longleftrightarrow> n < 6"
    by (simp_all only: bit_mask_iff) auto
qed

lemma bit_sextets:
  "bit (b64_s0 a) n \<longleftrightarrow> n < 6 \<and> bit a (2 + n)"
  "bit (b64_s1 a b) n \<longleftrightarrow> 4 \<le> n \<and> n < 6 \<and> bit a (n - 4) \<or> n < 4 \<and> bit b (4 + n)"
  "bit (b64_s2 b c) n \<longleftrightarrow> 2 \<le> n \<and> n < 6 \<and> bit b (n - 2) \<or> n < 2 \<and> bit c (6 + n)"
  "bit (b64_s3 c) n \<longleftrightarrow> n < 6 \<and> bit c n"
  by (auto simp only: b64_s0_def b64_s1_def b64_s2_def b64_s3_def bit_simps bit_masks)
   (auto dest: bit_imp_le_length)

lemma sextet_lt: "(\<forall>n. bit (i::byte) n \<longrightarrow> n < 6) \<Longrightarrow> i < 64"
proof -
  assume "\<forall>n. bit i n \<longrightarrow> n < 6"
  then have "take_bit 6 i = i" by (intro bit_eqI) (auto simp: bit_take_bit_iff)
  then have "i = i AND mask 6" by (simp add: take_bit_eq_mask)
  then have "i \<le> mask 6" by (metis word_and_le1)
  then show ?thesis by (simp add: mask_eq_exp_minus_1 word_le_nat_alt word_less_nat_alt)
qed

lemma sextets_lt: "b64_s0 a < 64" "b64_s1 a b < 64" "b64_s2 b c < 64" "b64_s3 c < 64"
  by (rule sextet_lt; auto simp: bit_sextets)+

lemma join_sextets:
  "push_bit 2 (b64_s0 a) OR drop_bit 4 (b64_s1 a b) = a"
  "push_bit 4 (b64_s1 a b) OR drop_bit 2 (b64_s2 b c) = b"
  "push_bit 6 (b64_s2 b c) OR b64_s3 c = c"
  by (rule byte_eqI; simp add: bit_simps bit_sextets; simp add: numeral_2_eq_2 numeral_3_eq_3)+

lemma short_sextets: "push_bit 4 (a AND 0x03) = b64_s1 a 0" "push_bit 2 (b AND 0x0f) = b64_s2 b 0"
  by (simp_all only: b64_s1_def b64_s2_def drop_bit_of_0 or.right_neutral)

lemma base64_decode_groups: "base64_decode (base64_groups src) = src"
  by (induction src rule: base64_groups.induct)
    (simp_all add: b64_at_val sextets_lt join_sextets short_sextets short_sextets [simplified])

text \<open>
  \<^verbatim>\<open>ymo_base64_encode\<close> writes the groups and a terminating NUL; \<^verbatim>\<open>YMO_BASE64_LEN\<close> is the size
  the header advertises for the destination, and \<^verbatim>\<open>ymo_base64_encoded\<close> allocates exactly that.
  A write past the allocation is the error value \<open>Inl EOVERFLOW\<close> of the model (the C code has
  no check there).
\<close>

definition ymo_base64_encode :: "bytes \<Rightarrow> bytes" where
  "ymo_base64_encode src = base64_groups src @ [0]"

definition YMO_BASE64_LEN :: "nat \<Rightarrow> nat" where
  "YMO_BASE64_LEN len = (4 * (len + 2)) div 3"

definition ymo_base64_encoded :: "bool \<Rightarrow> bytes \<Rightarrow> (ymo_status + bytes) option" where
  "ymo_base64_encoded alloc_ok src =
     (if \<not> alloc_ok then None
      else let out = ymo_base64_encode src in
        Some (if length out \<le> YMO_BASE64_LEN (length src) then Inr out else Inl EOVERFLOW))"

lemma length_base64_groups: "length (base64_groups src) = 4 * ((length src + 2) div 3)"
proof (induction src rule: base64_groups.induct)
  case (1 a b c rest)
  have "(length rest + 2 + 3) div 3 = (length rest + 2) div 3 + 1"
    by (rule div_add_self2) simp
  then have "(length (a # b # c # rest) + 2) div 3 = (length rest + 2) div 3 + 1"
    by (simp add: add.commute)
  moreover have "length (base64_groups (a # b # c # rest)) = length (base64_groups rest) + 4"
    by simp
  ultimately show ?case using 1 by linarith
qed simp_all

lemma b64_at_sextets_nonzero:
  "b64_at (b64_s0 a) \<noteq> 0" "b64_at (b64_s1 a b) \<noteq> 0" "b64_at (b64_s2 b c) \<noteq> 0" "b64_at (b64_s3 c) \<noteq> 0"
  by (simp_all add: b64_at_val sextets_lt)

lemma base64_groups_nonzero: "0 \<notin> set (base64_groups src)"
proof -
  have "list_all (\<lambda>x. x \<noteq> 0) (base64_groups src)"
    by (induction src rule: base64_groups.induct)
      (simp_all add: b64_at_sextets_nonzero short_sextets short_sextets [simplified]
        YMO_B64_PAD_def chr_def)
  then show ?thesis by (auto simp: list_all_iff)
qed

lemma base64_fits_iff:
  "length (ymo_base64_encode src) \<le> YMO_BASE64_LEN (length src) \<longleftrightarrow> length src mod 3 \<noteq> 1"
proof -
  have *: "4 * ((3 * q + r + 2) div 3) + 1 \<le> (4 * (3 * q + r + 2)) div 3 \<longleftrightarrow> r \<noteq> 1"
    if "r < 3" for q r :: nat
  proof -
    from that consider "r = 0" | "r = 1" | "r = 2" by linarith
    then show ?thesis by cases (simp; presburger)+
  qed
  show ?thesis
    unfolding ymo_base64_encode_def YMO_BASE64_LEN_def
    using * [of "length src mod 3" "length src div 3"] by (simp add: length_base64_groups)
qed

section \<open>UTF-8 validation\<close>

record utf8_state =
  point_remain :: nat
  code_width :: nat
  check_surrogate :: bool
  check_overlong :: bool
  check_max :: bool

definition utf8_state_reset :: utf8_state where
  "utf8_state_reset = \<lparr>point_remain = 0, code_width = 0, check_surrogate = False,
     check_overlong = False, check_max = False\<rparr>"

definition UTF8_WIDTH_1 :: nat where "UTF8_WIDTH_1 = 0"
definition UTF8_WIDTH_2 :: nat where "UTF8_WIDTH_2 = 1"
definition UTF8_WIDTH_3 :: nat where "UTF8_WIDTH_3 = 2"
definition UTF8_WIDTH_4 :: nat where "UTF8_WIDTH_4 = 3"

definition c3_min :: "byte list" where "c3_min = [0x00, 0x80, 0xA0, 0xE0]"
definition c4_min :: "byte list" where "c4_min = [0x00, 0x80, 0x80, 0x90, 0xF0]"
definition c4_max :: "byte list" where "c4_max = [0x00, 0xBF, 0xBF, 0x8F, 0xF4]"

definition quartet :: "byte \<Rightarrow> byte \<Rightarrow> byte \<Rightarrow> byte \<Rightarrow> u32" where
  "quartet c p0 p1 p2 =
     push_bit 24 (ucast c) OR push_bit 16 (scast p0) OR push_bit 8 (scast p1) OR scast p2"

definition utf8_start :: "byte \<Rightarrow> ymo_status + utf8_state" where
  "utf8_start c =
     (let st = utf8_state_reset in
      if c AND 0x80 = 0 then Inr (st\<lparr>point_remain := 0, code_width := UTF8_WIDTH_1\<rparr>)
      else if c AND 0xE0 = 0xC0 then Inr (st\<lparr>point_remain := 1, code_width := UTF8_WIDTH_2\<rparr>)
      else if c AND 0xF0 = 0xE0 then
        Inr (st\<lparr>point_remain := 2, code_width := UTF8_WIDTH_3,
                check_surrogate := (c = 0xED), check_overlong := (c = 0xE0)\<rparr>)
      else if c AND 0xF8 = 0xF0 then
        Inr (st\<lparr>point_remain := 3, code_width := UTF8_WIDTH_4,
                check_overlong := (c = 0xF0), check_max := (c = 0xF4)\<rparr>)
      else Inl EILSEQ)"

definition utf8_continue :: "utf8_state \<Rightarrow> byte \<Rightarrow> ymo_status + utf8_state" where
  "utf8_continue st c =
     (if c AND 0xC0 = 0x80 then
        let r = point_remain st;
            done = (\<lambda>s. Inr (s\<lparr>point_remain := r - 1\<rparr>))
        in
        if code_width st = UTF8_WIDTH_3 then
          if check_overlong st \<and> c < c3_min ! r then Inl EILSEQ
          else
            let st = st\<lparr>check_overlong := False\<rparr> in
            if check_surrogate st \<and> 0xA0 \<le> c then Inl EILSEQ
            else done (st\<lparr>check_surrogate := False\<rparr>)
        else if code_width st = UTF8_WIDTH_4 then
          if check_overlong st \<and> c < c4_min ! r then Inl EILSEQ
          else
            let st = st\<lparr>check_overlong := False\<rparr> in
            if check_max st \<and> c4_max ! r < c then Inl EILSEQ
            else done st
        else done st
      else Inl EILSEQ)"

definition utf8_bad_byte :: "byte \<Rightarrow> bool" where
  "utf8_bad_byte c \<longleftrightarrow> 0xF4 < c \<or> c = 0xC0 \<or> c = 0xC1"

text \<open>one byte on the slow path\<close>
definition utf8_byte :: "utf8_state \<Rightarrow> byte \<Rightarrow> ymo_status + utf8_state" where
  "utf8_byte st c =
     (if utf8_bad_byte c then Inl EILSEQ
      else if point_remain st = 0 then utf8_start c
      else utf8_continue st c)"

fun check_utf8_loop :: "utf8_state \<Rightarrow> bytes \<Rightarrow> ymo_status + utf8_state" where
  "check_utf8_loop st [] = Inr st"
| "check_utf8_loop st (c # p0 # p1 # p2 # p) =
     (if \<not> utf8_bad_byte c \<and> point_remain st = 0 \<and> quartet c p0 p1 p2 AND 0x80808080 = 0
      then check_utf8_loop st p
      else case utf8_byte st c of Inl e \<Rightarrow> Inl e | Inr st' \<Rightarrow> check_utf8_loop st' (p0 # p1 # p2 # p))"
| "check_utf8_loop st (c # p) =
     (case utf8_byte st c of Inl e \<Rightarrow> Inl e | Inr st' \<Rightarrow> check_utf8_loop st' p)"

definition ymo_check_utf8 :: "utf8_state \<Rightarrow> bytes \<Rightarrow> bool \<Rightarrow> ymo_status + utf8_state" where
  "ymo_check_utf8 st buffer fin =
     (case check_utf8_loop st buffer of
        Inl e \<Rightarrow> Inl e
      | Inr st' \<Rightarrow> if 0 < point_remain st' \<and> fin then Inl EILSEQ else Inr st')"

text \<open>
  The well-formed byte sequences of RFC 3629, section 4, as the reference for the validator.
\<close>

definition utf8_cont :: "byte \<Rightarrow> bool" where "utf8_cont c \<longleftrightarrow> 0x80 \<le> c \<and> c \<le> 0xBF"

fun utf8_wf :: "bytes \<Rightarrow> bool" where
  "utf8_wf [] = True"
| "utf8_wf (a # r) =
    (if a \<le> 0x7F then utf8_wf r
     else if 0xC2 \<le> a \<and> a \<le> 0xDF then
       (case r of b # r' \<Rightarrow> utf8_cont b \<and> utf8_wf r' | _ \<Rightarrow> False)
     else if 0xE0 \<le> a \<and> a \<le> 0xEF then
       (case r of b # c # r' \<Rightarrow>
          (if a = 0xE0 then 0xA0 \<le> b \<and> b \<le> 0xBF
           else if a = 0xED then 0x80 \<le> b \<and> b \<le> 0x9F else utf8_cont b)
          \<and> utf8_cont c \<and> utf8_wf r' | _ \<Rightarrow> False)
     else if 0xF0 \<le> a \<and> a \<le> 0xF4 then
       (case r of b # c # d # r' \<Rightarrow>
          (if a = 0xF0 then 0x90 \<le> b \<and> b \<le> 0xBF
           else if a = 0xF4 then 0x80 \<le> b \<and> b \<le> 0x8F else utf8_cont b)
          \<and> utf8_cont c \<and> utf8_cont d \<and> utf8_wf r' | _ \<Rightarrow> False)
     else False)"

fun utf8_run :: "utf8_state \<Rightarrow> bytes \<Rightarrow> ymo_status + utf8_state" where
  "utf8_run st [] = Inr st"
| "utf8_run st (c # cs) = (case utf8_byte st c of Inl e \<Rightarrow> Inl e | Inr st' \<Rightarrow> utf8_run st' cs)"

definition utf8_sim :: "utf8_state \<Rightarrow> utf8_state \<Rightarrow> bool" where
  "utf8_sim s t \<longleftrightarrow> point_remain s = point_remain t \<and> (point_remain s \<noteq> 0 \<longrightarrow> s = t)"

lemma utf8_byte_class:
  "utf8_bad_byte c \<longleftrightarrow> 0xF4 < c \<or> c = 0xC0 \<or> c = 0xC1"
  "c AND 0x80 = 0 \<longleftrightarrow> c < 0x80"
  "c AND 0xE0 = 0xC0 \<longleftrightarrow> 0xC0 \<le> c \<and> c \<le> 0xDF"
  "c AND 0xF0 = 0xE0 \<longleftrightarrow> 0xE0 \<le> c \<and> c \<le> 0xEF"
  "c AND 0xF8 = 0xF0 \<longleftrightarrow> 0xF0 \<le> c \<and> c \<le> 0xF7"
  "c AND 0xC0 = 0x80 \<longleftrightarrow> 0x80 \<le> c \<and> c \<le> 0xBF"
  by (simp add: utf8_bad_byte_def,
      (rule all_bytesI [of _ c], simp add: all_bytes_def)+)

lemma quartet_ascii:
  "quartet c p0 p1 p2 AND 0x80808080 = 0 \<longleftrightarrow> c < 0x80 \<and> p0 < 0x80 \<and> p1 < 0x80 \<and> p2 < 0x80"
proof -
  have m: "x < 0x80 \<longleftrightarrow> \<not> bit x 7" for x :: byte
    by (rule all_bytesI [of _ x]) (simp add: all_bytes_def)
  have b: "bit (0x80808080::u32) n \<longleftrightarrow> n \<in> {7, 15, 23, 31}" for n
  proof -
    have "(0x80808080::u32) = push_bit 7 1 OR push_bit 15 1 OR push_bit 23 1 OR push_bit 31 1"
      by simp
    then show ?thesis by (auto simp only: bit_simps) auto
  qed
  have "quartet c p0 p1 p2 AND 0x80808080 = 0 \<longleftrightarrow>
        (\<forall>n. \<not> (bit (quartet c p0 p1 p2) n \<and> bit (0x80808080::u32) n))"
    by (simp only: bit_eq_iff bit_and_iff bit_0_eq bot_apply bot_bool_def) auto
  also have "\<dots> \<longleftrightarrow> (\<forall>n \<in> {7, 15, 23, 31}. \<not> bit (quartet c p0 p1 p2) n)"
    unfolding b by blast
  also have "\<dots> \<longleftrightarrow> \<not> bit c 7 \<and> \<not> bit p0 7 \<and> \<not> bit p1 7 \<and> \<not> bit p2 7"
    by (auto simp: quartet_def bit_simps)
  finally show ?thesis by (simp add: m)
qed
lemmas utf8_defs = utf8_byte_def utf8_start_def utf8_continue_def utf8_state_reset_def
  UTF8_WIDTH_1_def UTF8_WIDTH_2_def UTF8_WIDTH_3_def UTF8_WIDTH_4_def
  c3_min_def c4_min_def c4_max_def Let_def utf8_byte_class

text \<open>An ASCII byte between code points is accepted and leaves the validator between code points.\<close>

lemma utf8_byte_ascii:
  "point_remain st = 0 \<Longrightarrow> c < 0x80 \<Longrightarrow>
   utf8_byte st c = Inr utf8_state_reset"
proof -
  assume r: "point_remain st = 0" and c: "c < 0x80"
  have "\<not> utf8_bad_byte c"
    using c by (auto simp: utf8_bad_byte_def byte_order)
  then show ?thesis using r c by (simp add: utf8_defs)
qed

lemma utf8_sim_refl [simp]: "utf8_sim s s"
  by (simp add: utf8_sim_def)

lemma utf8_byte_sim: "utf8_sim s t \<Longrightarrow> utf8_byte s c = utf8_byte t c"
  by (cases "point_remain s = 0") (simp_all add: utf8_sim_def utf8_byte_def)

lemma utf8_run_sim:
  "utf8_sim s t \<Longrightarrow> rel_sum (=) utf8_sim (utf8_run s cs) (utf8_run t cs)"
  by (cases cs) (auto simp: utf8_byte_sim intro: sum.rel_refl split: sum.split)

lemma utf8_run_append:
  "utf8_run st (xs @ ys) = (case utf8_run st xs of Inl e \<Rightarrow> Inl e | Inr st' \<Rightarrow> utf8_run st' ys)"
  by (induction xs arbitrary: st) (auto split: sum.split)

lemma utf8_run_quartet:
  assumes "point_remain st = 0" "quartet c p0 p1 p2 AND 0x80808080 = 0"
  shows "utf8_run st (c # p0 # p1 # p2 # p) = utf8_run utf8_state_reset p"
  using assms unfolding quartet_ascii
  by (simp add: utf8_byte_ascii) (simp add: utf8_byte_ascii utf8_state_reset_def)

lemma check_utf8_loop_run:
  "rel_sum (=) utf8_sim (check_utf8_loop st p) (utf8_run st p)"
proof (induction st p rule: check_utf8_loop.induct)
  case (2 st c p0 p1 p2 p)
  show ?case
  proof (cases "\<not> utf8_bad_byte c \<and> point_remain st = 0 \<and> quartet c p0 p1 p2 AND 0x80808080 = 0")
    case True
    then have "utf8_sim st utf8_state_reset"
      by (simp add: utf8_sim_def utf8_state_reset_def)
    then have "rel_sum (=) utf8_sim (utf8_run st p) (utf8_run utf8_state_reset p)"
      by (rule utf8_run_sim)
    with "2.IH"(1) [OF True] have "rel_sum (=) utf8_sim (check_utf8_loop st p) (utf8_run utf8_state_reset p)"
      by (auto simp: rel_sum.simps utf8_sim_def)
    moreover have "check_utf8_loop st (c # p0 # p1 # p2 # p) = check_utf8_loop st p"
      using True by simp
    moreover have "utf8_run st (c # p0 # p1 # p2 # p) = utf8_run utf8_state_reset p"
      using True by (intro utf8_run_quartet) simp_all
    ultimately show ?thesis by (simp only:)
  next
    case False
    with "2.IH"(2) show ?thesis by (auto split: sum.split)
  qed
qed (auto split: sum.split)

definition utf8_ok :: "utf8_state \<Rightarrow> bytes \<Rightarrow> bool" where
  "utf8_ok st p \<longleftrightarrow> (\<exists>st'. utf8_run st p = Inr st' \<and> point_remain st' = 0)"

lemma utf8_ok_simps [simp]:
  "utf8_ok st [] \<longleftrightarrow> point_remain st = 0"
  "utf8_ok st (c # p) \<longleftrightarrow> (\<exists>st'. utf8_byte st c = Inr st' \<and> utf8_ok st' p)"
  by (auto simp: utf8_ok_def split: sum.splits)

lemma utf8_ok_reset:
  "point_remain st = 0 \<Longrightarrow> utf8_ok st p \<longleftrightarrow> utf8_ok utf8_state_reset p"
  by (cases p) (simp_all add: utf8_byte_def utf8_state_reset_def)

text \<open>The states between the bytes of a sequence, and the bytes each of them accepts next.\<close>

definition utf8_mid :: "nat \<Rightarrow> nat \<Rightarrow> bool \<Rightarrow> bool \<Rightarrow> bool \<Rightarrow> utf8_state" where
  "utf8_mid r w s l m = \<lparr>point_remain = r, code_width = w, check_surrogate = s,
     check_overlong = l, check_max = m\<rparr>"

lemma utf8_start_eq:
  "utf8_start c =
     (if c \<le> 0x7F then Inr (utf8_mid 0 0 False False False)
      else if 0xC0 \<le> c \<and> c \<le> 0xDF then Inr (utf8_mid 1 1 False False False)
      else if 0xE0 \<le> c \<and> c \<le> 0xEF then Inr (utf8_mid 2 2 (c = 0xED) (c = 0xE0) False)
      else if 0xF0 \<le> c \<and> c \<le> 0xF7 then Inr (utf8_mid 3 3 False (c = 0xF0) (c = 0xF4))
      else Inl EILSEQ)"
proof -
  have "c < 0x80 \<longleftrightarrow> c \<le> 0x7F" by (auto simp: byte_order)
  then show ?thesis
    by (simp add: utf8_start_def utf8_byte_class utf8_mid_def utf8_state_reset_def Let_def
        UTF8_WIDTH_1_def UTF8_WIDTH_2_def UTF8_WIDTH_3_def UTF8_WIDTH_4_def)
qed

lemma utf8_cont_not_bad: "utf8_cont c \<Longrightarrow> \<not> utf8_bad_byte c"
  by (auto simp: utf8_cont_def utf8_bad_byte_def byte_order)

lemma utf8_continue_tail:
  assumes "r = 1 \<or> r = 2"
  shows "utf8_continue (utf8_mid r w False False m) c =
     (if utf8_cont c then Inr (utf8_mid (r - 1) w False False m) else Inl EILSEQ)"
proof -
  have "\<not> c4_max ! r < c" if "utf8_cont c"
    using that assms by (auto simp: c4_max_def utf8_cont_def)
  then show ?thesis
    by (auto simp: utf8_continue_def utf8_byte_class utf8_mid_def Let_def utf8_cont_def)
qed

lemma utf8_byte_tail:
  "r = 1 \<or> r = 2 \<Longrightarrow>
   utf8_byte (utf8_mid r w False False m) c =
     (if utf8_cont c then Inr (utf8_mid (r - 1) w False False m) else Inl EILSEQ)"
  using utf8_cont_not_bad [of c] utf8_continue_tail [of r w m c]
  by (auto simp: utf8_byte_def utf8_mid_def)

lemma utf8_byte_mid3:
  "utf8_byte (utf8_mid 2 2 s l False) c =
     (if utf8_cont c \<and> (l \<longrightarrow> 0xA0 \<le> c) \<and> (s \<longrightarrow> c < 0xA0)
      then Inr (utf8_mid 1 2 False False False) else Inl EILSEQ)"
  using utf8_cont_not_bad [of c]
  by (auto simp: utf8_byte_def utf8_continue_def utf8_byte_class(6) utf8_mid_def Let_def
      utf8_cont_def c3_min_def UTF8_WIDTH_3_def not_le not_less)

lemma utf8_byte_mid4:
  "utf8_byte (utf8_mid 3 3 False l m) c =
     (if utf8_cont c \<and> (l \<longrightarrow> 0x90 \<le> c) \<and> (m \<longrightarrow> c \<le> 0x8F)
      then Inr (utf8_mid 2 3 False False m) else Inl EILSEQ)"
  using utf8_cont_not_bad [of c]
  by (auto simp: utf8_byte_def utf8_continue_def utf8_byte_class(6) utf8_mid_def Let_def
      utf8_cont_def c4_min_def c4_max_def UTF8_WIDTH_3_def UTF8_WIDTH_4_def not_le not_less)

lemma utf8_ok_mid0: "utf8_ok (utf8_mid 0 w s l m) p \<longleftrightarrow> utf8_ok utf8_state_reset p"
  by (rule utf8_ok_reset) (simp add: utf8_mid_def)

lemma point_remain_utf8_mid [simp]: "point_remain (utf8_mid r w s l m) = r"
  by (simp add: utf8_mid_def)

lemma utf8_ok_lead:
  "utf8_ok utf8_state_reset (a # r) \<longleftrightarrow>
     \<not> utf8_bad_byte a \<and> (\<exists>st. utf8_start a = Inr st \<and> utf8_ok st r)"
  by (auto simp: utf8_byte_def utf8_state_reset_def)

lemma utf8_ok_1: "a \<le> 0x7F \<Longrightarrow> utf8_ok utf8_state_reset (a # r) \<longleftrightarrow> utf8_ok utf8_state_reset r"
  unfolding utf8_ok_lead by (auto simp: utf8_start_eq utf8_ok_mid0 utf8_bad_byte_def byte_order)

lemma utf8_ok_2:
  assumes "0xC2 \<le> a" "a \<le> 0xDF"
  shows "utf8_ok utf8_state_reset (a # r) \<longleftrightarrow>
     (case r of b # r' \<Rightarrow> utf8_cont b \<and> utf8_ok utf8_state_reset r' | _ \<Rightarrow> False)"
proof -
  have "\<not> utf8_bad_byte a" "utf8_start a = Inr (utf8_mid 1 1 False False False)"
    using assms by (auto simp: utf8_start_eq utf8_bad_byte_def byte_order)
  then show ?thesis unfolding utf8_ok_lead
    by (cases r) (auto simp: utf8_byte_tail utf8_ok_mid0)
qed

lemma utf8_ok_3:
  assumes "0xE0 \<le> a" "a \<le> 0xEF"
  shows "utf8_ok utf8_state_reset (a # r) \<longleftrightarrow>
     (case r of b # c # r' \<Rightarrow>
        (if a = 0xE0 then 0xA0 \<le> b \<and> b \<le> 0xBF
         else if a = 0xED then 0x80 \<le> b \<and> b \<le> 0x9F else utf8_cont b)
        \<and> utf8_cont c \<and> utf8_ok utf8_state_reset r' | _ \<Rightarrow> False)"
proof -
  have "\<not> utf8_bad_byte a" "utf8_start a = Inr (utf8_mid 2 2 (a = 0xED) (a = 0xE0) False)"
    using assms by (auto simp: utf8_start_eq utf8_bad_byte_def byte_order)
  moreover have "utf8_cont b \<and> (a = 0xE0 \<longrightarrow> 0xA0 \<le> b) \<and> (a = 0xED \<longrightarrow> b < 0xA0) \<longleftrightarrow>
      (if a = 0xE0 then 0xA0 \<le> b \<and> b \<le> 0xBF
       else if a = 0xED then 0x80 \<le> b \<and> b \<le> 0x9F else utf8_cont b)" for b
    by (auto simp: utf8_cont_def byte_order)
  ultimately show ?thesis unfolding utf8_ok_lead
    by (auto simp: utf8_byte_tail utf8_byte_mid3 utf8_ok_mid0 split: list.split)
qed

lemma utf8_ok_4:
  assumes "0xF0 \<le> a" "a \<le> 0xF4"
  shows "utf8_ok utf8_state_reset (a # r) \<longleftrightarrow>
     (case r of b # c # d # r' \<Rightarrow>
        (if a = 0xF0 then 0x90 \<le> b \<and> b \<le> 0xBF
         else if a = 0xF4 then 0x80 \<le> b \<and> b \<le> 0x8F else utf8_cont b)
        \<and> utf8_cont c \<and> utf8_cont d \<and> utf8_ok utf8_state_reset r' | _ \<Rightarrow> False)"
proof -
  have "\<not> utf8_bad_byte a" "utf8_start a = Inr (utf8_mid 3 3 False (a = 0xF0) (a = 0xF4))"
    using assms by (auto simp: utf8_start_eq utf8_bad_byte_def byte_order)
  moreover have "utf8_cont b \<and> (a = 0xF0 \<longrightarrow> 0x90 \<le> b) \<and> (a = 0xF4 \<longrightarrow> b \<le> 0x8F) \<longleftrightarrow>
      (if a = 0xF0 then 0x90 \<le> b \<and> b \<le> 0xBF
       else if a = 0xF4 then 0x80 \<le> b \<and> b \<le> 0x8F else utf8_cont b)" for b
    by (auto simp: utf8_cont_def byte_order)
  ultimately show ?thesis unfolding utf8_ok_lead
    by (auto simp: utf8_byte_tail utf8_byte_mid4 utf8_ok_mid0 split: list.split)
qed

lemma utf8_ok_bad_lead:
  "0x7F < a \<and> a < 0xC2 \<or> 0xF4 < a \<Longrightarrow> \<not> utf8_ok utf8_state_reset (a # r)"
  unfolding utf8_ok_lead
  by (auto simp: utf8_start_eq utf8_bad_byte_def byte_order word_unat_eq_iff)

lemma utf8_ok_wf: "utf8_ok utf8_state_reset p \<longleftrightarrow> utf8_wf p"
proof (induction p rule: length_induct)
  case (1 p)
  show ?case
  proof (cases p)
    case (Cons a r)
    have IH: "utf8_ok utf8_state_reset q \<longleftrightarrow> utf8_wf q" if "length q \<le> length r" for q
      using 1 Cons that by simp
    consider (one) "a \<le> 0x7F" | (two) "0xC2 \<le> a" "a \<le> 0xDF" | (three) "0xE0 \<le> a" "a \<le> 0xEF"
      | (four) "0xF0 \<le> a" "a \<le> 0xF4" | (bad) "0x7F < a \<and> a < 0xC2 \<or> 0xF4 < a"
      by (fastforce simp: byte_order)
    then show ?thesis
    proof cases
      case one
      then show ?thesis unfolding Cons by (simp only: utf8_ok_1) (simp add: IH)
    next
      case two
      then have "\<not> a \<le> 0x7F" by (simp add: byte_order)
      with two show ?thesis unfolding Cons by (simp only: utf8_ok_2) (auto simp: IH split: list.split)
    next
      case three
      then have "\<not> a \<le> 0x7F" "\<not> a \<le> 0xDF" by (simp_all add: byte_order)
      with three show ?thesis unfolding Cons by (simp only: utf8_ok_3) (auto simp: IH split: list.split)
    next
      case four
      then have "\<not> a \<le> 0x7F" "\<not> a \<le> 0xDF" "\<not> a \<le> 0xEF" by (simp_all add: byte_order)
      with four show ?thesis unfolding Cons by (simp only: utf8_ok_4) (auto simp: IH split: list.split)
    next
      case bad
      then have "\<not> utf8_wf p" unfolding Cons by (auto simp: byte_order)
      with utf8_ok_bad_lead [OF bad] Cons show ?thesis by blast
    qed
  qed (simp add: utf8_state_reset_def)
qed

lemma check_utf8_ok_iff:
  "(\<exists>st'. ymo_check_utf8 st p True = Inr st') \<longleftrightarrow> utf8_ok st p"
  using check_utf8_loop_run [of st p]
  by (auto simp: ymo_check_utf8_def utf8_ok_def rel_sum.simps utf8_sim_def split: sum.splits)

lemma check_utf8_iff_wf:
  "(\<exists>st'. ymo_check_utf8 utf8_state_reset p True = Inr st') \<longleftrightarrow> utf8_wf p"
  by (simp add: check_utf8_ok_iff utf8_ok_wf)

lemma check_utf8_split:
  "(\<exists>st'. ymo_check_utf8 st (xs @ ys) fin = Inr st') \<longleftrightarrow>
   (\<exists>st1 st2. ymo_check_utf8 st xs False = Inr st1 \<and> ymo_check_utf8 st1 ys fin = Inr st2)"
proof -
  have r: "(\<exists>st'. ymo_check_utf8 st p fin = Inr st') \<longleftrightarrow>
      (\<exists>st'. utf8_run st p = Inr st' \<and> (fin \<longrightarrow> point_remain st' = 0))" for st p fin
    using check_utf8_loop_run [of st p]
    by (auto simp: ymo_check_utf8_def rel_sum.simps utf8_sim_def split: sum.splits)
  have s: "ymo_check_utf8 st xs False = check_utf8_loop st xs"
    by (auto simp: ymo_check_utf8_def split: sum.splits)
  show ?thesis
  proof (cases "utf8_run st xs")
    case (Inl e)
    then have "check_utf8_loop st xs = Inl e"
      using check_utf8_loop_run [of st xs] by (auto simp: rel_sum.simps)
    with Inl show ?thesis by (simp add: r s utf8_run_append)
  next
    case (Inr t)
    then obtain t' where t': "check_utf8_loop st xs = Inr t'" "utf8_sim t' t"
      using check_utf8_loop_run [of st xs] by (auto simp: rel_sum.simps)
    have "(\<exists>u. utf8_run t' ys = Inr u \<and> (fin \<longrightarrow> point_remain u = 0)) \<longleftrightarrow>
          (\<exists>u. utf8_run t ys = Inr u \<and> (fin \<longrightarrow> point_remain u = 0))"
      using utf8_run_sim [OF t'(2), of ys] by (auto simp: rel_sum.simps utf8_sim_def)
    then show ?thesis using Inr t' by (simp add: r s utf8_run_append)
  qed
qed

section \<open>Properties\<close>

text \<open>
  C29: the output of \<^verbatim>\<open>ymo_base64_encode\<close> is a NUL-terminated string whose text holds no other NUL,
  has the length RFC 4648 gives, and decodes back to the input, for every input.
\<close>

theorem base64_roundtrip:
  "\<exists>enc. ymo_base64_encode src = enc @ [0] \<and> 0 \<notin> set enc \<and>
     length enc = 4 * ((length src + 2) div 3) \<and> base64_decode enc = src"
  by (simp add: ymo_base64_encode_def base64_groups_nonzero length_base64_groups
      base64_decode_groups)

text \<open>
  The allocation of \<^verbatim>\<open>ymo_base64_encoded\<close> (the size \<^verbatim>\<open>YMO_BASE64_LEN\<close> advertises) holds the
  encoded string with its terminator exactly when the input length is not 1 modulo 3; for the other
  inputs the terminator is written one byte past the allocation.
\<close>

theorem base64_encoded_fits:
  "ymo_base64_encoded True src =
     Some (if length src mod 3 = 1 then Inl EOVERFLOW else Inr (base64_groups src @ [0]))"
  using base64_fits_iff [of src] by (simp add: ymo_base64_encoded_def ymo_base64_encode_def Let_def)

text \<open>
  C4: started from the reset state on a whole message, \<^verbatim>\<open>ymo_check_utf8\<close> accepts exactly the
  well-formed UTF-8 sequences of RFC 3629: no overlong form, no surrogate, nothing above U+10FFFF
  and no truncated character.
\<close>

theorem utf8_accepts_exactly_rfc3629:
  "(\<exists>st'. ymo_check_utf8 utf8_state_reset p True = Inr st') \<longleftrightarrow> utf8_wf p"
  by (rule check_utf8_iff_wf)

text \<open>
  C30: validation does not depend on how a message is cut into buffers: a buffer is accepted exactly
  when any first part of it is accepted as a non-final buffer and the rest is accepted from the
  state that leaves behind.
\<close>

theorem utf8_chunk_invariant:
  "(\<exists>st'. ymo_check_utf8 st (xs @ ys) fin = Inr st') \<longleftrightarrow>
   (\<exists>st1 st2. ymo_check_utf8 st xs False = Inr st1 \<and> ymo_check_utf8 st1 ys fin = Inr st2)"
  by (rule check_utf8_split)

text \<open>
  On strings below 4 GiB \<^verbatim>\<open>ymo_strcasecmp\<close> returns 0 exactly when the strings agree character by
  character up to \<^verbatim>\<open>ymo_tolower\<close>.
\<close>

theorem strcasecmp_correct:
  assumes "length s1 < 2 ^ 32" and "length s2 < 2 ^ 32"
  shows "ymo_strcasecmp s1 (length s1) s2 (length s2) = 0 \<longleftrightarrow>
         map ymo_tolower s1 = map ymo_tolower s2"
  using assms by (rule strcasecmp_eq_0_iff)

theorem strcasecmp_correct_witness:
  "ymo_strcasecmp (str ''Upgrade'') 7 (str ''upGRADE'') 7 = 0 \<and>
   ymo_strcasecmp (str ''close'') 5 (str ''chunk'') 5 \<noteq> 0"
proof -
  have l: "length (str ''Upgrade'') = 7" "length (str ''upGRADE'') = 7"
      "length (str ''close'') = 5" "length (str ''chunk'') = 5"
    by (simp_all add: str_def)
  have "map ymo_tolower (str ''Upgrade'') = map ymo_tolower (str ''upGRADE'')"
      "map ymo_tolower (str ''close'') \<noteq> map ymo_tolower (str ''chunk'')"
    by (simp_all add: str_def chr_def ymo_tolower_eq)
  with strcasecmp_correct [of "str ''Upgrade''" "str ''upGRADE''"]
    strcasecmp_correct [of "str ''close''" "str ''chunk''"]
  show ?thesis unfolding l by simp
qed

end
