(* ===== verification/Stride.thy ===== *)
theory Stride
  imports Util
begin

text \<open>
  The whole-buffer case folding of \<^verbatim>\<open>src/core/ymo_util.c\<close> (\<^verbatim>\<open>ymo_ntolower\<close>, \<^verbatim>\<open>ymo_ntoupper\<close>) on a
  64-bit little-endian target: single bytes up to the alignment boundary of the source pointer,
  eight bytes at a time after it, single bytes for the remainder.  The model takes the numeric
  value of the source pointer and the bytes that are readable from it on; a read past them is
  \<open>None\<close>.
\<close>

definition STRIDE_ALIGN :: u64 where "STRIDE_ALIGN = 7"

definition STRIDE_CEIL :: "u64 \<Rightarrow> u64" where
  "STRIDE_CEIL p = (p + STRIDE_ALIGN) AND NOT STRIDE_ALIGN"

definition CASE_MASK_S :: u64 where "CASE_MASK_S = 0x2020202020202020"
definition L_LOW_S :: u64 where "L_LOW_S = 0x4040404040404040"
definition L_HIGH_S :: u64 where "L_HIGH_S = 0x5a5a5a5a5a5a5a5a"
definition U_LOW_S :: u64 where "U_LOW_S = 0x6060606060606060"
definition U_HIGH_S :: u64 where "U_HIGH_S = 0x7a7a7a7a7a7a7a7a"

text \<open>A \<^verbatim>\<open>stride_t\<close> load and store.\<close>

definition load_stride :: "bytes \<Rightarrow> u64" where
  "load_stride bs = foldr (\<lambda>b w. push_bit 8 w OR ucast b) bs 0"

definition store_stride :: "u64 \<Rightarrow> bytes" where
  "store_stride w = map (\<lambda>i. ucast (drop_bit (8 * i) w)) [0..<8]"

definition stride_tolower :: "u64 \<Rightarrow> u64" where
  "stride_tolower c_s =
     (let mask_s = drop_bit 2 ((L_LOW_S - c_s) XOR (L_HIGH_S - c_s)) AND CASE_MASK_S
      in c_s XOR mask_s)"

definition stride_toupper :: "u64 \<Rightarrow> u64" where
  "stride_toupper c_s =
     (let mask_s = drop_bit 2 ((U_LOW_S - c_s) XOR (U_HIGH_S - c_s)) AND CASE_MASK_S
      in c_s XOR mask_s)"

text \<open>The fall-through switches: \<open>n\<close> single characters.\<close>

fun fold_chars :: "(byte \<Rightarrow> byte) \<Rightarrow> nat \<Rightarrow> bytes \<Rightarrow> (bytes \<times> bytes) option" where
  "fold_chars f 0 src = Some ([], src)"
| "fold_chars f (Suc n) [] = None"
| "fold_chars f (Suc n) (c # src) =
     (case fold_chars f n src of None \<Rightarrow> None | Some (out, rest) \<Rightarrow> Some (f c # out, rest))"

text \<open>The strided loop.\<close>

fun fold_strides :: "(u64 \<Rightarrow> u64) \<Rightarrow> nat \<Rightarrow> bytes \<Rightarrow> (bytes \<times> bytes) option" where
  "fold_strides g 0 src = Some ([], src)"
| "fold_strides g (Suc n) src =
     (if length src < 8 then None
      else case fold_strides g n (drop 8 src) of
        None \<Rightarrow> None
      | Some (out, rest) \<Rightarrow> Some (store_stride (g (load_stride (take 8 src))) @ out, rest))"

text \<open>A \<^verbatim>\<open>switch\<close> on the (unsigned, wrapping) count: no case above 7 matches.\<close>

definition switch_count :: "u64 \<Rightarrow> nat" where
  "switch_count n = (if n \<le> 7 then unat n else 0)"

definition ymo_nfold ::
  "(byte \<Rightarrow> byte) \<Rightarrow> (u64 \<Rightarrow> u64) \<Rightarrow> u64 \<Rightarrow> bytes \<Rightarrow> nat \<Rightarrow> bytes option" where
  "ymo_nfold f g addr src len =
     (let no_iter = len div 8;
          align = STRIDE_CEIL addr - addr;
          remain = word_of_nat (len mod 8) - align
      in case fold_chars f (switch_count align) src of
           None \<Rightarrow> None
         | Some (a, src1) \<Rightarrow>
             (case fold_strides g no_iter src1 of
                None \<Rightarrow> None
              | Some (b, src2) \<Rightarrow>
                  (case fold_chars f (switch_count remain) src2 of
                     None \<Rightarrow> None
                   | Some (c, _) \<Rightarrow> Some (a @ b @ c))))"

definition ymo_ntolower :: "u64 \<Rightarrow> bytes \<Rightarrow> nat \<Rightarrow> bytes option" where
  "ymo_ntolower = ymo_nfold ymo_tolower stride_tolower"

definition ymo_ntoupper :: "u64 \<Rightarrow> bytes \<Rightarrow> nat \<Rightarrow> bytes option" where
  "ymo_ntoupper = ymo_nfold ymo_toupper stride_toupper"

section \<open>How much of the buffer is touched\<close>

lemma length_store_stride [simp]: "length (store_stride w) = 8"
  by (simp add: store_stride_def)

lemma fold_chars_eq:
  "fold_chars f n src = (if n \<le> length src then Some (map f (take n src), drop n src) else None)"
  by (induction f n src rule: fold_chars.induct) auto

lemma fold_strides_length:
  "8 * n \<le> length src \<Longrightarrow>
   \<exists>out. fold_strides g n src = Some (out, drop (8 * n) src) \<and> length out = 8 * n"
proof (induction n arbitrary: src)
  case (Suc n)
  then have "8 * n \<le> length (drop 8 src)" by simp
  from Suc.IH [OF this] obtain out
    where "fold_strides g n (drop 8 src) = Some (out, drop (8 * n) (drop 8 src))"
      "length out = 8 * n" by blast
  with Suc.prems show ?case by (auto simp: add.commute)
qed simp

lemma and_not_eq_diff: "(x::u64) AND NOT m = x - (x AND m)"
proof -
  have "x AND NOT m = (x AND NOT m) + (x AND m) - (x AND m)" by simp
  also have "(x AND NOT m) + (x AND m) = x"
    by (subst disjunctive_add) (auto simp: bit_simps intro!: bit_eqI)
  finally show ?thesis .
qed

text \<open>The distance to the next stride boundary is below eight.\<close>

lemma stride_align_lt: "unat (STRIDE_CEIL p - p) < 8"
proof -
  have "STRIDE_CEIL p = (p + 7) - ((p + 7) AND 7)"
    unfolding STRIDE_CEIL_def STRIDE_ALIGN_def
    by (rule and_not_eq_diff)
  then have "STRIDE_CEIL p - p = 7 - ((p + 7) AND 7)" by simp
  moreover have "(p + 7) AND 7 \<le> 7" by (rule word_and_le1)
  ultimately have "STRIDE_CEIL p - p \<le> 7"
    by (simp add: word_le_nat_alt unat_sub)
  then show ?thesis by (simp add: word_le_nat_alt)
qed

definition align_of :: "u64 \<Rightarrow> nat" where
  "align_of addr = unat (STRIDE_CEIL addr - addr)"

lemma switch_count_align: "switch_count (STRIDE_CEIL addr - addr) = align_of addr"
  using stride_align_lt [of addr] by (simp add: switch_count_def align_of_def word_le_nat_alt)

lemma switch_count_remain:
  "switch_count (word_of_nat (len mod 8) - (STRIDE_CEIL addr - addr)) =
     (if align_of addr \<le> len mod 8 then len mod 8 - align_of addr else 0)"
proof -
  define a where "a = STRIDE_CEIL addr - addr"
  have r: "unat (word_of_nat (len mod 8) :: u64) = len mod 8"
    by (simp add: unat_of_nat take_bit_nat_eq_self_iff) 
  have a: "unat a < 8" unfolding a_def by (rule stride_align_lt)
  have al: "align_of addr = unat a" by (simp add: align_of_def a_def)
  show ?thesis
  proof (cases "unat a \<le> len mod 8")
    case True
    then have "unat (word_of_nat (len mod 8) - a) = len mod 8 - unat a"
      using r by (simp add: unat_sub_if')
    with True show ?thesis
      unfolding al a_def [symmetric] by (simp add: switch_count_def word_le_nat_alt)
  next
    case False
    then have "unat (word_of_nat (len mod 8) - a) = len mod 8 + 2 ^ 64 - unat a"
      using r by (simp add: unat_sub_if')
    with a have "\<not> unat (word_of_nat (len mod 8) - a) \<le> 7" by simp
    with False show ?thesis
      unfolding al a_def [symmetric] by (simp add: switch_count_def word_le_nat_alt)
  qed
qed

lemma ymo_nfold_span:
  assumes "len + 7 \<le> length src"
  shows "\<exists>out. ymo_nfold f g addr src len = Some out \<and>
     length out = (if align_of addr \<le> len mod 8 then len else align_of addr + 8 * (len div 8))"
proof -
  let ?a = "align_of addr" and ?n = "len div 8"
  let ?r = "if ?a \<le> len mod 8 then len mod 8 - ?a else 0"
  have a: "?a < 8" using stride_align_lt by (simp add: align_of_def)
  have le: "?a + 8 * ?n + ?r \<le> length src" using assms a by auto
  then have le2: "8 * ?n \<le> length (drop ?a src)" by (auto split: if_splits)
  obtain b where b: "fold_strides g ?n (drop ?a src) = Some (b, drop (8 * ?n) (drop ?a src))"
      "length b = 8 * ?n"
    using fold_strides_length [OF le2, of g] by blast
  have "ymo_nfold f g addr src len =
      Some (map f (take ?a src) @ b @ map f (take ?r (drop (8 * ?n) (drop ?a src))))"
    using le b(1)
    by (auto simp: ymo_nfold_def Let_def switch_count_align switch_count_remain fold_chars_eq
        split: if_splits)
  moreover have "length (take ?r (drop (8 * ?n) (drop ?a src))) = ?r"
      "length (take ?a src) = ?a"
    using le unfolding length_take length_drop by linarith+
  moreover have "?a + (8 * ?n + ?r) = (if ?a \<le> len mod 8 then len else ?a + 8 * ?n)"
    by simp
  ultimately show ?thesis using b(2) by simp
qed

section \<open>Properties\<close>

text \<open>
  C35: \<^verbatim>\<open>ymo_ntolower\<close> and \<^verbatim>\<open>ymo_ntoupper\<close> write exactly \<open>len\<close> bytes when the misalignment of the
  source is at most \<open>len mod 8\<close> (in particular when it is aligned), and otherwise run past the
  \<open>len\<close> bytes they were given, by the misalignment less \<open>len mod 8\<close>.
\<close>

theorem ncase_span:
  assumes "len + 7 \<le> length src"
  shows "\<exists>lo up. ymo_ntolower addr src len = Some lo \<and> ymo_ntoupper addr src len = Some up \<and>
     length lo = length up \<and>
     length lo = len + (align_of addr - len mod 8)"
proof -
  have e: "(if align_of addr \<le> len mod 8 then len else align_of addr + 8 * (len div 8)) =
      len + (align_of addr - len mod 8)"
    using mult_div_mod_eq [of 8 len] by (simp only: split: if_split) linarith
  show ?thesis
    using ymo_nfold_span [OF assms, of ymo_tolower stride_tolower addr]
      ymo_nfold_span [OF assms, of ymo_toupper stride_toupper addr]
    by (auto simp: ymo_ntolower_def ymo_ntoupper_def e)
qed

theorem ncase_span_witness:
  "\<exists>lo. ymo_ntolower 0x1003 (replicate 16 0x41) 9 = Some lo \<and> length lo = 13"
proof -
  have "align_of 0x1003 = 5" by (simp add: align_of_def STRIDE_CEIL_def STRIDE_ALIGN_def)
  with ncase_span [of 9 "replicate 16 0x41" "0x1003"] show ?thesis by auto
qed

text \<open>
  The strided path is not the character path: the borrow of a lane reaches the next one, so an
  upper-case \<open>Z\<close> that follows a lower-case letter is left unfolded and an \<open>@\<close> that follows a letter
  is turned into a back quote, while single characters fold correctly.
\<close>

theorem stride_borrow:
  "ymo_ntolower 0 (str ''aZaaa@aa'') 8 = Some (str ''aZaaa`aa'') \<and>
   map ymo_tolower (str ''aZaaa@aa'') = str ''azaaa@aa''"
  by (rule conjI; code_simp)

end
