(* ===== verification/Trie.thy ===== *)
theory Trie
  imports Util
begin

text \<open>
  The offset-indexed tries of \<^verbatim>\<open>src/core/ymo_trie.c\<close>: an uncompressed 256-way trie is built from
  strings (case-folded with \<^const>\<open>ymo_tolower\<close>), annotated with preorder node indices and value
  ids, flattened into an array of 8-bit nodes, and searched in that array.
\<close>

section \<open>The uncompressed trie\<close>

definition YMO_TRIE_NO_CHILDREN :: nat where "YMO_TRIE_NO_CHILDREN = 0x100"
definition YMO_OITRIE_MAX_OFFSET :: nat where "YMO_OITRIE_MAX_OFFSET = 0xff"
definition OITRIE_HAS_CHILD :: byte where "OITRIE_HAS_CHILD = 0x01"
definition OITRIE_IS_TERMINAL :: byte where "OITRIE_IS_TERMINAL = 0x10"

text \<open>The children array is a list of \<^const>\<open>YMO_TRIE_NO_CHILDREN\<close> optional nodes.\<close>

datatype ymo_trie_node =
  TNode (children: "ymo_trie_node option list") (index: nat) (value_id: nat) (has_value: bool)

record ymo_trie =
  root :: ymo_trie_node
  no_nodes :: nat
  no_values :: nat

definition ymo_trie_node_create :: ymo_trie_node where
  "ymo_trie_node_create = TNode (replicate YMO_TRIE_NO_CHILDREN None) 0 0 False"

definition ymo_trie_create :: ymo_trie where
  "ymo_trie_create = \<lparr>root = ymo_trie_node_create, no_nodes = 0, no_values = 0\<rparr>"

text \<open>
  The walk of \<^verbatim>\<open>ymo_trie_add_string\<close>.  \<open>mem\<close> is the number of node allocations that still
  succeed; the result is the status, the updated node and the number of nodes created.
\<close>

fun trie_add :: "nat \<Rightarrow> ymo_trie_node \<Rightarrow> bytes \<Rightarrow> ymo_status \<times> ymo_trie_node \<times> nat" where
  "trie_add mem (TNode cs ix vid v) [] = (YMO_OKAY, TNode cs ix vid True, 0)"
| "trie_add mem (TNode cs ix vid v) (c # str_in) =
     (let c = ymo_tolower c in
      if c = 0 then (YMO_OKAY, TNode cs ix vid True, 0)
      else case cs ! unat c of
        None \<Rightarrow>
          (case mem of
             0 \<Rightarrow> (ENOMEM, TNode cs ix vid v, 0)
           | Suc mem' \<Rightarrow>
               (case trie_add mem' ymo_trie_node_create str_in of
                  (st, node, n) \<Rightarrow> (st, TNode (cs[unat c := Some node]) ix vid v, Suc n)))
      | Some current \<Rightarrow>
          (case trie_add mem current str_in of
             (st, node, n) \<Rightarrow> (st, TNode (cs[unat c := Some node]) ix vid v, n)))"

definition ymo_trie_add_string :: "nat \<Rightarrow> ymo_trie \<Rightarrow> bytes \<Rightarrow> ymo_status \<times> ymo_trie" where
  "ymo_trie_add_string mem trie str_in =
     (case trie_add mem (root trie) str_in of
        (st, node, n) \<Rightarrow>
          (st, trie\<lparr>root := node, no_nodes := no_nodes trie + n,
                    no_values := (if st = YMO_OKAY then no_values trie + 1 else no_values trie)\<rparr>))"

section \<open>Annotation\<close>

text \<open>\<^verbatim>\<open>trie_node_annotate\<close>: the loop over the children array threads the two counters.\<close>

fun trie_node_annotate :: "ymo_trie_node \<Rightarrow> nat \<Rightarrow> nat \<Rightarrow> ymo_trie_node \<times> nat \<times> nat"
  and annotate_children ::
    "ymo_trie_node option list \<Rightarrow> nat \<Rightarrow> nat \<Rightarrow> ymo_trie_node option list \<times> nat \<times> nat" where
  "trie_node_annotate (TNode cs ix vid v) node_id val_id =
     (case annotate_children cs node_id val_id of
        (cs', node_id', val_id') \<Rightarrow> (TNode cs' ix vid v, node_id', val_id'))"
| "annotate_children [] node_id val_id = ([], node_id, val_id)"
| "annotate_children (None # cs) node_id val_id =
     (case annotate_children cs node_id val_id of
        (cs', node_id', val_id') \<Rightarrow> (None # cs', node_id', val_id'))"
| "annotate_children (Some (TNode ds ix vid v) # cs) node_id val_id =
     (case trie_node_annotate
             (TNode ds node_id (if v then val_id else vid) v) (node_id + 1)
             (if v then val_id + 1 else val_id) of
        (node, node_id', val_id') \<Rightarrow>
          (case annotate_children cs node_id' val_id' of
             (cs', node_id'', val_id'') \<Rightarrow> (Some node # cs', node_id'', val_id'')))"

section \<open>The compressed trie\<close>

record ymo_oitrie_node =
  flags :: byte
  hdr_id :: byte
  offset :: byte
  ovalue :: byte

definition oitrie_node_zero :: ymo_oitrie_node where
  "oitrie_node_zero = \<lparr>flags = 0, hdr_id = 0, offset = 0, ovalue = 0\<rparr>"

record ymo_oitrie =
  oroot :: "ymo_oitrie_node list"
  ono_nodes :: nat
  ono_values :: nat

text \<open>
  The search for the "right" sibling: the value of \<open>t\<close> after the loop and the node found.
\<close>

fun find_right :: "ymo_trie_node option list \<Rightarrow> nat \<Rightarrow> nat \<times> ymo_trie_node option" where
  "find_right [] t = (t, None)"
| "find_right (Some right # cs) t = (t + 1, Some right)"
| "find_right (None # cs) t = find_right cs (t + 1)"

definition has_child :: "ymo_trie_node option list \<Rightarrow> bool" where
  "has_child cs \<longleftrightarrow> list_ex (\<lambda>c. c \<noteq> None) cs"

text \<open>The part of the left node that does not depend on a right sibling.\<close>

definition oitrie_mark :: "nat \<Rightarrow> ymo_trie_node \<Rightarrow> ymo_oitrie_node \<Rightarrow> ymo_oitrie_node" where
  "oitrie_mark i left n =
     (let n = n\<lparr>ovalue := word_of_nat i\<rparr>;
          n = (if has_child (children left) then n\<lparr>flags := flags n OR OITRIE_HAS_CHILD\<rparr> else n)
      in if has_value left
         then n\<lparr>flags := flags n OR OITRIE_IS_TERMINAL, hdr_id := word_of_nat (value_id left)\<rparr>
         else n)"

text \<open>
  \<^verbatim>\<open>oitrie_node_create\<close>, loop and recursion together, on fuel: \<open>None\<close> is a run that has not
  ended.  The loop variable is reset to \<open>t - 1\<close> at the end of every iteration that found a left
  node, exactly as in the source.
\<close>

fun oitrie_node_create ::
  "nat \<Rightarrow> nat \<Rightarrow> ymo_oitrie_node list \<Rightarrow> ymo_trie_node \<Rightarrow> nat \<Rightarrow>
   (ymo_status \<times> ymo_oitrie_node list \<times> nat) option" where
  "oitrie_node_create 0 i oitrie node max_offset = None"
| "oitrie_node_create (Suc fuel) i oitrie node max_offset =
     (if i < YMO_TRIE_NO_CHILDREN then
        case children node ! i of
          None \<Rightarrow> oitrie_node_create fuel (i + 1) oitrie node max_offset
        | Some left \<Rightarrow>
            (let l = index left;
                 oitrie = oitrie[l := oitrie_mark i left (oitrie ! l)]
             in case find_right (drop (i + 1) (children node)) (i + 1) of
                  (t, right) \<Rightarrow>
                    (let off = (case right of None \<Rightarrow> 0 | Some r \<Rightarrow> index r - l);
                         max_offset = max max_offset off
                     in if right \<noteq> None \<and> off > YMO_OITRIE_MAX_OFFSET
                        then Some (EOVERFLOW, oitrie, max_offset)
                        else
                          let oitrie = (if right = None then oitrie
                                else oitrie[l := (oitrie ! l)\<lparr>offset := word_of_nat off\<rparr>])
                          in case oitrie_node_create fuel 0 oitrie left max_offset of
                               None \<Rightarrow> None
                             | Some (status, oitrie, max_offset) \<Rightarrow>
                                 if status \<noteq> YMO_OKAY then Some (status, oitrie, max_offset)
                                 else oitrie_node_create fuel (t - 1) oitrie node max_offset))
      else Some (YMO_OKAY, oitrie, max_offset))"

text \<open>
  \<^verbatim>\<open>ymo_oitrie_create\<close> ignores the status of the flattening.  The result carries the annotated
  trie as well, since the annotation is done in place.
\<close>

definition ymo_oitrie_create :: "nat \<Rightarrow> ymo_trie \<Rightarrow> (ymo_oitrie \<times> ymo_trie) option" where
  "ymo_oitrie_create fuel trie =
     (let annotated = fst (trie_node_annotate (root trie) 0 0);
          oroot0 = replicate (no_nodes trie) oitrie_node_zero
      in case oitrie_node_create fuel 0 oroot0 annotated 0 of
           None \<Rightarrow> None
         | Some (_, oitrie, _) \<Rightarrow>
             Some (\<lparr>oroot = oitrie, ono_nodes = no_nodes trie, ono_values = no_values trie\<rparr>,
                   trie\<lparr>root := annotated\<rparr>))"

definition ymo_oitrie_sizeof :: "ymo_oitrie \<Rightarrow> nat" where
  "ymo_oitrie_sizeof oitrie = 24 + 4 * ono_nodes oitrie"

text \<open>
  The search loop of \<^verbatim>\<open>ymo_oitrie_get_id\<close>; \<open>cur\<close> is the distance of the node pointer from the
  root, \<open>c\<close> the current (folded) character and \<open>s\<close> what follows it.  \<open>None\<close> is a read outside the
  node array.
\<close>

function get_id_loop :: "ymo_oitrie_node list \<Rightarrow> nat \<Rightarrow> byte \<Rightarrow> bytes \<Rightarrow> (ymo_status + byte) option" where
  "get_id_loop ns cur c s =
     (if length ns \<le> cur then None
      else let n = ns ! cur in
        if c = ovalue n then
          let c = ymo_tolower (deref s); s = tl s in
          if c = 0 \<and> flags n AND OITRIE_IS_TERMINAL \<noteq> 0 then Some (Inr (hdr_id n))
          else if flags n AND OITRIE_HAS_CHILD \<noteq> 0 then get_id_loop ns (cur + 1) c s
          else Some (Inl EINVAL)
        else if offset n \<noteq> 0 then get_id_loop ns (cur + unat (offset n)) c s
        else Some (Inl EINVAL))"
  by pat_completeness auto
termination
  by (relation "measure (\<lambda>(ns, cur, c, s). length ns - cur)")
    (auto intro!: diff_less_mono2 simp: unat_gt_0)

declare get_id_loop.simps [simp del]

definition ymo_oitrie_get_id :: "ymo_oitrie \<Rightarrow> bytes \<Rightarrow> (ymo_status + byte) option" where
  "ymo_oitrie_get_id oitrie str_in =
     get_id_loop (oroot oitrie) 0 (ymo_tolower (deref str_in)) (tl str_in)"

section \<open>Well-formed tries and their contents\<close>

text \<open>
  Every children array has its full length; the entries for the terminator and for the byte 255
  are empty (the flattening loop does not end on a node with a child 255, see below).
\<close>

fun trie_wf :: "ymo_trie_node \<Rightarrow> bool" where
  "trie_wf (TNode cs ix vid v) \<longleftrightarrow>
     length cs = 256 \<and> cs ! 0 = None \<and> cs ! 255 = None \<and>
     (\<forall>c \<in> set cs. case c of None \<Rightarrow> True | Some n \<Rightarrow> trie_wf n)"

fun trie_lookup :: "ymo_trie_node \<Rightarrow> bytes \<Rightarrow> ymo_trie_node option" where
  "trie_lookup n [] = Some n"
| "trie_lookup n (c # s) =
     (case children n ! unat c of None \<Rightarrow> None | Some m \<Rightarrow> trie_lookup m s)"

definition trie_has :: "ymo_trie_node \<Rightarrow> bytes \<Rightarrow> bool" where
  "trie_has n key \<longleftrightarrow> (\<exists>m. trie_lookup n key = Some m \<and> has_value m)"

definition cstr :: "bytes \<Rightarrow> bytes" where
  "cstr s = takeWhile (\<lambda>c. c \<noteq> 0) s"

definition fold_key :: "bytes \<Rightarrow> bytes" where
  "fold_key s = map ymo_tolower (cstr s)"

lemma fold_key_simps [simp]:
  "fold_key [] = []" "fold_key (c # s) = (if c = 0 then [] else ymo_tolower c # fold_key s)"
  by (simp_all add: fold_key_def cstr_def)

fun tsize :: "ymo_trie_node \<Rightarrow> nat" and tsizes :: "ymo_trie_node option list \<Rightarrow> nat" where
  "tsize (TNode cs ix vid v) = 1 + tsizes cs"
| "tsizes [] = 0"
| "tsizes (None # cs) = tsizes cs"
| "tsizes (Some n # cs) = tsize n + tsizes cs"

lemma unat_byte_lt [simp]: "unat (c::byte) < 256"
  using unsigned_less [of c] by simp

lemma trie_wf_create: "trie_wf ymo_trie_node_create"
  by (simp add: ymo_trie_node_create_def YMO_TRIE_NO_CHILDREN_def)

lemma tsizes_replicate [simp]: "tsizes (replicate n None) = 0"
  by (induction n) auto

lemma tsizes_update:
  "i < length cs \<Longrightarrow>
   tsizes (cs[i := Some n]) + (case cs ! i of None \<Rightarrow> 0 | Some m \<Rightarrow> tsize m) = tsizes cs + tsize n"
proof (induction cs arbitrary: i)
  case (Cons c cs)
  then show ?case by (cases i; cases c) auto
qed simp

lemma trie_wf_child:
  "trie_wf n \<Longrightarrow> children n ! unat (c::byte) = Some m \<Longrightarrow> trie_wf m"
proof (cases n)
  case (TNode cs ix vid v)
  assume wf: "trie_wf n" and m: "children n ! unat c = Some m"
  then have "Some m \<in> set cs" using TNode nth_mem [of "unat c" cs] by simp
  with wf TNode show ?thesis by (auto split: option.splits)
qed

lemma trie_wf_update:
  "trie_wf (TNode cs ix vid v) \<Longrightarrow> trie_wf n \<Longrightarrow> c \<noteq> 0 \<Longrightarrow> (c::byte) \<noteq> 255 \<Longrightarrow>
   trie_wf (TNode (cs[unat c := Some n]) ix' vid' v')"
  by (auto simp: nth_list_update word_unat_eq_iff dest!: set_update_subset_insert [THEN subsetD])

text \<open>The bytes of the string that reach the trie.\<close>

definition no_ff :: "bytes \<Rightarrow> bool" where "no_ff s \<longleftrightarrow> 255 \<notin> set (cstr s)"

lemma no_ff_Cons: "no_ff (c # s) \<longleftrightarrow> c = 0 \<or> c \<noteq> 255 \<and> no_ff s"
  by (auto simp: no_ff_def cstr_def)

lemma ymo_tolower_ff_iff [simp]: "ymo_tolower c = 255 \<longleftrightarrow> c = 255"
  by (rule all_bytesI [of _ c]) (simp add: all_bytes_def ymo_tolower_eq)

lemma tsize_create [simp]: "tsize ymo_trie_node_create = 1"
  by (simp add: ymo_trie_node_create_def)

lemma tsize_pos [simp]: "0 < tsize n"
  by (cases n) simp

lemma trie_add_props:
  "trie_add mem n s = (st, n', k) \<Longrightarrow> trie_wf n \<Longrightarrow> no_ff s \<Longrightarrow>
   trie_wf n' \<and> tsize n' = tsize n + k \<and> k \<le> length (cstr s) \<and>
   (mem \<ge> length (cstr s) \<longrightarrow> st = YMO_OKAY)"
proof (induction mem n s arbitrary: st n' k rule: trie_add.induct)
  case (1 mem cs ix vid v)
  then show ?case by auto
next
  case (2 mem cs ix vid v c s)
  show ?case
  proof (cases "c = 0")
    case True
    with 2 show ?thesis by (auto simp: Let_def)
  next
    case False
    let ?c = "ymo_tolower c"
    have c: "?c \<noteq> 0" "?c \<noteq> 255" "no_ff s" using 2 False by (auto simp: no_ff_Cons)
    have len: "length (cstr (c # s)) = Suc (length (cstr s))" using False by (simp add: cstr_def)
    show ?thesis
    proof (cases "cs ! unat ?c")
      case (Some m)
      obtain st1 m' k1 where r: "trie_add mem m s = (st1, m', k1)" by (cases "trie_add mem m s")
      have "trie_wf m" using trie_wf_child [of "TNode cs ix vid v" ?c m] 2 Some by simp
      with "2.IH"(2) [OF _ _ Some r] c False
      have IH: "trie_wf m'" "tsize m' = tsize m + k1" "k1 \<le> length (cstr s)"
          "mem \<ge> length (cstr s) \<longrightarrow> st1 = YMO_OKAY" by auto
      have "n' = TNode (cs[unat ?c := Some m']) ix vid v" "k = k1" "st = st1"
        using "2.prems"(1) False Some r by (auto simp: Let_def)
      moreover have "tsizes (cs[unat ?c := Some m']) + tsize m = tsizes cs + tsize m'"
        using tsizes_update [of "unat ?c" cs m'] Some "2.prems"(2) by simp
      ultimately show ?thesis
        using IH c "2.prems"(2) len by (auto intro!: trie_wf_update simp del: trie_wf.simps)
    next
      case None
      show ?thesis
      proof (cases mem)
        case 0
        with "2.prems" False None show ?thesis by (auto simp: Let_def len)
      next
        case (Suc mem')
        obtain st1 m' k1 where r: "trie_add mem' ymo_trie_node_create s = (st1, m', k1)"
          by (cases "trie_add mem' ymo_trie_node_create s")
        from "2.IH"(1) [OF _ _ None Suc r] c False
        have IH: "trie_wf m'" "tsize m' = 1 + k1" "k1 \<le> length (cstr s)"
            "mem' \<ge> length (cstr s) \<longrightarrow> st1 = YMO_OKAY" by (auto simp: trie_wf_create)
        have "n' = TNode (cs[unat ?c := Some m']) ix vid v" "k = Suc k1" "st = st1"
          using "2.prems"(1) False None Suc r by (auto simp: Let_def)
        moreover have "tsizes (cs[unat ?c := Some m']) = tsizes cs + tsize m'"
          using tsizes_update [of "unat ?c" cs m'] None "2.prems"(2) by simp
        ultimately show ?thesis
          using IH c "2.prems"(2) len Suc by (auto intro!: trie_wf_update simp del: trie_wf.simps)
      qed
    qed
  qed
qed

lemma trie_has_Nil [simp]: "trie_has n [] \<longleftrightarrow> has_value n"
  by (simp add: trie_has_def)

lemma trie_has_Cons [simp]:
  "trie_has n (c # s) \<longleftrightarrow> (\<exists>m. children n ! unat c = Some m \<and> trie_has m s)"
  by (auto simp: trie_has_def split: option.splits)

lemma trie_has_create [simp]: "\<not> trie_has ymo_trie_node_create key"
  by (cases key) (auto simp: ymo_trie_node_create_def YMO_TRIE_NO_CHILDREN_def)

lemma trie_add_has:
  "trie_add mem n s = (YMO_OKAY, n', k) \<Longrightarrow> trie_wf n \<Longrightarrow>
   trie_has n' key \<longleftrightarrow> key = fold_key s \<or> trie_has n key"
proof (induction mem n s arbitrary: n' k key rule: trie_add.induct)
  case (1 mem cs ix vid v)
  then show ?case by (cases key) auto
next
  case (2 mem cs ix vid v c s)
  show ?case
  proof (cases "c = 0")
    case True
    with 2 show ?thesis by (cases key) (auto simp: Let_def)
  next
    case False
    let ?c = "ymo_tolower c"
    have "length cs = 256" using 2 by simp
    then have upd: "cs[unat ?c := x] ! unat d = (if d = ?c then x else cs ! unat d)" for x d
      by (auto simp: nth_list_update word_unat_eq_iff)
    show ?thesis
    proof (cases "cs ! unat ?c")
      case (Some m)
      obtain st1 m' k1 where r: "trie_add mem m s = (st1, m', k1)" by (cases "trie_add mem m s")
      have n': "n' = TNode (cs[unat ?c := Some m']) ix vid v" "st1 = YMO_OKAY"
        using "2.prems"(1) False Some r by (auto simp: Let_def)
      have "trie_wf m" using trie_wf_child [of "TNode cs ix vid v" ?c m] 2 Some by simp
      with "2.IH"(2) [OF _ _ Some, of m' k1] r n' False
      have "trie_has m' key = (key = fold_key s \<or> trie_has m key)" for key by auto
      then show ?thesis using n' Some False by (cases key) (auto simp: upd)
    next
      case None
      then obtain mem' where mem: "mem = Suc mem'"
        using "2.prems" False by (cases mem) (auto simp: Let_def)
      obtain st1 m' k1 where r: "trie_add mem' ymo_trie_node_create s = (st1, m', k1)"
        by (cases "trie_add mem' ymo_trie_node_create s")
      have n': "n' = TNode (cs[unat ?c := Some m']) ix vid v" "st1 = YMO_OKAY"
        using "2.prems"(1) False None r mem by (auto simp: Let_def)
      with "2.IH"(1) [OF _ _ None mem, of m' k1] r False
      have "trie_has m' key = (key = fold_key s)" for key by (auto simp: trie_wf_create)
      then show ?thesis using n' None False by (cases key) (auto simp: upd)
    qed
  qed
qed


section \<open>Annotation assigns preorder indices\<close>

fun indexed :: "ymo_trie_node option list \<Rightarrow> nat \<Rightarrow> bool" where
  "indexed [] nid = True"
| "indexed (None # cs) nid = indexed cs nid"
| "indexed (Some (TNode ds ix vid v) # cs) nid =
     (ix = nid \<and> indexed ds (nid + 1) \<and> indexed cs (nid + 1 + tsizes ds))"

text \<open>Two tries of the same shape: same children present, same values.\<close>

fun same_shape :: "ymo_trie_node \<Rightarrow> ymo_trie_node \<Rightarrow> bool" where
  "same_shape (TNode cs ix vid v) (TNode ds ix' vid' w) \<longleftrightarrow>
     v = w \<and> list_all2 (rel_option same_shape) cs ds"

lemma annotate_shape:
  "trie_node_annotate n i v = (n', i', v') \<Longrightarrow> same_shape n n' \<and> tsize n' = tsize n \<and>
     indexed (children n') i \<and> i' = i + tsizes (children n)"
  "annotate_children cs i v = (cs', i', v') \<Longrightarrow> list_all2 (rel_option same_shape) cs cs' \<and>
     tsizes cs' = tsizes cs \<and> indexed cs' i \<and> i' = i + tsizes cs"
proof (induction n i v and cs i v arbitrary: n' i' v' and cs' i' v'
    rule: trie_node_annotate_annotate_children.induct)
  case (4 ds ix vid v cs node_id val_id)
  then show ?case
    by (fastforce split: prod.splits simp: Let_def elim!: same_shape.elims)
qed (fastforce split: prod.splits)+

lemma same_shape_wf: "same_shape n n' \<Longrightarrow> trie_wf n \<Longrightarrow> trie_wf n'"
proof (induction n n' rule: same_shape.induct)
  case (1 cs ix vid v ds ix' vid' w)
  then have l: "list_all2 (rel_option same_shape) cs ds" by simp
  have "trie_wf m'" if "Some m' \<in> set ds" for m'
  proof -
    from that obtain i where i: "i < length ds" "ds ! i = Some m'" by (auto simp: in_set_conv_nth)
    with l obtain m where m: "cs ! i = Some m" "same_shape m m'" "i < length cs"
      by (metis list_all2_conv_all_nth option_rel_Some2)
    then have "Some m \<in> set cs" by (metis nth_mem)
    with "1.IH" [of "Some m" "Some m'" m m'] "1.prems" that m show ?thesis by auto
  qed
  moreover have "length ds = 256" using l "1.prems" by (simp add: list_all2_conv_all_nth)
  moreover have "rel_option same_shape (cs ! 0) (ds ! 0)" "rel_option same_shape (cs ! 255) (ds ! 255)"
    using list_all2_nthD [OF l, of 0] list_all2_nthD [OF l, of 255] "1.prems"(2)
    by (simp_all del: length_greater_0_conv)
  then have "ds ! 0 = None" "ds ! 255 = None" using "1.prems" by auto
  ultimately show ?case by (auto split: option.splits)
qed

section \<open>Flattening lays the nodes out in preorder\<close>

text \<open>
  The intended layout: a node, its subtree, then its later siblings; the offset of a node that
  has a later sibling is the size of its subtree.  \<open>pos\<close> is the character of the first entry.
\<close>

fun flat :: "nat \<Rightarrow> ymo_trie_node option list \<Rightarrow> ymo_oitrie_node list" where
  "flat pos [] = []"
| "flat pos (None # cs) = flat (pos + 1) cs"
| "flat pos (Some (TNode ds ix vid v) # cs) =
     (oitrie_mark pos (TNode ds ix vid v) oitrie_node_zero)
       \<lparr>offset := (if has_child cs then word_of_nat (1 + tsizes ds) else 0)\<rparr>
     # flat 0 ds @ flat (pos + 1) cs"

lemma length_flat [simp]: "length (flat pos cs) = tsizes cs"
  by (induction pos cs rule: flat.induct) auto

lemma has_child_simps [simp]:
  "\<not> has_child []" "has_child (None # cs) \<longleftrightarrow> has_child cs" "has_child (Some n # cs)"
  by (simp_all add: has_child_def)

lemma tsizes_0_iff: "tsizes cs = 0 \<longleftrightarrow> \<not> has_child cs"
proof (induction cs)
  case (Cons c cs)
  then show ?case by (cases c) auto
qed simp

lemma no_child_flat: "\<not> has_child cs \<Longrightarrow> flat pos cs = []"
  by (metis length_0_conv length_flat tsizes_0_iff)

text \<open>Where the search for the right sibling stops.\<close>

lemma find_right_None: "\<not> has_child cs \<Longrightarrow> find_right cs t = (t + length cs, None)"
  by (induction cs t rule: find_right.induct) auto

lemma find_right_Some:
  "find_right cs t = (t', r) \<Longrightarrow> has_child cs \<Longrightarrow>
   \<exists>k < length cs. t' = t + k + 1 \<and> r = cs ! k \<and> r \<noteq> None \<and> tsizes cs = tsizes (drop k cs) \<and>
     flat t cs = flat (t + k) (drop k cs) \<and> (\<forall>n. indexed cs n = indexed (drop k cs) n)"
proof (induction cs t rule: find_right.induct)
  case (3 cs t)
  then obtain k where k: "k < length cs" "t' = t + 1 + k + 1" "r = cs ! k" "r \<noteq> None"
      "tsizes cs = tsizes (drop k cs)" "flat (t + 1) cs = flat (t + 1 + k) (drop k cs)"
      "\<forall>n. indexed cs n = indexed (drop k cs) n" by auto
  then show ?case by (intro exI [of _ "Suc k"]) simp
qed auto

lemma indexed_first:
  "indexed cs n \<Longrightarrow> has_child cs \<Longrightarrow> find_right cs t = (t', Some r) \<Longrightarrow> index r = n"
  by (induction cs t rule: find_right.induct) (auto elim: indexed.elims)

text \<open>
  Enough fuel: one unit for each entry of each children array on the way down.
\<close>

definition fuel_for :: "nat \<Rightarrow> ymo_trie_node \<Rightarrow> nat" where
  "fuel_for i n = 257 * tsizes (drop i (children n)) + 257 - i"

lemma tsizes_drop_le: "tsizes (drop k cs) \<le> tsizes cs"
proof (induction cs arbitrary: k)
  case (Cons c cs)
  show ?case
  proof (cases k)
    case (Suc j)
    then show ?thesis using Cons.IH [of j] by (cases c) auto
  qed simp
qed simp

lemma oitrie_mark_zero_offset: "offset (oitrie_mark i n oitrie_node_zero) = 0"
  by (simp add: oitrie_mark_def oitrie_node_zero_def Let_def)

lemma right_scan:
  assumes "length cs = 256" "cs ! 255 = None" "i < 255"
    and fr: "find_right (drop (Suc i) cs) (Suc i) = (t, r)"
  shows "i < t - 1" "t - 1 \<le> 255" "tsizes (drop (t - 1) cs) = tsizes (drop (Suc i) cs)"
    "flat (t - 1) (drop (t - 1) cs) = flat (Suc i) (drop (Suc i) cs)"
    "indexed (drop (t - 1) cs) n = indexed (drop (Suc i) cs) n"
    "r = None \<longleftrightarrow> \<not> has_child (drop (Suc i) cs)"
proof -
  let ?rest = "drop (Suc i) cs"
  have "i < t - 1 \<and> t - 1 \<le> 255 \<and> tsizes (drop (t - 1) cs) = tsizes ?rest \<and>
    flat (t - 1) (drop (t - 1) cs) = flat (Suc i) ?rest \<and>
    indexed (drop (t - 1) cs) n = indexed ?rest n \<and> (r = None \<longleftrightarrow> \<not> has_child ?rest)"
  proof (cases "has_child ?rest")
    case True
    from find_right_Some [OF fr True] obtain k where k: "k < length ?rest" "t = Suc i + k + 1"
        "r = ?rest ! k" "r \<noteq> None" "tsizes ?rest = tsizes (drop k ?rest)"
        "flat (Suc i) ?rest = flat (Suc i + k) (drop k ?rest)"
        "\<forall>n. indexed ?rest n = indexed (drop k ?rest) n" by blast
    have "drop k ?rest = drop (t - 1) cs" using k(2) by (simp add: add.commute)
    with k True show ?thesis using assms by auto
  next
    case False
    with find_right_None [OF False, of "Suc i"] fr have t: "t = 256" "r = None" using assms by auto
    have "drop 255 cs = [None]"
      using assms(1,2) Cons_nth_drop_Suc [of 255 cs] by simp
    moreover have "flat (Suc i) ?rest = []" "tsizes ?rest = 0"
      using False by (simp_all add: no_child_flat tsizes_0_iff)
    moreover have "indexed ?rest n"
    proof -
      have "\<not> has_child xs \<Longrightarrow> indexed xs n" for xs
      proof (induction xs)
        case (Cons x xs)
        then show ?case by (cases x) auto
      qed simp
      with False show ?thesis by simp
    qed
    ultimately show ?thesis using t False assms by simp
  qed
  then show "i < t - 1" "t - 1 \<le> 255" "tsizes (drop (t - 1) cs) = tsizes ?rest"
    "flat (t - 1) (drop (t - 1) cs) = flat (Suc i) ?rest"
    "indexed (drop (t - 1) cs) n = indexed ?rest n" "r = None \<longleftrightarrow> \<not> has_child ?rest"
    by auto
qed

lemma oitrie_node_create_flat:
  "trie_wf node \<Longrightarrow> i \<le> 256 \<Longrightarrow> indexed (drop i (children node)) (length A) \<Longrightarrow>
   length A + tsizes (drop i (children node)) \<le> 256 \<Longrightarrow>
   fuel_for i node \<le> fuel \<Longrightarrow>
   \<exists>mo'. oitrie_node_create fuel i
          (A @ replicate (tsizes (drop i (children node))) oitrie_node_zero @ B) node mo
        = Some (YMO_OKAY, A @ flat i (drop i (children node)) @ B, mo')"
proof (induction fuel arbitrary: node i A B mo)
  case 0
  then show ?case by (simp add: fuel_for_def)
next
  case (Suc fuel)
  obtain cs ix vid v where node: "node = TNode cs ix vid v" by (cases node)
  with Suc.prems have cs: "length cs = 256" "cs ! 0 = None" "cs ! 255 = None" by auto
  show ?case
  proof (cases "i < 256")
    case False
    then show ?thesis using Suc.prems cs node by (simp add: YMO_TRIE_NO_CHILDREN_def)
  next
    case True
    then have d: "drop i cs = cs ! i # drop (Suc i) cs" using cs by (simp add: Cons_nth_drop_Suc)
    show ?thesis
    proof (cases "cs ! i")
      case None
      have "fuel_for (i + 1) node \<le> fuel"
        using Suc.prems(5) True d None node by (simp add: fuel_for_def)
      then show ?thesis
        using Suc.IH [of node "i + 1" A B mo] Suc.prems True d None node
        by (simp add: YMO_TRIE_NO_CHILDREN_def)
    next
      case (Some left)
      obtain ds lx lvid lv where left: "left = TNode ds lx lvid lv" by (cases left)
      let ?rest = "drop (Suc i) cs"
      have i: "i < 255" using True cs Some by (cases "i = 255") auto
      obtain t r where fr: "find_right ?rest (Suc i) = (t, r)" by fastforce
      note scan = right_scan [OF cs(1) cs(3) i fr]
      have ix: "lx = length A" "indexed ds (length A + 1)" "indexed ?rest (length A + 1 + tsizes ds)"
        and sz: "length A + 1 + tsizes ds + tsizes ?rest \<le> 256"
        using Suc.prems(3,4) d Some left node by simp_all
      have wfl: "trie_wf left"
        using Suc.prems(1) Some node cs(1) True
        by (metis (no_types, lifting) nth_mem option.simps(5) trie_wf.simps)
      have f1: "fuel_for 0 left \<le> fuel" "fuel_for (t - 1) node \<le> fuel"
        using Suc.prems(5) d Some left node i scan(1-3) by (simp_all add: fuel_for_def)
      let ?N = "(oitrie_mark i left oitrie_node_zero)
          \<lparr>offset := (if has_child ?rest then word_of_nat (1 + tsizes ds) else 0)\<rparr>"
      let ?arr = "\<lambda>x. (A @ [x]) @ replicate (tsizes ds) oitrie_node_zero @
          (replicate (tsizes ?rest) oitrie_node_zero @ B)"
      have rep: "A @ replicate (tsizes (drop i (children node))) oitrie_node_zero @ B = ?arr oitrie_node_zero"
        using d Some left node by (simp add: replicate_add)
      have off: "(case r of None \<Rightarrow> 0 | Some r \<Rightarrow> index r - length A) = (if has_child ?rest then 1 + tsizes ds else 0)"
        using scan(6) indexed_first [OF ix(3), of "Suc i" t] fr by (cases r) auto
      have noov: "has_child ?rest \<Longrightarrow> 1 + tsizes ds \<le> 255"
        using sz tsizes_0_iff [of ?rest] by (cases "tsizes ?rest") auto
      have upd: "(?arr x)[length A := y] = ?arr y" "?arr x ! length A = x" for x y
        by (simp_all add: nth_append list_update_append)
      have N0: "\<not> has_child ?rest \<Longrightarrow> ?N = oitrie_mark i left oitrie_node_zero"
        using oitrie_mark_zero_offset [of i left] by (simp add: ymo_oitrie_node.equality)
      obtain mo1 where r1: "oitrie_node_create fuel 0 (?arr ?N) left
            (max mo (if has_child ?rest then 1 + tsizes ds else 0)) =
          Some (YMO_OKAY, (A @ [?N]) @ flat 0 ds @ (replicate (tsizes ?rest) oitrie_node_zero @ B), mo1)"
        using Suc.IH [OF wfl, of 0 "A @ [?N]"] ix sz f1 left by fastforce
      obtain mo2 where r2: "oitrie_node_create fuel (t - 1)
          ((A @ [?N] @ flat 0 ds) @ replicate (tsizes (drop (t - 1) (children node))) oitrie_node_zero @ B)
          node mo1 = Some (YMO_OKAY, (A @ [?N] @ flat 0 ds) @ flat (t - 1) (drop (t - 1) (children node)) @ B, mo2)"
        using Suc.IH [OF Suc.prems(1), of "t - 1" "A @ [?N] @ flat 0 ds" B mo1] ix sz f1 scan node
        by fastforce
      have step: "oitrie_node_create (Suc fuel) i (?arr oitrie_node_zero) node mo =
          (case oitrie_node_create fuel 0 (?arr ?N) left
              (max mo (if has_child ?rest then 1 + tsizes ds else 0)) of
             None \<Rightarrow> None
           | Some (status, oitrie, max_offset) \<Rightarrow>
               if status \<noteq> YMO_OKAY then Some (status, oitrie, max_offset)
               else oitrie_node_create fuel (t - 1) oitrie node max_offset)"
      proof (cases "has_child ?rest")
        case True
        with noov scan(6) obtain rr where "r = Some rr" "\<not> YMO_OITRIE_MAX_OFFSET < 1 + tsizes ds"
          by (auto simp: YMO_OITRIE_MAX_OFFSET_def)
        with True i Some left ix(1) off fr upd show ?thesis
          unfolding node by (simp add: YMO_TRIE_NO_CHILDREN_def Let_def)
      next
        case False
        with scan(6) have "r = None" by simp
        with False i Some left ix(1) off fr upd N0 show ?thesis
          unfolding node by (simp add: YMO_TRIE_NO_CHILDREN_def Let_def)
      qed
      have fl: "A @ flat i (drop i (children node)) @ B =
          (A @ [?N] @ flat 0 ds) @ flat (t - 1) (drop (t - 1) (children node)) @ B"
        using d Some left node scan(4) by simp
      have r2': "oitrie_node_create fuel (t - 1) ((A @ [?N]) @ flat 0 ds @
            (replicate (tsizes ?rest) oitrie_node_zero @ B)) node mo1 =
          Some (YMO_OKAY, A @ flat i (drop i (children node)) @ B, mo2)"
        using r2 scan(3) node unfolding fl by simp
      have "oitrie_node_create (Suc fuel) i (?arr oitrie_node_zero) node mo =
          Some (YMO_OKAY, A @ flat i (drop i (children node)) @ B, mo2)"
        unfolding step r1 by (simp only: option.case prod.case simp_thms if_False r2')
      then show ?thesis unfolding rep by blast
    qed
  qed
qed

section \<open>Searching the flattened trie\<close>

text \<open>The same search on the tree: what the array search is to compute.\<close>

function trie_search :: "ymo_trie_node option list \<Rightarrow> byte \<Rightarrow> bytes \<Rightarrow> ymo_status + byte" where
  "trie_search cs c s =
     (if c = 0 then Inl EINVAL
      else case cs ! unat c of
        None \<Rightarrow> Inl EINVAL
      | Some n \<Rightarrow>
          (let c' = ymo_tolower (deref s) in
           if c' = 0 \<and> has_value n then Inr (word_of_nat (value_id n))
           else trie_search (children n) c' (tl s)))"
  by pat_completeness auto
termination
  by (relation "measure (\<lambda>(cs, c, s). length s + (if c = 0 then 0 else 1))")
    (auto simp: deref_def split: list.splits)

declare trie_search.simps [simp del]

definition entry_at :: "nat \<Rightarrow> ymo_trie_node option list \<Rightarrow> byte \<Rightarrow> ymo_trie_node option" where
  "entry_at pos cs c =
     (if pos \<le> unat c \<and> unat c - pos < length cs then cs ! (unat c - pos) else None)"

definition search_from :: "nat \<Rightarrow> ymo_trie_node option list \<Rightarrow> byte \<Rightarrow> bytes \<Rightarrow> ymo_status + byte" where
  "search_from pos cs c s =
     (case entry_at pos cs c of
        None \<Rightarrow> Inl EINVAL
      | Some n \<Rightarrow>
          (let c' = ymo_tolower (deref s) in
           if c' = 0 \<and> has_value n then Inr (word_of_nat (value_id n))
           else trie_search (children n) c' (tl s)))"

lemma search_from_0:
  "length cs = 256 \<Longrightarrow> cs ! 0 = None \<Longrightarrow> search_from 0 cs c s = trie_search cs c s"
  by (subst trie_search.simps) (auto simp: search_from_def entry_at_def)

lemma mark_flags:
  "flags (oitrie_mark pos n oitrie_node_zero) AND OITRIE_IS_TERMINAL \<noteq> 0 \<longleftrightarrow> has_value n"
  "flags (oitrie_mark pos n oitrie_node_zero) AND OITRIE_HAS_CHILD \<noteq> 0 \<longleftrightarrow> has_child (children n)"
  "ovalue (oitrie_mark pos n oitrie_node_zero) = word_of_nat pos"
  "has_value n \<Longrightarrow> hdr_id (oitrie_mark pos n oitrie_node_zero) = word_of_nat (value_id n)"
  by (auto simp: oitrie_mark_def oitrie_node_zero_def Let_def OITRIE_IS_TERMINAL_def OITRIE_HAS_CHILD_def)

lemma trie_search_no_child: "\<not> has_child cs \<Longrightarrow> length cs = 256 \<Longrightarrow> trie_search cs c s = Inl EINVAL"
proof -
  assume "\<not> has_child cs" "length cs = 256"
  then have "cs ! unat c = None" using nth_mem [of "unat c" cs] by (auto simp: has_child_def list_ex_iff)
  then show ?thesis by (subst trie_search.simps) simp
qed

lemma get_id_loop_flat:
  "has_child cs \<Longrightarrow> pos + length cs = 256 \<Longrightarrow> (pos = 0 \<longrightarrow> cs ! 0 = None) \<Longrightarrow>
   \<forall>x \<in> set cs. case x of None \<Rightarrow> True | Some n \<Rightarrow> trie_wf n \<Longrightarrow>
   length A + tsizes cs \<le> 256 \<Longrightarrow>
   get_id_loop (A @ flat pos cs @ B) (length A) c s = Some (search_from pos cs c s)"
proof (induction pos cs arbitrary: A B c s rule: flat.induct)
  case (1 pos)
  then show ?case by simp
next
  case (2 pos cs)
  have "search_from pos (None # cs) c s = search_from (pos + 1) cs c s"
    by (auto simp: search_from_def entry_at_def nth_Cons split: nat.splits
        intro!: arg_cong [where f = "\<lambda>k. case cs ! k of None \<Rightarrow> _ | Some n \<Rightarrow> _ n"])
  with 2 show ?case by simp
next
  case (3 pos ds ix vid v cs)
  let ?n = "TNode ds ix vid v"
  let ?N = "(oitrie_mark pos ?n oitrie_node_zero)
      \<lparr>offset := (if has_child cs then word_of_nat (1 + tsizes ds) else 0)\<rparr>"
  let ?ns = "A @ flat pos (Some ?n # cs) @ B"
  have pos: "pos < 256" and wf: "trie_wf ?n" using "3.prems" by auto
  have ns: "length A < length ?ns" "?ns ! length A = ?N" by (simp_all add: nth_append)
  have eq: "c = word_of_nat pos \<longleftrightarrow> unat c = pos"
    using pos by (auto simp: unat_of_nat take_bit_nat_eq_self_iff)
  note N = mark_flags [where pos = pos and n = ?n]
  show ?case
  proof (cases "unat c = pos")
    case True
    let ?c = "ymo_tolower (deref s)"
    have e: "search_from pos (Some ?n # cs) c s =
        (if ?c = 0 \<and> v then Inr (word_of_nat vid) else trie_search ds ?c (tl s))"
      using True by (simp add: search_from_def entry_at_def Let_def)
    have "get_id_loop ?ns (length A + 1) ?c (tl s) = Some (trie_search ds ?c (tl s))" if "has_child ds"
      using "3.IH"(1) [of "A @ [?N]" "flat (pos + 1) cs @ B" ?c "tl s"] that "3.prems" wf
      by (simp add: search_from_0)
    moreover have "trie_search ds ?c (tl s) = Inl EINVAL" if "\<not> has_child ds"
      using that wf by (simp add: trie_search_no_child)
    ultimately show ?thesis
      using True eq N ns unfolding e by (subst get_id_loop.simps) (simp add: Let_def)
  next
    case False
    have e: "search_from pos (Some ?n # cs) c s = search_from (pos + 1) cs c s"
      using False by (auto simp: search_from_def entry_at_def nth_Cons' Suc_le_eq)
    show ?thesis
    proof (cases "has_child cs")
      case True
      have sz: "1 + tsizes ds < 256"
        using "3.prems"(5) True tsizes_0_iff [of cs] by (cases "tsizes cs") auto
      then have u: "unat (word_of_nat (1 + tsizes ds) :: byte) = 1 + tsizes ds"
        by (simp only: unat_of_nat) (simp add: take_bit_nat_eq_self_iff)
      then have "(word_of_nat (1 + tsizes ds) :: byte) \<noteq> 0" by (metis add_is_0 unat_0 zero_neq_one)
      moreover have "get_id_loop ?ns (length A + (1 + tsizes ds)) c s = Some (search_from (pos + 1) cs c s)"
        using "3.IH"(2) [of "A @ [?N] @ flat 0 ds" B c s] "3.prems" True by (simp add: add.assoc)
      ultimately show ?thesis
        using False eq N ns u True unfolding e by (subst get_id_loop.simps) (simp add: Let_def)
    next
      case no: False
      then have "entry_at (pos + 1) cs c = None"
        by (auto simp: entry_at_def has_child_def list_ex_iff)
      then have "search_from (pos + 1) cs c s = Inl EINVAL" by (simp add: search_from_def)
      then show ?thesis
        using False eq N ns no unfolding e by (subst get_id_loop.simps) (simp add: Let_def)
    qed
  qed
qed

section \<open>Value ids identify the stored strings\<close>

definition centry :: "ymo_trie_node option list \<Rightarrow> nat \<Rightarrow> bytes \<Rightarrow> ymo_trie_node option" where
  "centry cs p k =
     (if p < length cs then case cs ! p of None \<Rightarrow> None | Some x \<Rightarrow> trie_lookup x k else None)"

definition ids_ok :: "ymo_trie_node option list \<Rightarrow> nat \<Rightarrow> nat \<Rightarrow> bool" where
  "ids_ok cs lo hi \<longleftrightarrow>
     (\<forall>p k m. centry cs p k = Some m \<longrightarrow> has_value m \<longrightarrow> lo \<le> value_id m \<and> value_id m < hi) \<and>
     (\<forall>p k m p' k' m'. centry cs p k = Some m \<longrightarrow> has_value m \<longrightarrow> centry cs p' k' = Some m' \<longrightarrow>
        has_value m' \<longrightarrow> value_id m = value_id m' \<longrightarrow> p = p' \<and> k = k')"

lemma centry_simps [simp]:
  "centry [] p k = None"
  "centry (None # cs) p k = (case p of 0 \<Rightarrow> None | Suc q \<Rightarrow> centry cs q k)"
  "centry (Some x # cs) p k = (case p of 0 \<Rightarrow> trie_lookup x k | Suc q \<Rightarrow> centry cs q k)"
  by (auto simp: centry_def split: nat.splits)

lemma ids_ok_mono: "ids_ok cs lo hi \<Longrightarrow> lo' \<le> lo \<Longrightarrow> hi \<le> hi' \<Longrightarrow> ids_ok cs lo' hi'"
  unfolding ids_ok_def by (meson le_trans less_le_trans)

lemma ids_ok_None: "ids_ok cs lo hi \<Longrightarrow> ids_ok (None # cs) lo hi"
  unfolding ids_ok_def by (auto split: nat.splits)

lemma trie_lookup_Cons_centry:
  "length (children x) = 256 \<Longrightarrow> trie_lookup x (c # k) = centry (children x) (unat c) k"
  by (simp add: centry_def)

lemma ids_ok_Some:
  assumes x: "length (children x) = 256" "has_value x \<Longrightarrow> lo = value_id x"
    and sub: "ids_ok (children x) (if has_value x then lo + 1 else lo) mid"
    and rest: "ids_ok cs mid hi" and le: "lo \<le> mid" "mid \<le> hi" "has_value x \<Longrightarrow> lo < mid"
  shows "ids_ok (Some x # cs) lo hi"
proof -
  let ?lo = "if has_value x then lo + 1 else lo"
  note lk = trie_lookup_Cons_centry [OF x(1)]
  have s1: "?lo \<le> value_id m \<and> value_id m < mid" if "centry (children x) p k = Some m" "has_value m" for p k m
    using that sub unfolding ids_ok_def by blast
  have s2: "p = p' \<and> k = k'" if "centry (children x) p k = Some m" "has_value m"
      "centry (children x) p' k' = Some m'" "has_value m'" "value_id m = value_id m'" for p k m p' k' m'
    using that sub unfolding ids_ok_def by blast
  have own: "lo \<le> value_id m \<and> value_id m < mid" if "trie_lookup x k = Some m" "has_value m" for k m
  proof (cases k)
    case Nil
    with that x le show ?thesis by auto
  next
    case (Cons c k')
    with that lk have "centry (children x) (unat c) k' = Some m" by simp
    from s1 [OF this that(2)] show ?thesis by (auto split: if_splits)
  qed
  have deep: "has_value x \<Longrightarrow> lo < value_id m" if "trie_lookup x (c # k) = Some m" "has_value m" for c k m
    using s1 [of "unat c" k m] that lk by (simp add: Suc_le_eq del: trie_lookup.simps)
  have uniq: "k = k'" if l: "trie_lookup x k = Some m" "has_value m" "trie_lookup x k' = Some m'" "has_value m'"
      "value_id m = value_id m'" for k k' m m'
  proof (cases k)
    case Nil
    then have m: "m = x" using l by simp
    show ?thesis
    proof (cases k')
      case (Cons c j)
      with deep [of c j m'] l m x(2) show ?thesis by (simp del: trie_lookup.simps)
    qed (simp add: Nil)
  next
    case (Cons c j)
    show ?thesis
    proof (cases k')
      case Nil
      with l have "m' = x" by simp
      with deep [of c j m] l Cons x(2) show ?thesis by (simp del: trie_lookup.simps)
    next
      case (Cons c' j')
      with l \<open>k = c # j\<close> s2 [of "unat c" j m "unat c'" j' m'] show ?thesis
        by (simp add: lk word_unat_eq_iff del: trie_lookup.simps)
    qed
  qed
  have r: "mid \<le> value_id m \<and> value_id m < hi" if "centry cs p k = Some m" "has_value m" for p k m
    using that rest unfolding ids_ok_def by blast
  have ru: "p = p' \<and> k = k'" if "centry cs p k = Some m" "has_value m" "centry cs p' k' = Some m'" "has_value m'"
      "value_id m = value_id m'" for p k m p' k' m'
    using that rest unfolding ids_ok_def by blast
  show ?thesis
    unfolding ids_ok_def
  proof (intro conjI allI impI)
    fix p k m assume "centry (Some x # cs) p k = Some m" "has_value m"
    then show "lo \<le> value_id m" "value_id m < hi"
      using own [of k m] r [of "p - 1" k m] le by (auto split: nat.splits)
  next
    fix p k m p' k' m'
    assume a: "centry (Some x # cs) p k = Some m" "has_value m" "centry (Some x # cs) p' k' = Some m'"
      "has_value m'" "value_id m = value_id m'"
    have "p = p' \<and> k = k'"
    proof (cases p)
      case 0
      then have l: "trie_lookup x k = Some m" using a by simp
      show ?thesis
      proof (cases p')
        case 0
        with a l uniq [OF l a(2) _ a(4,5)] \<open>p = 0\<close> show ?thesis by simp
      next
        case (Suc q')
        with a r [of q' k' m'] own [OF l a(2)] show ?thesis by simp
      qed
    next
      case (Suc q)
      then have l: "centry cs q k = Some m" using a by simp
      show ?thesis
      proof (cases p')
        case 0
        with a own [of k' m'] r [OF l a(2)] show ?thesis by simp
      next
        case (Suc q')
        with a ru [OF l a(2) _ a(4,5)] \<open>p = Suc q\<close> show ?thesis by simp
      qed
    qed
    then show "p = p'" "k = k'" by simp_all
  qed
qed

lemma annotate_ids:
  "trie_node_annotate n i v = (n', i', v') \<Longrightarrow> trie_wf n \<Longrightarrow>
     v \<le> v' \<and> v' \<le> v + tsizes (children n) \<and> ids_ok (children n') v v'"
  "annotate_children cs i v = (cs', i', v') \<Longrightarrow> \<forall>x \<in> set cs. case x of None \<Rightarrow> True | Some n \<Rightarrow> trie_wf n \<Longrightarrow>
     v \<le> v' \<and> v' \<le> v + tsizes cs \<and> ids_ok cs' v v'"
proof (induction n i v and cs i v arbitrary: n' i' v' and cs' i' v'
    rule: trie_node_annotate_annotate_children.induct)
  case (1 cs ix vid v node_id val_id)
  then show ?case by (auto split: prod.splits)
next
  case (2 node_id val_id)
  then show ?case by (simp add: ids_ok_def)
next
  case (3 cs node_id val_id)
  then show ?case by (auto split: prod.splits intro: ids_ok_None)
next
  case (4 ds ix vid v cs node_id val_id)
  let ?x0 = "TNode ds node_id (if v then val_id else vid) v"
  let ?v1 = "if v then val_id + 1 else val_id"
  obtain x i1 v1 where x: "trie_node_annotate ?x0 (node_id + 1) ?v1 = (x, i1, v1)"
    by (metis prod_cases3)
  obtain cs1 i2 v2 where c: "annotate_children cs i1 v1 = (cs1, i2, v2)" by (metis prod_cases3)
  have res: "cs' = Some x # cs1" "v' = v2" using "4.prems"(1) x c by auto
  have wf0: "trie_wf ?x0" using "4.prems"(2) by simp
  have a: "?v1 \<le> v1" "v1 \<le> ?v1 + tsizes ds" "ids_ok (children x) ?v1 v1"
    using "4.IH"(1) [OF x wf0] by auto
  have b: "v1 \<le> v2" "v2 \<le> v1 + tsizes cs" "ids_ok cs1 v1 v2"
    using "4.IH"(2) [OF x [symmetric] refl c] "4.prems"(2) by auto
  have sh: "same_shape ?x0 x" using annotate_shape(1) [OF x] by simp
  then have "length (children x) = 256"
    using same_shape_wf [OF sh wf0] by (cases x) auto
  moreover have "has_value x = v" using sh by (cases x) simp
  moreover have "value_id x = (if v then val_id else vid)"
    using x by (auto split: prod.splits)
  ultimately have "ids_ok (Some x # cs1) val_id v2"
    using a b by (intro ids_ok_Some [where mid = v1]) (auto split: if_splits)
  with a b res show ?case by (auto split: if_splits)
qed


section \<open>From strings to the compressed trie\<close>

lemma trie_search_lookup:
  "trie_search (children n) (ymo_tolower (deref s)) (tl s) =
     (if fold_key s \<noteq> [] then
        case trie_lookup n (fold_key s) of
          None \<Rightarrow> Inl EINVAL
        | Some m \<Rightarrow> if has_value m then Inr (word_of_nat (value_id m)) else Inl EINVAL
      else Inl EINVAL)"
proof (induction s arbitrary: n)
  case Nil
  show ?case by (subst trie_search.simps) (simp add: deref_def)
next
  case (Cons c s)
  show ?case
  proof (cases "c = 0")
    case True
    then show ?thesis by (subst trie_search.simps) (simp add: deref_def)
  next
    case False
    have z: "ymo_tolower (deref s) = 0 \<longleftrightarrow> fold_key s = []"
      by (cases s) (auto simp: deref_def)
    have "trie_search (children m) 0 (tl s) = Inl EINVAL" for m
      by (subst trie_search.simps) simp
    then show ?thesis
      using False Cons.IH z
      by (subst trie_search.simps) (auto simp: deref_def Let_def split: option.splits)
  qed
qed

lemma same_shape_lookup:
  "same_shape n n' \<Longrightarrow> trie_wf n \<Longrightarrow> trie_has n' key \<longleftrightarrow> trie_has n key"
proof (induction key arbitrary: n n')
  case Nil
  then show ?case by (auto elim!: same_shape.elims)
next
  case (Cons c key)
  obtain cs ix vid v where n: "n = TNode cs ix vid v" by (cases n)
  obtain ds jx wid w where n': "n' = TNode ds jx wid w" by (cases n')
  have "rel_option same_shape (cs ! unat c) (ds ! unat c)"
    using Cons.prems n n' by (auto simp: list_all2_conv_all_nth)
  moreover have "trie_wf m" if "cs ! unat c = Some m" for m
    using trie_wf_child [OF Cons.prems(2), of c m] that n by simp
  ultimately show ?case
    using Cons.IH unfolding n n' by (cases "cs ! unat c"; cases "ds ! unat c") auto
qed

text \<open>A trie built by adding the strings of a list, with enough memory for all of them.\<close>

definition trie_of :: "bytes list \<Rightarrow> ymo_trie" where
  "trie_of ss = fold (\<lambda>s t. snd (ymo_trie_add_string (length s) t s)) ss ymo_trie_create"

definition trie_inv :: "ymo_trie \<Rightarrow> bool" where
  "trie_inv t \<longleftrightarrow> trie_wf (root t) \<and> no_nodes t = tsizes (children (root t))"

lemma tsize_children: "tsize n = 1 + tsizes (children n)"
  by (cases n) simp

lemma trie_inv_create: "trie_inv ymo_trie_create"
  by (simp add: trie_inv_def ymo_trie_create_def trie_wf_create) (simp add: ymo_trie_node_create_def)

lemma cstr_length: "length (cstr s) \<le> length s"
  by (simp add: cstr_def length_takeWhile_le)

lemma trie_inv_add:
  assumes "trie_inv t" "no_ff s" "ymo_trie_add_string mem t s = (st, t')"
  shows "trie_inv t'" "no_values t' = (if st = YMO_OKAY then no_values t + 1 else no_values t)"
    "length (cstr s) \<le> mem \<Longrightarrow> st = YMO_OKAY"
    "st = YMO_OKAY \<Longrightarrow> trie_has (root t') key \<longleftrightarrow> key = fold_key s \<or> trie_has (root t) key"
proof -
  obtain st1 n k where r: "trie_add mem (root t) s = (st1, n, k)" by (cases "trie_add mem (root t) s")
  have wf: "trie_wf (root t)" using assms(1) by (simp add: trie_inv_def)
  note props = trie_add_props [OF r wf assms(2)]
  show "trie_inv t'"
    using props r assms by (auto simp: trie_inv_def ymo_trie_add_string_def tsize_children)
  show "no_values t' = (if st = YMO_OKAY then no_values t + 1 else no_values t)"
    using r assms(3) by (auto simp: ymo_trie_add_string_def)
  show "length (cstr s) \<le> mem \<Longrightarrow> st = YMO_OKAY"
    using props r assms(3) by (auto simp: ymo_trie_add_string_def)
  show "st = YMO_OKAY \<Longrightarrow> trie_has (root t') key \<longleftrightarrow> key = fold_key s \<or> trie_has (root t) key"
    using trie_add_has [of mem "root t" s n k key] r wf assms(3)
    by (auto simp: ymo_trie_add_string_def)
qed

lemma trie_fold_add:
  assumes "trie_inv t" "\<forall>s \<in> set ss. no_ff s"
  shows "trie_inv (fold (\<lambda>s t. snd (ymo_trie_add_string (length s) t s)) ss t) \<and>
    no_values (fold (\<lambda>s t. snd (ymo_trie_add_string (length s) t s)) ss t) = no_values t + length ss \<and>
    (trie_has (root (fold (\<lambda>s t. snd (ymo_trie_add_string (length s) t s)) ss t)) key \<longleftrightarrow>
       key \<in> fold_key ` set ss \<or> trie_has (root t) key)"
  using assms
proof (induction ss arbitrary: t)
  case (Cons s ss)
  obtain st u where r: "ymo_trie_add_string (length s) t s = (st, u)"
    by (cases "ymo_trie_add_string (length s) t s")
  have ns: "no_ff s" using Cons.prems by simp
  note add = trie_inv_add [OF Cons.prems(1) ns r]
  have "st = YMO_OKAY" using add(3) cstr_length by blast
  with Cons.IH [OF add(1)] Cons.prems add(2,4) r show ?case by auto
qed simp

lemmas trie_of_props = trie_fold_add [OF trie_inv_create, folded trie_of_def]

lemma trie_of_has:
  "\<forall>s \<in> set ss. no_ff s \<Longrightarrow> trie_has (root (trie_of ss)) key \<longleftrightarrow> key \<in> fold_key ` set ss"
  using trie_of_props [of ss key] by (auto simp: ymo_trie_create_def)

text \<open>The compressed trie of a well-formed trie, and what a search of it returns.\<close>

lemma oitrie_create_get_id:
  assumes inv: "trie_inv t" and nodes: "0 < no_nodes t" "no_nodes t \<le> 256"
    and fuel: "257 * (no_nodes t + 1) \<le> fuel"
  shows "\<exists>o' ids. map_option fst (ymo_oitrie_create fuel t) = Some o' \<and>
    inj_on ids {k. trie_has (root t) k \<and> k \<noteq> []} \<and>
    (\<forall>s. ymo_oitrie_get_id o' s =
        Some (if fold_key s \<noteq> [] \<and> trie_has (root t) (fold_key s)
              then Inr (ids (fold_key s)) else Inl EINVAL))"
proof -
  obtain n' i' v' where a: "trie_node_annotate (root t) 0 0 = (n', i', v')" by (metis prod_cases3)
  note sh = annotate_shape(1) [OF a]
  note ids = annotate_ids(1) [OF a]
  have wf: "trie_wf (root t)" "trie_wf n'"
    using inv sh same_shape_wf by (auto simp: trie_inv_def)
  have cs: "length (children n') = 256" "children n' ! 0 = None"
    "\<forall>x \<in> set (children n'). case x of None \<Rightarrow> True | Some n \<Rightarrow> trie_wf n"
    using wf(2) by (cases n'; auto)+
  have sz: "tsizes (children n') = no_nodes t"
    using inv sh by (simp add: trie_inv_def tsize_children)
  have hc: "has_child (children n')" using sz nodes tsizes_0_iff by (metis not_gr0)
  obtain mo where fl: "oitrie_node_create fuel 0 (replicate (no_nodes t) oitrie_node_zero) n' 0 =
      Some (YMO_OKAY, flat 0 (children n'), mo)"
    using oitrie_node_create_flat [OF wf(2), of 0 "[]" fuel "[]" 0] sh sz nodes fuel
    by (auto simp: fuel_for_def tsize_children)
  let ?o = "\<lparr>oroot = flat 0 (children n'), ono_nodes = no_nodes t, ono_values = no_values t\<rparr>"
  let ?ids = "\<lambda>k. case trie_lookup n' k of None \<Rightarrow> 0 | Some m \<Rightarrow> (word_of_nat (value_id m) :: byte)"
  have has: "trie_has n' k \<longleftrightarrow> trie_has (root t) k" for k
    using same_shape_lookup sh wf(1) by blast
  have get: "ymo_oitrie_get_id ?o s = Some (trie_search (children n') (ymo_tolower (deref s)) (tl s))" for s
    using get_id_loop_flat [OF hc, of 0 "[]" "[]"] cs sz nodes
    by (simp add: ymo_oitrie_get_id_def search_from_0)
  have v': "v' \<le> 256" using ids wf(1) inv nodes by (auto simp: trie_inv_def)
  have lk: "\<exists>c j m. k = c # j \<and> centry (children n') (unat c) j = Some m \<and> has_value m \<and>
      ?ids k = word_of_nat (value_id m) \<and> value_id m < 256"
    if kk: "trie_has (root t) k" "k \<noteq> []" for k
  proof -
    obtain c j where k: "k = c # j" using kk(2) by (cases k) auto
    obtain m where m: "trie_lookup n' k = Some m" "has_value m"
      using kk(1) has by (auto simp: trie_has_def)
    have ce: "centry (children n') (unat c) j = Some m"
      using trie_lookup_Cons_centry [OF cs(1)] k m by simp
    then have "value_id m < v'" using ids wf(1) m(2) unfolding ids_ok_def by blast
    with k m ce v' show ?thesis by auto
  qed
  have "inj_on ?ids {k. trie_has (root t) k \<and> k \<noteq> []}"
  proof (rule inj_onI, clarsimp)
    fix k k' assume k: "trie_has (root t) k" "k \<noteq> []" and k': "trie_has (root t) k'" "k' \<noteq> []"
      and eq: "?ids k = ?ids k'"
    obtain c j m c' j' m' where 1: "k = c # j" "centry (children n') (unat c) j = Some m" "has_value m"
        "?ids k = word_of_nat (value_id m)" "value_id m < 256"
      and 2: "k' = c' # j'" "centry (children n') (unat c') j' = Some m'" "has_value m'"
        "?ids k' = word_of_nat (value_id m')" "value_id m' < 256"
      using lk [OF k] lk [OF k'] by blast
    have "word_of_nat (value_id m) = (word_of_nat (value_id m') :: byte)" using eq 1(4) 2(4) by metis
    then have "value_id m = value_id m'"
      using 1(5) 2(5) by (simp add: word_of_nat_eq_iff take_bit_nat_eq_self)
    moreover have "ids_ok (children n') 0 v'" using ids wf(1) by blast
    ultimately have "unat c = unat c' \<and> j = j'"
      using 1(2,3) 2(2,3) unfolding ids_ok_def by blast
    with 1(1) 2(1) show "k = k'" by (simp add: word_unat_eq_iff)
  qed
  moreover have "ymo_oitrie_get_id ?o s =
      Some (if fold_key s \<noteq> [] \<and> trie_has (root t) (fold_key s) then Inr (?ids (fold_key s)) else Inl EINVAL)" for s
    unfolding get trie_search_lookup using has [of "fold_key s"]
    by (auto simp: trie_has_def split: option.splits)
  moreover have "map_option fst (ymo_oitrie_create fuel t) = Some ?o"
    using a fl by (simp add: ymo_oitrie_create_def)
  ultimately show ?thesis by blast
qed

text \<open>The flattening never ends on a node that has a child for the byte 255.\<close>

lemma oitrie_node_create_255_stuck:
  assumes "length (children node) = 256" "children node ! 255 = Some (TNode (replicate 256 None) l vid v)"
  shows "oitrie_node_create fuel 255 oitrie node mo = None"
proof (induction fuel arbitrary: oitrie mo)
  case (Suc fuel)
  have nc: "oitrie_node_create f i o' (TNode (replicate 256 None) l vid v) m \<in>
      {None, Some (YMO_OKAY, o', m)}" for f i o' m
    by (induction f arbitrary: i) (auto simp: YMO_TRIE_NO_CHILDREN_def)
  show ?case
    using assms Suc nc [of fuel 0 _ _]
    by (auto simp: YMO_TRIE_NO_CHILDREN_def Let_def split: option.splits)
      (metis (no_types, lifting) Suc.IH emptyE insertE option.distinct(1) option.inject prod.inject)+
qed simp

text \<open>An addition that runs out of memory leaves a path of nodes behind, but no new string.\<close>

lemma trie_add_fail_has:
  "trie_add mem n s = (st, n', k) \<Longrightarrow> st \<noteq> YMO_OKAY \<Longrightarrow> trie_wf n \<Longrightarrow>
   st = ENOMEM \<and> (trie_has n' key \<longleftrightarrow> trie_has n key)"
proof (induction mem n s arbitrary: st n' k key rule: trie_add.induct)
  case (2 mem cs ix vid v c s)
  let ?c = "ymo_tolower c"
  have c: "?c \<noteq> 0" using 2 by (auto simp: Let_def split: if_splits)
  have "length cs = 256" using 2 by simp
  then have upd: "cs[unat ?c := x] ! unat d = (if d = ?c then x else cs ! unat d)" for x d
    by (auto simp: nth_list_update word_unat_eq_iff)
  show ?case
  proof (cases "cs ! unat ?c")
    case (Some m)
    obtain st1 m' k1 where r: "trie_add mem m s = (st1, m', k1)" by (cases "trie_add mem m s")
    have n': "n' = TNode (cs[unat ?c := Some m']) ix vid v" "st1 = st"
      using "2.prems"(1) c Some r by (auto simp: Let_def)
    have "trie_wf m" using trie_wf_child [of "TNode cs ix vid v" ?c m] 2 Some by simp
    with "2.IH"(2) [OF refl c Some, of st1 m' k1] r n' "2.prems"(2)
    have "st = ENOMEM \<and> trie_has m' key = trie_has m key" for key by auto
    then show ?thesis using n' Some by (cases key) (auto simp: upd)
  next
    case None
    show ?thesis
    proof (cases mem)
      case 0
      with "2.prems" c None show ?thesis by (auto simp: Let_def)
    next
      case (Suc mem')
      obtain st1 m' k1 where r: "trie_add mem' ymo_trie_node_create s = (st1, m', k1)"
        by (cases "trie_add mem' ymo_trie_node_create s")
      have n': "n' = TNode (cs[unat ?c := Some m']) ix vid v" "st1 = st"
        using "2.prems"(1) c None r Suc by (auto simp: Let_def)
      with "2.IH"(1) [OF refl c None Suc, of st1 m' k1] r "2.prems"(2)
      have "st = ENOMEM \<and> \<not> trie_has m' key" for key by (auto simp: trie_wf_create)
      then show ?thesis using n' None by (cases key) (auto simp: upd)
    qed
  qed
qed simp

lemma annotate_children_replicate:
  "annotate_children (replicate k None @ cs) i v =
     (case annotate_children cs i v of (cs', i', v') \<Rightarrow> (replicate k None @ cs', i', v'))"
  by (induction k) (auto split: prod.splits)

lemma oitrie_node_create_skip_stuck:
  assumes "children node = replicate 255 None @ [Some (TNode (replicate 256 None) l vid v)]"
  shows "i \<le> 255 \<Longrightarrow> oitrie_node_create fuel i oitrie node mo = None"
proof (induction fuel arbitrary: i)
  case (Suc fuel)
  show ?case
  proof (cases "i = 255")
    case True
    then show ?thesis
      using oitrie_node_create_255_stuck [of node l vid v "Suc fuel" oitrie mo] assms
      by (simp add: nth_append del: oitrie_node_create.simps)
  next
    case False
    with Suc assms show ?thesis by (simp add: nth_append YMO_TRIE_NO_CHILDREN_def)
  qed
qed simp

section \<open>Release\<close>

text \<open>
  The blocks that are given back, in the order of the calls of \<^verbatim>\<open>YMO_DELETE\<close>: the nodes of a trie
  bottom up, then the trie itself; the node array of a compressed trie only when it counts nodes.
\<close>

datatype trie_block =
  Trie_Node ymo_trie_node
| Trie_Struct
| Oitrie_Nodes "ymo_oitrie_node list"
| Oitrie_Struct

fun ymo_trie_node_free :: "ymo_trie_node \<Rightarrow> trie_block list"
  and free_children :: "ymo_trie_node option list \<Rightarrow> trie_block list" where
  "ymo_trie_node_free (TNode cs ix vid v) = free_children cs @ [Trie_Node (TNode cs ix vid v)]"
| "free_children [] = []"
| "free_children (None # cs) = free_children cs"
| "free_children (Some node # cs) = ymo_trie_node_free node @ free_children cs"

definition ymo_trie_free :: "ymo_trie \<Rightarrow> trie_block list" where
  "ymo_trie_free trie = ymo_trie_node_free (root trie) @ [Trie_Struct]"

definition ymo_oitrie_free :: "ymo_oitrie \<Rightarrow> trie_block list" where
  "ymo_oitrie_free oitrie =
     (if ono_nodes oitrie \<noteq> 0 then [Oitrie_Nodes (oroot oitrie)] else []) @ [Oitrie_Struct]"

lemma length_node_free [simp]:
  "length (ymo_trie_node_free n) = tsize n" "length (free_children cs) = tsizes cs"
  by (induction n and cs rule: ymo_trie_node_free_free_children.induct) simp_all

text \<open>A trie gives back every node it counted, its root and itself, however it was built.\<close>

lemma trie_free_complete:
  assumes "trie_inv t"
  shows "length (ymo_trie_free t) = no_nodes t + 2"
  using assms by (simp add: trie_inv_def ymo_trie_free_def tsize_children)

text \<open>
  What \<^verbatim>\<open>ymo_oitrie_create\<close> took is given back when the trie has nodes; the block that
  \<^verbatim>\<open>calloc (0, ...)\<close> may return for an empty trie is not.
\<close>

lemma oitrie_free_complete:
  assumes "ymo_oitrie_create fuel t = Some (oi, t')"
  shows "Oitrie_Nodes (oroot oi) \<in> set (ymo_oitrie_free oi) \<longleftrightarrow> no_nodes t \<noteq> 0"
  using assms by (auto simp: ymo_oitrie_create_def ymo_oitrie_free_def Let_def split: option.splits)

section \<open>Properties\<close>

text \<open>C15: for strings without the byte 255 that need between 1 and 256 nodes, the compressed trie
  is built (with an explicit fuel bound: the flattening loop ends), and a search of it returns an id
  exactly for the non-empty strings equal, up to case folding and up to their terminator, to one
  that was added; different strings get different ids; no search reads outside the node array.\<close>
theorem oitrie_finds_exactly_added:
  assumes "\<forall>s \<in> set ss. no_ff s" "0 < no_nodes (trie_of ss)" "no_nodes (trie_of ss) \<le> 256"
    and "257 * (no_nodes (trie_of ss) + 1) \<le> fuel"
  shows "\<exists>oitrie ids. map_option fst (ymo_oitrie_create fuel (trie_of ss)) = Some oitrie \<and>
    inj_on ids (fold_key ` set ss - {[]}) \<and>
    (\<forall>s. ymo_oitrie_get_id oitrie s =
        Some (if fold_key s \<noteq> [] \<and> fold_key s \<in> fold_key ` set ss
              then Inr (ids (fold_key s)) else Inl EINVAL))"
proof -
  have "trie_inv (trie_of ss)" using trie_of_props assms(1) by blast
  from oitrie_create_get_id [OF this assms(2-4)] show ?thesis
    by (simp add: trie_of_has [OF assms(1)] set_diff_eq)
qed

theorem oitrie_finds_exactly_added_witness:
  "\<exists>oitrie ids. map_option fst (ymo_oitrie_create 1000 (trie_of [[0x41], [0x62]])) = Some oitrie \<and>
    inj_on ids {[0x61], [0x62 :: byte]} \<and> ymo_oitrie_get_id oitrie [0x61] = Some (Inr (ids [0x61])) \<and>
    ymo_oitrie_get_id oitrie [0x63] = Some (Inl EINVAL)"
proof -
  have n: "no_nodes (trie_of [[0x41], [0x62]]) = 2"
    by (simp add: trie_of_def ymo_trie_add_string_def ymo_trie_create_def ymo_trie_node_create_def
        YMO_TRIE_NO_CHILDREN_def ymo_tolower_eq Let_def byte_order)
  obtain oitrie ids where "map_option fst (ymo_oitrie_create 1000 (trie_of [[0x41], [0x62]])) = Some oitrie"
      "inj_on ids {[0x61], [0x62 :: byte]}"
      "\<forall>s. ymo_oitrie_get_id oitrie s = Some (if fold_key s \<noteq> [] \<and> fold_key s \<in> {[0x61], [0x62]}
        then Inr (ids (fold_key s)) else Inl EINVAL)"
    using oitrie_finds_exactly_added [of "[[0x41], [0x62]]" 1000]
    unfolding n by (auto simp: no_ff_def cstr_def ymo_tolower_eq byte_order)
  then show ?thesis
    by (intro exI [of _ oitrie] exI [of _ ids]) (simp add: ymo_tolower_eq byte_order)
qed

text \<open>Adding a string to a well-formed trie keeps it well formed and its node count exact; it
  fails only for want of memory, and then leaves the set of stored strings as it was; otherwise the
  folded string is added to the set and the count of values goes up by one.\<close>
theorem trie_add_string_spec:
  assumes "trie_inv t" "no_ff s" "ymo_trie_add_string mem t s = (st, t')"
  shows "trie_inv t' \<and> (length (cstr s) \<le> mem \<longrightarrow> st = YMO_OKAY) \<and>
    (st = YMO_OKAY \<longrightarrow> no_values t' = no_values t + 1 \<and>
       (\<forall>key. trie_has (root t') key \<longleftrightarrow> key = fold_key s \<or> trie_has (root t) key)) \<and>
    (st \<noteq> YMO_OKAY \<longrightarrow> st = ENOMEM \<and> no_values t' = no_values t \<and>
       (\<forall>key. trie_has (root t') key \<longleftrightarrow> trie_has (root t) key))"
proof -
  note add = trie_inv_add [OF assms]
  obtain st1 n k where r: "trie_add mem (root t) s = (st1, n, k)" by (cases "trie_add mem (root t) s")
  have wf: "trie_wf (root t)" using assms(1) by (simp add: trie_inv_def)
  have eqs: "st = st1" "root t' = n" using r assms(3) by (auto simp: ymo_trie_add_string_def)
  have fail: "st = ENOMEM" "trie_has (root t') key \<longleftrightarrow> trie_has (root t) key" if "st \<noteq> YMO_OKAY" for key
    using trie_add_fail_has [OF r _ wf, of key] that unfolding eqs by blast+
  show ?thesis
    using add(1,2,3) fail(1) by (intro conjI impI allI add(4) fail(2)) simp_all
qed

theorem trie_add_string_spec_witness:
  "fst (ymo_trie_add_string 0 ymo_trie_create [0x41]) = ENOMEM \<and>
   \<not> trie_has (root (snd (ymo_trie_add_string 0 ymo_trie_create [0x41]))) [0x61] \<and>
   trie_has (root (snd (ymo_trie_add_string 1 ymo_trie_create [0x41]))) [0x61]"
proof -
  have nf: "no_ff [0x41]" by (simp add: no_ff_def cstr_def)
  have 0: "fst (ymo_trie_add_string 0 ymo_trie_create [0x41]) = ENOMEM"
    by (simp add: ymo_trie_add_string_def ymo_trie_create_def ymo_trie_node_create_def
        YMO_TRIE_NO_CHILDREN_def ymo_tolower_eq Let_def byte_order)
  have e: "\<not> trie_has (root ymo_trie_create) [0x61]" by (simp add: ymo_trie_create_def del: trie_has_Cons)
  have f: "fold_key [0x41] = [0x61]" by (simp add: ymo_tolower_eq byte_order)
  show ?thesis
    using trie_add_string_spec [OF trie_inv_create nf surjective_pairing, of 0]
      trie_add_string_spec [OF trie_inv_create nf surjective_pairing, of 1] 0 e f
    by (simp add: cstr_def del: trie_has_Cons)
qed

text \<open>Adding the one-byte string \<open>0xff\<close> to an empty trie succeeds, but flattening the result
  never ends, whatever the fuel: the last child is visited again and again (\<^verbatim>\<open>i = --t\<close>).\<close>
theorem oitrie_create_255_diverges:
  "ymo_oitrie_create fuel (trie_of [[0xff]]) = None"
proof -
  have u: "(replicate 256 None)[255 := Some x] = replicate 255 None @ [Some x]" for x :: ymo_trie_node
    by (simp add: list_eq_iff_nth_eq nth_append nth_list_update)
  have "root (trie_of [[0xff]]) = TNode (replicate 255 None @ [Some (TNode (replicate 256 None) 0 0 True)]) 0 0 False"
    by (simp add: trie_of_def ymo_trie_add_string_def ymo_trie_create_def ymo_trie_node_create_def
        YMO_TRIE_NO_CHILDREN_def ymo_tolower_eq Let_def byte_order u)
  moreover have "annotate_children (replicate 256 None) i v = (replicate 256 None, i, v)" for i v
    using annotate_children_replicate [of 256 "[]"] by simp
  ultimately obtain n where n: "fst (trie_node_annotate (root (trie_of [[0xff]])) 0 0) = n"
    "children n = replicate 255 None @ [Some (TNode (replicate 256 None) 0 0 True)]"
    by (simp add: annotate_children_replicate)
  then show ?thesis
    using oitrie_node_create_skip_stuck [OF n(2), of 0] by (simp add: ymo_oitrie_create_def)
qed

end
