(* ===== verification/Queue.thy ===== *)
theory Queue
  imports Prelude "HOL-Library.Monad_Syntax"
begin

text \<open>
  The doubly linked queues of \<^verbatim>\<open>src/core/ymo_queue.c\<close>, with their optional node pool, on an
  explicit heap of nodes and queue structs.  A pointer is a \<open>nat option\<close> (\<open>None\<close> is \<open>NULL\<close>); an
  operation returns \<open>None\<close> when it dereferences \<open>NULL\<close> or memory that is not allocated.
\<close>

section \<open>The heap\<close>

type_synonym ptr = "nat option"

record 'd ymo_queue_node =
  nqueue :: ptr
  nnext :: ptr
  nprev :: ptr
  ndata :: "'d option"

record ymo_queue =
  head :: ptr
  tail :: ptr
  no_items :: u64
  pool :: ptr
  pstack :: ptr

text \<open>
  \<open>avail\<close> is how many allocations still succeed (a node that is freed can be allocated again), \<open>fresh\<close> the lowest address never handed out,
  \<open>blocks\<close> the size of the node arrays that were allocated as pools.
\<close>

record 'd qheap =
  nodes :: "nat \<rightharpoonup> 'd ymo_queue_node"
  queues :: "nat \<rightharpoonup> ymo_queue"
  blocks :: "nat \<rightharpoonup> nat"
  fresh :: nat
  avail :: nat

definition ld_node :: "'d qheap \<Rightarrow> ptr \<Rightarrow> 'd ymo_queue_node option" where
  "ld_node s p = Option.bind p (nodes s)"

definition ld_queue :: "'d qheap \<Rightarrow> ptr \<Rightarrow> ymo_queue option" where
  "ld_queue s p = Option.bind p (queues s)"

definition upd_node ::
  "('d ymo_queue_node \<Rightarrow> 'd ymo_queue_node) \<Rightarrow> ptr \<Rightarrow> 'd qheap \<Rightarrow> 'd qheap option" where
  "upd_node f p s = do {
     a \<leftarrow> p; n \<leftarrow> nodes s a;
     Some (s\<lparr>nodes := (nodes s)(a \<mapsto> f n)\<rparr>) }"

definition upd_queue :: "(ymo_queue \<Rightarrow> ymo_queue) \<Rightarrow> ptr \<Rightarrow> 'd qheap \<Rightarrow> 'd qheap option" where
  "upd_queue f p s = do {
     a \<leftarrow> p; q \<leftarrow> queues s a;
     Some (s\<lparr>queues := (queues s)(a \<mapsto> f q)\<rparr>) }"

section \<open>Nodes\<close>

definition delete_node :: "ptr \<Rightarrow> 'd qheap \<Rightarrow> 'd qheap option" where
  "delete_node node s = do {
     n \<leftarrow> ld_node s node;
     if nqueue n \<noteq> None then do {
       let queue = nqueue n;
       q \<leftarrow> ld_queue s queue;
       if pstack q \<noteq> None then do {
         s \<leftarrow> upd_node (\<lambda>n. n\<lparr>nprev := None, nnext := pstack q\<rparr>) node s;
         upd_queue (\<lambda>q. q\<lparr>pstack := node\<rparr>) queue s
       } else do {
         s \<leftarrow> upd_node (\<lambda>n. n\<lparr>nprev := None, nnext := None\<rparr>) node s;
         upd_queue (\<lambda>q. q\<lparr>pstack := node\<rparr>) queue s
       }
     } else Some (s\<lparr>nodes := (nodes s)(the node := None), avail := avail s + 1\<rparr>) }"

text \<open>
  \<^verbatim>\<open>create_node\<close> writes through the result of the allocator before looking at it, so that a
  failed allocation is a \<open>NULL\<close> dereference.
\<close>

definition node_new :: "'d qheap \<Rightarrow> ptr \<times> 'd qheap" where
  "node_new s =
     (if avail s = 0 then (None, s)
      else (Some (fresh s),
            s\<lparr>nodes := (nodes s)(fresh s \<mapsto> \<lparr>nqueue = None, nnext = None, nprev = None, ndata = None\<rparr>),
              fresh := fresh s + 1, avail := avail s - 1\<rparr>))"

definition create_node :: "ptr \<Rightarrow> 'd qheap \<Rightarrow> (ptr \<times> 'd qheap) option" where
  "create_node queue s = do {
     q \<leftarrow> ld_queue s queue;
     let node = pstack q;
     if node = None then do {
       let (node, s) = node_new s;
       s \<leftarrow> upd_node (\<lambda>n. n\<lparr>nqueue := None\<rparr>) node s;
       Some (node, s)
     } else do {
       n \<leftarrow> ld_node s node;
       s \<leftarrow> upd_queue (\<lambda>q. q\<lparr>pstack := nnext n\<rparr>) queue s;
       s \<leftarrow> upd_node (\<lambda>n. n\<lparr>nnext := None, nprev := None\<rparr>) node s;
       Some (node, s)
     } }"

section \<open>Queues\<close>

definition queue_zero :: ymo_queue where
  "queue_zero = \<lparr>head = None, tail = None, no_items = 0, pool = None, pstack = None\<rparr>"

definition ymo_queue_create :: "'d qheap \<Rightarrow> ptr \<times> 'd qheap" where
  "ymo_queue_create s =
     (if avail s = 0 then (None, s)
      else (Some (fresh s), s\<lparr>queues := (queues s)(fresh s \<mapsto> queue_zero),
                              fresh := fresh s + 1, avail := avail s - 1\<rparr>))"

text \<open>\<^verbatim>\<open>ymo_queue_pool_init\<close>: node \<open>i\<close> of the pool of \<open>n\<close> nodes at address \<open>p\<close>.
  An empty pool is written out of its bounds.\<close>

definition pool_node :: "nat \<Rightarrow> nat \<Rightarrow> nat \<Rightarrow> nat \<Rightarrow> 'd option \<Rightarrow> 'd ymo_queue_node" where
  "pool_node queue p n i data =
     \<lparr>nqueue = Some queue,
      nnext = (if i = n - 1 then None else Some (p + i + 1)),
      nprev = (if i = 0 \<and> n \<noteq> 1 then None else Some (p + i - 1)),
      ndata = data\<rparr>"

definition ymo_queue_pool_init :: "nat \<Rightarrow> nat \<Rightarrow> nat \<Rightarrow> 'd qheap \<Rightarrow> 'd qheap option" where
  "ymo_queue_pool_init queue p n s =
     (if n = 0 then None
      else upd_queue (\<lambda>q. q\<lparr>pool := Some p, pstack := Some p\<rparr>) (Some queue)
        (s\<lparr>nodes := (\<lambda>a. if p \<le> a \<and> a < p + n
           then Some (pool_node queue p n (a - p) (Option.bind (nodes s a) ndata))
           else nodes s a)\<rparr>))"

definition ymo_queue_create_pool :: "nat \<Rightarrow> 'd qheap \<Rightarrow> (ptr \<times> 'd qheap) option" where
  "ymo_queue_create_pool n s =
     (case ymo_queue_create s of
        (None, s) \<Rightarrow> Some (None, s)
      | (Some queue, s) \<Rightarrow>
          if avail s = 0
          then Some (None, s\<lparr>queues := (queues s)(queue := None)\<rparr>)
          else do {
            let p = fresh s;
            s \<leftarrow> ymo_queue_pool_init queue p n
                 (s\<lparr>fresh := p + n, avail := avail s - 1, blocks := (blocks s)(p \<mapsto> n)\<rparr>);
            Some (Some queue, s) })"

definition ymo_queue_append :: "ptr \<Rightarrow> 'd option \<Rightarrow> 'd qheap \<Rightarrow> (ymo_status \<times> 'd qheap) option" where
  "ymo_queue_append queue item s = do {
     (node, s) \<leftarrow> create_node queue s;
     if node = None then Some (ENOMEM, s) else do {
       q \<leftarrow> ld_queue s queue;
       s \<leftarrow> upd_node (\<lambda>n. n\<lparr>ndata := item, nnext := None, nprev := tail q\<rparr>) node s;
       s \<leftarrow> (if tail q \<noteq> None then upd_node (\<lambda>n. n\<lparr>nnext := node\<rparr>) (tail q) s
             else upd_queue (\<lambda>q. q\<lparr>head := node\<rparr>) queue s);
       s \<leftarrow> upd_queue (\<lambda>q. q\<lparr>tail := node, no_items := no_items q + 1\<rparr>) queue s;
       Some (YMO_OKAY, s)
     } }"

definition ymo_queue_append_queue :: "ptr \<Rightarrow> ptr \<Rightarrow> 'd qheap \<Rightarrow> (ymo_status \<times> 'd qheap) option" where
  "ymo_queue_append_queue dst src s = do {
     qd \<leftarrow> ld_queue s dst;
     qs \<leftarrow> ld_queue s src;
     s \<leftarrow> upd_node (\<lambda>n. n\<lparr>nnext := head qs\<rparr>) (tail qd) s;
     s \<leftarrow> upd_queue (\<lambda>q. q\<lparr>tail := tail qs, no_items := no_items q + no_items qs\<rparr>) dst s;
     s \<leftarrow> upd_queue (\<lambda>q. q\<lparr>head := None, no_items := 0\<rparr>) src s;
     Some (YMO_OKAY, s) }"

definition ymo_queue_prepend :: "ptr \<Rightarrow> 'd option \<Rightarrow> 'd qheap \<Rightarrow> (ymo_status \<times> 'd qheap) option" where
  "ymo_queue_prepend queue item s = do {
     (node, s) \<leftarrow> create_node queue s;
     if node = None then Some (ENOMEM, s) else do {
       q \<leftarrow> ld_queue s queue;
       s \<leftarrow> upd_node (\<lambda>n. n\<lparr>ndata := item, nnext := head q, nprev := None\<rparr>) node s;
       s \<leftarrow> (if head q \<noteq> None then upd_node (\<lambda>n. n\<lparr>nprev := node\<rparr>) (head q) s
             else upd_queue (\<lambda>q. q\<lparr>tail := node\<rparr>) queue s);
       s \<leftarrow> upd_queue (\<lambda>q. q\<lparr>head := node, no_items := no_items q + 1\<rparr>) queue s;
       Some (YMO_OKAY, s)
     } }"

definition ymo_queue_popfront :: "ptr \<Rightarrow> 'd qheap \<Rightarrow> ('d option \<times> 'd qheap) option" where
  "ymo_queue_popfront queue s = do {
     q \<leftarrow> ld_queue s queue;
     let node = head q;
     if node \<noteq> None then do {
       n \<leftarrow> ld_node s node;
       s \<leftarrow> upd_queue (\<lambda>q. q\<lparr>head := nnext n\<rparr>) queue s;
       s \<leftarrow> (if node = tail q then upd_queue (\<lambda>q. q\<lparr>tail := None\<rparr>) queue s else Some s);
       s \<leftarrow> (if nnext n \<noteq> None then upd_node (\<lambda>n. n\<lparr>nprev := None\<rparr>) (nnext n) s else Some s);
       s \<leftarrow> upd_queue (\<lambda>q. q\<lparr>no_items := no_items q - 1\<rparr>) queue s;
       n \<leftarrow> ld_node s node;
       s \<leftarrow> delete_node node s;
       Some (ndata n, s)
     } else Some (None, s) }"

definition ymo_queue_popback :: "ptr \<Rightarrow> 'd qheap \<Rightarrow> ('d option \<times> 'd qheap) option" where
  "ymo_queue_popback queue s = do {
     q \<leftarrow> ld_queue s queue;
     let node = tail q;
     if node \<noteq> None then do {
       n \<leftarrow> ld_node s node;
       s \<leftarrow> upd_queue (\<lambda>q. q\<lparr>tail := nprev n\<rparr>) queue s;
       s \<leftarrow> (if node = head q then upd_queue (\<lambda>q. q\<lparr>head := None\<rparr>) queue s else Some s);
       s \<leftarrow> (if nprev n \<noteq> None then upd_node (\<lambda>n. n\<lparr>nnext := None\<rparr>) (nprev n) s else Some s);
       s \<leftarrow> upd_queue (\<lambda>q. q\<lparr>no_items := no_items q - 1\<rparr>) queue s;
       n \<leftarrow> ld_node s node;
       s \<leftarrow> delete_node node s;
       Some (ndata n, s)
     } else Some (None, s) }"

definition ymo_queue_peekfront :: "ptr \<Rightarrow> 'd qheap \<Rightarrow> 'd option option" where
  "ymo_queue_peekfront queue s = do {
     q \<leftarrow> ld_queue s queue;
     if head q \<noteq> None then map_option ndata (ld_node s (head q)) else Some None }"

definition ymo_queue_peekback :: "ptr \<Rightarrow> 'd qheap \<Rightarrow> 'd option option" where
  "ymo_queue_peekback queue s = do {
     q \<leftarrow> ld_queue s queue;
     if tail q \<noteq> None then map_option ndata (ld_node s (tail q)) else Some None }"

text \<open>The loop of \<^verbatim>\<open>ymo_queue_find\<close> on fuel; \<open>None\<close> is also a loop that has not ended.\<close>

fun queue_find_loop ::
  "nat \<Rightarrow> ('d \<Rightarrow> 'i \<Rightarrow> int) \<Rightarrow> 'i \<Rightarrow> ptr \<Rightarrow> 'd qheap \<Rightarrow> 'd option option" where
  "queue_find_loop 0 cmp_fn item current s = None"
| "queue_find_loop (Suc fuel) cmp_fn item current s =
     (if current = None then Some None
      else do {
        n \<leftarrow> ld_node s current;
        case ndata n of
          Some d \<Rightarrow> if cmp_fn d item = 0 then Some (Some d)
                    else queue_find_loop fuel cmp_fn item (nnext n) s
        | None \<Rightarrow> queue_find_loop fuel cmp_fn item (nnext n) s })"

definition ymo_queue_find ::
  "nat \<Rightarrow> ptr \<Rightarrow> ('d \<Rightarrow> 'i \<Rightarrow> int) \<Rightarrow> 'i \<Rightarrow> 'd qheap \<Rightarrow> 'd option option" where
  "ymo_queue_find fuel queue cmp_fn item s = do {
     q \<leftarrow> ld_queue s queue; queue_find_loop fuel cmp_fn item (head q) s }"

definition ymo_queue_head :: "ptr \<Rightarrow> 'd qheap \<Rightarrow> ptr option" where
  "ymo_queue_head queue s = map_option head (ld_queue s queue)"

definition ymo_queue_tail :: "ptr \<Rightarrow> 'd qheap \<Rightarrow> ptr option" where
  "ymo_queue_tail queue s = map_option tail (ld_queue s queue)"

definition ymo_queue_size :: "ptr \<Rightarrow> 'd qheap \<Rightarrow> u64 option" where
  "ymo_queue_size queue s = map_option no_items (ld_queue s queue)"

text \<open>\<^verbatim>\<open>ymo_queue_remove\<close>: the caller's node pointer is set to \<open>NULL\<close> exactly on success.\<close>

definition ymo_queue_remove :: "ptr \<Rightarrow> ptr \<Rightarrow> 'd qheap \<Rightarrow> (ymo_status \<times> ptr \<times> 'd qheap) option" where
  "ymo_queue_remove queue node s =
     (if node = None then Some (EINVAL, node, s)
      else do {
        n \<leftarrow> ld_node s node;
        q \<leftarrow> ld_queue s queue;
        if nprev n = nnext n \<and> node \<noteq> head q then Some (EINVAL, node, s)
        else do {
          s \<leftarrow> (if nprev n \<noteq> None then upd_node (\<lambda>m. m\<lparr>nnext := nnext n\<rparr>) (nprev n) s else Some s);
          s \<leftarrow> (if nnext n \<noteq> None then upd_node (\<lambda>m. m\<lparr>nprev := nprev n\<rparr>) (nnext n) s else Some s);
          s \<leftarrow> (if node = head q then upd_queue (\<lambda>q. q\<lparr>head := nnext n\<rparr>) queue s else Some s);
          s \<leftarrow> (if node = tail q then upd_queue (\<lambda>q. q\<lparr>tail := nprev n\<rparr>) queue s else Some s);
          s \<leftarrow> upd_queue (\<lambda>q. q\<lparr>no_items := no_items q - 1\<rparr>) queue s;
          s \<leftarrow> delete_node node s;
          Some (YMO_OKAY, None, s)
        } })"

fun queue_free_loop :: "nat \<Rightarrow> ptr \<Rightarrow> 'd qheap \<Rightarrow> 'd qheap option" where
  "queue_free_loop 0 current s = None"
| "queue_free_loop (Suc fuel) current s =
     (if current = None then Some s
      else do {
        n \<leftarrow> ld_node s current;
        s \<leftarrow> delete_node current s;
        queue_free_loop fuel (nnext n) s })"

definition free_block :: "ptr \<Rightarrow> 'd qheap \<Rightarrow> 'd qheap option" where
  "free_block p s = do {
     a \<leftarrow> p; n \<leftarrow> blocks s a;
     Some (s\<lparr>nodes := (\<lambda>b. if a \<le> b \<and> b < a + n then None else nodes s b),
             blocks := (blocks s)(a := None)\<rparr>) }"

definition ymo_queue_free :: "nat \<Rightarrow> ptr \<Rightarrow> 'd qheap \<Rightarrow> 'd qheap option" where
  "ymo_queue_free fuel queue s = do {
     q \<leftarrow> ld_queue s queue;
     s \<leftarrow> queue_free_loop fuel (head q) s;
     s \<leftarrow> (if pool q \<noteq> None then free_block (pool q) s else Some s);
     Some (s\<lparr>queues := (queues s)(the queue := None)\<rparr>) }"


section \<open>Linked segments\<close>

definition first :: "nat list \<Rightarrow> ptr" where
  "first as = (case as of [] \<Rightarrow> None | a # _ \<Rightarrow> Some a)"

definition final :: "nat list \<Rightarrow> ptr" where
  "final as = (if as = [] then None else Some (last as))"

lemma first_simps [simp]: "first [] = None" "first (a # as) = Some a"
  by (simp_all add: first_def)

lemma final_simps [simp]: "final [] = None" "final (as @ [a]) = Some a" "final [a] = Some a"
  by (simp_all add: final_def)

lemma first_final_None [simp]: "first as = None \<longleftrightarrow> as = []" "final as = None \<longleftrightarrow> as = []"
  by (auto simp: first_def final_def split: list.splits)

lemma first_append: "first (as @ bs) = (if as = [] then first bs else first as)"
  by (cases as) auto

lemma final_Cons: "final (a # as) = (if as = [] then Some a else final as)"
  by (simp add: final_def)

text \<open>
  The nodes of a segment are linked both ways: \<open>p\<close> is the predecessor of its first node and \<open>nx\<close> the
  successor of its last.  The free nodes of a pool are linked one way.
\<close>

fun seg :: "(nat \<rightharpoonup> 'd ymo_queue_node) \<Rightarrow> nat \<Rightarrow> ptr \<Rightarrow> nat list \<Rightarrow> ptr \<Rightarrow> bool" where
  "seg N queue p [] nx = True"
| "seg N queue p (a # as) nx =
     (case N a of None \<Rightarrow> False
      | Some n \<Rightarrow> nprev n = p \<and> nnext n = (if as = [] then nx else first as) \<and>
          nqueue n \<in> {None, Some queue} \<and> seg N queue (Some a) as nx)"

fun pseg :: "(nat \<rightharpoonup> 'd ymo_queue_node) \<Rightarrow> nat \<Rightarrow> nat list \<Rightarrow> bool" where
  "pseg N queue [] = True"
| "pseg N queue (a # as) =
     (case N a of None \<Rightarrow> False
      | Some n \<Rightarrow> nnext n = first as \<and> nqueue n = Some queue \<and> pseg N queue as)"

lemma seg_cong: "(\<And>a. a \<in> set as \<Longrightarrow> N a = M a) \<Longrightarrow> seg N queue p as nx = seg M queue p as nx"
  by (induction as arbitrary: p) (auto split: option.splits)

lemma pseg_cong: "(\<And>a. a \<in> set as \<Longrightarrow> N a = M a) \<Longrightarrow> pseg N queue as = pseg M queue as"
  by (induction as) (auto split: option.splits)

lemma seg_upd [simp]: "a \<notin> set as \<Longrightarrow> seg (N(a := v)) queue p as nx = seg N queue p as nx"
  by (rule seg_cong) auto

lemma pseg_upd [simp]: "a \<notin> set as \<Longrightarrow> pseg (N(a := v)) queue as = pseg N queue as"
  by (rule pseg_cong) auto

lemma seg_append:
  "seg N queue p (as @ bs) nx \<longleftrightarrow>
     seg N queue p as (if bs = [] then nx else first bs) \<and>
     seg N queue (if as = [] then p else final as) bs nx"
  by (induction as arbitrary: p) (auto simp: first_append final_Cons split: option.splits)

lemma seg_mapped: "seg N queue p as nx \<Longrightarrow> a \<in> set as \<Longrightarrow> \<exists>n. N a = Some n"
  by (induction as arbitrary: p) (auto split: option.splits)

text \<open>Relinking the end of a segment.\<close>

lemma seg_set_next:
  assumes "seg N queue p as nx" "as \<noteq> []" "distinct as" "N (last as) = Some n"
  shows "seg (N(last as \<mapsto> n\<lparr>nnext := nx'\<rparr>)) queue p as nx'"
proof -
  obtain bs b where as: "as = bs @ [b]" using assms(2) by (metis rev_exhaust)
  then have "seg (N(b \<mapsto> n\<lparr>nnext := nx'\<rparr>)) queue p bs (Some b)"
    using assms by (auto simp: seg_append)
  then show ?thesis using assms as by (auto simp: seg_append)
qed

lemma seg_set_prev:
  assumes "seg N queue p (a # as) nx" "distinct (a # as)" "N a = Some n"
  shows "seg (N(a \<mapsto> n\<lparr>nprev := p'\<rparr>)) queue p' (a # as) nx"
  using assms by auto

section \<open>The representation invariant\<close>

text \<open>
  The queue struct at \<open>queue\<close> represents the nodes \<open>as\<close>, front to back, with the free pool nodes \<open>ps\<close>.
\<close>

definition qrep :: "nat \<Rightarrow> 'd qheap \<Rightarrow> nat list \<Rightarrow> nat list \<Rightarrow> bool" where
  "qrep queue s as ps \<longleftrightarrow>
     (case queues s queue of None \<Rightarrow> False
      | Some q \<Rightarrow> head q = first as \<and> tail q = final as \<and> no_items q = word_of_nat (length as) \<and>
          pstack q = first ps) \<and>
     seg (nodes s) queue None as None \<and> pseg (nodes s) queue ps \<and>
     distinct (as @ ps) \<and> (\<forall>a \<in> set (as @ ps). a < fresh s)"

definition items :: "'d qheap \<Rightarrow> nat list \<Rightarrow> 'd option list" where
  "items s as = map (\<lambda>a. Option.bind (nodes s a) ndata) as"

lemma items_cong: "(\<And>a. a \<in> set as \<Longrightarrow> nodes s a = nodes t a) \<Longrightarrow> items s as = items t as"
  by (simp add: items_def)

text \<open>A node that belongs to no list, ready to be linked or released.\<close>

definition detached :: "nat \<Rightarrow> 'd qheap \<Rightarrow> nat list \<Rightarrow> nat list \<Rightarrow> nat \<Rightarrow> bool" where
  "detached queue s as ps a \<longleftrightarrow> a \<notin> set as \<and> a \<notin> set ps \<and> a < fresh s \<and>
     (case nodes s a of None \<Rightarrow> False | Some n \<Rightarrow> nqueue n \<in> {None, Some queue})"

definition same_elsewhere :: "nat set \<Rightarrow> nat \<Rightarrow> 'd qheap \<Rightarrow> 'd qheap \<Rightarrow> bool" where
  "same_elsewhere A queue s t \<longleftrightarrow>
     (\<forall>a. a \<notin> A \<longrightarrow> nodes t a = nodes s a) \<and> (\<forall>q. q \<noteq> queue \<longrightarrow> queues t q = queues s q)"

lemmas heap_ops = ld_node_def ld_queue_def upd_node_def upd_queue_def

lemma create_node_ok:
  assumes rep: "qrep queue s as ps" and room: "ps \<noteq> [] \<or> 0 < avail s"
  shows "\<exists>a t. create_node (Some queue) s = Some (Some a, t) \<and> qrep queue t as (tl ps) \<and>
    detached queue t as (tl ps) a \<and> items t as = items s as \<and>
    avail t + length (tl ps) + 1 = avail s + length ps"
proof -
  obtain q where q: "queues s queue = Some q" "head q = first as" "tail q = final as"
      "no_items q = word_of_nat (length as)" "pstack q = first ps"
    using rep by (auto simp: qrep_def split: option.splits)
  have r: "seg (nodes s) queue None as None" "pseg (nodes s) queue ps" "distinct (as @ ps)"
      "\<forall>a \<in> set (as @ ps). a < fresh s"
    using rep by (auto simp: qrep_def)
  show ?thesis
  proof (cases ps)
    case Nil
    let ?n = "\<lparr>nqueue = None, nnext = None, nprev = None, ndata = None\<rparr>"
    let ?t = "s\<lparr>nodes := (nodes s)(fresh s \<mapsto> ?n), fresh := fresh s + 1, avail := avail s - 1\<rparr>"
    have c: "create_node (Some queue) s = Some (Some (fresh s), ?t)"
      using q Nil room by (simp add: create_node_def heap_ops node_new_def Let_def)
    have "qrep queue ?t as []"
      using q r Nil
      by (auto simp: qrep_def dest: less_imp_neq)
    moreover have "items ?t as = items s as" using r by (intro items_cong) auto
    ultimately show ?thesis using c Nil room r(4) by (auto simp: detached_def)
  next
    case (Cons a ps')
    then obtain n where n: "nodes s a = Some n" "nnext n = first ps'" "nqueue n = Some queue"
        "pseg (nodes s) queue ps'"
      using r(2) by (auto split: option.splits)
    let ?N = "(nodes s)(a \<mapsto> n\<lparr>nnext := None, nprev := None\<rparr>)"
    let ?t = "s\<lparr>queues := (queues s)(queue \<mapsto> q\<lparr>pstack := first ps'\<rparr>), nodes := ?N\<rparr>"
    have c: "create_node (Some queue) s = Some (Some a, ?t)"
      using q n Cons by (simp add: create_node_def heap_ops Let_def)
    have "qrep queue ?t as ps'"
      using q r n Cons
      by (auto simp: qrep_def)
    moreover have "items ?t as = items s as" using r Cons by (intro items_cong) auto
    ultimately show ?thesis using c Cons r n by (auto simp: detached_def)
  qed
qed

lemma delete_node_ok:
  assumes rep: "qrep queue s as ps" and a: "detached queue s as ps a"
  shows "\<exists>t ps'. delete_node (Some a) s = Some t \<and> qrep queue t as ps' \<and>
    items t as = items s as \<and> avail t + length ps' = avail s + length ps + 1"
proof -
  obtain q where q: "queues s queue = Some q" "head q = first as" "tail q = final as"
      "no_items q = word_of_nat (length as)" "pstack q = first ps"
    using rep by (auto simp: qrep_def split: option.splits)
  have r: "seg (nodes s) queue None as None" "pseg (nodes s) queue ps" "distinct (as @ ps)"
      "\<forall>a \<in> set (as @ ps). a < fresh s"
    using rep by (auto simp: qrep_def)
  obtain n where n: "nodes s a = Some n" "nqueue n \<in> {None, Some queue}" "a \<notin> set as" "a \<notin> set ps" "a < fresh s"
    using a by (auto simp: detached_def split: option.splits)
  show ?thesis
  proof (cases "nqueue n")
    case None
    let ?t = "s\<lparr>nodes := (nodes s)(a := None), avail := avail s + 1\<rparr>"
    have c: "delete_node (Some a) s = Some ?t" using n None by (simp add: delete_node_def heap_ops)
    have "qrep queue ?t as ps"
      using q r n by (auto simp: qrep_def)
    moreover have "items ?t as = items s as" using n by (intro items_cong) auto
    ultimately show ?thesis using c by auto
  next
    case (Some q')
    then have own: "nqueue n = Some queue" using n by auto
    let ?N = "(nodes s)(a \<mapsto> n\<lparr>nprev := None, nnext := first ps\<rparr>)"
    let ?t = "s\<lparr>nodes := ?N, queues := (queues s)(queue \<mapsto> q\<lparr>pstack := Some a\<rparr>)\<rparr>"
    have c: "delete_node (Some a) s = Some ?t"
      using n own q by (cases ps) (simp_all add: delete_node_def heap_ops Let_def)
    have "qrep queue ?t as (a # ps)"
      using q r n own
      by (auto simp: qrep_def)
    moreover have "items ?t as = items s as" using n by (intro items_cong) auto
    ultimately show ?thesis using c by (auto intro!: exI [of _ "a # ps"])
  qed
qed


section \<open>The operations on represented queues\<close>

lemma qrep_queue:
  assumes "qrep queue s as ps"
  obtains q where "queues s queue = Some q" "head q = first as" "tail q = final as"
    "no_items q = word_of_nat (length as)" "pstack q = first ps"
  using assms by (auto simp: qrep_def split: option.splits)

lemma qrep_parts:
  assumes "qrep queue s as ps"
  shows "seg (nodes s) queue None as None" "pseg (nodes s) queue ps" "distinct (as @ ps)"
    "\<forall>a \<in> set (as @ ps). a < fresh s"
  using assms by (auto simp: qrep_def)

lemma items_simps [simp]:
  "items s [] = []" "items s (a # as) = Option.bind (nodes s a) ndata # items s as"
  "items s (as @ bs) = items s as @ items s bs"
  by (simp_all add: items_def)

lemma length_items [simp]: "length (items s as) = length as"
  by (simp add: items_def)

lemma append_ok:
  assumes "qrep queue s as ps" "ps \<noteq> [] \<or> 0 < avail s"
  shows "\<exists>a t. ymo_queue_append (Some queue) item s = Some (YMO_OKAY, t) \<and>
    qrep queue t (as @ [a]) (tl ps) \<and> items t (as @ [a]) = items s as @ [item] \<and>
    avail t + length (tl ps) + 1 = avail s + length ps"
proof -
  obtain a t where c: "create_node (Some queue) s = Some (Some a, t)" and rep: "qrep queue t as (tl ps)"
    and d: "detached queue t as (tl ps) a" and it: "items t as = items s as"
    and av: "avail t + length (tl ps) + 1 = avail s + length ps"
    using create_node_ok [OF assms] by blast
  obtain q where q: "queues t queue = Some q" "head q = first as" "tail q = final as"
      "no_items q = word_of_nat (length as)" "pstack q = first (tl ps)"
    using qrep_queue [OF rep] .
  note r = qrep_parts [OF rep]
  obtain n where n: "nodes t a = Some n" "nqueue n \<in> {None, Some queue}" "a \<notin> set as" "a \<notin> set (tl ps)" "a < fresh t"
    using d by (auto simp: detached_def split: option.splits)
  let ?n = "n\<lparr>ndata := item, nnext := None, nprev := final as\<rparr>"
  show ?thesis
  proof (cases "as = []")
    case True
    let ?t = "t\<lparr>nodes := (nodes t)(a \<mapsto> ?n), queues := (queues t)(queue \<mapsto>
        q\<lparr>head := Some a, tail := Some a, no_items := no_items q + 1\<rparr>)\<rparr>"
    have "ymo_queue_append (Some queue) item s = Some (YMO_OKAY, ?t)"
      using c q n True by (simp add: ymo_queue_append_def heap_ops)
    moreover have "qrep queue ?t [a] (tl ps)" using q r n True by (auto simp: qrep_def)
    ultimately show ?thesis using it av n True by auto
  next
    case False
    let ?l = "last as"
    have l: "?l \<in> set as" "final as = Some ?l" using False by (simp_all add: final_def)
    then obtain m where m: "nodes t ?l = Some m" using seg_mapped r(1) by blast
    have al: "a \<noteq> ?l" using l n by auto
    let ?N = "(nodes t)(?l \<mapsto> m\<lparr>nnext := Some a\<rparr>, a \<mapsto> ?n)"
    let ?t = "t\<lparr>nodes := ?N, queues := (queues t)(queue \<mapsto>
        q\<lparr>tail := Some a, no_items := no_items q + 1\<rparr>)\<rparr>"
    have "ymo_queue_append (Some queue) item s = Some (YMO_OKAY, ?t)"
      using c q n l m al by (simp add: ymo_queue_append_def heap_ops fun_upd_twist [of a])
    moreover have "seg ?N queue None as (Some a)"
      using seg_set_next [OF r(1) False _ m, of "Some a"] r(3) n by simp
    moreover have "?l \<notin> set (tl ps)" using r(3) l by auto
    ultimately have "ymo_queue_append (Some queue) item s = Some (YMO_OKAY, ?t)" "qrep queue ?t (as @ [a]) (tl ps)"
      using q r n l al False by (auto simp: qrep_def seg_append first_append)
    moreover have "items ?t as = items t as"
      using m n by (auto simp: items_def)
    ultimately show ?thesis using it av n by (intro exI [of _ a] exI [of _ ?t]) auto
  qed
qed

lemma prepend_ok:
  assumes "qrep queue s as ps" "ps \<noteq> [] \<or> 0 < avail s"
  shows "\<exists>a t. ymo_queue_prepend (Some queue) item s = Some (YMO_OKAY, t) \<and>
    qrep queue t (a # as) (tl ps) \<and> items t (a # as) = item # items s as \<and>
    avail t + length (tl ps) + 1 = avail s + length ps"
proof -
  obtain a t where c: "create_node (Some queue) s = Some (Some a, t)" and rep: "qrep queue t as (tl ps)"
    and d: "detached queue t as (tl ps) a" and it: "items t as = items s as"
    and av: "avail t + length (tl ps) + 1 = avail s + length ps"
    using create_node_ok [OF assms] by blast
  obtain q where q: "queues t queue = Some q" "head q = first as" "tail q = final as"
      "no_items q = word_of_nat (length as)" "pstack q = first (tl ps)"
    using qrep_queue [OF rep] .
  note r = qrep_parts [OF rep]
  obtain n where n: "nodes t a = Some n" "nqueue n \<in> {None, Some queue}" "a \<notin> set as" "a \<notin> set (tl ps)" "a < fresh t"
    using d by (auto simp: detached_def split: option.splits)
  let ?n = "n\<lparr>ndata := item, nnext := first as, nprev := None\<rparr>"
  show ?thesis
  proof (cases as)
    case Nil
    let ?t = "t\<lparr>nodes := (nodes t)(a \<mapsto> ?n), queues := (queues t)(queue \<mapsto>
        q\<lparr>tail := Some a, head := Some a, no_items := no_items q + 1\<rparr>)\<rparr>"
    have "ymo_queue_prepend (Some queue) item s = Some (YMO_OKAY, ?t)"
      using c q n Nil by (simp add: ymo_queue_prepend_def heap_ops)
    moreover have "qrep queue ?t [a] (tl ps)" using q r n Nil by (auto simp: qrep_def)
    ultimately show ?thesis using it av n Nil by auto
  next
    case (Cons b bs)
    obtain m where m: "nodes t b = Some m" using seg_mapped r(1) Cons by (metis list.set_intros(1))
    have ab: "a \<noteq> b" using n Cons by auto
    let ?N = "(nodes t)(b \<mapsto> m\<lparr>nprev := Some a\<rparr>, a \<mapsto> ?n)"
    let ?t = "t\<lparr>nodes := ?N, queues := (queues t)(queue \<mapsto>
        q\<lparr>head := Some a, no_items := no_items q + 1\<rparr>)\<rparr>"
    have "ymo_queue_prepend (Some queue) item s = Some (YMO_OKAY, ?t)"
      using c q n Cons m ab by (simp add: ymo_queue_prepend_def heap_ops fun_upd_twist [of a])
    moreover have "seg ?N queue (Some a) as None"
      using seg_set_prev [of "nodes t" queue None b bs None m "Some a"] r(1,3) n Cons m by simp
    moreover have "b \<notin> set (tl ps)" using r(3) Cons by auto
    ultimately have "ymo_queue_prepend (Some queue) item s = Some (YMO_OKAY, ?t)" "qrep queue ?t (a # as) (tl ps)"
      using q r n ab Cons by (auto simp: qrep_def final_Cons)
    moreover have "items ?t as = items t as"
      using m n by (auto simp: items_def)
    ultimately show ?thesis using it av n by (intro exI [of _ a] exI [of _ ?t]) auto
  qed
qed


text \<open>Taking the node \<open>a\<close> out from between \<open>xs\<close> and \<open>ys\<close>.\<close>

definition relink :: "nat list \<Rightarrow> nat list \<Rightarrow> (nat \<rightharpoonup> 'd ymo_queue_node) \<Rightarrow> (nat \<rightharpoonup> 'd ymo_queue_node)" where
  "relink xs ys N =
     (let N = (if xs = [] then N else N(last xs \<mapsto> (the (N (last xs)))\<lparr>nnext := first ys\<rparr>))
      in if ys = [] then N else N(hd ys \<mapsto> (the (N (hd ys)))\<lparr>nprev := final xs\<rparr>))"

lemma relink_elsewhere: "b \<notin> set xs \<Longrightarrow> b \<notin> set ys \<Longrightarrow> relink xs ys N b = N b"
proof -
  assume "b \<notin> set xs" "b \<notin> set ys"
  then have "xs \<noteq> [] \<Longrightarrow> b \<noteq> last xs" "ys \<noteq> [] \<Longrightarrow> b \<noteq> hd ys" by (metis last_in_set, metis list.set_sel(1))
  then show ?thesis by (simp add: relink_def Let_def)
qed

lemma relink_data:
  assumes "seg N queue p (xs @ a # ys) nx" "b \<in> set xs \<union> set ys"
  shows "Option.bind (relink xs ys N b) ndata = Option.bind (N b) ndata"
proof -
  have l: "\<exists>n. N (last xs) = Some n" if "xs \<noteq> []" using seg_mapped [OF assms(1), of "last xs"] that by simp
  have h: "\<exists>n. N (hd ys) = Some n" if "ys \<noteq> []" using seg_mapped [OF assms(1), of "hd ys"] that by simp
  show ?thesis
  proof (cases "xs = []")
    case True
    with h show ?thesis by (cases "ys = []") (auto simp: relink_def Let_def)
  next
    case False
    with l obtain n where "N (last xs) = Some n" by blast
    with h False show ?thesis by (cases "ys = []") (auto simp: relink_def Let_def)
  qed
qed

lemma relink_seg:
  assumes "seg N queue None (xs @ a # ys) None" "distinct (xs @ a # ys)"
  shows "seg (relink xs ys N) queue None (xs @ ys) None"
proof -
  have xs: "seg N queue None xs (Some a)" and ys: "seg N queue (Some a) ys None"
    using assms(1) by (auto simp: seg_append split: option.splits)
  let ?N = "if xs = [] then N else N(last xs \<mapsto> (the (N (last xs)))\<lparr>nnext := first ys\<rparr>)"
  have xs': "seg ?N queue None xs (first ys)"
  proof (cases "xs = []")
    case False
    then obtain m where m: "N (last xs) = Some m" using xs seg_mapped last_in_set by blast
    with False seg_set_next [OF xs False _ m, of "first ys"] assms(2) show ?thesis by simp
  qed simp
  have ys': "seg ?N queue (Some a) ys None"
  proof (cases "xs = []")
    case False
    have "set xs \<inter> set ys = {}" using assms(2) by auto
    then have "last xs \<notin> set ys" using False by (metis IntI emptyE last_in_set)
    with ys False show ?thesis by simp
  qed (simp add: ys)
  show ?thesis
  proof (cases ys)
    case Nil
    with xs' show ?thesis by (cases "xs = []") (simp_all add: relink_def)
  next
    case (Cons b bs)
    obtain m where m: "?N b = Some m"
      using seg_mapped [OF ys'] Cons by (metis list.set_intros(1))
    have "seg (?N(b \<mapsto> m\<lparr>nprev := final xs\<rparr>)) queue (final xs) (b # bs) None"
      by (rule seg_set_prev [where p = "Some a"]) (use ys' m Cons assms(2) in simp_all)
    moreover have "relink xs ys N = ?N(b \<mapsto> m\<lparr>nprev := final xs\<rparr>)"
      using m Cons by (cases "xs = []") (simp_all add: relink_def del: fun_upd_apply)
    moreover have "b \<notin> set xs" using assms(2) Cons by auto
    ultimately show ?thesis
      using xs' Cons by (simp add: seg_append del: seg.simps(2)) (cases "xs = []"; simp del: seg.simps(2))
  qed
qed

definition unlinked :: "nat \<Rightarrow> nat list \<Rightarrow> nat list \<Rightarrow> 'd qheap \<Rightarrow> 'd qheap" where
  "unlinked queue xs ys s =
     s\<lparr>nodes := relink xs ys (nodes s),
       queues := (queues s)(queue := map_option
         (\<lambda>q. q\<lparr>head := first (xs @ ys), tail := final (xs @ ys), no_items := no_items q - 1\<rparr>)
         (queues s queue))\<rparr>"

lemma unlinked_ok:
  assumes rep: "qrep queue s (xs @ a # ys) ps"
  defines "t \<equiv> unlinked queue xs ys s"
  shows "qrep queue t (xs @ ys) ps" "detached queue t (xs @ ys) ps a"
    "items t (xs @ ys) = items s xs @ items s ys" "nodes t a = nodes s a" "avail t = avail s"
proof -
  obtain q where q: "queues s queue = Some q" "no_items q = word_of_nat (length (xs @ a # ys))"
      "pstack q = first ps"
    using qrep_queue [OF rep] by metis
  note r = qrep_parts [OF rep]
  have a: "relink xs ys (nodes s) a = nodes s a" using r(3) by (intro relink_elsewhere) auto
  then show "nodes t a = nodes s a" by (simp add: t_def unlinked_def)
  have sg: "seg (relink xs ys (nodes s)) queue None (xs @ ys) None" using relink_seg [OF r(1)] r(3) by (metis append.assoc append_Cons distinct_append)
  have pg: "pseg (relink xs ys (nodes s)) queue ps"
  proof (subst pseg_cong [of ps _ "nodes s"])
    show "relink xs ys (nodes s) b = nodes s b" if "b \<in> set ps" for b
      using r(3) that by (intro relink_elsewhere) auto
  qed (rule r(2))
  show "qrep queue t (xs @ ys) ps"
    using q r(3,4) sg pg by (simp add: qrep_def t_def unlinked_def)
  show "detached queue t (xs @ ys) ps a"
    using r(1,3,4) a by (auto simp: detached_def t_def unlinked_def seg_append split: option.splits)
  show "items t (xs @ ys) = items s xs @ items s ys"
    using relink_data [OF r(1)] by (auto simp: items_def t_def unlinked_def)
  show "avail t = avail s" by (simp add: t_def unlinked_def)
qed

lemma unlink_delete:
  assumes rep: "qrep queue s (xs @ a # ys) ps"
  shows "\<exists>n t ps'. ld_node (unlinked queue xs ys s) (Some a) = Some n \<and>
    ndata n = Option.bind (nodes s a) ndata \<and>
    delete_node (Some a) (unlinked queue xs ys s) = Some t \<and> qrep queue t (xs @ ys) ps' \<and>
    items t (xs @ ys) = items s xs @ items s ys \<and> avail t + length ps' = avail s + length ps + 1"
proof -
  note u = unlinked_ok [OF rep]
  obtain n where "nodes s a = Some n" using seg_mapped [OF qrep_parts(1) [OF rep], of a] by auto
  then show ?thesis using delete_node_ok [OF u(1,2)] u(3-5) by (auto simp: ld_node_def)
qed


lemma popfront_ok:
  assumes rep: "qrep queue s (a # as) ps"
  shows "\<exists>t ps'. ymo_queue_popfront (Some queue) s = Some (Option.bind (nodes s a) ndata, t) \<and>
    qrep queue t as ps' \<and> items t as = items s as \<and> avail t + length ps' = avail s + length ps + 1"
proof -
  have rep': "qrep queue s ([] @ a # as) ps" using rep by simp
  obtain q where q: "queues s queue = Some q" "head q = Some a" "tail q = final (a # as)"
    using qrep_queue [OF rep] by (metis first_simps(2))
  note r = qrep_parts [OF rep]
  obtain n where n: "nodes s a = Some n" "nnext n = first as" using r(1) by (auto split: option.splits)
  have "ymo_queue_popfront (Some queue) s = do {
      n \<leftarrow> ld_node (unlinked queue [] as s) (Some a);
      t \<leftarrow> delete_node (Some a) (unlinked queue [] as s); Some (ndata n, t) }"
  proof (cases as)
    case Nil
    with q n show ?thesis
      by (cases q) (simp add: ymo_queue_popfront_def heap_ops unlinked_def relink_def)
  next
    case (Cons b bs)
    obtain m where m: "nodes s b = Some m" using seg_mapped [OF r(1), of b] Cons by auto
    have "a \<noteq> last (b # bs)" using r(3) Cons last_in_set [of "b # bs"] by (metis distinct.simps(2) distinct_append list.discI)
    with q n m Cons r(3) show ?thesis
      by (cases q) (simp add: ymo_queue_popfront_def heap_ops unlinked_def relink_def final_def)
  qed
  with unlink_delete [OF rep'] show ?thesis by auto
qed

lemma popback_ok:
  assumes rep: "qrep queue s (as @ [a]) ps"
  shows "\<exists>t ps'. ymo_queue_popback (Some queue) s = Some (Option.bind (nodes s a) ndata, t) \<and>
    qrep queue t as ps' \<and> items t as = items s as \<and> avail t + length ps' = avail s + length ps + 1"
proof -
  have rep': "qrep queue s (as @ a # []) ps" using rep by simp
  obtain q where q: "queues s queue = Some q" "head q = first (as @ [a])" "tail q = Some a"
    using qrep_queue [OF rep] by (metis final_simps(2))
  note r = qrep_parts [OF rep]
  obtain n where n: "nodes s a = Some n" "nprev n = final as"
    using r(1) by (cases "as = []") (auto simp: seg_append split: option.splits)
  have "ymo_queue_popback (Some queue) s = do {
      n \<leftarrow> ld_node (unlinked queue as [] s) (Some a);
      t \<leftarrow> delete_node (Some a) (unlinked queue as [] s); Some (ndata n, t) }"
  proof (cases as)
    case Nil
    with q n show ?thesis
      by (cases q) (simp add: ymo_queue_popback_def heap_ops unlinked_def relink_def)
  next
    case (Cons b bs)
    have l: "last as \<in> set as" "final as = Some (last as)" using Cons by (simp_all add: final_def)
    then obtain m where m: "nodes s (last as) = Some m" using seg_mapped [OF r(1), of "last as"] by auto
    have "a \<noteq> last as" "a \<noteq> b" using r(3) l Cons by auto
    with q n m l r(3) Cons show ?thesis
      by (cases q) (simp add: ymo_queue_popback_def heap_ops unlinked_def relink_def split del: if_split)
  qed
  with unlink_delete [OF rep'] show ?thesis by auto
qed

lemma remove_ok:
  assumes rep: "qrep queue s (xs @ a # ys) ps"
  shows "\<exists>t ps'. ymo_queue_remove (Some queue) (Some a) s = Some (YMO_OKAY, None, t) \<and>
    qrep queue t (xs @ ys) ps' \<and> items t (xs @ ys) = items s xs @ items s ys \<and>
    avail t + length ps' = avail s + length ps + 1"
proof -
  obtain q where q: "queues s queue = Some q" "head q = first (xs @ a # ys)" "tail q = final (xs @ a # ys)"
    using qrep_queue [OF rep] by metis
  note r = qrep_parts [OF rep]
  obtain n where n: "nodes s a = Some n" "nprev n = final xs" "nnext n = first ys"
    using r(1) by (cases "xs = []") (auto simp: seg_append split: option.splits)
  have d: "a \<notin> set xs" "a \<notin> set ys" "set xs \<inter> set ys = {}" using r(3) by auto
  have lx: "last xs \<in> set xs" "\<exists>m. nodes s (last xs) = Some m" if "xs \<noteq> []"
    using that seg_mapped [OF r(1), of "last xs"] by auto
  have hy: "hd ys \<in> set ys" "\<exists>m. nodes s (hd ys) = Some m" if "ys \<noteq> []"
    using that seg_mapped [OF r(1), of "hd ys"] by auto
  have guard: "\<not> (nprev n = nnext n \<and> Some a \<noteq> head q)"
    using n q lx hy d by (cases xs; cases ys) (auto simp: final_def split: if_splits)
  have hd: "Some a = head q \<longleftrightarrow> xs = []" using q d by (cases xs) auto
  have tl: "Some a = tail q \<longleftrightarrow> ys = []" using q d hy last_in_set [of ys] by (auto simp: final_def)
  have "ymo_queue_remove (Some queue) (Some a) s = do {
      t \<leftarrow> delete_node (Some a) (unlinked queue xs ys s); Some (YMO_OKAY, None, t) }"
  proof (cases "xs = []"; cases "ys = []")
    assume "xs = []" "ys = []"
    with q n show ?thesis
      by (cases q) (simp add: ymo_queue_remove_def heap_ops unlinked_def relink_def)
  next
    assume xs: "xs = []" and ys: "ys \<noteq> []"
    obtain b bs m where "ys = b # bs" "nodes s b = Some m" using ys hy(2) by (cases ys) auto
    with q n xs guard hd tl show ?thesis
      by (cases q) (simp add: ymo_queue_remove_def heap_ops unlinked_def relink_def final_def)
  next
    assume xs: "xs \<noteq> []" and ys: "ys = []"
    obtain m where "nodes s (last xs) = Some m" using xs lx(2) by auto
    with q n xs ys guard hd tl show ?thesis
      by (cases q) (simp add: ymo_queue_remove_def heap_ops unlinked_def relink_def final_def first_append)
  next
    assume xs: "xs \<noteq> []" and ys: "ys \<noteq> []"
    obtain b bs m where y: "ys = b # bs" "nodes s b = Some m" using ys hy(2) by (cases ys) auto
    obtain k where k: "nodes s (last xs) = Some k" using xs lx(2) by auto
    have "last xs \<noteq> b" using lx(1) [OF xs] d y by auto
    with q n xs y k guard hd tl show ?thesis
      by (cases q) (simp add: ymo_queue_remove_def heap_ops unlinked_def relink_def final_def first_append)
  qed
  with unlink_delete [OF rep] show ?thesis by auto
qed

lemma peek_ok:
  assumes rep: "qrep queue s as ps"
  shows "ymo_queue_peekfront (Some queue) s = Some (case items s as of [] \<Rightarrow> None | x # _ \<Rightarrow> x)"
    "ymo_queue_peekback (Some queue) s = Some (if as = [] then None else last (items s as))"
    "ymo_queue_size (Some queue) s = Some (word_of_nat (length as))"
proof -
  obtain q where q: "queues s queue = Some q" "head q = first as" "tail q = final as"
      "no_items q = word_of_nat (length as)"
    using qrep_queue [OF rep] by metis
  note r = qrep_parts [OF rep]
  show "ymo_queue_peekfront (Some queue) s = Some (case items s as of [] \<Rightarrow> None | x # _ \<Rightarrow> x)"
    using q r(1) by (cases as) (auto simp: ymo_queue_peekfront_def heap_ops split: option.splits)
  show "ymo_queue_size (Some queue) s = Some (word_of_nat (length as))"
    using q by (simp add: ymo_queue_size_def heap_ops)
  show "ymo_queue_peekback (Some queue) s = Some (if as = [] then None else last (items s as))"
  proof (cases "as = []")
    case False
    then obtain n where "nodes s (last as) = Some n" using seg_mapped [OF r(1)] by (metis last_in_set)
    with q False show ?thesis
      by (simp add: ymo_queue_peekback_def heap_ops final_def items_def last_map)
  qed (simp add: q ymo_queue_peekback_def heap_ops)
qed

lemma find_ok:
  assumes rep: "qrep queue s as ps" and fuel: "length as < fuel"
  shows "ymo_queue_find fuel (Some queue) cmp_fn item s =
    Some (List.find (\<lambda>d. cmp_fn d item = 0) (map the (filter (\<lambda>d. d \<noteq> None) (items s as))))"
proof -
  have "queue_find_loop fuel cmp_fn item (first as) s =
      Some (List.find (\<lambda>d. cmp_fn d item = 0) (map the (filter (\<lambda>d. d \<noteq> None) (items s as))))"
    if "seg (nodes s) queue p as None" "length as < fuel" for p as fuel
    using that
  proof (induction as arbitrary: p fuel)
    case Nil
    then show ?case by (cases fuel) auto
  next
    case (Cons a as)
    obtain n where n: "nodes s a = Some n" "nnext n = first as" "seg (nodes s) queue (Some a) as None"
      using Cons.prems(1) by (cases "nodes s a") (auto split: if_splits)
    obtain f where f: "fuel = Suc f" "length as < f" using Cons.prems(2) by (cases fuel) auto
    show ?case using Cons.IH [OF n(3) f(2)] n f by (cases "ndata n") (simp_all add: heap_ops)
  qed
  note loop = this [OF qrep_parts(1) [OF rep] fuel]
  obtain q where "queues s queue = Some q" "head q = first as" using qrep_queue [OF rep] by metis
  with loop show ?thesis by (simp add: ymo_queue_find_def heap_ops)
qed


lemma pop_empty:
  assumes "qrep queue s [] ps"
  shows "ymo_queue_popfront (Some queue) s = Some (None, s)" "ymo_queue_popback (Some queue) s = Some (None, s)"
proof -
  obtain q where "queues s queue = Some q" "head q = None" "tail q = None"
    using qrep_queue [OF assms] by (metis first_simps(1) final_simps(1))
  then show "ymo_queue_popfront (Some queue) s = Some (None, s)" "ymo_queue_popback (Some queue) s = Some (None, s)"
    by (simp_all add: ymo_queue_popfront_def ymo_queue_popback_def heap_ops)
qed

section \<open>The interface of a deque\<close>

text \<open>
  \<open>rep s k xs\<close>: the state \<open>s\<close> holds the items \<open>xs\<close> and has room for at least \<open>k\<close> more.  Popping from
  an empty deque returns \<open>null\<close>.
\<close>

datatype 'x dq_op = PushBack 'x | PushFront 'x | PopFront | PopBack

fun dq_run ::
  "('x \<Rightarrow> 's \<Rightarrow> 's option) \<Rightarrow> ('x \<Rightarrow> 's \<Rightarrow> 's option) \<Rightarrow> ('s \<Rightarrow> ('x \<times> 's) option) \<Rightarrow>
   ('s \<Rightarrow> ('x \<times> 's) option) \<Rightarrow> 'x dq_op list \<Rightarrow> 's \<Rightarrow> ('x list \<times> 's) option" where
  "dq_run pb pf ppf ppb [] s = Some ([], s)"
| "dq_run pb pf ppf ppb (PushBack x # ops) s = do { s \<leftarrow> pb x s; dq_run pb pf ppf ppb ops s }"
| "dq_run pb pf ppf ppb (PushFront x # ops) s = do { s \<leftarrow> pf x s; dq_run pb pf ppf ppb ops s }"
| "dq_run pb pf ppf ppb (PopFront # ops) s =
     do { (x, s) \<leftarrow> ppf s; (out, s) \<leftarrow> dq_run pb pf ppf ppb ops s; Some (x # out, s) }"
| "dq_run pb pf ppf ppb (PopBack # ops) s =
     do { (x, s) \<leftarrow> ppb s; (out, s) \<leftarrow> dq_run pb pf ppf ppb ops s; Some (x # out, s) }"

text \<open>The same operations on a list of at most \<open>cap\<close> items; \<open>None\<close> when it gets longer.\<close>

fun dq_spec :: "nat \<Rightarrow> 'x \<Rightarrow> 'x dq_op list \<Rightarrow> 'x list \<Rightarrow> ('x list \<times> 'x list) option" where
  "dq_spec cap null [] xs = Some ([], xs)"
| "dq_spec cap null (PushBack x # ops) xs =
     (if length xs < cap then dq_spec cap null ops (xs @ [x]) else None)"
| "dq_spec cap null (PushFront x # ops) xs =
     (if length xs < cap then dq_spec cap null ops (x # xs) else None)"
| "dq_spec cap null (PopFront # ops) xs =
     map_option (\<lambda>(out, xs'). ((case xs of [] \<Rightarrow> null | x # _ \<Rightarrow> x) # out, xs')) (dq_spec cap null ops (tl xs))"
| "dq_spec cap null (PopBack # ops) xs =
     map_option (\<lambda>(out, xs'). ((if xs = [] then null else last xs) # out, xs'))
       (dq_spec cap null ops (butlast xs))"

locale deque =
  fixes rep :: "'s \<Rightarrow> nat \<Rightarrow> 'x list \<Rightarrow> bool" and null :: 'x
    and push_back :: "'x \<Rightarrow> 's \<Rightarrow> 's option" and push_front :: "'x \<Rightarrow> 's \<Rightarrow> 's option"
    and pop_front :: "'s \<Rightarrow> ('x \<times> 's) option" and pop_back :: "'s \<Rightarrow> ('x \<times> 's) option"
  assumes push_back: "rep s (Suc k) xs \<Longrightarrow> \<exists>t. push_back x s = Some t \<and> rep t k (xs @ [x])"
    and push_front: "rep s (Suc k) xs \<Longrightarrow> \<exists>t. push_front x s = Some t \<and> rep t k (x # xs)"
    and pop_front: "rep s k (x # xs) \<Longrightarrow> \<exists>t. pop_front s = Some (x, t) \<and> rep t (Suc k) xs"
    and pop_back: "rep s k (xs @ [x]) \<Longrightarrow> \<exists>t. pop_back s = Some (x, t) \<and> rep t (Suc k) xs"
    and pop_empty: "rep s k [] \<Longrightarrow> pop_front s = Some (null, s) \<and> pop_back s = Some (null, s)"
begin

lemma run_refines:
  "rep s k xs \<Longrightarrow> dq_spec (k + length xs) null ops xs = Some (out, ys) \<Longrightarrow>
   \<exists>t j. dq_run push_back push_front pop_front pop_back ops s = Some (out, t) \<and>
     rep t j ys \<and> j + length ys = k + length xs"
proof (induction ops arbitrary: s k xs out)
  case Nil
  then show ?case by auto
next
  case (Cons op ops)
  show ?case
  proof (cases op)
    case (PushBack x)
    with Cons.prems obtain j where k: "k = Suc j" by (cases k) auto
    then obtain t where t: "push_back x s = Some t" "rep t j (xs @ [x])"
      using push_back Cons.prems(1) by blast
    then show ?thesis using Cons.IH [OF t(2)] Cons.prems(2) PushBack k by auto
  next
    case (PushFront x)
    with Cons.prems obtain j where k: "k = Suc j" by (cases k) auto
    then obtain t where t: "push_front x s = Some t" "rep t j (x # xs)"
      using push_front Cons.prems(1) by blast
    then show ?thesis using Cons.IH [OF t(2)] Cons.prems(2) PushFront k by auto
  next
    case PopFront
    show ?thesis
    proof (cases xs)
      case Nil
      then show ?thesis using Cons.IH [OF Cons.prems(1)] Cons.prems pop_empty PopFront by auto
    next
      case (Cons x zs)
      then obtain t where t: "pop_front s = Some (x, t)" "rep t (Suc k) zs"
        using pop_front Cons.prems(1) by blast
      then show ?thesis using Cons.IH [OF t(2)] Cons.prems(2) PopFront \<open>xs = x # zs\<close> by fastforce
    qed
  next
    case PopBack
    show ?thesis
    proof (cases xs rule: rev_cases)
      case Nil
      then show ?thesis using Cons.IH [OF Cons.prems(1)] Cons.prems pop_empty PopBack by auto
    next
      case (snoc zs x)
      then obtain t where t: "pop_back s = Some (x, t)" "rep t (Suc k) zs"
        using pop_back Cons.prems(1) by blast
      then show ?thesis using Cons.IH [OF t(2)] Cons.prems(2) PopBack snoc by fastforce
    qed
  qed
qed

end

definition queue_rep :: "nat \<Rightarrow> 'd qheap \<Rightarrow> nat \<Rightarrow> 'd option list \<Rightarrow> bool" where
  "queue_rep queue s k xs \<longleftrightarrow> (\<exists>as ps. qrep queue s as ps \<and> items s as = xs \<and> k = avail s + length ps)"

definition queue_push ::
  "(ptr \<Rightarrow> 'd option \<Rightarrow> 'd qheap \<Rightarrow> (ymo_status \<times> 'd qheap) option) \<Rightarrow> nat \<Rightarrow> 'd option \<Rightarrow> 'd qheap \<Rightarrow> 'd qheap option" where
  "queue_push f queue x s = do { (st, t) \<leftarrow> f (Some queue) x s; if st = YMO_OKAY then Some t else None }"

interpretation yq: deque "queue_rep queue" None "queue_push ymo_queue_append queue"
  "queue_push ymo_queue_prepend queue" "ymo_queue_popfront (Some queue)" "ymo_queue_popback (Some queue)"
proof
  fix s :: "'a qheap" and k xs x
  show "\<exists>t. queue_push ymo_queue_append queue x s = Some t \<and> queue_rep queue t k (xs @ [x])"
    if that_rep: "queue_rep queue s (Suc k) xs"
  proof -
    obtain as ps where r: "qrep queue s as ps" "items s as = xs" "Suc k = avail s + length ps"
      using that_rep by (auto simp: queue_rep_def)
    then have "ps \<noteq> [] \<or> 0 < avail s" by auto
    from append_ok [OF r(1) this, of x] obtain a t where
      t: "ymo_queue_append (Some queue) x s = Some (YMO_OKAY, t)" "qrep queue t (as @ [a]) (tl ps)"
        "items t (as @ [a]) = items s as @ [x]" "avail t + length (tl ps) + 1 = avail s + length ps" by blast
    then have "queue_rep queue t k (xs @ [x])" using r unfolding queue_rep_def by (metis Suc_eq_plus1 Suc_inject)
    with t(1) show ?thesis by (simp add: queue_push_def)
  qed
  show "\<exists>t. queue_push ymo_queue_prepend queue x s = Some t \<and> queue_rep queue t k (x # xs)"
    if that_rep: "queue_rep queue s (Suc k) xs"
  proof -
    obtain as ps where r: "qrep queue s as ps" "items s as = xs" "Suc k = avail s + length ps"
      using that_rep by (auto simp: queue_rep_def)
    then have "ps \<noteq> [] \<or> 0 < avail s" by auto
    from prepend_ok [OF r(1) this, of x] obtain a t where
      t: "ymo_queue_prepend (Some queue) x s = Some (YMO_OKAY, t)" "qrep queue t (a # as) (tl ps)"
        "items t (a # as) = x # items s as" "avail t + length (tl ps) + 1 = avail s + length ps" by blast
    then have "queue_rep queue t k (x # xs)" using r unfolding queue_rep_def by (metis Suc_eq_plus1 Suc_inject)
    with t(1) show ?thesis by (simp add: queue_push_def)
  qed
  show "\<exists>t. ymo_queue_popfront (Some queue) s = Some (x, t) \<and> queue_rep queue t (Suc k) xs"
    if that_rep: "queue_rep queue s k (x # xs)"
  proof -
    obtain as ps where r: "qrep queue s as ps" "items s as = x # xs" "k = avail s + length ps"
      using that_rep by (auto simp: queue_rep_def)
    obtain a bs where as: "as = a # bs" using r(2) by (cases as) auto
    from popfront_ok [OF r(1) [unfolded as]] r as show ?thesis
      by (auto simp: queue_rep_def) (metis add_Suc_right)
  qed
  show "\<exists>t. ymo_queue_popback (Some queue) s = Some (x, t) \<and> queue_rep queue t (Suc k) xs"
    if that_rep: "queue_rep queue s k (xs @ [x])"
  proof -
    obtain as ps where r: "qrep queue s as ps" "items s as = xs @ [x]" "k = avail s + length ps"
      using that_rep by (auto simp: queue_rep_def)
    obtain a bs where as: "as = bs @ [a]" using r(2) by (cases as rule: rev_cases) auto
    from popback_ok [OF r(1) [unfolded as]] r as show ?thesis
      by (auto simp: queue_rep_def) (metis add_Suc_right)
  qed
  show "ymo_queue_popfront (Some queue) s = Some (None, s) \<and> ymo_queue_popback (Some queue) s = Some (None, s)"
    if that_rep: "queue_rep queue s k []"
  proof -
    obtain as ps where r: "qrep queue s as ps" "items s as = []" using that_rep by (auto simp: queue_rep_def)
    then have "as = []" by (cases as) auto
    with r(1) show ?thesis using pop_empty by blast
  qed
qed


section \<open>Creation, release and concatenation\<close>

lemma pool_pseg:
  assumes "\<And>i. i < n \<Longrightarrow> N (p + i) = Some (pool_node queue p n i (d i))"
  shows "k \<le> n \<Longrightarrow> pseg N queue [p + k..<p + n]"
proof (induction "n - k" arbitrary: k)
  case (Suc m)
  then have k: "k < n" by simp
  then have u: "[p + k..<p + n] = (p + k) # [p + Suc k..<p + n]" by (simp add: upt_conv_Cons)
  have "first [p + Suc k..<p + n] = (if k = n - 1 then None else Some (p + k + 1))"
    using k by (auto simp: upt_conv_Cons)
  then show ?case using Suc.hyps(1) [of "Suc k"] Suc.hyps(2) k assms [OF k] unfolding u
    by (simp add: pool_node_def)
qed simp

lemma create_pool_ok:
  assumes "2 \<le> avail s" "0 < n"
  shows "\<exists>t. ymo_queue_create_pool n s = Some (Some (fresh s), t) \<and>
    qrep (fresh s) t [] [fresh s + 1..<fresh s + 1 + n] \<and> avail t + 2 = avail s \<and>
    map_option pool (queues t (fresh s)) = Some (Some (fresh s + 1)) \<and> blocks t (fresh s + 1) = Some n"
proof -
  let ?p = "fresh s + 1"
  let ?N = "\<lambda>a. if ?p \<le> a \<and> a < ?p + n
      then Some (pool_node (fresh s) ?p n (a - ?p) (Option.bind (nodes s a) ndata)) else nodes s a"
  let ?t = "s\<lparr>queues := (queues s)(fresh s \<mapsto> queue_zero\<lparr>pool := Some ?p, pstack := Some ?p\<rparr>),
      nodes := ?N, blocks := (blocks s)(?p \<mapsto> n), fresh := ?p + n, avail := avail s - 2\<rparr>"
  have "ymo_queue_create_pool n s = Some (Some (fresh s), ?t)"
    using assms by (cases s) (simp add: ymo_queue_create_pool_def ymo_queue_create_def
        ymo_queue_pool_init_def upd_queue_def Let_def numeral_2_eq_2 cong: if_cong)
  moreover have "pseg ?N (fresh s) [?p + 0..<?p + n]" by (rule pool_pseg) auto
  moreover have "first [?p..<?p + n] = Some ?p" using assms by (subst upt_conv_Cons) simp_all
  ultimately show ?thesis using assms by (auto simp: qrep_def queue_zero_def)
qed

text \<open>Releasing the nodes of a queue: heap nodes are freed, pool nodes go back to the pool.\<close>

lemma free_loop_ok:
  "seg (nodes s) queue p as None \<Longrightarrow> distinct as \<Longrightarrow> queues s queue = Some q \<Longrightarrow> length as < fuel \<Longrightarrow>
   \<exists>t q'. queue_free_loop fuel (first as) s = Some t \<and> queues t queue = Some q' \<and> pool q' = pool q \<and>
     blocks t = blocks s \<and> (\<forall>r. r \<noteq> queue \<longrightarrow> queues t r = queues s r) \<and>
     (\<forall>b. b \<notin> set as \<longrightarrow> nodes t b = nodes s b) \<and>
     (\<forall>a \<in> set as. Option.bind (nodes s a) nqueue = None \<longrightarrow> nodes t a = None)"
proof (induction as arbitrary: p s q fuel)
  case Nil
  then show ?case by (cases fuel) auto
next
  case (Cons a as)
  obtain n where n: "nodes s a = Some n" "nnext n = first as" "seg (nodes s) queue (Some a) as None"
      "nqueue n = None \<or> nqueue n = Some queue"
    using Cons.prems(1) by (cases "nodes s a") (auto split: if_splits)
  obtain f where f: "fuel = Suc f" "length as < f" using Cons.prems(4) by (cases fuel) auto
  obtain t q' where t: "delete_node (Some a) s = Some t" "queues t queue = Some q'" "pool q' = pool q"
      "blocks t = blocks s" "\<forall>r. r \<noteq> queue \<longrightarrow> queues t r = queues s r"
      "\<forall>b. b \<noteq> a \<longrightarrow> nodes t b = nodes s b" "nqueue n = None \<longrightarrow> nodes t a = None"
    using n Cons.prems(3) by (cases "nqueue n"; cases "pstack q") (auto simp: delete_node_def heap_ops)
  have sg: "seg (nodes t) queue (Some a) as None"
    using n(3) t(6) Cons.prems(2) by (subst seg_cong [of _ _ "nodes s"]) auto
  have "distinct as" using Cons.prems(2) by simp
  from Cons.IH [OF sg this t(2) f(2)] obtain u q'' where u: "queue_free_loop f (first as) t = Some u"
      "queues u queue = Some q''" "pool q'' = pool q'" "blocks u = blocks t"
      "\<forall>r. r \<noteq> queue \<longrightarrow> queues u r = queues t r" "\<forall>b. b \<notin> set as \<longrightarrow> nodes u b = nodes t b"
      "\<forall>a \<in> set as. Option.bind (nodes t a) nqueue = None \<longrightarrow> nodes u a = None" by blast
  have "queue_free_loop fuel (first (a # as)) s = Some u"
    using f n(1,2) t(1) u(1) by (simp add: heap_ops)
  moreover have "\<forall>b \<in> set (a # as). Option.bind (nodes s b) nqueue = None \<longrightarrow> nodes u b = None"
  proof
    fix b assume "b \<in> set (a # as)"
    then show "Option.bind (nodes s b) nqueue = None \<longrightarrow> nodes u b = None"
      using n(1) t(6,7) u(6,7) Cons.prems(2) by (cases "b = a") auto
  qed
  ultimately show ?case
    using u t Cons.prems(2) by (intro exI [of _ u] exI [of _ q'']) simp
qed


section \<open>Properties\<close>

text \<open>\<^const>\<open>dq_run\<close> on the functions of the source, for the queue at address \<open>queue\<close>.\<close>

definition queue_run :: "nat \<Rightarrow> 'd option dq_op list \<Rightarrow> 'd qheap \<Rightarrow> ('d option list \<times> 'd qheap) option" where
  "queue_run queue = dq_run (queue_push ymo_queue_append queue) (queue_push ymo_queue_prepend queue)
     (ymo_queue_popfront (Some queue)) (ymo_queue_popback (Some queue))"

definition heap_empty :: "'d qheap" where
  "heap_empty = \<lparr>nodes = Map.empty, queues = Map.empty, blocks = Map.empty, fresh = 0, avail = 3\<rparr>"

text \<open>C2: every sequence of appends, prepends and pops, from either end, on a queue with or without
  a node pool behaves as on a list (a pop of the empty list gives NULL), as long as the list never
  holds more items than the queue held plus its free pool nodes plus what the allocator can still
  give: no pointer is dereferenced that is not allocated, links and count stay consistent, and no
  node is lost.\<close>
theorem queue_refines_list:
  assumes "qrep queue s as ps"
    and "dq_spec (avail s + length ps + length as) None ops (items s as) = Some (out, ys)"
  shows "\<exists>t as' ps'. queue_run queue ops s = Some (out, t) \<and> qrep queue t as' ps' \<and> items t as' = ys \<and>
    avail t + length ps' + length as' = avail s + length ps + length as"
proof -
  have "queue_rep queue s (avail s + length ps) (items s as)" using assms(1) by (auto simp: queue_rep_def)
  from yq.run_refines [OF this, of ops out ys] assms(2) show ?thesis
    unfolding queue_run_def by (auto simp: queue_rep_def) (metis length_items)
qed

theorem queue_refines_list_witness:
  "\<exists>q t :: nat qheap. ymo_queue_create_pool 2 heap_empty = Some (Some 0, q) \<and>
     queue_run 0 [PushBack (Some 7), PushFront (Some 5), PushBack None, PopBack, PopBack] q = Some ([None, Some 7], t)"
proof -
  obtain q :: "nat qheap" where q: "ymo_queue_create_pool 2 heap_empty = Some (Some 0, q)"
      "qrep 0 q [] [1, 2]" "avail q + 2 = 3"
    using create_pool_ok [of "heap_empty :: nat qheap" 2] by (auto simp: heap_empty_def numeral_2_eq_2)
  then have "\<exists>t. queue_run 0 [PushBack (Some 7), PushFront (Some 5), PushBack None, PopBack, PopBack] q = Some ([None, Some 7], t)"
    using queue_refines_list [OF q(2), of "[PushBack (Some 7), PushFront (Some 5), PushBack None, PopBack, PopBack]"
        "[None, Some 7]" "[Some 5]"] by (auto simp: items_def)
  with q(1) show ?thesis by blast
qed

text \<open>Removing a node that is in the queue takes out exactly its item, keeps the order of the
  others, and resets the caller's pointer; it never takes the not-a-member exit.\<close>
theorem queue_remove_member:
  assumes "qrep queue s (xs @ a # ys) ps"
  shows "\<exists>t ps'. ymo_queue_remove (Some queue) (Some a) s = Some (YMO_OKAY, None, t) \<and>
    qrep queue t (xs @ ys) ps' \<and> items t (xs @ ys) = items s xs @ items s ys \<and>
    ymo_queue_size (Some queue) t = Some (word_of_nat (length xs + length ys))"
proof -
  obtain t ps' where t: "ymo_queue_remove (Some queue) (Some a) s = Some (YMO_OKAY, None, t)"
      "qrep queue t (xs @ ys) ps'" "items t (xs @ ys) = items s xs @ items s ys"
    using remove_ok [OF assms] by blast
  with peek_ok(3) [OF t(2)] show ?thesis by auto
qed

definition heap_two :: "nat qheap" where
  "heap_two = \<lparr>nodes = [1 \<mapsto> \<lparr>nqueue = None, nnext = Some 2, nprev = None, ndata = Some 10\<rparr>,
                        2 \<mapsto> \<lparr>nqueue = None, nnext = None, nprev = Some 1, ndata = Some 20\<rparr>],
     queues = [0 \<mapsto> \<lparr>head = Some 1, tail = Some 2, no_items = 2, pool = None, pstack = None\<rparr>],
     blocks = Map.empty, fresh = 3, avail = 5\<rparr>"

lemma heap_two_rep: "qrep 0 heap_two [1, 2] []"
  by (simp add: heap_two_def qrep_def final_def)

theorem queue_remove_member_witness:
  "\<exists>t. ymo_queue_remove (Some 0) (Some 2) heap_two = Some (YMO_OKAY, None, t) \<and> items t [1] = [Some 10]"
proof -
  have "qrep 0 heap_two ([1] @ 2 # []) []" using heap_two_rep by simp
  from queue_remove_member [OF this] show ?thesis by (auto simp: heap_two_def)
qed

text \<open>C32: freeing a queue ends, unmaps every one of its nodes (heap nodes one by one, pool nodes with
  the pool's array) and the queue itself, and touches no other queue and no node outside the two.\<close>
theorem queue_free_releases:
  assumes rep: "qrep queue s as ps" and q: "queues s queue = Some q" and fuel: "length as < fuel"
    and own: "\<forall>a \<in> set as. Option.bind (nodes s a) nqueue \<noteq> None \<longrightarrow>
      (\<exists>p n. pool q = Some p \<and> blocks s p = Some n \<and> p \<le> a \<and> a < p + n)"
    and blk: "\<forall>p. pool q = Some p \<longrightarrow> blocks s p \<noteq> None"
  shows "\<exists>t. ymo_queue_free fuel (Some queue) s = Some t \<and> (\<forall>a \<in> set as. nodes t a = None) \<and>
    queues t = (queues s)(queue := None) \<and>
    (\<forall>b. b \<notin> set as \<and> \<not> (\<exists>p n. pool q = Some p \<and> blocks s p = Some n \<and> p \<le> b \<and> b < p + n)
       \<longrightarrow> nodes t b = nodes s b)"
proof -
  note r = qrep_parts [OF rep]
  have hd: "head q = first as" using qrep_queue [OF rep] q by auto
  obtain t q' where t: "queue_free_loop fuel (first as) s = Some t" "queues t queue = Some q'"
      "blocks t = blocks s" "\<forall>r. r \<noteq> queue \<longrightarrow> queues t r = queues s r"
      "\<forall>b. b \<notin> set as \<longrightarrow> nodes t b = nodes s b"
      "\<forall>a \<in> set as. Option.bind (nodes s a) nqueue = None \<longrightarrow> nodes t a = None"
    using free_loop_ok [OF r(1) _ q fuel] r(3) by auto
  have qs: "(queues t)(queue := None) = (queues s)(queue := None)" using t(4) by (auto simp: fun_eq_iff)
  show ?thesis
  proof (cases "pool q")
    case None
    then show ?thesis using q hd t qs own by (auto simp: ymo_queue_free_def heap_ops)
  next
    case (Some p)
    then obtain n where n: "blocks s p = Some n" using blk by auto
    have na: "nodes t a = None" if "a \<in> set as" "\<not> (p \<le> a \<and> a < p + n)" for a
    proof -
      have "Option.bind (nodes s a) nqueue = None" using own that Some n by auto
      with that(1) t(6) show ?thesis by blast
    qed
    show ?thesis using q hd t(1,3,5) qs Some n na
      by (auto simp: ymo_queue_free_def heap_ops free_block_def)
  qed
qed

theorem queue_free_releases_witness:
  "\<exists>t. ymo_queue_free 3 (Some 0) heap_two = Some t \<and> nodes t 1 = None \<and> nodes t 2 = None \<and> queues t 0 = None"
  using queue_free_releases [OF heap_two_rep, of _ 3] by (auto simp: heap_two_def)

text \<open>\<^verbatim>\<open>ymo_queue_append_queue\<close> dereferences NULL when the destination is empty; otherwise it
  empties the source only half: an item appended to the source afterwards is linked behind the
  destination's last node, and the source's front stays NULL, so that a pop does not return it.\<close>
theorem append_queue_defects:
  assumes d: "queues s dst = Some qd" and sq: "queues s src = Some qs" and ne: "dst \<noteq> src"
  shows "(tail qd = None \<longrightarrow> ymo_queue_append_queue (Some dst) (Some src) s = None) \<and>
    (\<forall>a n b m. tail qd = Some a \<and> nodes s a = Some n \<and> tail qs = Some b \<and> nodes s b = Some m \<and>
      pstack qs = None \<and> a < fresh s \<and> b < fresh s \<and> 0 < avail s \<longrightarrow>
      (\<exists>t u. ymo_queue_append_queue (Some dst) (Some src) s = Some (YMO_OKAY, t) \<and>
        ymo_queue_append (Some src) (Some x) t = Some (YMO_OKAY, u) \<and>
        ymo_queue_size (Some src) u = Some 1 \<and>
        ymo_queue_popfront (Some src) u = Some (None, u) \<and>
        map_option nnext (Option.bind (queues u dst) (\<lambda>q. ld_node u (tail q))) = Some (Some (fresh s))))"
proof (intro conjI impI allI)
  show "tail qd = None \<Longrightarrow> ymo_queue_append_queue (Some dst) (Some src) s = None"
    using d sq by (simp add: ymo_queue_append_queue_def heap_ops)
next
  fix a n b m
  assume a: "tail qd = Some a \<and> nodes s a = Some n \<and> tail qs = Some b \<and> nodes s b = Some m \<and>
      pstack qs = None \<and> a < fresh s \<and> b < fresh s \<and> 0 < avail s"
  let ?t = "s\<lparr>nodes := (nodes s)(a \<mapsto> n\<lparr>nnext := head qs\<rparr>),
      queues := (queues s)(dst \<mapsto> qd\<lparr>tail := tail qs, no_items := no_items qd + no_items qs\<rparr>,
        src \<mapsto> qs\<lparr>head := None, no_items := 0\<rparr>)\<rparr>"
  have t: "ymo_queue_append_queue (Some dst) (Some src) s = Some (YMO_OKAY, ?t)"
    using d sq ne a by (simp add: ymo_queue_append_queue_def heap_ops)
  then show "\<exists>t u. ymo_queue_append_queue (Some dst) (Some src) s = Some (YMO_OKAY, t) \<and>
        ymo_queue_append (Some src) (Some x) t = Some (YMO_OKAY, u) \<and>
        ymo_queue_size (Some src) u = Some 1 \<and>
        ymo_queue_popfront (Some src) u = Some (None, u) \<and>
        map_option nnext (Option.bind (queues u dst) (\<lambda>q. ld_node u (tail q))) = Some (Some (fresh s))"
    using a ne by (cases "a = b")
      (auto simp: ymo_queue_append_def create_node_def node_new_def heap_ops ymo_queue_size_def
        ymo_queue_popfront_def)
qed

definition heap_pair :: "nat qheap" where
  "heap_pair = \<lparr>nodes = [1 \<mapsto> \<lparr>nqueue = None, nnext = None, nprev = None, ndata = Some 10\<rparr>,
                         2 \<mapsto> \<lparr>nqueue = None, nnext = None, nprev = None, ndata = Some 20\<rparr>],
     queues = [5 \<mapsto> \<lparr>head = Some 1, tail = Some 1, no_items = 1, pool = None, pstack = None\<rparr>,
               6 \<mapsto> \<lparr>head = Some 2, tail = Some 2, no_items = 1, pool = None, pstack = None\<rparr>,
               7 \<mapsto> queue_zero],
     blocks = Map.empty, fresh = 8, avail = 5\<rparr>"

theorem append_queue_defects_witness:
  "ymo_queue_append_queue (Some 7) (Some 6) heap_pair = None \<and>
   (\<exists>t u. ymo_queue_append_queue (Some 5) (Some 6) heap_pair = Some (YMO_OKAY, t) \<and>
      ymo_queue_append (Some 6) (Some 30) t = Some (YMO_OKAY, u) \<and> ymo_queue_size (Some 6) u = Some 1 \<and>
      ymo_queue_popfront (Some 6) u = Some (None, u))"
proof -
  let ?q5 = "\<lparr>head = Some 1, tail = Some 1, no_items = 1, pool = None, pstack = None\<rparr>"
  let ?q6 = "\<lparr>head = Some 2, tail = Some 2, no_items = 1, pool = None, pstack = None\<rparr>"
  have "ymo_queue_append_queue (Some 7) (Some 6) heap_pair = None"
    using append_queue_defects [of heap_pair 7 queue_zero 6 ?q6] by (simp add: heap_pair_def queue_zero_def)
  with append_queue_defects [of heap_pair 5 ?q5 6 ?q6 30] show ?thesis
    by (simp add: heap_pair_def) blast
qed

end
