(* ===== verification/Yaml.thy ===== *)
theory Yaml
  imports Prelude
begin

text \<open>
  YAML documents (\<^verbatim>\<open>src/core/ymo_yaml.c\<close>).  The parser of libyaml is the list of the events it answers with;
  \<open>None\<close> and the end of the list are its failure.  Nodes are objects at addresses, linked to their parent,
  first child and siblings; the text of scalars is copied to the buffer of the document.
\<close>

section \<open>Documents\<close>

datatype ymo_yaml_type = YMO_YAML_ERROR | YMO_YAML_OBJECT | YMO_YAML_SCALAR | YMO_YAML_SEQUENCE

datatype yaml_event =
    YAML_NO_EVENT | YAML_STREAM_START_EVENT | YAML_STREAM_END_EVENT | YAML_DOCUMENT_START_EVENT
  | YAML_DOCUMENT_END_EVENT | YAML_ALIAS_EVENT | YAML_SCALAR_EVENT bytes | YAML_SEQUENCE_START_EVENT
  | YAML_SEQUENCE_END_EVENT | YAML_MAPPING_START_EVENT | YAML_MAPPING_END_EVENT

text \<open>A string is a literal of the program or a position in the document's buffer.\<close>

datatype yaml_str = Literal string | In_buffer nat

record yaml_node =
  y_type :: ymo_yaml_type
  y_value :: "yaml_str option"
  terminal :: "string option"
  y_parent :: "nat option"
  y_child :: "nat option"
  y_next :: "nat option"
  y_prev :: "nat option"

text \<open>
  \<open>y_end\<close> is the write position in the buffer; \<open>y_fresh\<close> is the next address to be used and \<open>y_mem\<close> counts the
  allocations that succeed.
\<close>

record yaml_doc =
  f_path :: bytes
  y_len :: u64
  y_buffer :: bytes
  y_root :: "nat option"
  y_remain :: u64
  y_end :: nat
  y_nodes :: "nat \<Rightarrow> yaml_node option"
  y_fresh :: nat
  y_mem :: nat

definition YMO_YAML_PATH_MAX_LEN :: nat where "YMO_YAML_PATH_MAX_LEN = 1023"
definition YMO_YAML_DOC_MAX_SIZE :: u64 where "YMO_YAML_DOC_MAX_SIZE = 8192"

definition ymo_yaml_doc_create :: "bytes \<Rightarrow> u64 \<Rightarrow> nat \<Rightarrow> ymo_status + yaml_doc" where
  "ymo_yaml_doc_create path f_size m =
     (if m < 2 then Inl ENOMEM
      else if YMO_YAML_DOC_MAX_SIZE < f_size + 1 then Inl EFBIG
      else if m < 3 then Inl ENOMEM
      else Inr \<lparr>f_path = take YMO_YAML_PATH_MAX_LEN path, y_len = f_size + 1,
        y_buffer = replicate (unat (f_size + 1)) 0, y_root = None, y_remain = f_size + 1, y_end = 0,
        y_nodes = Map.empty, y_fresh = 0, y_mem = m - 3\<rparr>)"

section \<open>Nodes\<close>

text \<open>
  The lists of siblings.  Walks over the nodes are given one turn more than there are addresses.
\<close>

definition get_node :: "nat \<Rightarrow> (nat \<Rightarrow> yaml_node option) \<Rightarrow> yaml_node run" where
  "get_node a h = (case h a of None \<Rightarrow> Fault | Some nd \<Rightarrow> Ret nd)"

fun yaml_last :: "nat \<Rightarrow> (nat \<Rightarrow> yaml_node option) \<Rightarrow> nat \<Rightarrow> nat run" where
  "yaml_last 0 h a = Hang"
| "yaml_last (Suc fuel) h a = run_bind (get_node a h) (\<lambda>nd.
     case y_next nd of None \<Rightarrow> Ret a | Some b \<Rightarrow> yaml_last fuel h b)"

text \<open>The innermost node, from an address up, that is not a scalar.\<close>

fun up_scalars :: "nat \<Rightarrow> (nat \<Rightarrow> yaml_node option) \<Rightarrow> nat option \<Rightarrow> nat option run" where
  "up_scalars 0 h p = Hang"
| "up_scalars (Suc fuel) h p =
     (case p of
        None \<Rightarrow> Ret None
      | Some a \<Rightarrow> run_bind (get_node a h) (\<lambda>nd.
          if y_type nd = YMO_YAML_SCALAR then up_scalars fuel h (y_parent nd) else Ret (Some a)))"

text \<open>The new node becomes the last child of its parent.\<close>

definition yaml_append :: "nat \<Rightarrow> nat option \<Rightarrow> yaml_doc \<Rightarrow> yaml_doc run" where
  "yaml_append n parent doc =
     (case parent of
        None \<Rightarrow> Ret doc
      | Some p \<Rightarrow> run_bind (get_node p (y_nodes doc)) (\<lambda>pn.
          case y_child pn of
            None \<Rightarrow> Ret (doc\<lparr>y_nodes := (y_nodes doc)(p \<mapsto> pn\<lparr>y_child := Some n\<rparr>)\<rparr>)
          | Some c \<Rightarrow>
              run_bind (yaml_last (Suc (y_fresh doc)) (y_nodes doc) c) (\<lambda>l.
              run_bind (get_node l (y_nodes doc)) (\<lambda>ln.
                let h = (y_nodes doc)(l \<mapsto> ln\<lparr>y_next := Some n\<rparr>) in
                run_bind (get_node n h) (\<lambda>nd.
                  Ret (doc\<lparr>y_nodes := h(n \<mapsto> nd\<lparr>y_prev := Some l, y_next := None\<rparr>)\<rparr>))))))"

text \<open>
  The text of a scalar: its length as libyaml gives it is compared with what remains, and the write
  position moves on by one byte more than is taken off there.  \<open>Inl\<close>: the event does not fit.
\<close>

definition scalar_text :: "bytes \<Rightarrow> yaml_doc \<Rightarrow> ((ymo_status + yaml_str) \<times> yaml_doc \<times> nat) run" where
  "scalar_text v doc =
     (let buf_len = word_of_nat (length v) + 1 :: u64; s = takeWhile (\<lambda>c. c \<noteq> 0) v @ [0]; e = y_end doc in
      if buf_len < y_remain doc then
        if e + length s \<le> length (y_buffer doc) then
          Ret (Inr (In_buffer e),
            doc\<lparr>y_buffer := take e (y_buffer doc) @ s @ drop (e + length s) (y_buffer doc),
              y_remain := y_remain doc - buf_len\<rparr>, e + unat buf_len + 1)
        else Fault
      else Ret (Inl EFBIG, doc, e))"

text \<open>
  What becomes of a scalar is decided by its parent: the value of a key, an item of a sequence, or a key.
  The result is the terminal and the node the parser goes on with.
\<close>

definition scalar_role :: "nat \<Rightarrow> nat \<Rightarrow> yaml_doc \<Rightarrow> (ymo_status + string \<times> nat option) run" where
  "scalar_role n p doc = run_bind (get_node p (y_nodes doc)) (\<lambda>pn.
     case y_type pn of
       YMO_YAML_ERROR \<Rightarrow> Ret (Inl EINVAL)
     | YMO_YAML_SCALAR \<Rightarrow>
         run_bind (up_scalars (Suc (y_fresh doc)) (y_nodes doc) (Some p)) (\<lambda>r. Ret (Inr ('''', r)))
     | YMO_YAML_SEQUENCE \<Rightarrow> Ret (Inr ('''', Some p))
     | YMO_YAML_OBJECT \<Rightarrow> Ret (Inr ('':'', Some n)))"

definition zero_node :: "nat option \<Rightarrow> yaml_node" where
  "zero_node parent =
     \<lparr>y_type = YMO_YAML_ERROR, y_value = None, terminal = None, y_parent = parent, y_child = None, y_next = None,
      y_prev = None\<rparr>"

definition yaml_bail :: "ymo_status \<Rightarrow> nat \<Rightarrow> yaml_doc \<Rightarrow> ((ymo_status + nat) \<times> yaml_doc) run" where
  "yaml_bail err n doc = Ret (Inl err, doc\<lparr>y_nodes := (y_nodes doc)(n := None)\<rparr>)"

text \<open>
  The end of a creation that succeeds: the node is linked in, and the root is set once.  A \<open>NULL\<close> result is a
  failure, with the error number that was cleared at the start.
\<close>

definition yaml_finish ::
  "nat \<Rightarrow> nat option \<Rightarrow> yaml_node \<Rightarrow> nat \<Rightarrow> nat option \<Rightarrow> yaml_doc \<Rightarrow> ((ymo_status + nat) \<times> yaml_doc) run" where
  "yaml_finish n parent nd e r_node doc =
     run_bind (yaml_append n parent (doc\<lparr>y_nodes := (y_nodes doc)(n \<mapsto> nd)\<rparr>)) (\<lambda>doc.
       let doc = doc\<lparr>y_end := e, y_root := (if y_root doc = None then r_node else y_root doc)\<rparr>
       in Ret (case r_node of None \<Rightarrow> Inl YMO_OKAY | Some r \<Rightarrow> Inr r, doc))"

definition ymo_yaml_node_create ::
  "nat option \<Rightarrow> yaml_event \<Rightarrow> yaml_doc \<Rightarrow> ((ymo_status + nat) \<times> yaml_doc) run" where
  "ymo_yaml_node_create parent event doc =
     (if y_mem doc = 0 then Ret (Inl ENOMEM, doc)
      else
        let n = y_fresh doc; nd = zero_node parent;
            doc = doc\<lparr>y_mem := y_mem doc - 1, y_fresh := n + 1, y_nodes := (y_nodes doc)(n \<mapsto> nd)\<rparr>
        in case event of
             YAML_SCALAR_EVENT v \<Rightarrow>
               (case parent of
                  None \<Rightarrow> yaml_bail EINVAL n doc
                | Some p \<Rightarrow>
                    run_bind (scalar_text v doc) (\<lambda>(t, doc, e).
                      case t of
                        Inl err \<Rightarrow> yaml_bail err n doc
                      | Inr s \<Rightarrow> run_bind (scalar_role n p doc) (\<lambda>role.
                          case role of
                            Inl err \<Rightarrow> yaml_bail err n doc
                          | Inr (t, r_node) \<Rightarrow> yaml_finish n parent
                              (nd\<lparr>y_type := YMO_YAML_SCALAR, y_value := Some s, terminal := Some t\<rparr>) e r_node doc)))
           | YAML_MAPPING_START_EVENT \<Rightarrow>
               yaml_finish n parent (nd\<lparr>y_type := YMO_YAML_OBJECT, y_value := Some (Literal ''{''), terminal := Some ''}''\<rparr>)
                 (y_end doc) (Some n) doc
           | YAML_SEQUENCE_START_EVENT \<Rightarrow>
               yaml_finish n parent (nd\<lparr>y_type := YMO_YAML_SEQUENCE, y_value := Some (Literal ''[''), terminal := Some '']''\<rparr>)
                 (y_end doc) (Some n) doc
           | _ \<Rightarrow> yaml_bail EINVAL n doc)"

section \<open>Parsing\<close>

text \<open>At the end of a collection the parser goes back to the parent, and past the key it is the value of.\<close>

definition pop_parent :: "nat option \<Rightarrow> yaml_doc \<Rightarrow> nat option run" where
  "pop_parent parent doc =
     (case parent of
        None \<Rightarrow> Fault
      | Some p \<Rightarrow> run_bind (get_node p (y_nodes doc)) (\<lambda>pn.
          up_scalars (Suc (y_fresh doc)) (y_nodes doc) (y_parent pn)))"

fun ymo_yaml_parse :: "yaml_event option list \<Rightarrow> nat option \<Rightarrow> yaml_doc \<Rightarrow> (ymo_status \<times> yaml_doc) run" where
  "ymo_yaml_parse [] parent doc = Ret (EINVAL, doc)"
| "ymo_yaml_parse (None # answers) parent doc = Ret (EINVAL, doc)"
| "ymo_yaml_parse (Some event # answers) parent doc =
     (if (case event of YAML_SCALAR_EVENT v \<Rightarrow> True | _ \<Rightarrow> event \<in> {YAML_SEQUENCE_START_EVENT, YAML_MAPPING_START_EVENT})
      then run_bind (ymo_yaml_node_create parent event doc) (\<lambda>(r, doc).
        case r of
          Inl err \<Rightarrow> Ret (err, doc)
        | Inr p \<Rightarrow> ymo_yaml_parse answers (Some p) doc)
      else if event \<in> {YAML_SEQUENCE_END_EVENT, YAML_MAPPING_END_EVENT}
      then run_bind (pop_parent parent doc) (\<lambda>p. ymo_yaml_parse answers p doc)
      else if event = YAML_STREAM_END_EVENT then Ret (YMO_OKAY, doc)
      else ymo_yaml_parse answers parent doc)"

text \<open>Freeing a node frees its children and the siblings behind it.\<close>

fun ymo_yaml_node_free ::
  "nat \<Rightarrow> nat option \<Rightarrow> (nat \<Rightarrow> yaml_node option) \<Rightarrow> (nat \<Rightarrow> yaml_node option) run" where
  "ymo_yaml_node_free 0 a h = Hang"
| "ymo_yaml_node_free (Suc fuel) a h =
     (case a of
        None \<Rightarrow> Ret h
      | Some a \<Rightarrow> run_bind (get_node a h) (\<lambda>nd.
          run_bind (ymo_yaml_node_free fuel (y_child nd) h) (\<lambda>h.
          run_bind (get_node a h) (\<lambda>nd. ymo_yaml_node_free fuel (y_next nd) (h(a := None))))))"

text \<open>The nodes that are left when a document has been freed.\<close>

definition ymo_yaml_doc_free :: "yaml_doc \<Rightarrow> (nat \<Rightarrow> yaml_node option) run" where
  "ymo_yaml_doc_free doc = ymo_yaml_node_free (Suc (y_fresh doc)) (y_root doc) (y_nodes doc)"

text \<open>
  A file is what \<^verbatim>\<open>ftell\<close> says at its end and how libyaml reads it; \<open>None\<close> is a file that does not open.
\<close>

definition ymo_yaml_load_file :: "bytes \<Rightarrow> (int \<times> yaml_event option list) option \<Rightarrow> nat \<Rightarrow> yaml_doc option run" where
  "ymo_yaml_load_file path file m =
     (case file of
        None \<Rightarrow> Ret None
      | Some (f_size, answers) \<Rightarrow>
          if f_size < 0 then Ret None
          else case ymo_yaml_doc_create path (word_of_int f_size) m of
                 Inl _ \<Rightarrow> Ret None
               | Inr doc \<Rightarrow> run_bind (ymo_yaml_parse answers None doc) (\<lambda>(st, doc).
                   if st = YMO_OKAY then Ret (Some doc)
                   else run_bind (ymo_yaml_doc_free doc) (\<lambda>_. Ret None)))"

section \<open>Access\<close>

definition ymo_yaml_doc_filepath :: "yaml_doc option \<Rightarrow> bytes option" where
  "ymo_yaml_doc_filepath doc = map_option f_path doc"

definition ymo_yaml_doc_root :: "yaml_doc option \<Rightarrow> nat option" where
  "ymo_yaml_doc_root doc = Option.bind doc y_root"

definition ymo_yaml_node_type :: "yaml_doc \<Rightarrow> nat option \<Rightarrow> ymo_yaml_type run" where
  "ymo_yaml_node_type doc a =
     (case a of None \<Rightarrow> Ret YMO_YAML_ERROR | Some a \<Rightarrow> run_bind (get_node a (y_nodes doc)) (\<lambda>nd. Ret (y_type nd)))"

text \<open>A string of the document; in the buffer it ends at a zero.\<close>

definition yaml_cstr :: "yaml_doc \<Rightarrow> yaml_str \<Rightarrow> bytes run" where
  "yaml_cstr doc v =
     (case v of
        Literal l \<Rightarrow> Ret (str l)
      | In_buffer k \<Rightarrow>
          let s = drop k (y_buffer doc) in if 0 \<in> set s then Ret (takeWhile (\<lambda>c. c \<noteq> 0) s) else Fault)"

definition ymo_yaml_item_next :: "yaml_doc \<Rightarrow> nat option \<Rightarrow> nat option \<Rightarrow> nat option run" where
  "ymo_yaml_item_next doc list current =
     (case (current, list) of
        (Some c, _) \<Rightarrow> run_bind (get_node c (y_nodes doc)) (\<lambda>nd. Ret (y_next nd))
      | (None, Some l) \<Rightarrow> run_bind (get_node l (y_nodes doc)) (\<lambda>nd. Ret (y_child nd))
      | (None, None) \<Rightarrow> Ret None)"

text \<open>The search for a key; a key that is no scalar ends it.\<close>

fun find_key :: "nat \<Rightarrow> yaml_doc \<Rightarrow> nat option \<Rightarrow> bytes \<Rightarrow> nat option run" where
  "find_key 0 doc k_node key = Hang"
| "find_key (Suc fuel) doc k_node key =
     (case k_node of
        None \<Rightarrow> Ret None
      | Some k \<Rightarrow> run_bind (get_node k (y_nodes doc)) (\<lambda>nd.
          if y_type nd \<noteq> YMO_YAML_SCALAR then Ret None
          else
            run_bind (case y_value nd of None \<Rightarrow> Ret False
                | Some v \<Rightarrow> run_bind (yaml_cstr doc v) (\<lambda>s. Ret (strcaseeq s key))) (\<lambda>found.
              if found then Ret (y_child nd)
              else run_bind (ymo_yaml_item_next doc None (Some k)) (\<lambda>k_node. find_key fuel doc k_node key))))"

definition ymo_yaml_object_get :: "yaml_doc \<Rightarrow> nat option \<Rightarrow> bytes \<Rightarrow> nat option run" where
  "ymo_yaml_object_get doc a key =
     (case a of
        None \<Rightarrow> Ret None
      | Some a \<Rightarrow> run_bind (get_node a (y_nodes doc)) (\<lambda>nd.
          if y_type nd \<noteq> YMO_YAML_OBJECT then Ret None
          else run_bind (ymo_yaml_item_next doc (Some a) None) (\<lambda>k. find_key (Suc (y_fresh doc)) doc k key)))"

fun yaml_walk :: "yaml_doc \<Rightarrow> nat option \<Rightarrow> bytes list \<Rightarrow> nat option run" where
  "yaml_walk doc a [] = Ret a"
| "yaml_walk doc a (term # terms) =
     (if a = None then Ret None else run_bind (ymo_yaml_object_get doc a term) (\<lambda>a. yaml_walk doc a terms))"

text \<open>\<^verbatim>\<open>ymo_yaml_doc_get\<close> passes its arguments on to \<^verbatim>\<open>ymo_yaml_doc_vget\<close>.\<close>

definition ymo_yaml_doc_vget :: "yaml_doc \<Rightarrow> bytes list \<Rightarrow> nat option run" where
  "ymo_yaml_doc_vget doc terms = yaml_walk doc (ymo_yaml_doc_root (Some doc)) terms"

definition ymo_yaml_node_child :: "yaml_doc \<Rightarrow> nat option \<Rightarrow> nat option run" where
  "ymo_yaml_node_child doc a =
     (case a of
        None \<Rightarrow> Ret None
      | Some a \<Rightarrow> run_bind (get_node a (y_nodes doc)) (\<lambda>nd.
          Ret (if y_type nd = YMO_YAML_SCALAR then y_child nd else None)))"

definition ymo_yaml_node_as_str :: "yaml_doc \<Rightarrow> nat option \<Rightarrow> bytes option run" where
  "ymo_yaml_node_as_str doc a =
     (case a of
        None \<Rightarrow> Ret None
      | Some a \<Rightarrow> run_bind (get_node a (y_nodes doc)) (\<lambda>nd.
          case y_value nd of None \<Rightarrow> Ret None | Some v \<Rightarrow> run_bind (yaml_cstr doc v) (\<lambda>s. Ret (Some s))))"

text \<open>
  Numbers: \<^verbatim>\<open>strtol\<close> and \<^verbatim>\<open>strtof\<close> give a value and the text they stop at, which has to be the end.
\<close>

definition yaml_number :: "(bytes \<Rightarrow> 'n \<times> bytes) \<Rightarrow> yaml_doc \<Rightarrow> nat option \<Rightarrow> (ymo_status + 'n) run" where
  "yaml_number strto doc a = run_bind (ymo_yaml_node_as_str doc a) (\<lambda>s.
     case s of
       None \<Rightarrow> Ret (Inl EINVAL)
     | Some s \<Rightarrow> (case strto s of (v, endptr) \<Rightarrow> Ret (if endptr = [] then Inr v else Inl EINVAL)))"

definition ymo_yaml_node_as_long :: "(bytes \<Rightarrow> u64 \<times> bytes) \<Rightarrow> yaml_doc \<Rightarrow> nat option \<Rightarrow> (ymo_status + u64) run" where
  "ymo_yaml_node_as_long strtol doc a = yaml_number strtol doc a"

definition ymo_yaml_node_as_float :: "(bytes \<Rightarrow> 'f \<times> bytes) \<Rightarrow> yaml_doc \<Rightarrow> nat option \<Rightarrow> (ymo_status + 'f) run" where
  "ymo_yaml_node_as_float strtof doc a = yaml_number strtof doc a"

section \<open>Printing\<close>

text \<open>The indentation is reset to nothing at every node.\<close>

fun ymo_yaml_print_node :: "nat \<Rightarrow> yaml_doc \<Rightarrow> nat option \<Rightarrow> bytes run" where
  "ymo_yaml_print_node 0 doc a = Hang"
| "ymo_yaml_print_node (Suc fuel) doc a =
     (case a of
        None \<Rightarrow> Ret []
      | Some a \<Rightarrow> run_bind (get_node a (y_nodes doc)) (\<lambda>nd.
          case (y_value nd, terminal nd) of
            (Some v, Some t) \<Rightarrow>
              run_bind (yaml_cstr doc v) (\<lambda>v.
              run_bind (ymo_yaml_print_node fuel doc (y_child nd)) (\<lambda>children.
              run_bind (ymo_yaml_print_node fuel doc (y_next nd)) (\<lambda>rest.
                Ret ((if y_type nd = YMO_YAML_SCALAR then str ''\"'' @ v @ str ''\"'' @ str t @ children
                      else v @ children @ str t) @
                  (if y_next nd = None then [] else str '', '' @ rest)))))
          | _ \<Rightarrow> Fault))"

definition ymo_yaml_doc_print_json_hack :: "yaml_doc \<Rightarrow> bytes run" where
  "ymo_yaml_doc_print_json_hack doc = ymo_yaml_print_node (Suc (y_fresh doc)) doc (y_root doc)"

end
