(* ===== verification/Yaml_Doc.thy ===== *)
theory Yaml_Doc
  imports Yaml
begin

text \<open>
  Documents as values: what the parser builds from the events of a document, what it prints, finds and
  frees.
\<close>

section \<open>Documents as values\<close>

datatype yaml = Y_scalar bytes | Y_seq "yaml list" | Y_map "(bytes \<times> yaml) list"

fun yaml_events :: "yaml \<Rightarrow> yaml_event list" where
  "yaml_events (Y_scalar b) = [YAML_SCALAR_EVENT b]"
| "yaml_events (Y_seq vs) = YAML_SEQUENCE_START_EVENT # concat (map yaml_events vs) @ [YAML_SEQUENCE_END_EVENT]"
| "yaml_events (Y_map kvs) =
     YAML_MAPPING_START_EVENT # concat (map (\<lambda>(k, v). YAML_SCALAR_EVENT k # yaml_events v) kvs) @
     [YAML_MAPPING_END_EVENT]"

fun joined :: "bytes list \<Rightarrow> bytes" where
  "joined [] = []"
| "joined [s] = s"
| "joined (s # t # ss) = s @ str '', '' @ joined (t # ss)"

definition quoted :: "bytes \<Rightarrow> bytes" where
  "quoted s = str ''\"'' @ s @ str ''\"''"

fun yaml_json :: "yaml \<Rightarrow> bytes" where
  "yaml_json (Y_scalar b) = quoted b"
| "yaml_json (Y_seq vs) = str ''['' @ joined (map yaml_json vs) @ str '']''"
| "yaml_json (Y_map kvs) = str ''{'' @ joined (map (\<lambda>(k, v). quoted k @ str '':'' @ yaml_json v) kvs) @ str ''}''"

text \<open>The tree of nodes that represents a document: a key is a scalar with one child.\<close>

datatype label = L_item bytes | L_key bytes | L_seq | L_obj

datatype rose = Rose label "rose list"

fun rose_of :: "yaml \<Rightarrow> rose" where
  "rose_of (Y_scalar b) = Rose (L_item b) []"
| "rose_of (Y_seq vs) = Rose L_seq (map rose_of vs)"
| "rose_of (Y_map kvs) = Rose L_obj (map (\<lambda>(k, v). Rose (L_key k) [rose_of v]) kvs)"

fun is_key :: "rose \<Rightarrow> bool" where
  "is_key (Rose (L_key k) ts) = True"
| "is_key r = False"

fun rose_ok :: "rose \<Rightarrow> bool" where
  "rose_ok (Rose lab ts) =
     (list_all rose_ok ts \<and>
      (case lab of L_item b \<Rightarrow> ts = [] | L_key k \<Rightarrow> length ts = 1 \<and> list_all (Not \<circ> is_key) ts
       | L_seq \<Rightarrow> list_all (Not \<circ> is_key) ts | L_obj \<Rightarrow> list_all is_key ts))"

fun rose_events :: "rose \<Rightarrow> yaml_event list" where
  "rose_events (Rose lab ts) =
     (case lab of
        L_item b \<Rightarrow> [YAML_SCALAR_EVENT b]
      | L_key k \<Rightarrow> YAML_SCALAR_EVENT k # concat (map rose_events ts)
      | L_seq \<Rightarrow> YAML_SEQUENCE_START_EVENT # concat (map rose_events ts) @ [YAML_SEQUENCE_END_EVENT]
      | L_obj \<Rightarrow> YAML_MAPPING_START_EVENT # concat (map rose_events ts) @ [YAML_MAPPING_END_EVENT])"

fun nodes :: "rose \<Rightarrow> nat" where
  "nodes (Rose lab ts) = Suc (sum_list (map nodes ts))"

text \<open>What the texts of a tree take in the buffer, and that none of them contains a zero.\<close>

fun label_text :: "label \<Rightarrow> bytes list" where
  "label_text (L_item b) = [b]"
| "label_text (L_key k) = [k]"
| "label_text l = []"

fun texts :: "rose \<Rightarrow> bytes list" where
  "texts (Rose lab ts) = label_text lab @ concat (map texts ts)"

definition space :: "bytes list \<Rightarrow> nat" where
  "space ss = sum_list (map (\<lambda>s. length s + 2) ss)"

fun rose_json :: "rose \<Rightarrow> bytes" where
  "rose_json (Rose lab ts) =
     (case lab of
        L_item b \<Rightarrow> quoted b @ joined (map rose_json ts)
      | L_key k \<Rightarrow> quoted k @ str '':'' @ joined (map rose_json ts)
      | L_seq \<Rightarrow> str ''['' @ joined (map rose_json ts) @ str '']''
      | L_obj \<Rightarrow> str ''{'' @ joined (map rose_json ts) @ str ''}'')"

lemma rose_of_ok: "rose_ok (rose_of y) \<and> \<not> is_key (rose_of y)"
  by (induction y) (auto simp: list_all_iff)

lemma rose_events_of: "rose_events (rose_of y) = yaml_events y"
  by (induction y) (auto simp: comp_def intro!: arg_cong [where f = concat])

lemma rose_json_of: "rose_json (rose_of y) = yaml_json y"
  by (induction y) (auto simp: comp_def intro!: arg_cong [where f = joined])

section \<open>Trees of nodes\<close>

text \<open>The text \<open>b\<close> is stored at \<open>k\<close>, before the write position \<open>e\<close>.\<close>

definition text_at :: "bytes \<Rightarrow> nat \<Rightarrow> nat \<Rightarrow> bytes \<Rightarrow> bool" where
  "text_at buf e k b \<longleftrightarrow> k + length b < e \<and> e \<le> length buf \<and> take (length b + 1) (drop k buf) = b @ [0]"

fun label_node :: "bytes \<Rightarrow> nat \<Rightarrow> label \<Rightarrow> yaml_node \<Rightarrow> bool" where
  "label_node buf e (L_item b) nd \<longleftrightarrow>
     y_type nd = YMO_YAML_SCALAR \<and> terminal nd = Some '''' \<and> (\<exists>k. y_value nd = Some (In_buffer k) \<and> text_at buf e k b)"
| "label_node buf e (L_key b) nd \<longleftrightarrow>
     y_type nd = YMO_YAML_SCALAR \<and> terminal nd = Some '':'' \<and> (\<exists>k. y_value nd = Some (In_buffer k) \<and> text_at buf e k b)"
| "label_node buf e L_seq nd \<longleftrightarrow>
     y_type nd = YMO_YAML_SEQUENCE \<and> terminal nd = Some '']'' \<and> y_value nd = Some (Literal ''['')"
| "label_node buf e L_obj nd \<longleftrightarrow>
     y_type nd = YMO_YAML_OBJECT \<and> terminal nd = Some ''}'' \<and> y_value nd = Some (Literal ''{'')"

definition count :: "rose list \<Rightarrow> nat" where
  "count rs = sum_list (map nodes rs)"

lemma count_simps [simp]: "count [] = 0" "count (r # rs) = nodes r + count rs"
  by (simp_all add: count_def)

lemma nodes_eq [simp]: "nodes (Rose lab ts) = Suc (count ts)"
  by (simp add: count_def)

declare nodes.simps [simp del]

text \<open>
  The trees \<open>rs\<close> are siblings with the parent \<open>p\<close>, laid out in the order of their creation from the address
  \<open>a\<close> on.
\<close>

fun forest :: "(nat \<Rightarrow> yaml_node option) \<Rightarrow> bytes \<Rightarrow> nat \<Rightarrow> nat \<Rightarrow> nat option \<Rightarrow> rose list \<Rightarrow> bool" where
  "forest h buf e a p [] \<longleftrightarrow> True"
| "forest h buf e a p (Rose lab ts # rs) \<longleftrightarrow>
     (\<exists>nd. h a = Some nd \<and> label_node buf e lab nd \<and> y_parent nd = p \<and>
        y_child nd = (if ts = [] then None else Some (Suc a)) \<and>
        y_next nd = (if rs = [] then None else Some (Suc (a + count ts)))) \<and>
     forest h buf e (Suc a) (Some a) ts \<and> forest h buf e (Suc (a + count ts)) p rs"

lemma text_at_mono:
  assumes "text_at buf e k b" "take e buf' = take e buf" "e \<le> e'" "e' \<le> length buf'"
  shows "text_at buf' e' k b"
proof -
  have "take (length b + 1) (drop k (take e buf')) = take (length b + 1) (drop k buf')"
    "take (length b + 1) (drop k (take e buf)) = take (length b + 1) (drop k buf)"
    using assms(1) by (auto simp: text_at_def drop_take min_def)
  then show ?thesis using assms by (simp add: text_at_def)
qed

lemma label_node_mono:
  "label_node buf e lab nd \<Longrightarrow> take e buf' = take e buf \<Longrightarrow> e \<le> e' \<Longrightarrow> e' \<le> length buf' \<Longrightarrow>
   label_node buf' e' lab nd"
  by (cases lab) (auto intro: text_at_mono)

lemma label_node_cong:
  "label_node buf e lab nd \<Longrightarrow> y_type nd' = y_type nd \<Longrightarrow> y_value nd' = y_value nd \<Longrightarrow> terminal nd' = terminal nd \<Longrightarrow>
   label_node buf e lab nd'"
  by (cases lab) auto

lemma forest_mono:
  assumes "take e buf' = take e buf" "e \<le> e'" "e' \<le> length buf'"
  shows "forest h buf e a p rs \<Longrightarrow> \<forall>b. a \<le> b \<and> b < a + count rs \<longrightarrow> h' b = h b \<Longrightarrow> forest h' buf' e' a p rs"
  using assms
proof (induction h buf e a p rs rule: forest.induct)
  case (2 h buf e a p lab ts rs)
  then show ?case using label_node_mono by auto
qed simp

text \<open>A list of siblings and the way to its last one.\<close>

fun siblings :: "(nat \<Rightarrow> yaml_node option) \<Rightarrow> nat option \<Rightarrow> nat list \<Rightarrow> bool" where
  "siblings h x [] \<longleftrightarrow> x = None"
| "siblings h x (a # as) \<longleftrightarrow> x = Some a \<and> (\<exists>nd. h a = Some nd \<and> siblings h (y_next nd) as)"

lemma siblings_cong: "\<forall>a \<in> set as. h' a = h a \<Longrightarrow> siblings h' x as = siblings h x as"
  by (induction as arbitrary: x) auto

lemma siblings_last:
  "siblings h (Some c) as \<Longrightarrow> length as \<le> fuel \<Longrightarrow>
   yaml_last fuel h c = Ret (last as) \<and> (\<exists>ln. h (last as) = Some ln \<and> y_next ln = None)"
proof (induction as arbitrary: c fuel)
  case (Cons a as)
  then obtain f nd where f: "fuel = Suc f" and nd: "a = c" "h c = Some nd" "siblings h (y_next nd) as"
    by (cases fuel) auto
  show ?case
  proof (cases "y_next nd")
    case None
    then have "as = []" using nd(3) by (cases as) auto
    then show ?thesis using None nd f by (simp add: get_node_def)
  next
    case (Some b)
    then have "as \<noteq> []" using nd(3) by auto
    then show ?thesis using Cons.IH [of b f] Cons.prems(2) Some nd f by (simp add: get_node_def)
  qed
qed simp

lemma siblings_snoc:
  "siblings h x as \<Longrightarrow> as \<noteq> [] \<Longrightarrow> distinct as \<Longrightarrow> n \<notin> set as \<Longrightarrow>
   h' (last as) = map_option (\<lambda>nd. nd\<lparr>y_next := Some n\<rparr>) (h (last as)) \<Longrightarrow>
   \<forall>a \<in> set (butlast as). h' a = h a \<Longrightarrow> h' n = Some nd \<Longrightarrow> y_next nd = None \<Longrightarrow> siblings h' x (as @ [n])"
proof (induction as arbitrary: x)
  case (Cons a as)
  then show ?case by (cases "as = []") auto
qed simp

text \<open>The collection the parser goes back to when the value at \<open>p\<close> is complete.\<close>

definition home :: "nat \<Rightarrow> (nat \<Rightarrow> yaml_node option) \<Rightarrow> nat \<Rightarrow> nat \<Rightarrow> bool" where
  "home n h p q \<longleftrightarrow> p < n \<and> q < n \<and>
     (\<exists>pn. h p = Some pn \<and>
        (if y_type pn = YMO_YAML_SCALAR then y_parent pn = Some q \<and> (\<exists>qn. h q = Some qn \<and> y_type qn \<noteq> YMO_YAML_SCALAR)
         else q = p))"

definition keeps :: "nat \<Rightarrow> (nat \<Rightarrow> yaml_node option) \<Rightarrow> (nat \<Rightarrow> yaml_node option) \<Rightarrow> bool" where
  "keeps n h h' \<longleftrightarrow>
     (\<forall>a<n. \<forall>nd. h a = Some nd \<longrightarrow> (\<exists>nd'. h' a = Some nd' \<and> y_type nd' = y_type nd \<and> y_parent nd' = y_parent nd))"

lemma keepsE:
  assumes "keeps n h h'" "a < n" "h a = Some nd"
  obtains nd' where "h' a = Some nd'" "y_type nd' = y_type nd" "y_parent nd' = y_parent nd"
  using assms unfolding keeps_def by blast

lemma home_keeps:
  assumes "home n h p q" "keeps n h h'" "n \<le> n'"
  shows "home n' h' p q"
proof -
  obtain pn where p: "p < n" "q < n" "h p = Some pn"
    and c: "if y_type pn = YMO_YAML_SCALAR then y_parent pn = Some q \<and> (\<exists>qn. h q = Some qn \<and> y_type qn \<noteq> YMO_YAML_SCALAR)
         else q = p" using assms(1) by (auto simp: home_def)
  obtain pn' where "h' p = Some pn'" "y_type pn' = y_type pn" "y_parent pn' = y_parent pn"
    using assms(2) p by (auto simp: keeps_def)
  moreover have "\<exists>qn'. h' q = Some qn' \<and> y_type qn' \<noteq> YMO_YAML_SCALAR" if "h q = Some qn" "y_type qn \<noteq> YMO_YAML_SCALAR" for qn
    using assms(2) p(2) that unfolding keeps_def by metis
  ultimately show ?thesis using p c assms(3) by (auto simp: home_def)
qed

lemma up_home:
  assumes "home n h p q" "2 \<le> fuel"
  shows "up_scalars fuel h (Some p) = Ret (Some q)"
proof -
  obtain f where "fuel = Suc (Suc f)" using assms(2) by (cases fuel; cases "fuel - 1") auto
  then show ?thesis using assms(1) by (auto simp: home_def get_node_def split: if_splits)
qed

section \<open>Adding a node\<close>

text \<open>
  A document in which the parser is at the node \<open>p\<close>, which has the children \<open>as\<close> so far and the home \<open>q\<close>;
  \<open>k\<close> nodes with the texts \<open>ss\<close> can still be added.
\<close>

definition at_node :: "yaml_doc \<Rightarrow> nat \<Rightarrow> nat list \<Rightarrow> nat \<Rightarrow> nat \<Rightarrow> bytes list \<Rightarrow> bool" where
  "at_node doc p as q k ss \<longleftrightarrow>
     home (y_fresh doc) (y_nodes doc) p q \<and> p \<notin> set as \<and> set as \<subseteq> {..<y_fresh doc} \<and> distinct as \<and>
     (\<exists>pn. y_nodes doc p = Some pn \<and> siblings (y_nodes doc) (y_child pn) as) \<and>
     k \<le> y_mem doc \<and> y_end doc + space ss \<le> length (y_buffer doc) \<and>
     length (y_buffer doc) \<le> unat (y_remain doc) + y_end doc \<and> y_root doc \<noteq> None \<and>
     (\<forall>s \<in> set ss. 0 \<notin> set s)"

text \<open>The heap after the new node \<open>n\<close> has been linked in.\<close>

definition linked :: "nat \<Rightarrow> nat \<Rightarrow> nat list \<Rightarrow> (nat \<Rightarrow> yaml_node option) \<Rightarrow> (nat \<Rightarrow> yaml_node option) \<Rightarrow> bool" where
  "linked n p as h h' \<longleftrightarrow>
     (\<forall>a<n. a \<noteq> p \<longrightarrow> as = [] \<or> a \<noteq> last as \<longrightarrow> h' a = h a) \<and>
     h' p = map_option (\<lambda>nd. nd\<lparr>y_child := (if as = [] then Some n else y_child nd)\<rparr>) (h p) \<and>
     (as \<noteq> [] \<longrightarrow> h' (last as) = map_option (\<lambda>nd. nd\<lparr>y_next := Some n\<rparr>) (h (last as)))"

lemma linked_keeps: "linked n p as h h' \<Longrightarrow> keeps n h h'"
  unfolding keeps_def linked_def
proof (intro allI impI)
  fix a nd
  assume l: "(\<forall>a<n. a \<noteq> p \<longrightarrow> as = [] \<or> a \<noteq> last as \<longrightarrow> h' a = h a) \<and>
     h' p = map_option (\<lambda>nd. nd\<lparr>y_child := (if as = [] then Some n else y_child nd)\<rparr>) (h p) \<and>
     (as \<noteq> [] \<longrightarrow> h' (last as) = map_option (\<lambda>nd. nd\<lparr>y_next := Some n\<rparr>) (h (last as)))"
    and a: "a < n" "h a = Some nd"
  then consider "a = p" | "as \<noteq> []" "a = last as" | "h' a = h a" by blast
  then show "\<exists>nd'. h' a = Some nd' \<and> y_type nd' = y_type nd \<and> y_parent nd' = y_parent nd"
    using l a by cases auto
qed

lemma finish_ok:
  assumes at: "at_node doc p as q k ss" and h: "\<forall>a < y_fresh doc. y_nodes d a = y_nodes doc a"
    and d: "y_fresh d = Suc (y_fresh doc)" "y_root d = y_root doc" and nd: "y_next nd = None"
  obtains d' nd' where "yaml_finish (y_fresh doc) (Some p) nd e (Some r) d = Ret (Inr r, d')"
    "d' = d\<lparr>y_end := e, y_nodes := y_nodes d'\<rparr>" "linked (y_fresh doc) p as (y_nodes doc) (y_nodes d')"
    "y_nodes d' (y_fresh doc) = Some nd'" "nd' = nd\<lparr>y_prev := y_prev nd'\<rparr>"
    "\<exists>pn. y_nodes d' p = Some pn \<and> siblings (y_nodes d') (y_child pn) (as @ [y_fresh doc])"
proof -
  let ?n = "y_fresh doc" and ?h = "(y_nodes d)(y_fresh doc \<mapsto> nd)"
  obtain pn where p: "p < ?n" "y_nodes doc p = Some pn" "siblings (y_nodes doc) (y_child pn) as" "p \<notin> set as"
    and as: "set as \<subseteq> {..<?n}" "distinct as" using at by (auto simp: at_node_def home_def)
  have h': "?h a = y_nodes doc a" if "a < ?n" for a using h that by simp
  have n: "?n \<notin> set as" using as(1) by auto
  have c: "siblings ?h (y_child pn) as"
    using p(3) as(1) h' by (subst siblings_cong [where h = "y_nodes doc"]) auto
  have gp: "get_node p ?h = Ret pn" using h' [OF p(1)] p(2) by (simp add: get_node_def)
  show thesis
  proof (cases "as = []")
    case True
    let ?h1 = "?h(p \<mapsto> pn\<lparr>y_child := Some ?n\<rparr>)"
    have "y_child pn = None" using p(3) True by simp
    then have f: "yaml_finish ?n (Some p) nd e (Some r) d = Ret (Inr r, d\<lparr>y_nodes := ?h1, y_end := e\<rparr>)"
      using gp d(2) at by (auto simp: yaml_finish_def yaml_append_def Let_def at_node_def)
    show thesis
      by (rule that [OF f, of nd]) (use True p h nd n in \<open>auto simp: linked_def\<close>)
  next
    case False
    then obtain x where x: "y_child pn = Some x" using p(3) by (cases as) auto
    let ?l = "last as"
    have l: "?l \<in> set as" "?l < ?n" "?l \<noteq> p" using False as(1) p(4) by (auto dest: last_in_set)
    have "length as \<le> ?n" using card_mono [OF _ as(1)] distinct_card [OF as(2)] by simp
    then have "length as \<le> Suc (y_fresh d)" using d(1) by simp
    from siblings_last [OF c [unfolded x] this] obtain ln where
      ln: "yaml_last (Suc (y_fresh d)) ?h x = Ret ?l" "?h ?l = Some ln" "y_next ln = None" by blast
    let ?h1 = "(?h(?l \<mapsto> ln\<lparr>y_next := Some ?n\<rparr>))(?n \<mapsto> nd\<lparr>y_prev := Some ?l, y_next := None\<rparr>)"
    have f: "yaml_finish ?n (Some p) nd e (Some r) d = Ret (Inr r, d\<lparr>y_nodes := ?h1, y_end := e\<rparr>)"
      using gp x ln l d at by (auto simp: yaml_finish_def yaml_append_def get_node_def Let_def at_node_def)
    have "siblings ?h1 (y_child pn) (as @ [?n])"
    proof (rule siblings_snoc [OF c False as(2) n])
      show "?h1 ?l = map_option (\<lambda>nd. nd\<lparr>y_next := Some ?n\<rparr>) (?h ?l)" using ln(2) l(2) by simp
      have "?l \<notin> set (butlast as)" using False as(2)
        by (metis append_butlast_last_id distinct_append disjoint_insert(1) list.set(2))
      then show "\<forall>a \<in> set (butlast as). ?h1 a = ?h a" using n in_set_butlastD [of _ as] by auto
      show "?h1 ?n = Some (nd\<lparr>y_prev := Some ?l, y_next := None\<rparr>)" "y_next (nd\<lparr>y_prev := Some ?l, y_next := None\<rparr>) = None"
        by simp_all
    qed
    moreover have "linked ?n p as (y_nodes doc) ?h1"
      using False l p(1,2) h ln(2) by (auto simp: linked_def)
    ultimately show thesis
      by (intro that [OF f, of "nd\<lparr>y_prev := Some ?l, y_next := None\<rparr>"]) (use p(1,2) l h nd in auto)
  qed
qed

text \<open>A document after \<open>k\<close> more nodes with the texts \<open>ss\<close>.\<close>

definition grown :: "yaml_doc \<Rightarrow> yaml_doc \<Rightarrow> nat \<Rightarrow> bytes list \<Rightarrow> bool" where
  "grown doc d k ss \<longleftrightarrow>
     y_fresh d = y_fresh doc + k \<and> y_mem d = y_mem doc - k \<and> y_root d = y_root doc \<and>
     length (y_buffer d) = length (y_buffer doc) \<and> take (y_end doc) (y_buffer d) = take (y_end doc) (y_buffer doc) \<and>
     y_end d = y_end doc + space ss \<and> length (y_buffer d) \<le> unat (y_remain d) + y_end d"

lemma space_simps [simp]: "space [] = 0" "space (s # ss) = length s + 2 + space ss" "space (ss @ ts) = space ss + space ts"
  by (simp_all add: space_def)

lemma grown_trans:
  assumes "grown a b k ss" "grown b c l ts"
  shows "grown a c (k + l) (ss @ ts)"
proof -
  have e: "take (y_end a) x = take (y_end a) (take (y_end b) x)" for x :: bytes
    using assms(1) by (simp add: grown_def)
  have "take (y_end b) (y_buffer c) = take (y_end b) (y_buffer b)" using assms(2) by (simp add: grown_def)
  then have "take (y_end a) (y_buffer c) = take (y_end a) (y_buffer b)"
    using e [of "y_buffer c"] e [of "y_buffer b"] by simp
  then show ?thesis using assms by (simp add: grown_def)
qed

fun opener :: "label \<Rightarrow> yaml_event" where
  "opener (L_item b) = YAML_SCALAR_EVENT b"
| "opener (L_key b) = YAML_SCALAR_EVENT b"
| "opener L_seq = YAML_SEQUENCE_START_EVENT"
| "opener L_obj = YAML_MAPPING_START_EVENT"

text \<open>Where a node may stand.\<close>

fun goes_with :: "label \<Rightarrow> ymo_yaml_type \<Rightarrow> bool" where
  "goes_with (L_key k) t \<longleftrightarrow> t = YMO_YAML_OBJECT"
| "goes_with l t \<longleftrightarrow> t = YMO_YAML_SCALAR \<or> t = YMO_YAML_SEQUENCE"

lemma text_stored:
  assumes "e + length b + 2 \<le> length buf"
  shows "text_at (take e buf @ (b @ [0]) @ drop (e + length (b @ [0])) buf) (e + length b + 2) e b"
    "take e (take e buf @ (b @ [0]) @ drop (e + length (b @ [0])) buf) = take e buf"
  using assms by (auto simp: text_at_def)

lemma scalar_text_ok:
  assumes at: "at_node doc p as q k (b # ss)"
    and d: "y_end d = y_end doc" "y_remain d = y_remain doc" "y_buffer d = y_buffer doc"
  shows "scalar_text b d = Ret (Inr (In_buffer (y_end doc)),
    d\<lparr>y_buffer := take (y_end doc) (y_buffer doc) @ (b @ [0]) @ drop (y_end doc + length (b @ [0])) (y_buffer doc),
      y_remain := y_remain doc - (word_of_nat (length b) + 1)\<rparr>, y_end doc + length b + 2)"
    "length (y_buffer doc) \<le> unat (y_remain doc - (word_of_nat (length b) + 1)) + (y_end doc + length b + 2)"
proof -
  have fits: "y_end doc + length b + 2 \<le> length (y_buffer doc)"
    and r: "length (y_buffer doc) \<le> unat (y_remain doc) + y_end doc" and nz: "0 \<notin> set b"
    using at by (auto simp: at_node_def)
  have lt: "length b + 2 \<le> unat (y_remain doc)" using fits r by simp
  moreover have "unat (y_remain doc) < 2 ^ LENGTH(64)" by (rule unsigned_less)
  ultimately have "length b + 1 < 2 ^ 64" by simp
  then have "unat (word_of_nat (length b + 1) :: u64) = length b + 1"
    by (simp add: unat_of_nat take_bit_nat_eq_self del: of_nat_add of_nat_Suc)
  then have u: "unat (word_of_nat (length b) + 1 :: u64) = length b + 1" by (simp add: add.commute)
  have tw: "takeWhile (\<lambda>c. c \<noteq> 0) b = b" using nz by (auto simp: takeWhile_eq_all_conv)
  show "scalar_text b d = Ret (Inr (In_buffer (y_end doc)),
    d\<lparr>y_buffer := take (y_end doc) (y_buffer doc) @ (b @ [0]) @ drop (y_end doc + length (b @ [0])) (y_buffer doc),
      y_remain := y_remain doc - (word_of_nat (length b) + 1)\<rparr>, y_end doc + length b + 2)"
    using u lt fits d by (simp add: scalar_text_def Let_def word_less_nat_alt tw)
  have "unat (y_remain doc - (word_of_nat (length b) + 1)) = unat (y_remain doc) - (length b + 1)"
    using u lt by (simp add: unat_sub word_le_nat_alt)
  then show "length (y_buffer doc) \<le> unat (y_remain doc - (word_of_nat (length b) + 1)) + (y_end doc + length b + 2)"
    using lt r by simp
qed

text \<open>The node a label asks for, and where the parser is when it has been added.\<close>

definition label_start :: "nat option \<Rightarrow> nat \<Rightarrow> label \<Rightarrow> yaml_node" where
  "label_start p e lab = (zero_node p)
     \<lparr>y_type := (case lab of L_seq \<Rightarrow> YMO_YAML_SEQUENCE | L_obj \<Rightarrow> YMO_YAML_OBJECT | _ \<Rightarrow> YMO_YAML_SCALAR),
      y_value := Some (case lab of L_seq \<Rightarrow> Literal ''['' | L_obj \<Rightarrow> Literal ''{'' | _ \<Rightarrow> In_buffer e),
      terminal := Some (case lab of L_item b \<Rightarrow> '''' | L_key b \<Rightarrow> '':'' | L_seq \<Rightarrow> '']'' | L_obj \<Rightarrow> ''}'')\<rparr>"

definition goes_on :: "label \<Rightarrow> nat \<Rightarrow> nat \<Rightarrow> nat" where
  "goes_on lab n q = (case lab of L_item b \<Rightarrow> q | _ \<Rightarrow> n)"

lemma create_finish:
  assumes at: "at_node doc p as q (Suc k) (label_text lab @ ss)" and pn: "y_nodes doc p = Some pn" "goes_with lab (y_type pn)"
  obtains d where "ymo_yaml_node_create (Some p) (opener lab) doc =
      yaml_finish (y_fresh doc) (Some p) (label_start (Some p) (y_end doc) lab) (y_end doc + space (label_text lab))
        (Some (goes_on lab (y_fresh doc) q)) d"
    "y_fresh d = Suc (y_fresh doc)" "y_root d = y_root doc" "\<forall>a < y_fresh doc. y_nodes d a = y_nodes doc a"
    "grown doc (d\<lparr>y_end := y_end doc + space (label_text lab)\<rparr>) 1 (label_text lab)"
    "\<And>b. lab = L_item b \<or> lab = L_key b \<Longrightarrow> text_at (y_buffer d) (y_end doc + length b + 2) (y_end doc) b"
proof -
  let ?n = "y_fresh doc"
  let ?d = "doc\<lparr>y_mem := y_mem doc - 1, y_fresh := ?n + 1, y_nodes := (y_nodes doc)(?n \<mapsto> zero_node (Some p))\<rparr>"
  have m: "y_mem doc \<noteq> 0" "y_root doc \<noteq> None" using at by (auto simp: at_node_def)
  have hm: "home ?n (y_nodes doc) p q" and p: "p < ?n" using at by (auto simp: at_node_def home_def)
  have gp: "get_node p (y_nodes ?d) = Ret pn" using p pn by (simp add: get_node_def)
  have hm': "home (Suc ?n) (y_nodes ?d) p q" by (rule home_keeps [OF hm]) (auto simp: keeps_def)
  show thesis
  proof (cases "\<exists>b. lab = L_item b \<or> lab = L_key b")
    case True
    then obtain b where b: "lab = L_item b \<or> lab = L_key b" by blast
    then have lt: "label_text lab = [b]" by auto
    let ?d1 = "?d\<lparr>y_buffer := take (y_end doc) (y_buffer doc) @ (b @ [0]) @ drop (y_end doc + length (b @ [0])) (y_buffer doc),
      y_remain := y_remain doc - (word_of_nat (length b) + 1)\<rparr>"
    have at': "at_node doc p as q (Suc k) (b # ss)" using at lt by simp
    note t = scalar_text_ok [OF at', of ?d]
    have fits: "y_end doc + length b + 2 \<le> length (y_buffer doc)" using at' by (auto simp: at_node_def)
    note st = text_stored [OF this]
    have role: "scalar_role ?n p ?d1 = Ret (Inr (if lab = L_key b then '':'' else '''', Some (goes_on lab ?n q)))"
    proof (cases "lab = L_key b")
      case True
      then show ?thesis using gp pn(2) by (simp add: scalar_role_def goes_on_def get_node_def)
    next
      case False
      then have lab: "lab = L_item b" using b by simp
      have "2 \<le> Suc (y_fresh ?d1)" by simp
      from up_home [OF hm' this] have "up_scalars (Suc (y_fresh ?d1)) (y_nodes ?d1) (Some p) = Ret (Some q)" by simp
      moreover have "y_type pn = YMO_YAML_SEQUENCE \<Longrightarrow> q = p" using hm pn(1) by (auto simp: home_def)
      ultimately show ?thesis using gp pn(2) lab by (auto simp: scalar_role_def goes_on_def get_node_def)
    qed
    have "ymo_yaml_node_create (Some p) (opener lab) doc =
      yaml_finish ?n (Some p) (label_start (Some p) (y_end doc) lab) (y_end doc + space (label_text lab))
        (Some (goes_on lab ?n q)) ?d1"
      using b m t(1) role lt by (auto simp: ymo_yaml_node_create_def Let_def label_start_def)
    moreover have "grown doc (?d1\<lparr>y_end := y_end doc + space (label_text lab)\<rparr>) 1 (label_text lab)"
      using st(2) t(2) fits by (auto simp: grown_def lt add.assoc)
    moreover have "\<And>b'. lab = L_item b' \<or> lab = L_key b' \<Longrightarrow> text_at (y_buffer ?d1) (y_end doc + length b' + 2) (y_end doc) b'"
      using st(1) b by auto
    ultimately show thesis by (intro that [of ?d1]) simp_all
  next
    case False
    then have lab: "lab = L_seq \<or> lab = L_obj" by (cases lab) auto
    then have "ymo_yaml_node_create (Some p) (opener lab) doc =
      yaml_finish ?n (Some p) (label_start (Some p) (y_end doc) lab) (y_end doc + space (label_text lab))
        (Some (goes_on lab ?n q)) ?d"
      using m by (auto simp: ymo_yaml_node_create_def Let_def label_start_def goes_on_def)
    moreover have "grown doc (?d\<lparr>y_end := y_end doc + space (label_text lab)\<rparr>) 1 (label_text lab)"
      using lab at by (auto simp: grown_def at_node_def)
    ultimately show thesis using False by (intro that [of ?d]) auto
  qed
qed

lemma add_node:
  assumes at: "at_node doc p as q (Suc k) (label_text lab @ ss)" and pn: "y_nodes doc p = Some pn" "goes_with lab (y_type pn)"
  obtains d nd where "ymo_yaml_node_create (Some p) (opener lab) doc = Ret (Inr (goes_on lab (y_fresh doc) q), d)"
    "grown doc d 1 (label_text lab)" "linked (y_fresh doc) p as (y_nodes doc) (y_nodes d)"
    "y_nodes d (y_fresh doc) = Some nd" "label_node (y_buffer d) (y_end d) lab nd" "y_parent nd = Some p"
    "y_child nd = None" "y_next nd = None"
    "\<exists>pn. y_nodes d p = Some pn \<and> siblings (y_nodes d) (y_child pn) (as @ [y_fresh doc])"
proof -
  let ?n = "y_fresh doc" and ?nd = "label_start (Some p) (y_end doc) lab"
  from create_finish [OF at pn] obtain d where
    d: "ymo_yaml_node_create (Some p) (opener lab) doc =
      yaml_finish ?n (Some p) ?nd (y_end doc + space (label_text lab)) (Some (goes_on lab ?n q)) d"
    "y_fresh d = Suc ?n" "y_root d = y_root doc" "\<forall>a < ?n. y_nodes d a = y_nodes doc a"
    "grown doc (d\<lparr>y_end := y_end doc + space (label_text lab)\<rparr>) 1 (label_text lab)"
    "\<And>b. lab = L_item b \<or> lab = L_key b \<Longrightarrow> text_at (y_buffer d) (y_end doc + length b + 2) (y_end doc) b" by blast
  have nx: "y_next ?nd = None" by (simp add: label_start_def zero_node_def)
  from finish_ok [OF at d(4,2,3) nx, of "y_end doc + space (label_text lab)" "goes_on lab ?n q"] obtain d' nd' where
    d': "yaml_finish ?n (Some p) ?nd (y_end doc + space (label_text lab)) (Some (goes_on lab ?n q)) d = Ret (Inr (goes_on lab ?n q), d')"
    "d' = d\<lparr>y_end := y_end doc + space (label_text lab), y_nodes := y_nodes d'\<rparr>" "linked ?n p as (y_nodes doc) (y_nodes d')"
    "y_nodes d' ?n = Some nd'" "nd' = ?nd\<lparr>y_prev := y_prev nd'\<rparr>"
    "\<exists>pn. y_nodes d' p = Some pn \<and> siblings (y_nodes d') (y_child pn) (as @ [?n])" by blast
  have f: "y_fresh d' = y_fresh d" "y_mem d' = y_mem d" "y_root d' = y_root d" "y_buffer d' = y_buffer d"
    "y_remain d' = y_remain d" "y_end d' = y_end doc + space (label_text lab)"
    by (subst d'(2), simp)+
  have g: "grown doc d' 1 (label_text lab)" using d(5) by (simp add: grown_def f)
  have nd: "y_type nd' = y_type ?nd" "y_value nd' = y_value ?nd" "terminal nd' = terminal ?nd"
    "y_parent nd' = Some p" "y_child nd' = None" "y_next nd' = None"
    by (subst d'(5), simp add: label_start_def zero_node_def)+
  have "label_node (y_buffer d') (y_end d') lab nd'"
    using d(6) by (cases lab) (simp_all add: nd label_start_def f add.assoc)
  with that [of d' nd'] d(1) d' g nd show thesis by simp
qed

lemma siblings_next_cong:
  "\<forall>a \<in> set as. map_option y_next (h' a) = map_option y_next (h a) \<Longrightarrow> siblings h' x as = siblings h x as"
proof (induction as arbitrary: x)
  case (Cons a as)
  then have "map_option y_next (h' a) = map_option y_next (h a)" "siblings h' y as = siblings h y as" for y by simp_all
  then show ?case by (cases "h a"; cases "h' a") auto
qed simp

lemma at_grown:
  assumes at: "at_node doc p as q (k + l) (ss @ ts)" and g: "grown doc d k ss" and k: "keeps (y_fresh doc) (y_nodes doc) (y_nodes d)"
    and as': "p \<notin> set as'" "set as' \<subseteq> {..<y_fresh d}" "distinct as'"
      "\<exists>pn. y_nodes d p = Some pn \<and> siblings (y_nodes d) (y_child pn) as'"
  shows "at_node d p as' q l ts"
proof -
  have "home (y_fresh d) (y_nodes d) p q"
    using home_keeps [OF _ k] at g by (simp add: at_node_def grown_def)
  then show ?thesis using at g as' by (auto simp: at_node_def grown_def)
qed

fun closer :: "label \<Rightarrow> yaml_event list" where
  "closer L_seq = [YAML_SEQUENCE_END_EVENT]"
| "closer L_obj = [YAML_MAPPING_END_EVENT]"
| "closer l = []"

fun forest_events :: "rose list \<Rightarrow> yaml_event list" where
  "forest_events [] = []"
| "forest_events (Rose lab ts # rs) = opener lab # forest_events ts @ closer lab @ forest_events rs"

fun forest_texts :: "rose list \<Rightarrow> bytes list" where
  "forest_texts [] = []"
| "forest_texts (Rose lab ts # rs) = label_text lab @ forest_texts ts @ forest_texts rs"

lemma forest_events_eq: "list_all rose_ok rs \<Longrightarrow> forest_events rs = concat (map rose_events rs)"
proof (induction rs rule: forest_events.induct)
  case (2 lab ts rs)
  then show ?case by (cases lab) auto
qed simp

lemma forest_texts_eq: "forest_texts rs = concat (map texts rs)"
  by (induction rs rule: forest_texts.induct) auto

fun fits :: "ymo_yaml_type \<Rightarrow> rose list \<Rightarrow> bool" where
  "fits YMO_YAML_OBJECT rs = list_all is_key rs"
| "fits YMO_YAML_SEQUENCE rs = list_all (Not \<circ> is_key) rs"
| "fits YMO_YAML_SCALAR rs = (length rs \<le> 1 \<and> list_all (Not \<circ> is_key) rs)"
| "fits YMO_YAML_ERROR rs = (rs = [])"

lemma fits_Cons:
  assumes "fits t (Rose lab ts # rs)"
  shows "goes_with lab t" "fits t rs" "rs \<noteq> [] \<Longrightarrow> t \<noteq> YMO_YAML_SCALAR"
  using assms by (cases t; cases lab; auto)+

lemma fits_children: "rose_ok (Rose lab ts) \<Longrightarrow> label_node buf e lab nd \<Longrightarrow> fits (y_type nd) ts"
  by (cases lab) auto

section \<open>Parsing a document\<close>

text \<open>How the parser takes one step.\<close>

lemma parse_opener:
  "ymo_yaml_node_create (Some p) (opener lab) doc = Ret (Inr r, d) \<Longrightarrow>
   ymo_yaml_parse (Some (opener lab) # answers) (Some p) doc = ymo_yaml_parse answers (Some r) d"
  by (cases lab) simp_all

text \<open>What remains of \<^const>\<open>linked\<close> when the new node gets children and a sibling.\<close>

lemma linked_trans:
  assumes "linked n p as h h1" "p < n" "set as \<subseteq> {..<n}" "p \<notin> set as" "n < m" "n \<le> n'" "n' \<le> m"
    and "h2 = h1 \<or> linked n' n [] h1 h2" "h3 = h2 \<or> linked m p (as @ [n]) h2 h3"
  shows "linked n p as h h3"
proof -
  have 2: "h2 a = h1 a" if "a < n" for a
    using assms(6,8) that by (auto simp: linked_def)
  have 3: "h3 a = h2 a" if "a < n" "a \<noteq> p" for a
    using assms(5,9) that by (auto simp: linked_def)
  have p: "h3 p = h2 p" using assms(9) by (auto simp: linked_def option.map_ident)
  have l: "as \<noteq> [] \<Longrightarrow> last as < n \<and> last as \<noteq> p" using assms(3,4) last_in_set [of as] by (metis lessThan_iff subsetD)
  show ?thesis using assms(1,2) 2 3 p l by (auto simp: linked_def)
qed

lemma parse_forest:
  "at_node doc p as q (count rs) (forest_texts rs) \<Longrightarrow> y_nodes doc p = Some pn \<Longrightarrow> fits (y_type pn) rs \<Longrightarrow>
   list_all rose_ok rs \<Longrightarrow>
   \<exists>d. (\<forall>answers. ymo_yaml_parse (map Some (forest_events rs) @ answers) (Some p) doc =
          ymo_yaml_parse answers (Some (if rs = [] then p else q)) d) \<and>
     grown doc d (count rs) (forest_texts rs) \<and>
     forest (y_nodes d) (y_buffer d) (y_end d) (y_fresh doc) (Some p) rs \<and>
     (if rs = [] then d = doc else linked (y_fresh doc) p as (y_nodes doc) (y_nodes d))"
proof (induction rs arbitrary: doc p as q pn rule: forest_events.induct)
  case 1
  then show ?case by (auto simp: grown_def at_node_def)
next
  case (2 lab ts rs)
  let ?n = "y_fresh doc"
  let ?m = "?n + Suc (count ts)"
  note f = fits_Cons [OF "2.prems"(3)]
  have at: "at_node doc p as q (Suc (count ts + count rs)) (label_text lab @ forest_texts ts @ forest_texts rs)"
    using "2.prems"(1) by simp
  have ok: "rose_ok (Rose lab ts)" "list_all rose_ok ts" "list_all rose_ok rs" using "2.prems"(4) by simp_all
  from add_node [OF at "2.prems"(2) f(1)] obtain d1 nd where
    d1: "ymo_yaml_node_create (Some p) (opener lab) doc = Ret (Inr (goes_on lab ?n q), d1)"
      "grown doc d1 1 (label_text lab)" "linked ?n p as (y_nodes doc) (y_nodes d1)"
      "y_nodes d1 ?n = Some nd" "label_node (y_buffer d1) (y_end d1) lab nd" "y_parent nd = Some p"
      "y_child nd = None" "y_next nd = None"
      "\<exists>pn. y_nodes d1 p = Some pn \<and> siblings (y_nodes d1) (y_child pn) (as @ [?n])" by blast
  have p: "p < ?n" "p \<notin> set as" "set as \<subseteq> {..<?n}" "distinct as" and hm: "home ?n (y_nodes doc) p q"
    using at by (auto simp: at_node_def home_def)
  have fr1: "y_fresh d1 = Suc ?n" using d1(2) by (simp add: grown_def)
  have k1: "keeps ?n (y_nodes doc) (y_nodes d1)" using d1(3) by (rule linked_keeps)
  have tp: "y_type nd = YMO_YAML_SCALAR \<longleftrightarrow> (\<exists>b. lab = L_item b \<or> lab = L_key b)" using d1(5) by (cases lab) auto
  have "\<exists>d2. (\<forall>answers. ymo_yaml_parse (map Some (opener lab # forest_events ts @ closer lab) @ answers) (Some p) doc =
          ymo_yaml_parse answers (Some q) d2) \<and>
     grown d1 d2 (count ts) (forest_texts ts) \<and>
     forest (y_nodes d2) (y_buffer d2) (y_end d2) (Suc ?n) (Some ?n) ts \<and>
     (if ts = [] then d2 = d1 else linked (Suc ?n) ?n [] (y_nodes d1) (y_nodes d2))"
  proof (cases "\<exists>b. lab = L_item b")
    case True
    then obtain b where b: "lab = L_item b" by blast
    then have "ts = []" using ok(1) by simp
    moreover have "grown d1 d1 0 []" using d1(2) by (simp add: grown_def)
    ultimately show ?thesis using parse_opener [OF d1(1)] b by (auto simp: goes_on_def)
  next
    case False
    define q' where "q' = (if y_type nd = YMO_YAML_SCALAR then p else ?n)"
    have hm1: "home (Suc ?n) (y_nodes d1) p q" using home_keeps [OF hm k1] by simp
    have hmn: "home (y_fresh d1) (y_nodes d1) ?n q'"
    proof (cases "y_type nd = YMO_YAML_SCALAR")
      case True
      then obtain b where "lab = L_key b" using False tp by auto
      then have "y_type pn = YMO_YAML_OBJECT" using f(1) by simp
      moreover obtain pn' where "y_nodes d1 p = Some pn'" "y_type pn' = y_type pn"
        using k1 p(1) "2.prems"(2) by (auto simp: keeps_def)
      ultimately show ?thesis using True d1(4,6) fr1 p(1) by (auto simp: home_def q'_def)
    qed (use d1(4) fr1 in \<open>auto simp: home_def q'_def\<close>)
    have at1: "at_node d1 ?n [] q' (count ts) (forest_texts ts)"
      using at d1(2,4,7) hmn by (auto simp: at_node_def grown_def)
    from "2.IH"(1) [OF at1 d1(4) fits_children [OF ok(1) d1(5)] ok(2)] obtain d2 where
      d2: "\<And>answers. ymo_yaml_parse (map Some (forest_events ts) @ answers) (Some ?n) d1 =
          ymo_yaml_parse answers (Some (if ts = [] then ?n else q')) d2"
        "grown d1 d2 (count ts) (forest_texts ts)"
        "forest (y_nodes d2) (y_buffer d2) (y_end d2) (Suc ?n) (Some ?n) ts"
        "if ts = [] then d2 = d1 else linked (Suc ?n) ?n [] (y_nodes d1) (y_nodes d2)"
      unfolding fr1 by auto
    have k2: "keeps (Suc ?n) (y_nodes d1) (y_nodes d2)"
      using d2(4) linked_keeps [of "Suc ?n" ?n "[]"] by (auto simp: keeps_def split: if_splits)
    have hm2: "home (Suc ?n) (y_nodes d2) p q" by (rule home_keeps [OF hm1 k2]) simp
    have "ymo_yaml_parse (map Some (closer lab) @ answers) (Some (if ts = [] then ?n else q')) d2 =
        ymo_yaml_parse answers (Some q) d2" for answers
    proof (cases "y_type nd = YMO_YAML_SCALAR")
      case True
      then obtain b where b: "lab = L_key b" using False tp by auto
      then have "ts \<noteq> []" "y_type pn = YMO_YAML_OBJECT" using ok(1) f(1) by auto
      moreover have "q = p" using hm "2.prems"(2) calculation(2) by (auto simp: home_def)
      ultimately show ?thesis using True b by (simp add: q'_def)
    next
      case nonscalar: False
      obtain nd2 where "y_nodes d2 ?n = Some nd2" "y_parent nd2 = Some p"
        using keepsE [OF k2 _ d1(4)] d1(6) by (metis lessI)
      moreover have "2 \<le> Suc (y_fresh d2)" using d2(2) fr1 by (simp add: grown_def)
      ultimately have "pop_parent (Some ?n) d2 = Ret (Some q)"
        using up_home [OF hm2] by (simp add: pop_parent_def get_node_def del: up_scalars.simps)
      then show ?thesis using nonscalar tp by (cases lab) (auto simp: q'_def)
    qed
    then have "ymo_yaml_parse (map Some (opener lab # forest_events ts @ closer lab) @ answers) (Some p) doc =
          ymo_yaml_parse answers (Some q) d2" for answers
      using parse_opener [OF d1(1)] d2(1) False by (cases lab) (simp_all add: goes_on_def)
    then show ?thesis using d2 by blast
  qed
  then obtain d2 where
    d2: "\<And>answers. ymo_yaml_parse (map Some (opener lab # forest_events ts @ closer lab) @ answers) (Some p) doc =
          ymo_yaml_parse answers (Some q) d2"
      "grown d1 d2 (count ts) (forest_texts ts)"
      "forest (y_nodes d2) (y_buffer d2) (y_end d2) (Suc ?n) (Some ?n) ts"
      "if ts = [] then d2 = d1 else linked (Suc ?n) ?n [] (y_nodes d1) (y_nodes d2)" by blast
  have n: "?n \<notin> set as" using p(3) by auto
  have g2: "grown doc d2 (Suc (count ts)) (label_text lab @ forest_texts ts)"
    using grown_trans [OF d1(2) d2(2)] by simp
  then have fr2: "y_fresh d2 = ?m" by (simp add: grown_def)
  have l2: "linked ?n p as (y_nodes doc) (y_nodes d2)"
    using linked_trans [OF d1(3) p(1,3,2), of ?m "Suc ?n" "y_nodes d2" "y_nodes d2"] d2(4) by (auto split: if_splits)
  have kk: "keeps ?n (y_nodes doc) (y_nodes d2)" using l2 by (rule linked_keeps)
  have below: "y_nodes d2 a = y_nodes d1 a" if "a < ?n" for a
    using d2(4) that by (auto simp: linked_def split: if_splits)
  have n2: "y_nodes d2 ?n = Some (nd\<lparr>y_child := (if ts = [] then None else Some (Suc ?n))\<rparr>)"
    using d2(4) d1(4,7) by (auto simp: linked_def split: if_splits)
  obtain pn2 where pn2: "y_nodes d2 p = Some pn2" "y_type pn2 = y_type pn"
    using keepsE [OF kk p(1) "2.prems"(2)] by metis
  have "\<exists>pn. y_nodes d2 p = Some pn \<and> siblings (y_nodes d2) (y_child pn) (as @ [?n])"
  proof -
    have "siblings (y_nodes d2) x (as @ [?n]) = siblings (y_nodes d1) x (as @ [?n])" for x
      using below p(3) n2 d1(4) by (intro siblings_next_cong) auto
    then show ?thesis using d1(9) below [OF p(1)] by simp
  qed
  moreover have "set (as @ [?n]) \<subseteq> {..<y_fresh d2}" using p(3) fr2 by auto
  ultimately have at2: "at_node d2 p (as @ [?n]) q (count rs) (forest_texts rs)"
    using at_grown [of doc p as q "Suc (count ts)" "count rs" "label_text lab @ forest_texts ts" "forest_texts rs" d2 "as @ [?n]"]
      at g2 kk p fr2 n by auto
  have "fits (y_type pn2) rs" using f(2) pn2(2) by simp
  from "2.IH"(2) [OF at2 pn2(1) this ok(3)] obtain d3 where
    d3: "\<And>answers. ymo_yaml_parse (map Some (forest_events rs) @ answers) (Some p) d2 =
          ymo_yaml_parse answers (Some (if rs = [] then p else q)) d3"
      "grown d2 d3 (count rs) (forest_texts rs)"
      "forest (y_nodes d3) (y_buffer d3) (y_end d3) ?m (Some p) rs"
      "if rs = [] then d3 = d2 else linked ?m p (as @ [?n]) (y_nodes d2) (y_nodes d3)"
    unfolding fr2 by blast
  have "rs \<noteq> [] \<Longrightarrow> q = p" using hm f(3) "2.prems"(2) by (auto simp: home_def)
  then have run: "ymo_yaml_parse (map Some (forest_events (Rose lab ts # rs)) @ answers) (Some p) doc =
      ymo_yaml_parse answers (Some q) d3" for answers
    using d2(1) [of "map Some (forest_events rs) @ answers"] d3(1) d3(4) by (cases "rs = []") auto
  have g3: "grown doc d3 (count (Rose lab ts # rs)) (forest_texts (Rose lab ts # rs))"
    using grown_trans [OF g2 d3(2)] by (simp add: add.assoc)
  have l3: "linked ?n p as (y_nodes doc) (y_nodes d3)"
    using linked_trans [OF d1(3) p(1,3,2), of ?m "Suc ?n" "y_nodes d2" "y_nodes d3"] d2(4) d3(4)
    by (auto split: if_splits)
  have inner: "y_nodes d3 a = y_nodes d2 a" if "?n < a" "a < ?m" for a
    using d3(4) that p(1) by (auto simp: linked_def split: if_splits)
  have n3: "y_nodes d3 ?n = Some (nd\<lparr>y_child := (if ts = [] then None else Some (Suc ?n)),
      y_next := (if rs = [] then None else Some ?m)\<rparr>)"
    using d3(4) n2 d1(8) by (auto simp: linked_def split: if_splits)
  have b12: "take (y_end d1) (y_buffer d2) = take (y_end d1) (y_buffer d1)" "y_end d1 \<le> y_end d2"
    and b23: "take (y_end d2) (y_buffer d3) = take (y_end d2) (y_buffer d2)" "y_end d2 \<le> y_end d3"
    using d2(2) d3(2) by (simp_all add: grown_def)
  have b13: "take (y_end d1) (y_buffer d3) = take (y_end d1) (y_buffer d1)"
    using arg_cong [OF b23(1), of "take (y_end d1)"] b12 by (simp add: min_def)
  have e3: "y_end d3 \<le> length (y_buffer d3)" using "2.prems"(1) g3 by (simp add: grown_def at_node_def)
  have lab3: "label_node (y_buffer d3) (y_end d3) lab (nd\<lparr>y_child := (if ts = [] then None else Some (Suc ?n)),
      y_next := (if rs = [] then None else Some ?m)\<rparr>)"
    by (rule label_node_cong [OF label_node_mono [OF d1(5) b13 _ e3]]) (use b12(2) b23(2) in simp_all)
  have ts3: "forest (y_nodes d3) (y_buffer d3) (y_end d3) (Suc ?n) (Some ?n) ts"
    using forest_mono [OF b23(1,2) e3 d2(3)] inner by auto
  have "forest (y_nodes d3) (y_buffer d3) (y_end d3) ?n (Some p) (Rose lab ts # rs)"
    using n3 lab3 ts3 d3(3) d1(6) by simp
  with run g3 l3 show ?case by auto
qed

text \<open>The whole document: the root is the collection the parser starts with.\<close>

definition document :: "yaml \<Rightarrow> yaml_event option list" where
  "document y = map Some ([YAML_STREAM_START_EVENT, YAML_DOCUMENT_START_EVENT] @ yaml_events y @
     [YAML_DOCUMENT_END_EVENT, YAML_STREAM_END_EVENT])"

definition loads :: "yaml \<Rightarrow> yaml_doc \<Rightarrow> bool" where
  "loads y doc \<longleftrightarrow> y_root doc = Some 0 \<and> y_fresh doc = nodes (rose_of y) \<and>
     forest (y_nodes doc) (y_buffer doc) (y_end doc) 0 None [rose_of y]"

lemma document_parsed:
  assumes col: "\<And>b. y \<noteq> Y_scalar b" and r: "rose_of y = Rose lab ts"
    and doc: "y_fresh doc = 0" "y_root doc = None" "y_end doc = 0" "y_remain doc = word_of_nat (length (y_buffer doc))"
      "nodes (rose_of y) \<le> y_mem doc"
    and sp: "space (texts (rose_of y)) \<le> length (y_buffer doc)" "length (y_buffer doc) < 2 ^ 64"
      "\<forall>s \<in> set (texts (rose_of y)). 0 \<notin> set s"
  obtains d where "ymo_yaml_parse (document y) None doc = Ret (YMO_OKAY, d)" "loads y d"
proof -
  have lab: "lab = L_seq \<or> lab = L_obj" using col r by (cases y) auto
  then have lt: "label_text lab = []" by auto
  have ok: "rose_ok (Rose lab ts)" using rose_of_ok [of y] r by simp
  let ?nd = "label_start None 0 lab"
  define d1 where "d1 = doc\<lparr>y_mem := y_mem doc - 1, y_fresh := 1, y_nodes := (y_nodes doc)(0 \<mapsto> zero_node None, 0 \<mapsto> ?nd),
      y_end := 0, y_root := Some 0\<rparr>"
  have mem: "y_mem doc \<noteq> 0" "count ts \<le> y_mem d1" using doc(5) r by (simp_all add: d1_def)
  have c: "ymo_yaml_node_create None (opener lab) doc = Ret (Inr 0, d1)"
    using lab mem(1) doc by (auto simp: ymo_yaml_node_create_def yaml_finish_def yaml_append_def Let_def label_start_def d1_def)
  have nd: "y_nodes d1 0 = Some ?nd" by (simp add: d1_def)
  have ty: "y_type ?nd \<noteq> YMO_YAML_SCALAR" "y_child ?nd = None" "y_next ?nd = None" "y_parent ?nd = None"
    using lab by (auto simp: label_start_def zero_node_def)
  have tx: "forest_texts ts = texts (rose_of y)" using r lt by (simp add: forest_texts_eq)
  have rem: "unat (y_remain d1) = length (y_buffer d1)"
    using doc(4) sp(2) by (simp add: d1_def unat_of_nat take_bit_nat_eq_self)
  have at: "at_node d1 0 [] 0 (count ts) (forest_texts ts)"
    using nd ty mem(2) sp tx rem by (auto simp: at_node_def home_def d1_def)
  have l: "label_node (y_buffer d1) (y_end d1) lab ?nd" using lab by (auto simp: label_start_def)
  from parse_forest [OF at nd fits_children [OF ok l]] ok obtain d2 where
    d2: "\<And>answers. ymo_yaml_parse (map Some (forest_events ts) @ answers) (Some 0) d1 = ymo_yaml_parse answers (Some 0) d2"
      "grown d1 d2 (count ts) (forest_texts ts)"
      "forest (y_nodes d2) (y_buffer d2) (y_end d2) 1 (Some 0) ts"
      "if ts = [] then d2 = d1 else linked 1 0 [] (y_nodes d1) (y_nodes d2)"
    by (auto simp: d1_def split: if_splits)
  have n2: "y_nodes d2 0 = Some (?nd\<lparr>y_child := (if ts = [] then None else Some 1)\<rparr>)"
    using d2(4) nd ty(2) by (auto simp: linked_def split: if_splits)
  have e2: "y_end d2 \<le> length (y_buffer d2)" using d2(2) sp(1) tx by (simp add: grown_def d1_def)
  have "pop_parent (Some 0) d2 = Ret None" using n2 ty(4) by (simp add: pop_parent_def get_node_def)
  then have "ymo_yaml_parse (map Some (closer lab) @ answers) (Some 0) d2 = ymo_yaml_parse answers None d2" for answers
    using lab by auto
  moreover have "yaml_events y = opener lab # forest_events ts @ closer lab"
    using lab r ok rose_events_of [of y] by (auto simp: forest_events_eq)
  moreover have "ymo_yaml_parse (Some (opener lab) # answers) None doc = ymo_yaml_parse answers (Some 0) d1" for answers
    using c lab by auto
  ultimately have "ymo_yaml_parse (document y) None doc = Ret (YMO_OKAY, d2)"
    using d2(1) by (simp add: document_def)
  moreover have "loads y d2"
  proof -
    have "label_node (y_buffer d2) (y_end d2) lab (?nd\<lparr>y_child := (if ts = [] then None else Some 1)\<rparr>)"
      using lab by (auto simp: label_start_def)
    then show ?thesis using n2 ty d2(2,3) r by (simp add: loads_def grown_def d1_def)
  qed
  ultimately show thesis by (rule that)
qed

section \<open>Printing, searching and freeing\<close>

lemma cstr_at: "text_at (y_buffer doc) e k b \<Longrightarrow> 0 \<notin> set b \<Longrightarrow> yaml_cstr doc (In_buffer k) = Ret b"
proof -
  assume t: "text_at (y_buffer doc) e k b" and z: "0 \<notin> set b"
  then have "drop k (y_buffer doc) = (b @ [0]) @ drop (length b + 1) (drop k (y_buffer doc))"
    unfolding text_at_def by (metis append_take_drop_id)
  then obtain r where r: "drop k (y_buffer doc) = b @ 0 # r" by simp
  have "takeWhile (\<lambda>c. c \<noteq> 0) (b @ 0 # r) = b" using z by (induction b) auto
  then show ?thesis by (simp add: yaml_cstr_def Let_def r)
qed

lemma joined_Cons: "joined (s # ss) = s @ (if ss = [] then [] else str '', '' @ joined ss)"
  by (cases ss) auto

lemma label_print:
  assumes "label_node (y_buffer doc) e lab nd" "\<forall>s \<in> set (label_text lab). 0 \<notin> set s"
  obtains v t s where "y_value nd = Some v" "terminal nd = Some t" "yaml_cstr doc v = Ret s"
    "\<And>ts. rose_json (Rose lab ts) =
      (if y_type nd = YMO_YAML_SCALAR then str ''\"'' @ s @ str ''\"'' @ str t @ joined (map rose_json ts)
       else s @ joined (map rose_json ts) @ str t)"
proof (cases "\<exists>b. lab = L_item b \<or> lab = L_key b")
  case True
  then obtain b where b: "lab = L_item b \<or> lab = L_key b" by blast
  then obtain k where k: "y_value nd = Some (In_buffer k)" "text_at (y_buffer doc) e k b" "y_type nd = YMO_YAML_SCALAR"
    using assms(1) by auto
  have "yaml_cstr doc (In_buffer k) = Ret b" using cstr_at [OF k(2)] assms(2) b by auto
  with k b assms(1) that show thesis by (auto simp: quoted_def str_def)
next
  case False
  then have "lab = L_seq \<or> lab = L_obj" by (cases lab) auto
  then show thesis
  proof
    assume "lab = L_seq"
    with assms(1) show thesis by (intro that [of "Literal ''[''" "'']''" "str ''[''"]) (auto simp: yaml_cstr_def)
  next
    assume "lab = L_obj"
    with assms(1) show thesis by (intro that [of "Literal ''{''" "''}''" "str ''{''"]) (auto simp: yaml_cstr_def)
  qed
qed

lemma print_forest:
  "forest (y_nodes doc) (y_buffer doc) e a p rs \<Longrightarrow> \<forall>s \<in> set (forest_texts rs). 0 \<notin> set s \<Longrightarrow> count rs < fuel \<Longrightarrow>
   ymo_yaml_print_node fuel doc (if rs = [] then None else Some a) = Ret (joined (map rose_json rs))"
proof (induction rs arbitrary: fuel a p rule: forest_events.induct)
  case 1
  then show ?case by (cases fuel) auto
next
  case (2 lab ts rs)
  then obtain f nd where f: "fuel = Suc f" and nd: "y_nodes doc a = Some nd" "label_node (y_buffer doc) e lab nd"
      "y_child nd = (if ts = [] then None else Some (Suc a))"
      "y_next nd = (if rs = [] then None else Some (Suc (a + count ts)))"
    by (cases fuel) auto
  have c: "ymo_yaml_print_node f doc (y_child nd) = Ret (joined (map rose_json ts))"
    and n: "ymo_yaml_print_node f doc (y_next nd) = Ret (joined (map rose_json rs))"
    using "2.IH" "2.prems" f by (auto simp: nd(3,4))
  have "\<forall>s \<in> set (label_text lab). 0 \<notin> set s" using "2.prems"(2) by auto
  from label_print [OF nd(2) this] obtain v t s where
    v: "y_value nd = Some v" "terminal nd = Some t" "yaml_cstr doc v = Ret s"
      "\<And>ts. rose_json (Rose lab ts) =
        (if y_type nd = YMO_YAML_SCALAR then str ''\"'' @ s @ str ''\"'' @ str t @ joined (map rose_json ts)
         else s @ joined (map rose_json ts) @ str t)" by metis
  have "y_next nd = None \<longleftrightarrow> rs = []" using nd(4) by simp
  then have "ymo_yaml_print_node fuel doc (Some a) = Ret (rose_json (Rose lab ts) @ (if rs = [] then [] else str '', '' @ joined (map rose_json rs)))"
    using nd(1) v(1,2,3) c n unfolding f v(4) by (simp add: get_node_def del: rose_json.simps)
  then show ?case by (simp add: joined_Cons del: rose_json.simps)
qed

text \<open>What a document holds under a path of keys: keys are compared without regard to case.\<close>

fun yaml_get :: "yaml \<Rightarrow> bytes list \<Rightarrow> yaml option" where
  "yaml_get y [] = Some y"
| "yaml_get (Y_map kvs) (t # ts) =
     (case find (\<lambda>kv. strcaseeq (fst kv) t) kvs of None \<Rightarrow> None | Some kv \<Rightarrow> yaml_get (snd kv) ts)"
| "yaml_get y ts = None"

definition entry :: "bytes \<times> yaml \<Rightarrow> rose" where
  "entry kv = Rose (L_key (fst kv)) [rose_of (snd kv)]"

lemma entry_Pair [simp]: "entry (k, v) = Rose (L_key k) [rose_of v]"
  by (simp add: entry_def)

lemma rose_of_map: "rose_of (Y_map kvs) = Rose L_obj (map entry kvs)"
  by (simp add: entry_def [abs_def] case_prod_beta')

lemma find_key_ok:
  "forest (y_nodes doc) (y_buffer doc) e a p (map entry kvs) \<Longrightarrow>
   \<forall>s \<in> set (forest_texts (map entry kvs)). 0 \<notin> set s \<Longrightarrow> length kvs < fuel \<Longrightarrow>
   (case find (\<lambda>kv. strcaseeq (fst kv) key) kvs of
      None \<Rightarrow> find_key fuel doc (if kvs = [] then None else Some a) key = Ret None
    | Some kv \<Rightarrow> \<exists>b q. find_key fuel doc (if kvs = [] then None else Some a) key = Ret (Some b) \<and>
        forest (y_nodes doc) (y_buffer doc) e b q [rose_of (snd kv)] \<and>
        b + nodes (rose_of (snd kv)) \<le> a + count (map entry kvs) \<and>
        set (texts (rose_of (snd kv))) \<subseteq> set (forest_texts (map entry kvs)))"
proof (induction kvs arbitrary: a fuel)
  case Nil
  then show ?case by (cases fuel) auto
next
  case (Cons kv kvs)
  obtain k v where kv: "kv = (k, v)" by (cases kv)
  obtain f nd where f: "fuel = Suc f" and nd: "y_nodes doc a = Some nd" "label_node (y_buffer doc) e (L_key k) nd"
      "y_child nd = Some (Suc a)" "y_next nd = (if kvs = [] then None else Some (Suc (Suc a + nodes (rose_of v)) - 1 + 0))"
    using Cons.prems kv by (cases fuel) auto
  obtain t where t: "y_value nd = Some (In_buffer t)" "text_at (y_buffer doc) e t k" "y_type nd = YMO_YAML_SCALAR"
    using nd(2) by auto
  have s: "yaml_cstr doc (In_buffer t) = Ret k" using cstr_at [OF t(2)] Cons.prems(2) kv by simp
  have step: "find_key fuel doc (Some a) key =
      (if strcaseeq k key then Ret (Some (Suc a))
       else find_key f doc (if kvs = [] then None else Some (Suc a + nodes (rose_of v))) key)"
    using f nd t s by (simp add: get_node_def ymo_yaml_item_next_def)
  have fo: "forest (y_nodes doc) (y_buffer doc) e (Suc a) (Some a) [rose_of v]"
    "forest (y_nodes doc) (y_buffer doc) e (Suc a + nodes (rose_of v)) p (map entry kvs)"
    using Cons.prems(1) kv by simp_all
  show ?case
  proof (cases "strcaseeq k key")
    case True
    have "find_key fuel doc (if kv # kvs = [] then None else Some a) key = Ret (Some (Suc a))" using step True by simp
    moreover have "set (texts (rose_of v)) \<subseteq> set (forest_texts (map entry (kv # kvs)))"
      by (auto simp: kv forest_texts_eq)
    ultimately show ?thesis using True fo(1) by (simp add: kv) blast
  next
    case False
    have "\<forall>s \<in> set (forest_texts (map entry kvs)). 0 \<notin> set s" using Cons.prems(2) kv by simp
    from Cons.IH [OF fo(2) this, of f] Cons.prems(3) f
    show ?thesis using step False by (auto simp: kv split: option.splits)
  qed
qed

lemma walk_None [simp]: "yaml_walk doc None terms = Ret None"
  by (cases terms) simp_all

lemma length_entries: "length kvs \<le> count (map entry kvs)"
  by (induction kvs) (auto simp: entry_def)

lemma get_ok:
  "forest (y_nodes doc) (y_buffer doc) e a p [rose_of y] \<Longrightarrow> \<forall>s \<in> set (texts (rose_of y)). 0 \<notin> set s \<Longrightarrow>
   a + nodes (rose_of y) \<le> y_fresh doc \<Longrightarrow>
   case yaml_get y terms of
     None \<Rightarrow> yaml_walk doc (Some a) terms = Ret None
   | Some v \<Rightarrow> \<exists>b q. yaml_walk doc (Some a) terms = Ret (Some b) \<and> forest (y_nodes doc) (y_buffer doc) e b q [rose_of v] \<and>
       b + nodes (rose_of v) \<le> y_fresh doc \<and> (\<forall>s \<in> set (texts (rose_of v)). 0 \<notin> set s)"
proof (induction y terms arbitrary: a p rule: yaml_get.induct)
  case (1 y)
  then show ?case by auto
next
  case (2 kvs t ts)
  have r: "rose_of (Y_map kvs) = Rose L_obj (map entry kvs)" by (rule rose_of_map)
  obtain nd where nd: "y_nodes doc a = Some nd" "y_type nd = YMO_YAML_OBJECT"
      "y_child nd = (if kvs = [] then None else Some (Suc a))"
    and fo: "forest (y_nodes doc) (y_buffer doc) e (Suc a) (Some a) (map entry kvs)"
    using "2.prems"(1) unfolding r by auto
  have tx: "\<forall>s \<in> set (forest_texts (map entry kvs)). 0 \<notin> set s"
    using "2.prems"(2) unfolding r by (simp add: forest_texts_eq)
  have lt: "a + Suc (count (map entry kvs)) \<le> y_fresh doc" using "2.prems"(3) unfolding r by simp
  then have "length kvs < Suc (y_fresh doc)" using length_entries [of kvs] by simp
  note fk = find_key_ok [OF fo tx this, of t]
  have g: "ymo_yaml_object_get doc (Some a) t = find_key (Suc (y_fresh doc)) doc (if kvs = [] then None else Some (Suc a)) t"
    using nd by (simp add: ymo_yaml_object_get_def get_node_def ymo_yaml_item_next_def del: find_key.simps)
  show ?case
  proof (cases "find (\<lambda>kv. strcaseeq (fst kv) t) kvs")
    case None
    then show ?thesis using fk g by simp
  next
    case (Some kv)
    then obtain b q where b: "find_key (Suc (y_fresh doc)) doc (if kvs = [] then None else Some (Suc a)) t = Ret (Some b)"
        "forest (y_nodes doc) (y_buffer doc) e b q [rose_of (snd kv)]"
        "b + nodes (rose_of (snd kv)) \<le> Suc a + count (map entry kvs)"
        "set (texts (rose_of (snd kv))) \<subseteq> set (forest_texts (map entry kvs))"
      using fk by auto
    have "\<forall>s \<in> set (texts (rose_of (snd kv))). 0 \<notin> set s" "b + nodes (rose_of (snd kv)) \<le> y_fresh doc"
      using b(3,4) tx lt by auto
    note IH = "2.IH" [OF Some b(2) this]
    have "yaml_walk doc (Some a) (t # ts) = yaml_walk doc (Some b) ts" using b(1) g by (simp del: find_key.simps)
    then show ?thesis using Some IH by (cases "yaml_get (snd kv) ts") (simp_all del: yaml_walk.simps)
  qed
qed (auto simp: ymo_yaml_object_get_def get_node_def)

lemma forest_heap:
  "forest h buf e a p rs \<Longrightarrow> \<forall>b. a \<le> b \<and> b < a + count rs \<longrightarrow> h' b = h b \<Longrightarrow> forest h' buf e a p rs"
  by (induction h buf e a p rs rule: forest.induct) auto

lemma free_forest:
  "forest h buf e a p rs \<Longrightarrow> count rs < fuel \<Longrightarrow>
   ymo_yaml_node_free fuel (if rs = [] then None else Some a) h =
     Ret (\<lambda>b. if a \<le> b \<and> b < a + count rs then None else h b)"
proof (induction rs arbitrary: fuel a p h rule: forest_events.induct)
  case 1
  then show ?case by (cases fuel) (auto simp: fun_eq_iff)
next
  case (2 lab ts rs)
  then obtain f nd where f: "fuel = Suc f" "count ts < f" "count rs < f" and nd: "h a = Some nd"
      "y_child nd = (if ts = [] then None else Some (Suc a))"
      "y_next nd = (if rs = [] then None else Some (Suc (a + count ts)))"
    and fo: "forest h buf e (Suc a) (Some a) ts" "forest h buf e (Suc (a + count ts)) p rs"
    by (cases fuel) auto
  let ?h1 = "\<lambda>b. if Suc a \<le> b \<and> b < Suc a + count ts then None else h b"
  have c: "ymo_yaml_node_free f (y_child nd) h = Ret ?h1"
    using "2.IH"(1) [OF fo(1) f(2)] by (simp add: nd(2))
  have "forest (?h1(a := None)) buf e (Suc (a + count ts)) p rs" by (rule forest_heap [OF fo(2)]) auto
  from "2.IH"(2) [OF this f(3)] have n: "ymo_yaml_node_free f (y_next nd) (?h1(a := None)) =
      Ret (\<lambda>b. if Suc (a + count ts) \<le> b \<and> b < Suc (a + count ts) + count rs then None else (?h1(a := None)) b)"
    unfolding nd(3) .
  have "?h1 a = Some nd" using nd(1) by simp
  then have "ymo_yaml_node_free fuel (Some a) h = ymo_yaml_node_free f (y_next nd) (?h1(a := None))"
    using nd(1) c by (simp add: f(1) get_node_def)
  then show ?case unfolding n by (auto simp: fun_eq_iff)
qed

text \<open>All the nodes there are have been given out by the parser.\<close>

lemma run_bind_Ret: "run_bind m f = Ret x \<longleftrightarrow> (\<exists>y. m = Ret y \<and> f y = Ret x)"
  by (cases m) auto

definition nodes_below :: "yaml_doc \<Rightarrow> bool" where
  "nodes_below doc \<longleftrightarrow> (\<forall>a nd. y_nodes doc a = Some nd \<longrightarrow> a < y_fresh doc)"

lemma get_node_Ret [simp]: "get_node a h = Ret nd \<longleftrightarrow> h a = Some nd"
  by (simp add: get_node_def split: option.splits)

lemma append_dom:
  "yaml_append n parent d = Ret d' \<Longrightarrow>
   (\<forall>a. y_nodes d' a = None \<longleftrightarrow> y_nodes d a = None) \<and> y_fresh d' = y_fresh d"
  by (cases parent) (auto simp: yaml_append_def run_bind_Ret Let_def split: option.splits if_splits)

lemma finish_below:
  assumes "yaml_finish n parent nd e r d = Ret (v, d')" "nodes_below d" "n < y_fresh d"
  shows "nodes_below d'"
proof -
  obtain d1 where d1: "yaml_append n parent (d\<lparr>y_nodes := (y_nodes d)(n \<mapsto> nd)\<rparr>) = Ret d1"
    and d': "y_nodes d' = y_nodes d1" "y_fresh d' = y_fresh d1"
    using assms(1) by (auto simp: yaml_finish_def run_bind_Ret Let_def)
  note a = append_dom [OF d1]
  show ?thesis unfolding nodes_below_def
  proof (intro allI impI)
    fix b x assume "y_nodes d' b = Some x"
    then have "((y_nodes d)(n \<mapsto> nd)) b \<noteq> None" using spec [OF conjunct1 [OF a], of b] d'(1) by simp
    then show "b < y_fresh d'" using assms(2,3) a d'(2) by (auto simp: nodes_below_def split: if_splits)
  qed
qed

lemma bail_below:
  assumes "yaml_bail err n d = Ret (v, d')" "nodes_below d"
  shows "nodes_below d'"
  using assms unfolding yaml_bail_def nodes_below_def by (auto split: if_splits)

lemma scalar_text_nodes:
  "scalar_text v d = Ret (t, d', e) \<Longrightarrow> y_nodes d' = y_nodes d \<and> y_fresh d' = y_fresh d"
  by (auto simp: scalar_text_def Let_def split: if_splits)

lemma create_below:
  assumes c: "ymo_yaml_node_create parent ev d = Ret (v, d')" and b: "nodes_below d"
  shows "nodes_below d'"
proof (cases "y_mem d = 0")
  case True
  then show ?thesis using c b by (simp add: ymo_yaml_node_create_def)
next
  case m: False
  let ?n = "y_fresh d"
  let ?d = "d\<lparr>y_mem := y_mem d - 1, y_fresh := ?n + 1, y_nodes := (y_nodes d)(?n \<mapsto> zero_node parent)\<rparr>"
  have b': "nodes_below ?d" using b by (auto simp: nodes_below_def intro: less_SucI)
  have n: "?n < y_fresh ?d" by simp
  show ?thesis
  proof (cases "\<exists>s p. ev = YAML_SCALAR_EVENT s \<and> parent = Some p")
    case True
    then obtain s p where ev: "ev = YAML_SCALAR_EVENT s" "parent = Some p" by blast
    obtain t d1 e where t: "scalar_text s ?d = Ret (t, d1, e)"
      and r: "(case t of Inl err \<Rightarrow> yaml_bail err ?n d1
        | Inr s \<Rightarrow> run_bind (scalar_role ?n p d1) (\<lambda>role.
            case role of Inl err \<Rightarrow> yaml_bail err ?n d1
            | Inr (t, r_node) \<Rightarrow> yaml_finish ?n parent
                ((zero_node parent)\<lparr>y_type := YMO_YAML_SCALAR, y_value := Some s, terminal := Some t\<rparr>) e r_node d1)) = Ret (v, d')"
      using c m ev unfolding ymo_yaml_node_create_def Let_def by (auto simp: run_bind_Ret)
    have b1: "nodes_below d1" "?n < y_fresh d1" using scalar_text_nodes [OF t] b' by (simp_all add: nodes_below_def)
    show ?thesis
    proof (cases t)
      case (Inl err)
      then show ?thesis using r bail_below [OF _ b1(1)] by simp
    next
      case (Inr s)
      then obtain role where "(case role of Inl err \<Rightarrow> yaml_bail err ?n d1
            | Inr (t, r_node) \<Rightarrow> yaml_finish ?n parent
                ((zero_node parent)\<lparr>y_type := YMO_YAML_SCALAR, y_value := Some s, terminal := Some t\<rparr>) e r_node d1) = Ret (v, d')"
        using r by (auto simp: run_bind_Ret)
      then show ?thesis using bail_below [OF _ b1(1)] finish_below [OF _ b1] by (cases role) auto
    qed
  next
    case False
    then show ?thesis using c m bail_below [OF _ b'] finish_below [OF _ b' n]
      unfolding ymo_yaml_node_create_def Let_def by (cases ev) (auto split: option.splits)
  qed
qed

lemma parse_below: "ymo_yaml_parse answers parent d = Ret (st, d') \<Longrightarrow> nodes_below d \<Longrightarrow> nodes_below d'"
proof (induction answers parent d rule: ymo_yaml_parse.induct)
  case (3 ev answers parent d)
  consider "case ev of YAML_SCALAR_EVENT v \<Rightarrow> True | _ \<Rightarrow> ev \<in> {YAML_SEQUENCE_START_EVENT, YAML_MAPPING_START_EVENT}"
    | "\<not> (case ev of YAML_SCALAR_EVENT v \<Rightarrow> True | _ \<Rightarrow> ev \<in> {YAML_SEQUENCE_START_EVENT, YAML_MAPPING_START_EVENT})"
    by blast
  then show ?case
  proof cases
    case 1
    then obtain r d1 where c: "ymo_yaml_node_create parent ev d = Ret (r, d1)"
      and r: "(case r of Inl err \<Rightarrow> Ret (err, d1) | Inr p \<Rightarrow> ymo_yaml_parse answers (Some p) d1) = Ret (st, d')"
      using "3.prems"(1) by (auto simp: run_bind_Ret)
    have b1: "nodes_below d1" using create_below [OF c "3.prems"(2)] .
    show ?thesis
    proof (cases r)
      case (Inr p)
      then show ?thesis using "3.IH"(1) [OF 1 refl] r b1 c by simp
    qed (use r b1 in simp)
  next
    case 2
    then show ?thesis using "3.prems" "3.IH"(2,3) [OF 2] by (auto simp: run_bind_Ret split: if_splits)
  qed
qed simp_all

section \<open>Properties\<close>

text \<open>
  C13: a file of fewer than 8192 bytes (a larger one is refused) whose events are those of one document with a
  collection at its root, without aliases, keys that are collections, or NUL bytes in its texts, is loaded, provided
  its texts, each with two bytes more, fit into its size plus one and there is memory for its nodes and three
  blocks more.  What is loaded prints as the document, a search along any path of keys finds the value the
  document has there and nothing else, and freeing it frees every node.
\<close>
theorem yaml_document_loaded:
  assumes y: "\<forall>b. y \<noteq> Y_scalar b" "\<forall>s \<in> set (texts (rose_of y)). 0 \<notin> set s"
    and n: "space (texts (rose_of y)) \<le> n + 1" "n < 8192" and m: "nodes (rose_of y) + 3 \<le> m"
  shows "\<exists>doc. ymo_yaml_load_file path (Some (int n, document y)) m = Ret (Some doc) \<and>
    ymo_yaml_doc_print_json_hack doc = Ret (yaml_json y) \<and>
    (\<forall>terms. \<exists>a. ymo_yaml_doc_vget doc terms = Ret a \<and>
       (case yaml_get y terms of
          None \<Rightarrow> a = None
        | Some v \<Rightarrow> a \<noteq> None \<and> ymo_yaml_print_node (Suc (y_fresh doc)) doc a = Ret (yaml_json v))) \<and>
    ymo_yaml_doc_free doc = Ret Map.empty"
proof -
  let ?L = "word_of_int (int n) + 1 :: u64"
  have L: "unat ?L = n + 1" using n(2) by (simp add: unat_plus_small unat_of_nat take_bit_nat_eq_self)
  define d0 where "d0 = \<lparr>f_path = take YMO_YAML_PATH_MAX_LEN path, y_len = ?L, y_buffer = replicate (n + 1) 0, y_root = None,
    y_remain = ?L, y_end = 0, y_nodes = Map.empty, y_fresh = 0, y_mem = m - 3\<rparr>"
  have c: "ymo_yaml_doc_create path (word_of_int (int n)) m = Inr d0"
    using m n(2) L by (simp add: ymo_yaml_doc_create_def d0_def YMO_YAML_DOC_MAX_SIZE_def word_less_nat_alt)
  obtain lab ts where r: "rose_of y = Rose lab ts" by (cases "rose_of y")
  have d0: "y_fresh d0 = 0" "y_root d0 = None" "y_end d0 = 0" "y_remain d0 = word_of_nat (length (y_buffer d0))"
    "nodes (rose_of y) \<le> y_mem d0" "length (y_buffer d0) = n + 1"
    using m by (simp_all add: d0_def add.commute)
  have sp: "space (texts (rose_of y)) \<le> length (y_buffer d0)" "length (y_buffer d0) < 2 ^ 64"
    using n unfolding d0(6) by simp_all
  from document_parsed [OF _ r d0(1-5) sp y(2)] y(1) obtain doc where
    doc: "ymo_yaml_parse (document y) None d0 = Ret (YMO_OKAY, doc)" "loads y doc" by blast
  have fo: "forest (y_nodes doc) (y_buffer doc) (y_end doc) 0 None [rose_of y]"
    and rt: "y_root doc = Some 0" "y_fresh doc = nodes (rose_of y)" using doc(2) by (simp_all add: loads_def)
  have print: "ymo_yaml_print_node (Suc (y_fresh doc)) doc (Some b) = Ret (yaml_json v)"
    if "forest (y_nodes doc) (y_buffer doc) (y_end doc) b q [rose_of v]" "b + nodes (rose_of v) \<le> y_fresh doc"
      "\<forall>s \<in> set (texts (rose_of v)). 0 \<notin> set s" for b q v
    using print_forest [OF that(1), of "Suc (y_fresh doc)"] that(2,3)
    by (simp add: forest_texts_eq rose_json_of del: ymo_yaml_print_node.simps)
  have "ymo_yaml_load_file path (Some (int n, document y)) m = Ret (Some doc)"
    using c doc(1) by (simp add: ymo_yaml_load_file_def)
  moreover have "ymo_yaml_doc_print_json_hack doc = Ret (yaml_json y)"
    using print [OF fo _ y(2)] rt by (simp add: ymo_yaml_doc_print_json_hack_def del: ymo_yaml_print_node.simps)
  moreover have "\<exists>a. ymo_yaml_doc_vget doc terms = Ret a \<and>
       (case yaml_get y terms of
          None \<Rightarrow> a = None
        | Some v \<Rightarrow> a \<noteq> None \<and> ymo_yaml_print_node (Suc (y_fresh doc)) doc a = Ret (yaml_json v))" for terms
    using get_ok [OF fo y(2), of terms] rt print
    by (auto simp: ymo_yaml_doc_vget_def ymo_yaml_doc_root_def split: option.splits simp del: ymo_yaml_print_node.simps)
  moreover have "ymo_yaml_doc_free doc = Ret Map.empty"
  proof -
    have "nodes_below d0" by (simp add: nodes_below_def d0_def)
    then have b: "nodes_below doc" using parse_below [OF doc(1)] by blast
    have "ymo_yaml_doc_free doc = Ret (\<lambda>b. if 0 \<le> b \<and> b < 0 + count [rose_of y] then None else y_nodes doc b)"
      using free_forest [OF fo, of "Suc (y_fresh doc)"] rt
      by (simp add: ymo_yaml_doc_free_def del: ymo_yaml_node_free.simps)
    moreover have "y_nodes doc a = None" if "\<not> a < y_fresh doc" for a
      using b that by (cases "y_nodes doc a") (auto simp: nodes_below_def)
    ultimately show ?thesis using rt by (auto simp: fun_eq_iff)
  qed
  ultimately show ?thesis by blast
qed

definition sample :: yaml where
  "sample = Y_map [(str ''a'', Y_seq [Y_scalar (str ''1'')]), (str ''b'', Y_scalar (str ''x''))]"

theorem yaml_document_loaded_witness:
  "\<exists>doc. ymo_yaml_load_file [] (Some (20, document sample)) 10 = Ret (Some doc) \<and>
     ymo_yaml_doc_print_json_hack doc = Ret (str ''{\"a\":[\"1\"], \"b\":\"x\"}'')"
proof -
  have "\<forall>b. sample \<noteq> Y_scalar b" "\<forall>s \<in> set (texts (rose_of sample)). 0 \<notin> set s"
    "space (texts (rose_of sample)) \<le> 20 + 1" "nodes (rose_of sample) + 3 \<le> 10"
    by (simp_all add: sample_def str_def chr_def)
  from yaml_document_loaded [OF this(1,2,3) _ this(4), of "[]"]
  show ?thesis by (auto simp: sample_def quoted_def str_def)
qed

text \<open>The write position of a document moves one byte more per text than is taken off what remains: a
  sequence of short items in flow style, here the file \<open>[a,a,a,a]\<close> of nine bytes, is written past the
  end of the buffer.\<close>
theorem yaml_buffer_overrun:
  "run_bind (ymo_yaml_load_file [] (Some (9, document (Y_seq (replicate 4 (Y_scalar (str ''a'')))))) 20)
     (\<lambda>_. Ret ()) = Fault"
  by code_simp

text \<open>An alias is dropped: in \<open>{k: *x, m: v}\<close> the value of \<open>k\<close> is the next key.\<close>

theorem yaml_alias_dropped:
  "run_bind (ymo_yaml_load_file [] (Some (14, map Some [YAML_MAPPING_START_EVENT, YAML_SCALAR_EVENT (str ''k''),
       YAML_ALIAS_EVENT, YAML_SCALAR_EVENT (str ''m''), YAML_SCALAR_EVENT (str ''v''), YAML_MAPPING_END_EVENT,
       YAML_STREAM_END_EVENT])) 20)
     (\<lambda>doc. run_bind (ymo_yaml_doc_vget (the doc) [str ''k'']) (\<lambda>a. ymo_yaml_node_as_str (the doc) a)) =
   Ret (Some (str ''m''))"
  by code_simp

end
