(* ===== verification/Net.thy ===== *)
theory Net
  imports Prelude
begin

text \<open>
  Buckets, the units of buffered output (\<^verbatim>\<open>src/core/ymo_bucket.c\<close>, in the stream configuration
  \<^verbatim>\<open>YMO_BUCKET_FSTREAM\<close> that the header selects), and the two routines that put a chain of them on
  the wire (\<^verbatim>\<open>src/core/ymo_net.c\<close>).  A chain is the list of the buckets reached over
  \<^verbatim>\<open>next\<close>; the empty list is the \<open>NULL\<close> pointer.
\<close>

section \<open>Buckets\<close>

record ymo_bucket =
  data :: bytes
  blen :: nat
  buf :: "bytes option"
  bytes_sent :: nat
  has_cleanup :: bool

type_synonym chain = "ymo_bucket list"

text \<open>
  What a protocol asks of its connection while it handles a callback (\<^verbatim>\<open>ymo_conn_tx_enable\<close>,
  \<^verbatim>\<open>ymo_conn_rx_enable\<close>, \<^verbatim>\<open>ymo_conn_tx_now\<close> and \<^verbatim>\<open>ymo_conn_shutdown\<close>), in order.
\<close>

datatype conn_act = Tx_enable bool | Rx_enable bool | Tx_now | Conn_shutdown

text \<open>
  Linking a new bucket behind \<open>prev\<close>: an existing successor of \<open>prev\<close> wins over \<open>next\<close>.  The results
  are the chain at \<open>prev\<close> and the chain at the new bucket.
\<close>

definition bucket_link :: "chain \<Rightarrow> chain \<Rightarrow> ymo_bucket \<Rightarrow> chain \<times> chain" where
  "bucket_link prev next b =
     (case prev of
        [] \<Rightarrow> ([], b # next)
      | p # ps \<Rightarrow> (let bucket = b # (if ps \<noteq> [] then ps else next) in (p # bucket, bucket)))"

text \<open>\<open>mem\<close> is the number of allocations that succeed; a failed one returns \<open>NULL\<close>.\<close>

definition ymo_bucket_create ::
  "nat \<Rightarrow> chain \<Rightarrow> chain \<Rightarrow> bytes option \<Rightarrow> bytes \<Rightarrow> chain \<times> chain" where
  "ymo_bucket_create mem prev next bf dat =
     (if mem = 0 then (prev, [])
      else bucket_link prev next
        \<lparr>data = dat, blen = length dat, buf = bf, bytes_sent = 0, has_cleanup = False\<rparr>)"

text \<open>
  The copy is made into memory that is not checked: \<open>None\<close> is the \<open>memcpy\<close> to \<open>NULL\<close>.
\<close>

definition ymo_bucket_create_cpy ::
  "nat \<Rightarrow> chain \<Rightarrow> chain \<Rightarrow> bytes \<Rightarrow> (chain \<times> chain) option" where
  "ymo_bucket_create_cpy mem prev next bf =
     (if mem = 0 then Some (prev, [])
      else if bf \<noteq> [] then
        if mem = 1 then None
        else Some (bucket_link prev next
          \<lparr>data = bf, blen = length bf, buf = Some bf, bytes_sent = 0, has_cleanup = False\<rparr>)
      else Some (bucket_link prev next
          \<lparr>data = [], blen = 0, buf = None, bytes_sent = 0, has_cleanup = False\<rparr>))"

text \<open>
  What the C library reports of a file: the size \<open>ftell\<close> returns and the bytes \<open>fread\<close> delivers.
\<close>

record c_file =
  fsize :: int
  fread :: bytes

text \<open>
  \<^verbatim>\<open>ymo_bucket_from_file\<close>; \<open>None\<close> is a file that cannot be opened.  The last component tells
  whether an opened file has been closed again.
\<close>

definition ymo_bucket_from_file ::
  "nat \<Rightarrow> chain \<Rightarrow> chain \<Rightarrow> c_file option \<Rightarrow> (ymo_status + chain) \<times> chain \<times> bool" where
  "ymo_bucket_from_file mem prev next file =
     (case file of
        None \<Rightarrow> (Inl ENOENT, prev, True)
      | Some f \<Rightarrow>
          if fsize f < 0 then (Inl EINVAL, prev, False)
          else if mem = 0 then (Inl ENOMEM, prev, False)
          else let no_read = length (take (nat (fsize f)) (fread f)) in
            if no_read \<noteq> nat (fsize f) then (Inl EFBIG, prev, True)
            else case ymo_bucket_create (mem - 1) prev next
                   (Some (take (nat (fsize f)) (fread f))) (take (nat (fsize f)) (fread f)) of
                (prev', bucket) \<Rightarrow> (if bucket = [] then Inl ENOMEM else Inr bucket, prev', True))"

fun ymo_bucket_len_all :: "chain \<Rightarrow> nat" where
  "ymo_bucket_len_all [] = 0"
| "ymo_bucket_len_all (p # ps) = blen p + ymo_bucket_len_all ps"

fun ymo_bucket_tail :: "chain \<Rightarrow> chain" where
  "ymo_bucket_tail [] = []"
| "ymo_bucket_tail [p] = [p]"
| "ymo_bucket_tail (p # q # ps) = ymo_bucket_tail (q # ps)"

text \<open>The chain at \<open>dst\<close> after the call, and the tail that is returned.\<close>

definition ymo_bucket_append :: "chain \<Rightarrow> chain \<Rightarrow> chain \<times> chain" where
  "ymo_bucket_append dst src =
     (if dst \<noteq> [] then (dst @ src, ymo_bucket_tail src) else ([], ymo_bucket_tail src))"

text \<open>
  Releasing buckets: a log of what is done, in order: the cleanup callback, the managed memory, the
  bucket itself.
\<close>

datatype release = Cleanup ymo_bucket | Free_buf bytes | Free_bucket ymo_bucket

definition ymo_bucket_free :: "ymo_bucket \<Rightarrow> release list" where
  "ymo_bucket_free b =
     (if has_cleanup b then [Cleanup b] else []) @
     (case buf b of None \<Rightarrow> [] | Some m \<Rightarrow> [Free_buf m]) @ [Free_bucket b]"

fun ymo_bucket_free_all :: "chain \<Rightarrow> release list" where
  "ymo_bucket_free_all [] = []"
| "ymo_bucket_free_all (b # bs) = ymo_bucket_free b @ ymo_bucket_free_all bs"

section \<open>Sending over a plain socket\<close>

definition YMO_BUCKET_MAX_IOVEC :: nat where "YMO_BUCKET_MAX_IOVEC = 32"

definition bucket_iov :: "ymo_bucket \<Rightarrow> bytes" where
  "bucket_iov b = take (blen b - bytes_sent b) (drop (bytes_sent b) (data b))"

text \<open>The loop that fills the array of I/O vectors, skipping empty buckets; \<open>i\<close> slots are left.\<close>

fun gather :: "nat \<Rightarrow> chain \<Rightarrow> bytes list" where
  "gather i [] = []"
| "gather 0 (b # bs) = []"
| "gather (Suc i) (b # bs) =
     (if blen b \<noteq> 0 then bucket_iov b # gather i bs else gather (Suc i) bs)"

text \<open>The loop that accounts for the bytes the kernel took and frees finished buckets.\<close>

fun account :: "nat \<Rightarrow> chain \<Rightarrow> chain" where
  "account n [] = []"
| "account n (b # bs) =
     (if n = 0 then b # bs
      else let remain = blen b - bytes_sent b in
        if n < remain then b\<lparr>bytes_sent := bytes_sent b + n\<rparr> # bs
        else account (n - remain) bs)"

text \<open>
  \<^verbatim>\<open>ymo_net_send_buckets\<close>.  The answers of successive \<open>sendmsg\<close> calls are given: an error number, or
  the number of bytes the socket buffer has room for (the call takes at most what it is offered).
  The result is the status, the bytes put on the wire and the remaining chain; \<open>None\<close> is a run that
  makes more calls than there are answers.
\<close>

fun ymo_net_send_buckets ::
  "(ymo_status + nat) list \<Rightarrow> chain \<Rightarrow> (ymo_status \<times> bytes \<times> chain) option" where
  "ymo_net_send_buckets answers head =
     (let out = concat (gather YMO_BUCKET_MAX_IOVEC head); to_send = length out in
      if to_send > 0 then
        case answers of
          [] \<Rightarrow> None
        | Inl errno # _ \<Rightarrow> Some (errno, [], head)
        | Inr room # answers' \<Rightarrow>
            (let bytes_sent = min room to_send; current = account bytes_sent head in
             if current \<noteq> [] \<and> blen (hd current) \<noteq> 0 then
               map_option (\<lambda>(st, wire, rest). (st, take bytes_sent out @ wire, rest))
                 (ymo_net_send_buckets answers' current)
             else Some (YMO_OKAY, take bytes_sent out, current))
      else Some (EBADMSG, [], head))"

declare ymo_net_send_buckets.simps [simp del]

section \<open>Sending over TLS\<close>

text \<open>What \<open>SSL_write_ex\<close> and \<open>SSL_get_error\<close> report of one call.\<close>

datatype ssl_answer = Ssl_wrote nat | Ssl_want_rw | Ssl_failed

text \<open>
  \<^verbatim>\<open>ymo_net_send_buckets_tls\<close> with a TLS session; the loop body runs before the first test for the
  end of the chain, so that the empty chain is a \<open>NULL\<close> dereference (\<open>None\<close>).
\<close>

fun ymo_net_send_buckets_tls ::
  "ssl_answer list \<Rightarrow> chain \<Rightarrow> (ymo_status \<times> bytes \<times> chain) option" where
  "ymo_net_send_buckets_tls answers [] = None"
| "ymo_net_send_buckets_tls [] (cur # rest) = None"
| "ymo_net_send_buckets_tls (Ssl_wrote room # answers) (cur # rest) =
     (let n = min room (length (bucket_iov cur)); sent = bytes_sent cur + n in
      if sent < blen cur
      then Some (EAGAIN, take n (bucket_iov cur), cur\<lparr>bytes_sent := sent\<rparr> # rest)
      else if rest = [] then Some (YMO_OKAY, take n (bucket_iov cur), [])
      else map_option (\<lambda>(st, wire, rest). (st, take n (bucket_iov cur) @ wire, rest))
             (ymo_net_send_buckets_tls answers rest))"
| "ymo_net_send_buckets_tls (Ssl_want_rw # answers) (cur # rest) = Some (EAGAIN, [], cur # rest)"
| "ymo_net_send_buckets_tls (Ssl_failed # answers) (cur # rest) = Some (ECONNABORTED, [], cur # rest)"

section \<open>What is pending in a chain\<close>

text \<open>A bucket whose payload has the recorded length and is not over-sent.\<close>

definition bucket_ok :: "ymo_bucket \<Rightarrow> bool" where
  "bucket_ok b \<longleftrightarrow> length (data b) = blen b \<and> bytes_sent b \<le> blen b"

definition pending :: "chain \<Rightarrow> bytes" where
  "pending bs = concat (map bucket_iov bs)"

lemma pending_simps [simp]: "pending [] = []" "pending (b # bs) = bucket_iov b @ pending bs"
  by (simp_all add: pending_def)

lemma length_bucket_iov: "bucket_ok b \<Longrightarrow> length (bucket_iov b) = blen b - bytes_sent b"
  by (simp add: bucket_ok_def bucket_iov_def)

lemma bucket_iov_empty: "blen b = 0 \<Longrightarrow> bucket_iov b = []"
  by (simp add: bucket_iov_def)

lemma gather_prefix: "\<exists>xs. pending bs = concat (gather i bs) @ xs"
  by (induction i bs rule: gather.induct) (auto simp: bucket_iov_empty)

lemma account_ok: "\<forall>b \<in> set bs. bucket_ok b \<Longrightarrow> \<forall>b \<in> set (account n bs). bucket_ok b"
  by (induction n bs rule: account.induct) (auto simp: Let_def bucket_ok_def)

lemma account_pending:
  "\<forall>b \<in> set bs. bucket_ok b \<Longrightarrow> n \<le> length (pending bs) \<Longrightarrow>
   take n (pending bs) @ pending (account n bs) = pending bs"
proof (induction n bs rule: account.induct)
  case (2 n b bs)
  have l: "length (bucket_iov b) = blen b - bytes_sent b" using 2 length_bucket_iov by simp
  show ?case
  proof (cases "n < blen b - bytes_sent b")
    case True
    then have "bucket_iov (b\<lparr>bytes_sent := bytes_sent b + n\<rparr>) = drop n (bucket_iov b)"
      by (simp add: bucket_iov_def drop_take add.commute)
    with True l show ?thesis by (auto simp: Let_def)
  next
    case False
    with 2 l show ?thesis by (auto simp: Let_def)
  qed
qed simp

lemma take_gather:
  "n \<le> length (concat (gather i bs)) \<Longrightarrow> take n (concat (gather i bs)) = take n (pending bs)"
  using gather_prefix [of bs i] by auto

lemma gather_le_pending: "length (concat (gather i bs)) \<le> length (pending bs)"
  using gather_prefix [of bs i] by auto

section \<open>The interface of a sender\<close>

text \<open>
  A sender takes the transport's answers and a chain and returns a status, the bytes it put on the
  wire and what is left of the chain.  Its contract: bytes are neither lost, duplicated nor
  reordered.  \<open>drain\<close> calls it once for each writable event, until the chain is empty.
\<close>

fun drain ::
  "('a list \<Rightarrow> chain \<Rightarrow> (ymo_status \<times> bytes \<times> chain) option) \<Rightarrow> 'a list list \<Rightarrow> chain \<Rightarrow>
   (bytes \<times> chain) option" where
  "drain send [] bs = Some ([], bs)"
| "drain send (ans # anss) bs =
     (if bs = [] then Some ([], [])
      else case send ans bs of
        None \<Rightarrow> None
      | Some (st, wire, rest) \<Rightarrow> map_option (\<lambda>(w, r). (wire @ w, r)) (drain send anss rest))"

locale stream_sender =
  fixes send :: "'a list \<Rightarrow> chain \<Rightarrow> (ymo_status \<times> bytes \<times> chain) option"
  assumes conserves: "\<forall>b \<in> set bs. bucket_ok b \<Longrightarrow> send ans bs = Some (st, wire, rest) \<Longrightarrow>
      wire @ pending rest = pending bs \<and> (\<forall>b \<in> set rest. bucket_ok b)"
begin

lemma drain_conserves:
  "\<forall>b \<in> set bs. bucket_ok b \<Longrightarrow> drain send anss bs = Some (wire, rest) \<Longrightarrow>
   wire @ pending rest = pending bs \<and> (\<forall>b \<in> set rest. bucket_ok b)"
proof (induction anss arbitrary: bs wire)
  case (Cons ans anss)
  show ?case
  proof (cases "bs = []")
    case False
    with Cons.prems obtain st w r w' where s: "send ans bs = Some (st, w, r)"
      and d: "drain send anss r = Some (w', rest)" "wire = w @ w'"
      by (auto split: option.splits)
    note c = conserves [OF Cons.prems(1) s]
    with Cons.IH [OF _ d(1)] d(2) show ?thesis by (metis append.assoc)
  qed (use Cons.prems in simp)
qed simp

end

lemma send_buckets_conserves:
  "\<forall>b \<in> set bs. bucket_ok b \<Longrightarrow> ymo_net_send_buckets ans bs = Some (st, wire, rest) \<Longrightarrow>
   wire @ pending rest = pending bs \<and> (\<forall>b \<in> set rest. bucket_ok b)"
proof (induction ans bs arbitrary: wire rule: ymo_net_send_buckets.induct)
  case (1 ans bs)
  let ?out = "concat (gather YMO_BUCKET_MAX_IOVEC bs)"
  show ?case
  proof (cases "?out = []")
    case True
    with 1 show ?thesis by (simp add: ymo_net_send_buckets.simps [of ans])
  next
    case False
    then obtain a as where ans: "ans = a # as"
      using "1.prems"(2) by (cases ans) (auto simp: ymo_net_send_buckets.simps Let_def)
    show ?thesis
    proof (cases a)
      case (Inl e)
      with 1 False ans show ?thesis by (simp add: ymo_net_send_buckets.simps [of "Inl e # as"] Let_def)
    next
      case (Inr room)
      let ?n = "min room (length ?out)"
      let ?cur = "account ?n bs"
      have le: "?n \<le> length (pending bs)" using gather_le_pending [of YMO_BUCKET_MAX_IOVEC bs] by linarith
      have acc: "take ?n ?out @ pending ?cur = pending bs"
        using account_pending [OF "1.prems"(1) le] take_gather [of ?n YMO_BUCKET_MAX_IOVEC bs] by simp
      have ok: "\<forall>b \<in> set ?cur. bucket_ok b" using account_ok "1.prems"(1) by blast
      show ?thesis
      proof (cases "?cur \<noteq> [] \<and> blen (hd ?cur) \<noteq> 0")
        case True
        then obtain w where w: "ymo_net_send_buckets as ?cur = Some (st, w, rest)" "wire = take ?n ?out @ w"
          using "1.prems"(2) False ans Inr
          by (auto simp: ymo_net_send_buckets.simps [of "Inr room # as"] Let_def)
        have "w @ pending rest = pending ?cur \<and> (\<forall>b \<in> set rest. bucket_ok b)"
          using "1.IH" [OF refl refl _ ans Inr refl refl True ok w(1)] False by simp
        with w(2) acc show ?thesis by (metis append.assoc)
      next
        case no: False
        then have "wire = take ?n ?out" "rest = ?cur"
          using "1.prems"(2) False ans Inr by (auto simp: ymo_net_send_buckets.simps [of "Inr room # as"] Let_def)
        with acc ok show ?thesis by simp
      qed
    qed
  qed
qed

lemma send_buckets_tls_conserves:
  "\<forall>b \<in> set bs. bucket_ok b \<Longrightarrow> ymo_net_send_buckets_tls ans bs = Some (st, wire, rest) \<Longrightarrow>
   wire @ pending rest = pending bs \<and> (\<forall>b \<in> set rest. bucket_ok b)"
proof (induction ans bs arbitrary: wire rule: ymo_net_send_buckets_tls.induct)
  case (3 room answers cur cs)
  let ?n = "min room (length (bucket_iov cur))"
  have ok: "bucket_ok cur" using 3 by simp
  note l = length_bucket_iov [OF ok]
  show ?case
  proof (cases "bytes_sent cur + ?n < blen cur")
    case True
    have "bucket_iov (cur\<lparr>bytes_sent := bytes_sent cur + ?n\<rparr>) = drop ?n (bucket_iov cur)"
      by (simp add: bucket_iov_def drop_take add.commute)
    with True ok 3 show ?thesis by (auto simp: Let_def bucket_ok_def)
  next
    case False
    then have n: "?n = length (bucket_iov cur)" using l ok by (simp add: bucket_ok_def)
    show ?thesis
    proof (cases "cs = []")
      case True
      with False n "3.prems" show ?thesis by (auto simp: Let_def)
    next
      case cs: False
      with False n "3.prems" obtain w where "ymo_net_send_buckets_tls answers cs = Some (st, w, rest)"
          "wire = bucket_iov cur @ w" by (auto simp: Let_def)
      with "3.IH" [OF refl refl False cs] "3.prems"(1) show ?thesis by simp
    qed
  qed
qed auto

interpretation plain: stream_sender ymo_net_send_buckets
  by unfold_locales (rule send_buckets_conserves)

interpretation tls: stream_sender ymo_net_send_buckets_tls
  by unfold_locales (rule send_buckets_tls_conserves)


section \<open>Completion\<close>

definition bucket_full :: "ymo_bucket \<Rightarrow> bool" where
  "bucket_full b \<longleftrightarrow> length (data b) = blen b \<and> bytes_sent b < blen b"

lemma bucket_full_ok: "bucket_full b \<Longrightarrow> bucket_ok b"
  by (simp add: bucket_full_def bucket_ok_def)

lemma account_full: "\<forall>b \<in> set bs. bucket_full b \<Longrightarrow> \<forall>b \<in> set (account n bs). bucket_full b"
  by (induction n bs rule: account.induct) (auto simp: Let_def bucket_full_def)

lemma full_gather: "\<forall>b \<in> set bs. bucket_full b \<Longrightarrow> bs \<noteq> [] \<Longrightarrow> concat (gather YMO_BUCKET_MAX_IOVEC bs) \<noteq> []"
  by (cases bs) (auto simp: YMO_BUCKET_MAX_IOVEC_def numeral_eq_Suc bucket_full_def bucket_iov_def)

lemma account_length_pending:
  assumes "\<forall>b \<in> set bs. bucket_ok b" "n \<le> length (pending bs)"
  shows "length (pending (account n bs)) = length (pending bs) - n"
  using arg_cong [OF account_pending [OF assms], of length] assms(2) by simp

lemma send_buckets_completes:
  "\<forall>b \<in> set bs. bucket_full b \<Longrightarrow> bs \<noteq> [] \<Longrightarrow> \<forall>a \<in> set ans. \<exists>n. a = Inr n \<and> 0 < n \<Longrightarrow>
   length (pending bs) \<le> length ans \<Longrightarrow>
   ymo_net_send_buckets ans bs = Some (YMO_OKAY, pending bs, [])"
proof (induction ans bs rule: ymo_net_send_buckets.induct)
  case (1 ans bs)
  let ?out = "concat (gather YMO_BUCKET_MAX_IOVEC bs)"
  have out: "?out \<noteq> []" using full_gather 1 by blast
  then have "pending bs \<noteq> []" using gather_le_pending [of YMO_BUCKET_MAX_IOVEC bs] by auto
  then obtain a as where ans: "ans = a # as" using "1.prems"(4) by (cases ans) auto
  obtain room where room: "a = Inr room" "0 < room" using "1.prems"(3) ans by auto
  let ?n = "min room (length ?out)"
  let ?cur = "account ?n bs"
  have ok: "\<forall>b \<in> set bs. bucket_ok b" using "1.prems"(1) bucket_full_ok by blast
  have le: "?n \<le> length (pending bs)" using gather_le_pending [of YMO_BUCKET_MAX_IOVEC bs] by linarith
  have acc: "take ?n ?out @ pending ?cur = pending bs"
    using account_pending [OF ok le] take_gather [of ?n YMO_BUCKET_MAX_IOVEC bs] by simp
  have full: "\<forall>b \<in> set ?cur. bucket_full b" using account_full "1.prems"(1) by blast
  have n0: "0 < ?n" using room(2) out by (metis length_greater_0_conv min_less_iff_conj)
  have "length ans = Suc (length as)" using ans by simp
  with n0 have len: "length (pending ?cur) \<le> length as"
    using account_length_pending [OF ok le] "1.prems"(4) by linarith
  show ?case
  proof (cases "?cur = []")
    case True
    with acc out room ans show ?thesis by (simp add: ymo_net_send_buckets.simps [of "Inr room # as"] Let_def)
  next
    case False
    then have c: "?cur \<noteq> [] \<and> blen (hd ?cur) \<noteq> 0" using full by (auto simp: bucket_full_def neq_Nil_conv)
    have "ymo_net_send_buckets as ?cur = Some (YMO_OKAY, pending ?cur, [])"
      using "1.IH" [OF refl refl _ ans room(1) refl refl c full False] out "1.prems"(3) ans len by simp
    with c acc out room ans show ?thesis
      by (simp add: ymo_net_send_buckets.simps [of "Inr room # as"] Let_def)
  qed
qed

text \<open>
  Chains with empty buckets, as long as not all of them are: every call offers something, so that a
  transmission that does not end with \<^const>\<open>YMO_OKAY\<close> ends with an error of the socket.
\<close>

definition sendable :: "chain \<Rightarrow> bool" where
  "sendable bs \<longleftrightarrow> (\<forall>b \<in> set bs. blen b \<noteq> 0 \<longrightarrow> bytes_sent b < blen b \<and> blen b \<le> length (data b)) \<and>
     (bs = [] \<or> (\<exists>b \<in> set bs. blen b \<noteq> 0))"

lemma sendable_Nil [simp]: "sendable []"
  by (simp add: sendable_def)

lemma sendable_append: "sendable bs \<Longrightarrow> sendable cs \<Longrightarrow> sendable (bs @ cs)"
  by (auto simp: sendable_def)

lemma gather_nonempty:
  "\<forall>b \<in> set bs. blen b \<noteq> 0 \<longrightarrow> bytes_sent b < blen b \<and> blen b \<le> length (data b) \<Longrightarrow> \<exists>b \<in> set bs. blen b \<noteq> 0 \<Longrightarrow>
   0 < i \<Longrightarrow> concat (gather i bs) \<noteq> []"
  by (induction i bs rule: gather.induct) (auto simp: bucket_iov_def)

lemma sendable_gather: "sendable bs \<Longrightarrow> bs \<noteq> [] \<Longrightarrow> concat (gather YMO_BUCKET_MAX_IOVEC bs) \<noteq> []"
  using gather_nonempty [of bs YMO_BUCKET_MAX_IOVEC] by (auto simp: sendable_def YMO_BUCKET_MAX_IOVEC_def)

lemma account_sendable:
  "\<forall>b \<in> set bs. blen b \<noteq> 0 \<longrightarrow> bytes_sent b < blen b \<and> blen b \<le> length (data b) \<Longrightarrow>
   \<forall>b \<in> set (account n bs). blen b \<noteq> 0 \<longrightarrow> bytes_sent b < blen b \<and> blen b \<le> length (data b)"
  by (induction n bs rule: account.induct) (auto simp: Let_def)

lemma sendable_account: "sendable bs \<Longrightarrow> account n bs \<noteq> [] \<Longrightarrow> blen (hd (account n bs)) \<noteq> 0 \<Longrightarrow> sendable (account n bs)"
  using account_sendable [of bs n] by (auto simp: sendable_def)

lemma send_buckets_error:
  "sendable bs \<Longrightarrow> bs \<noteq> [] \<Longrightarrow> ymo_net_send_buckets ans bs = Some (st, wire, rest) \<Longrightarrow>
   st \<noteq> YMO_OKAY \<Longrightarrow> Inl st \<in> set ans \<and> sendable rest"
proof (induction ans bs arbitrary: wire rule: ymo_net_send_buckets.induct)
  case (1 ans bs)
  let ?out = "concat (gather YMO_BUCKET_MAX_IOVEC bs)"
  have out: "?out \<noteq> []" by (rule sendable_gather [OF "1.prems"(1,2)])
  show ?case
  proof (cases ans)
    case Nil
    then show ?thesis using "1.prems"(3) out by (simp add: ymo_net_send_buckets.simps [of "[]"] Let_def)
  next
    case (Cons a as)
    show ?thesis
    proof (cases a)
      case (Inl e)
      then show ?thesis using "1.prems"(1,3) out Cons by (simp add: ymo_net_send_buckets.simps [of "Inl e # as"] Let_def)
    next
      case (Inr room)
      let ?cur = "account (min room (length ?out)) bs"
      show ?thesis
      proof (cases "?cur \<noteq> [] \<and> blen (hd ?cur) \<noteq> 0")
        case True
        then obtain w where "ymo_net_send_buckets as ?cur = Some (st, w, rest)"
          using "1.prems"(3) out Cons Inr by (auto simp: ymo_net_send_buckets.simps [of "Inr room # as"] Let_def)
        with "1.IH" [OF refl refl _ Cons Inr refl refl True sendable_account [OF "1.prems"(1)]] True out "1.prems"(4)
        show ?thesis using Cons by auto
      next
        case False
        with "1.prems"(3,4) out Cons Inr show ?thesis
          by (auto simp: ymo_net_send_buckets.simps [of "Inr room # as"] Let_def)
      qed
    qed
  qed
qed

section \<open>Properties\<close>

definition bk :: "bytes \<Rightarrow> ymo_bucket" where
  "bk d = \<lparr>data = d, blen = length d, buf = None, bytes_sent = 0, has_cleanup = False\<rparr>"

text \<open>C3: over any sequence of writable events, whatever errors and partial writes the socket
  reports, what is on the wire followed by what is still pending in the chain is exactly what was
  pending at the start: no byte of the output is lost, sent twice or reordered.\<close>
theorem send_stream_conserved:
  assumes "\<forall>b \<in> set bs. bucket_ok b" "drain ymo_net_send_buckets anss bs = Some (wire, rest)"
  shows "wire @ pending rest = pending bs \<and> (\<forall>b \<in> set rest. bucket_ok b)"
  by (rule plain.drain_conserves [OF assms])

theorem send_stream_conserved_witness:
  "drain ymo_net_send_buckets [[Inr 1, Inl EAGAIN], [Inr 5]] [bk [1, 2], bk [3]] = Some ([1, 2, 3], []) \<and>
   pending [bk [1, 2], bk [3]] = [1, 2, 3]"
proof -
  have d: "drain ymo_net_send_buckets [[Inr 1, Inl EAGAIN], [Inr 5]] [bk [1, 2], bk [3]] = Some ([1, 2, 3], [])"
    by (simp add: bk_def ymo_net_send_buckets.simps bucket_iov_def YMO_BUCKET_MAX_IOVEC_def numeral_eq_Suc Let_def)
  have ok: "\<forall>b \<in> set [bk [1, 2], bk [3]]. bucket_ok b" by (simp add: bk_def bucket_ok_def)
  from send_stream_conserved [OF ok d] d show ?thesis by simp
qed

text \<open>The same for a TLS session.\<close>
theorem send_stream_conserved_tls:
  assumes "\<forall>b \<in> set bs. bucket_ok b" "drain ymo_net_send_buckets_tls anss bs = Some (wire, rest)"
  shows "wire @ pending rest = pending bs \<and> (\<forall>b \<in> set rest. bucket_ok b)"
  by (rule tls.drain_conserves [OF assms])

theorem send_stream_conserved_tls_witness:
  "drain ymo_net_send_buckets_tls [[Ssl_wrote 1], [Ssl_want_rw], [Ssl_wrote 9, Ssl_wrote 1]] [bk [1, 2], bk [3]]
     = Some ([1, 2, 3], []) \<and> pending [bk [1, 2], bk [3]] = [1, 2, 3]"
proof -
  have d: "drain ymo_net_send_buckets_tls [[Ssl_wrote 1], [Ssl_want_rw], [Ssl_wrote 9, Ssl_wrote 1]]
      [bk [1, 2], bk [3]] = Some ([1, 2, 3], [])"
    by (simp add: bk_def bucket_iov_def Let_def)
  have ok: "\<forall>b \<in> set [bk [1, 2], bk [3]]. bucket_ok b" by (simp add: bk_def bucket_ok_def)
  from send_stream_conserved_tls [OF ok d] d show ?thesis by simp
qed

text \<open>C31: a chain of unsent, non-empty buckets is sent completely and \<^const>\<open>YMO_OKAY\<close> returned,
  however small the positive pieces the socket takes: one call for each byte is enough.\<close>
theorem send_buckets_complete:
  assumes "\<forall>b \<in> set bs. bucket_full b" "bs \<noteq> []" "\<forall>a \<in> set ans. \<exists>n. a = Inr n \<and> 0 < n"
    and "length (pending bs) \<le> length ans"
  shows "ymo_net_send_buckets ans bs = Some (YMO_OKAY, pending bs, [])"
  by (rule send_buckets_completes [OF assms])

theorem send_buckets_complete_witness:
  "ymo_net_send_buckets [Inr 1, Inr 2, Inr 1] [bk [7], bk [8, 9]] = Some (YMO_OKAY, [7, 8, 9], [])"
  using send_buckets_complete [of "[bk [7], bk [8, 9]]" "[Inr 1, Inr 2, Inr 1]"]
  by (simp add: bk_def bucket_full_def bucket_iov_def)

text \<open>An empty bucket in the middle of a chain ends the transmission early: when the socket
  takes exactly the bytes before it, \<^const>\<open>YMO_OKAY\<close> is returned with data still unsent; and a
  chain of empty buckets only is refused with \<^const>\<open>EBADMSG\<close> and kept.\<close>
theorem send_buckets_empty_bucket:
  assumes "d \<noteq> []" "e \<noteq> []"
  shows "ymo_net_send_buckets (Inr (length d) # ans) [bk d, bk [], bk e] = Some (YMO_OKAY, d, [bk [], bk e]) \<and>
    ymo_net_send_buckets ans [bk []] = Some (EBADMSG, [], [bk []])"
  using assms by (simp add: ymo_net_send_buckets.simps bk_def bucket_iov_def YMO_BUCKET_MAX_IOVEC_def
      numeral_eq_Suc Let_def)

theorem send_buckets_empty_bucket_witness:
  "ymo_net_send_buckets [Inr 1] [bk [7], bk [], bk [8]] = Some (YMO_OKAY, [7], [bk [], bk [8]])"
  using send_buckets_empty_bucket [of "[7]" "[8]" "[]"] by simp

end
