(* ===== verification/Conn.thy ===== *)
theory Conn
  imports Net
begin

text \<open>
  Connections: \<^verbatim>\<open>src/core/ymo_conn.h\<close> and \<^verbatim>\<open>ymo_conn.c\<close>, in the build without TLS that the configure
  script selects by default.  The calls a connection makes to libev, to the timeout queue of libbsat
  and to its socket are recorded in order; what \<^verbatim>\<open>shutdown\<close> and \<^verbatim>\<open>recv\<close> answer is an argument.
\<close>

section \<open>State\<close>

datatype ymo_conn_state =
    YMO_CONN_OPEN | YMO_CONN_TLS_HANDSHAKE | YMO_CONN_TLS_ESTABLISHED | YMO_CONN_TLS_CLOSING
  | YMO_CONN_TLS_CLOSED | YMO_CONN_SHUTDOWN | YMO_CONN_CLOSING | YMO_CONN_CLOSED

text \<open>
  \<^verbatim>\<open>ev_io_start\<close> (\<open>True\<close>) and \<^verbatim>\<open>ev_io_stop\<close> of the two watchers, \<^verbatim>\<open>bsat_timeout_start\<close>, \<^verbatim>\<open>_reset\<close> and
  \<^verbatim>\<open>_stop\<close>, and the calls on the descriptor.
\<close>

datatype conn_call =
    Ev_read bool | Ev_write bool | Timeout_start | Timeout_reset | Timeout_stop
  | Shutdown_wr | Shutdown_rdwr | Close_fd

text \<open>
  The protocol is an index into the program's protocols; \<open>'p\<close> is what their \<^verbatim>\<open>conn_init_cb\<close> returns.
  \<open>c_toq\<close> tells whether \<^verbatim>\<open>toq\<close> has been set, \<open>c_user\<close> is the pointer the user's callback returned.
\<close>

record 'p ymo_conn =
  c_proto :: nat
  c_proto_data :: "'p option"
  c_user :: nat
  c_toq :: bool
  c_fd :: int
  c_state :: ymo_conn_state
  c_calls :: "conn_call list"

definition conn_call :: "conn_call list \<Rightarrow> 'p ymo_conn \<Rightarrow> 'p ymo_conn" where
  "conn_call calls c = c\<lparr>c_calls := c_calls c @ calls\<rparr>"

text \<open>An answer of \<^verbatim>\<open>recv\<close>: bytes, the end of the stream, or an error.\<close>

datatype recv_result = Rcv bytes | Rcv_eof | Rcv_err ymo_status

definition YMO_IS_BLOCKED :: "ymo_status \<Rightarrow> bool" where
  "YMO_IS_BLOCKED st \<longleftrightarrow> st = EAGAIN"

section \<open>Operations\<close>

definition ymo_conn_create :: "nat \<Rightarrow> int \<Rightarrow> 'p ymo_conn" where
  "ymo_conn_create proto fd =
     \<lparr>c_proto = proto, c_proto_data = None, c_user = 0, c_toq = False, c_fd = fd,
      c_state = YMO_CONN_OPEN, c_calls = []\<rparr>"

definition ymo_conn_start_idle_timeout :: "'p ymo_conn \<Rightarrow> 'p ymo_conn" where
  "ymo_conn_start_idle_timeout c = conn_call [Timeout_start] (c\<lparr>c_toq := True\<rparr>)"

definition ymo_conn_reset_idle_timeout :: "'p ymo_conn \<Rightarrow> 'p ymo_conn" where
  "ymo_conn_reset_idle_timeout c =
     (case c_state c of
        YMO_CONN_OPEN \<Rightarrow> conn_call [Timeout_reset] c
      | YMO_CONN_TLS_HANDSHAKE \<Rightarrow> conn_call [Timeout_reset] c
      | YMO_CONN_TLS_ESTABLISHED \<Rightarrow> conn_call [Timeout_reset] c
      | YMO_CONN_TLS_CLOSING \<Rightarrow> c
      | YMO_CONN_TLS_CLOSED \<Rightarrow> c
      | YMO_CONN_SHUTDOWN \<Rightarrow> conn_call [Timeout_start] c
      | YMO_CONN_CLOSING \<Rightarrow> conn_call [Timeout_start] c
      | YMO_CONN_CLOSED \<Rightarrow> c)"

definition ymo_conn_cancel_idle_timeout :: "'p ymo_conn \<Rightarrow> 'p ymo_conn" where
  "ymo_conn_cancel_idle_timeout c = (if c_toq c then conn_call [Timeout_stop] c else c)"

definition ymo_conn_rx_enable :: "nat \<Rightarrow> 'p ymo_conn \<Rightarrow> 'p ymo_conn" where
  "ymo_conn_rx_enable flag c = conn_call [Ev_read (odd flag)] c"

definition ymo_conn_tx_enable :: "nat \<Rightarrow> 'p ymo_conn \<Rightarrow> 'p ymo_conn" where
  "ymo_conn_tx_enable flag c = conn_call [Ev_write (odd flag)] c"

definition ymo_conn_send_buckets ::
  "(ymo_status + nat) list \<Rightarrow> chain \<Rightarrow> (ymo_status \<times> bytes \<times> chain) option" where
  "ymo_conn_send_buckets answers head = ymo_net_send_buckets answers head"

text \<open>\<open>shut\<close> is the answer of \<^verbatim>\<open>shutdown(fd, SHUT_WR)\<close>.\<close>

definition conn_half_close :: "'p ymo_conn \<Rightarrow> 'p ymo_conn" where
  "conn_half_close c = ymo_conn_tx_enable 0 (ymo_conn_rx_enable 1 c)"

definition ymo_conn_shutdown :: "(int \<Rightarrow> ymo_status) \<Rightarrow> 'p ymo_conn \<Rightarrow> ymo_status \<times> 'p ymo_conn" where
  "ymo_conn_shutdown shut c =
     (if c_state c \<in> {YMO_CONN_TLS_ESTABLISHED, YMO_CONN_TLS_CLOSING, YMO_CONN_TLS_HANDSHAKE,
          YMO_CONN_TLS_CLOSED, YMO_CONN_OPEN}
      then let rc = shut (c_fd c); c = conn_call [Shutdown_wr] c in
        if rc \<noteq> YMO_OKAY then (rc, c)
        else (YMO_OKAY, conn_half_close (c\<lparr>c_state := YMO_CONN_SHUTDOWN\<rparr>))
      else if c_state c \<in> {YMO_CONN_SHUTDOWN, YMO_CONN_CLOSING} then (YMO_OKAY, conn_half_close c)
      else (YMO_OKAY, c))"

text \<open>
  The loop that reads what the client still sends.  The count \<^verbatim>\<open>recv\<close> returns is kept in a \<^verbatim>\<open>size_t\<close>, so
  that an error is a positive length and the loop goes on; \<open>None\<close>: it is still running when the
  answers are used up.
\<close>

definition recv_len :: "recv_result \<Rightarrow> u64" where
  "recv_len r = (case r of Rcv dat \<Rightarrow> word_of_nat (length dat) | Rcv_eof \<Rightarrow> 0 | Rcv_err _ \<Rightarrow> - 1)"

fun drain_loop :: "recv_result list \<Rightarrow> (u64 \<times> ymo_status \<times> recv_result list) option" where
  "drain_loop [] = None"
| "drain_loop (r # rs) =
     (if recv_len r > 0 then drain_loop rs
      else Some (recv_len r, case r of Rcv_err st \<Rightarrow> st | _ \<Rightarrow> YMO_OKAY, rs))"

definition conn_finish_close :: "'p ymo_conn \<Rightarrow> 'p ymo_conn" where
  "conn_finish_close c =
     (let c = ymo_conn_tx_enable 0 (ymo_conn_cancel_idle_timeout c);
          c = (conn_call [Shutdown_rdwr, Close_fd] c)\<lparr>c_state := YMO_CONN_CLOSED\<rparr>
      in ymo_conn_tx_enable 0 (ymo_conn_rx_enable 0 c))"

text \<open>The comparison \<^verbatim>\<open>len < 0\<close> is one of unsigned numbers.\<close>

definition conn_drain ::
  "recv_result list \<Rightarrow> bool \<Rightarrow> 'p ymo_conn \<Rightarrow> ('p ymo_conn \<times> recv_result list) option" where
  "conn_drain answers clean c =
     (case drain_loop answers of
        None \<Rightarrow> None
      | Some (len, rc, rest) \<Rightarrow>
          if clean \<and> len < 0 \<and> YMO_IS_BLOCKED rc then Some (c, rest)
          else Some (conn_finish_close (c\<lparr>c_state := YMO_CONN_CLOSING\<rparr>), rest))"

definition ymo_conn_close ::
  "(int \<Rightarrow> ymo_status) \<Rightarrow> recv_result list \<Rightarrow> bool \<Rightarrow> 'p ymo_conn \<Rightarrow>
   (ymo_conn_state \<times> 'p ymo_conn \<times> recv_result list) option" where
  "ymo_conn_close shut answers clean c =
     (let c = (if clean then c else c\<lparr>c_state := YMO_CONN_CLOSING\<rparr>)
      in map_option (\<lambda>(c, rest). (c_state c, c, rest))
        (case c_state c of
           YMO_CONN_SHUTDOWN \<Rightarrow> conn_drain answers clean c
         | YMO_CONN_CLOSING \<Rightarrow> Some (conn_finish_close c, answers)
         | YMO_CONN_CLOSED \<Rightarrow> Some (ymo_conn_tx_enable 0 (ymo_conn_rx_enable 0 c), answers)
         | _ \<Rightarrow> conn_drain answers clean (snd (ymo_conn_shutdown shut c))))"

section \<open>Closing\<close>

lemma conn_call_simps [simp]:
  "c_state (conn_call calls c) = c_state c" "c_fd (conn_call calls c) = c_fd c"
  "c_proto (conn_call calls c) = c_proto c" "c_proto_data (conn_call calls c) = c_proto_data c"
  "c_toq (conn_call calls c) = c_toq c" "c_user (conn_call calls c) = c_user c"
  "c_calls (conn_call calls c) = c_calls c @ calls"
  by (simp_all add: conn_call_def)

lemmas conn_defs = ymo_conn_tx_enable_def ymo_conn_rx_enable_def ymo_conn_cancel_idle_timeout_def
  ymo_conn_reset_idle_timeout_def ymo_conn_start_idle_timeout_def conn_half_close_def

definition recv_answer_ok :: "recv_result \<Rightarrow> bool" where
  "recv_answer_ok r \<longleftrightarrow> (case r of Rcv dat \<Rightarrow> 0 < length dat \<and> length dat < 2 ^ 64 | _ \<Rightarrow> True)"

lemma recv_len_pos: "recv_answer_ok r \<Longrightarrow> recv_len r > 0 \<longleftrightarrow> r \<noteq> Rcv_eof"
  by (cases r) (auto simp: recv_len_def recv_answer_ok_def word_less_nat_alt unat_of_nat take_bit_nat_eq_self unat_gt_0)

lemma drain_loop_eq:
  assumes "\<forall>r \<in> set answers. recv_answer_ok r"
  shows "drain_loop answers =
    (if Rcv_eof \<in> set answers then Some (0, YMO_OKAY, tl (dropWhile (\<lambda>r. r \<noteq> Rcv_eof) answers)) else None)"
  using assms by (induction answers) (auto simp: recv_len_pos, auto simp: recv_len_def)

text \<open>
  A clean close of a connection that is still open waits, and keeps asking the socket, until the peer
  has closed its side.
\<close>

definition close_waits :: "recv_result list \<Rightarrow> bool \<Rightarrow> 'p ymo_conn \<Rightarrow> bool" where
  "close_waits answers clean c \<longleftrightarrow>
     clean \<and> c_state c \<noteq> YMO_CONN_CLOSING \<and> c_state c \<noteq> YMO_CONN_CLOSED \<and> Rcv_eof \<notin> set answers"

text \<open>The calls a close makes, for a connection that is not closed yet.\<close>

definition close_calls :: "(int \<Rightarrow> ymo_status) \<Rightarrow> bool \<Rightarrow> 'p ymo_conn \<Rightarrow> conn_call list" where
  "close_calls shut clean c =
     (if clean \<and> c_state c \<noteq> YMO_CONN_SHUTDOWN \<and> c_state c \<noteq> YMO_CONN_CLOSING
      then Shutdown_wr # (if shut (c_fd c) = YMO_OKAY then [Ev_read True, Ev_write False] else []) else []) @
     (if c_toq c then [Timeout_stop] else []) @
     [Ev_write False, Shutdown_rdwr, Close_fd, Ev_read False, Ev_write False]"

lemma conn_close_eq:
  assumes "\<forall>r \<in> set answers. recv_answer_ok r" "c_state c \<noteq> YMO_CONN_CLOSED"
  shows "ymo_conn_close shut answers clean c =
    (if close_waits answers clean c then None
     else Some (YMO_CONN_CLOSED,
       c\<lparr>c_state := YMO_CONN_CLOSED, c_calls := c_calls c @ close_calls shut clean c\<rparr>,
       if clean \<and> c_state c \<noteq> YMO_CONN_CLOSING then tl (dropWhile (\<lambda>r. r \<noteq> Rcv_eof) answers) else answers))"
proof (cases clean)
  case False
  then show ?thesis
    by (cases c) (simp add: ymo_conn_close_def conn_finish_close_def conn_defs conn_call_def close_calls_def close_waits_def)
next
  case True
  have d: "conn_drain answers True x = (if Rcv_eof \<in> set answers
      then Some (conn_finish_close (x\<lparr>c_state := YMO_CONN_CLOSING\<rparr>), tl (dropWhile (\<lambda>r. r \<noteq> Rcv_eof) answers))
      else None)" for x :: "'a ymo_conn"
    by (simp add: conn_drain_def drain_loop_eq [OF assms(1)])
  show ?thesis
    using True assms(2)
    by (cases c; cases "c_state c")
      (auto simp: ymo_conn_close_def d conn_finish_close_def conn_defs conn_call_def close_calls_def
        close_waits_def ymo_conn_shutdown_def Let_def)
qed

text \<open>
  C16: closing a connection that is not closed yet always ends in the state closed, with the descriptor
  closed exactly once, the idle timeout stopped if it was ever started, and both watchers stopped as
  the last thing; but a clean close of a connection the peer keeps open does not return: it asks the
  socket again for as long as the peer sends or is silent, because the error of \<^verbatim>\<open>recv\<close> is taken for a
  length.
\<close>

theorem conn_close_spec:
  assumes "\<forall>r \<in> set answers. recv_answer_ok r" "c_state c \<noteq> YMO_CONN_CLOSED"
  shows "(ymo_conn_close shut answers clean c = None \<longleftrightarrow>
      clean \<and> c_state c \<noteq> YMO_CONN_CLOSING \<and> Rcv_eof \<notin> set answers) \<and>
    (\<forall>st c' rest. ymo_conn_close shut answers clean c = Some (st, c', rest) \<longrightarrow>
      st = YMO_CONN_CLOSED \<and> c_state c' = YMO_CONN_CLOSED \<and>
      (\<exists>new. c_calls c' = c_calls c @ new @ [Ev_read False, Ev_write False] \<and> count_list new Close_fd = 1 \<and>
        (c_toq c \<longrightarrow> Timeout_stop \<in> set new) \<and> Timeout_start \<notin> set new \<and> Timeout_reset \<notin> set new))"
proof -
  have calls: "\<exists>new. close_calls shut clean c = new @ [Ev_read False, Ev_write False] \<and> count_list new Close_fd = 1 \<and>
      (c_toq c \<longrightarrow> Timeout_stop \<in> set new) \<and> Timeout_start \<notin> set new \<and> Timeout_reset \<notin> set new"
    by (intro exI [of _ "butlast (butlast (close_calls shut clean c))"]) (simp add: close_calls_def)
  then show ?thesis
    unfolding conn_close_eq [OF assms] using assms(2) by (auto simp: close_waits_def)
qed

theorem conn_close_spec_witness:
  "ymo_conn_close (\<lambda>_. YMO_OKAY) [Rcv [1, 2], Rcv_err EAGAIN, Rcv_err EAGAIN] True (ymo_conn_create 0 7 :: nat ymo_conn) = None \<and>
   ymo_conn_close (\<lambda>_. YMO_OKAY) [Rcv [1, 2], Rcv_eof] True (ymo_conn_create 0 7 :: nat ymo_conn) \<noteq> None"
  using conn_close_spec [of "[Rcv [1, 2], Rcv_err EAGAIN, Rcv_err EAGAIN]" "ymo_conn_create 0 7 :: nat ymo_conn" "\<lambda>_. YMO_OKAY" True]
    conn_close_spec [of "[Rcv [1, 2], Rcv_eof]" "ymo_conn_create 0 7 :: nat ymo_conn" "\<lambda>_. YMO_OKAY" True]
  by (simp add: recv_answer_ok_def ymo_conn_create_def)

end
