(* ===== verification/Server.thy ===== *)
theory Server
  imports Conn
begin

text \<open>
  The server of \<^verbatim>\<open>src/core/ymo_server.c\<close>: its life cycle, the libev callbacks that accept, read, write
  and time out connections, and the protocol callbacks (\<^verbatim>\<open>ymo_proto.h\<close>) they run.  Connections live at
  addresses; an access to a connection that has been freed is a \<open>Fault\<close>.  The answers of \<^verbatim>\<open>recv\<close> come
  from a list the network supplies; a handler that has used them all up and would ask again is at
  \<open>Hang\<close>.
\<close>

section \<open>State\<close>

datatype ymo_server_state =
  YMO_SERVER_CREATED | YMO_SERVER_INITIALIZED | YMO_SERVER_STARTED | YMO_SERVER_STOP_GRACEFUL

text \<open>Calls the server makes outside the library, besides those of its connections.\<close>

datatype server_call =
    Listen_close | Accept_start | Accept_stop | Toq_init | Toq_stop | Ev_break | Proto_cleanup
  | User_cleanup nat nat | Client_close int | Mutex_init | Server_delete

text \<open>
  The user's callbacks: \<open>user_init\<close> gives the pointer stored for a connection, \<open>user_cleanup\<close> tells
  whether there is a cleanup callback.  \<open>shut_answer\<close> is what \<^verbatim>\<open>shutdown(fd, SHUT_WR)\<close> answers.
\<close>

record ymo_server_config =
  user_init :: "(nat \<Rightarrow> nat) option"
  user_cleanup :: bool
  shut_answer :: "int \<Rightarrow> ymo_status"

text \<open>
  \<open>conns\<close> are the live connection objects, \<open>recv_buf\<close> is the address of the receive buffer,
  \<open>multiproc\<close> tells which accept callback \<^verbatim>\<open>cb_accept\<close> is.  \<open>net\<close> are the answers of \<^verbatim>\<open>recv\<close> to come;
  \<open>net_out\<close> holds, for every transmission to come, what each \<^verbatim>\<open>sendmsg\<close> answers before the socket
  blocks: an error, or the bytes it finds room for.
\<close>

record 'p ymo_server =
  s_state :: ymo_server_state
  s_proto :: nat
  s_config :: ymo_server_config
  no_conn :: u64
  conns :: "nat \<Rightarrow> 'p ymo_conn option"
  recv_buf :: u64
  multiproc :: bool
  net :: "recv_result list"
  net_out :: "(ymo_status + nat) list list"
  s_calls :: "server_call list"

definition server_call :: "server_call \<Rightarrow> 'p ymo_server \<Rightarrow> 'p ymo_server" where
  "server_call call s = s\<lparr>s_calls := s_calls s @ [call]\<rparr>"

text \<open>
  A protocol's callbacks.  They get the address of the connection and may change the server's state;
  \<^verbatim>\<open>conn_init_cb\<close> returns the protocol's data (\<open>None\<close>: \<open>NULL\<close>) and leaves an error number behind.
\<close>

record 'p ymo_proto_vt =
  init_cb :: ymo_status
  cleanup_cb :: bool
  conn_init_cb :: "nat \<Rightarrow> 'p ymo_server \<Rightarrow> ('p option \<times> ymo_status \<times> 'p ymo_server) run"
  conn_ready_cb :: "(nat \<Rightarrow> 'p ymo_server \<Rightarrow> (ymo_status \<times> 'p ymo_server) run) option"
  conn_cleanup_cb :: "(nat \<Rightarrow> 'p option \<Rightarrow> 'p ymo_server \<Rightarrow> 'p ymo_server run) option"
  read_cb :: "nat \<Rightarrow> u64 \<Rightarrow> bytes \<Rightarrow> 'p ymo_server \<Rightarrow> ((ymo_status + nat) \<times> 'p ymo_server) run"
  write_cb :: "nat \<Rightarrow> 'p ymo_server \<Rightarrow> (ymo_status \<times> 'p ymo_server) run"

type_synonym 'p protos = "nat \<Rightarrow> 'p ymo_proto_vt"

definition get_conn :: "nat \<Rightarrow> 'p ymo_server \<Rightarrow> 'p ymo_conn run" where
  "get_conn a s = (case conns s a of None \<Rightarrow> Fault | Some c \<Rightarrow> Ret c)"

definition put_conn :: "nat \<Rightarrow> 'p ymo_conn \<Rightarrow> 'p ymo_server \<Rightarrow> 'p ymo_server" where
  "put_conn a c s = s\<lparr>conns := (conns s)(a \<mapsto> c)\<rparr>"

definition on_conn :: "nat \<Rightarrow> ('p ymo_conn \<Rightarrow> 'p ymo_conn) \<Rightarrow> 'p ymo_server \<Rightarrow> 'p ymo_server run" where
  "on_conn a f s = run_bind (get_conn a s) (\<lambda>c. Ret (put_conn a (f c) s))"

section \<open>Closing a connection\<close>

definition run_conn_cleanup :: "'p protos \<Rightarrow> nat \<Rightarrow> 'p ymo_server \<Rightarrow> 'p ymo_server run" where
  "run_conn_cleanup vt a s = run_bind (get_conn a s) (\<lambda>c.
     case conn_cleanup_cb (vt (c_proto c)) of None \<Rightarrow> Ret s | Some cb \<Rightarrow> cb a (c_proto_data c) s)"

definition free_conn :: "nat \<Rightarrow> 'p ymo_server \<Rightarrow> 'p ymo_server" where
  "free_conn a s =
     (let s = s\<lparr>conns := (conns s)(a := None), no_conn := no_conn s - 1\<rparr>
      in if s_state s = YMO_SERVER_STOP_GRACEFUL \<and> no_conn s = 0 then server_call Ev_break s else s)"

definition close_and_free_connection :: "'p protos \<Rightarrow> nat \<Rightarrow> bool \<Rightarrow> 'p ymo_server \<Rightarrow> 'p ymo_server run" where
  "close_and_free_connection vt a clean s = run_bind (get_conn a s) (\<lambda>c.
     case ymo_conn_close (shut_answer (s_config s)) (net s) clean c of
       None \<Rightarrow> Hang
     | Some (st, c, rest) \<Rightarrow>
         let s = (put_conn a c s)\<lparr>net := rest\<rparr>
         in if st \<noteq> YMO_CONN_CLOSED then Ret s
            else
              let s = (if user_cleanup (s_config s) then server_call (User_cleanup a (c_user c)) s else s)
              in run_bind (run_conn_cleanup vt a s) (\<lambda>s. Ret (free_conn a s)))"

section \<open>Accepting\<close>

definition conn_proto_init :: "'p protos \<Rightarrow> nat \<Rightarrow> nat \<Rightarrow> 'p ymo_server \<Rightarrow> (ymo_status \<times> 'p ymo_server) run" where
  "conn_proto_init vt proto a s = run_bind (conn_init_cb (vt proto) a s) (\<lambda>(pd, errno, s).
     run_bind (on_conn a (\<lambda>c. c\<lparr>c_proto_data := pd\<rparr>) s) (\<lambda>s.
       if pd = None then Ret (errno, s)
       else case conn_ready_cb (vt proto) of
              None \<Rightarrow> Ret (YMO_OKAY, s)
            | Some cb \<Rightarrow> cb a s))"

definition ymo_conn_transition_proto ::
  "'p protos \<Rightarrow> nat \<Rightarrow> nat \<Rightarrow> 'p ymo_server \<Rightarrow> (ymo_status \<times> 'p ymo_server) run" where
  "ymo_conn_transition_proto vt a proto_new s =
     run_bind (get_conn a s) (\<lambda>c.
       case conn_cleanup_cb (vt (c_proto c)) of
         None \<Rightarrow> Fault
       | Some cb \<Rightarrow>
           run_bind (cb a (c_proto_data c) s) (\<lambda>s.
             run_bind (on_conn a (\<lambda>c. c\<lparr>c_proto := proto_new\<rparr>) s) (conn_proto_init vt proto_new a)))"

text \<open>\<open>mem\<close> is the address of the new connection object (\<open>None\<close>: no memory).\<close>

definition ymo_conn_accept :: "'p protos \<Rightarrow> int \<Rightarrow> nat option \<Rightarrow> 'p ymo_server \<Rightarrow> 'p ymo_server run" where
  "ymo_conn_accept vt client_fd mem s =
     (if client_fd < 0 then Ret s
      else case mem of
        None \<Rightarrow> Ret (server_call (Client_close client_fd) s)
      | Some a \<Rightarrow>
          run_bind (conn_proto_init vt (s_proto s) a (put_conn a (ymo_conn_create (s_proto s) client_fd) s))
            (\<lambda>(init_status, s).
               if init_status \<noteq> YMO_OKAY then close_and_free_connection vt a True s
               else run_bind
                 (case user_init (s_config s) of
                    None \<Rightarrow> Ret s
                  | Some f \<Rightarrow> on_conn a (\<lambda>c. c\<lparr>c_user := f a\<rparr>) s)
                 (\<lambda>s. on_conn a (\<lambda>c. ymo_conn_rx_enable 1 (ymo_conn_start_idle_timeout c))
                        (s\<lparr>no_conn := no_conn s + 1\<rparr>))))"

text \<open>\<open>fd\<close> is what \<^verbatim>\<open>accept\<close> answers; nothing is accepted on an error event.\<close>

definition ymo_fd_accept :: "bool \<Rightarrow> int \<Rightarrow> int" where
  "ymo_fd_accept ev_error fd = (if ev_error then -1 else fd)"

definition ymo_accept_cb ::
  "'p protos \<Rightarrow> bool \<Rightarrow> int \<Rightarrow> nat option \<Rightarrow> 'p ymo_server \<Rightarrow> 'p ymo_server run" where
  "ymo_accept_cb vt ev_error fd mem s =
     (let client_fd = ymo_fd_accept ev_error fd
      in if client_fd > 0 then ymo_conn_accept vt client_fd mem s else Ret s)"

text \<open>With several processes, only the one that gets the mutex (\<open>locked\<close>) asks for a connection.\<close>

definition ymo_multiproc_accept_cb ::
  "'p protos \<Rightarrow> bool \<Rightarrow> bool \<Rightarrow> int \<Rightarrow> nat option \<Rightarrow> 'p ymo_server \<Rightarrow> 'p ymo_server run" where
  "ymo_multiproc_accept_cb vt locked ev_error fd mem s =
     (if \<not> locked then Ret s
      else let client_fd = ymo_fd_accept ev_error fd
        in if client_fd > 0 then ymo_conn_accept vt client_fd mem s else Ret s)"

section \<open>Reading, writing and idling\<close>

text \<open>
  The two loops of \<^verbatim>\<open>ymo_read_cb\<close>: the one that asks the socket and the one that feeds what was read to
  the protocol.  A callback may consume nothing, so that fuel bounds their turns together.
\<close>

definition YMO_SERVER_RECV_BUF_SIZE :: nat where "YMO_SERVER_RECV_BUF_SIZE = 8192"

fun read_loop :: "nat \<Rightarrow> 'p protos \<Rightarrow> nat \<Rightarrow> (u64 \<times> bytes) option \<Rightarrow> 'p ymo_server \<Rightarrow> 'p ymo_server run" where
  "read_loop 0 vt a dat s = Hang"
| "read_loop (Suc n) vt a None s =
     (case net s of
        [] \<Rightarrow> Hang
      | r # rest \<Rightarrow>
          let s = s\<lparr>net := rest\<rparr>
          in case r of
               Rcv_err st \<Rightarrow> if YMO_IS_BLOCKED st then Ret s else close_and_free_connection vt a False s
             | Rcv_eof \<Rightarrow> close_and_free_connection vt a False s
             | Rcv dat \<Rightarrow>
                 run_bind (get_conn a s) (\<lambda>c.
                   if c_state c = YMO_CONN_OPEN \<or> c_state c = YMO_CONN_TLS_ESTABLISHED
                   then read_loop n vt a (Some (recv_buf s, dat)) (put_conn a (ymo_conn_reset_idle_timeout c) s)
                   else read_loop n vt a None s))"
| "read_loop (Suc n) vt a (Some (ptr, dat)) s =
     run_bind (get_conn a s) (\<lambda>c.
       run_bind (read_cb (vt (c_proto c)) a ptr dat s) (\<lambda>(r, s).
         case r of
           Inl status \<Rightarrow>
             if status \<noteq> YMO_OKAY \<and> \<not> YMO_IS_BLOCKED status then close_and_free_connection vt a False s else Ret s
         | Inr k \<Rightarrow>
             if length dat < k then Fault
             else run_bind (get_conn a s) (\<lambda>c.
               if c_state c = YMO_CONN_SHUTDOWN then read_loop n vt a None s
               else if drop k dat \<noteq> [] then read_loop n vt a (Some (ptr + word_of_nat k, drop k dat)) s
               else Ret s)))"

definition read_fuel :: "recv_result list \<Rightarrow> nat" where
  "read_fuel rs = Suc (\<Sum>r \<leftarrow> rs. case r of Rcv dat \<Rightarrow> Suc (length dat) | _ \<Rightarrow> 1)"

definition ymo_read_cb :: "'p protos \<Rightarrow> bool \<Rightarrow> nat \<Rightarrow> 'p ymo_server \<Rightarrow> 'p ymo_server run" where
  "ymo_read_cb vt ev_error a s =
     (if ev_error then close_and_free_connection vt a False s
      else read_loop (read_fuel (net s)) vt a None s)"

definition ymo_write_cb :: "'p protos \<Rightarrow> nat \<Rightarrow> 'p ymo_server \<Rightarrow> 'p ymo_server run" where
  "ymo_write_cb vt a s = run_bind (get_conn a s) (\<lambda>c.
     run_bind (write_cb (vt (c_proto c)) a s) (\<lambda>(status, s).
       run_bind (on_conn a ymo_conn_reset_idle_timeout s) (\<lambda>s.
         if status = YMO_OKAY then on_conn a (ymo_conn_tx_enable 0) s
         else if \<not> YMO_IS_BLOCKED status then close_and_free_connection vt a True s
         else Ret s)))"

definition idle_timeout_cb :: "'p protos \<Rightarrow> nat \<Rightarrow> 'p ymo_server \<Rightarrow> 'p ymo_server run" where
  "idle_timeout_cb vt a s = close_and_free_connection vt a True s"

section \<open>The life cycle\<close>

text \<open>What the system calls of \<^verbatim>\<open>ymo_server_init\<close> answer.\<close>

record init_answers =
  a_socket :: "ymo_status + int"
  a_reuse :: ymo_status
  a_nonblocking :: ymo_status
  a_bind :: ymo_status
  a_listen :: ymo_status

definition server_stop_calls :: "ymo_server_state \<Rightarrow> server_call list" where
  "server_stop_calls st =
     (case st of
        YMO_SERVER_STOP_GRACEFUL \<Rightarrow> [Accept_stop, Listen_close]
      | YMO_SERVER_STARTED \<Rightarrow> [Accept_stop, Listen_close]
      | YMO_SERVER_INITIALIZED \<Rightarrow> [Listen_close]
      | YMO_SERVER_CREATED \<Rightarrow> [])"

definition ymo_server_free :: "'p protos \<Rightarrow> 'p ymo_server \<Rightarrow> 'p ymo_server" where
  "ymo_server_free vt s = s\<lparr>s_calls := s_calls s @ server_stop_calls (s_state s) @ [Toq_stop] @
     (if cleanup_cb (vt (s_proto s)) then [Proto_cleanup] else []) @ [Server_delete]\<rparr>"

text \<open>\<open>mem\<close> tells whether the object can be allocated, \<open>rb\<close> where its buffer is.\<close>

definition server_new :: "ymo_server_config \<Rightarrow> nat \<Rightarrow> u64 \<Rightarrow> 'p ymo_server" where
  "server_new config proto rb = \<lparr>s_state = YMO_SERVER_CREATED, s_proto = proto, s_config = config,
     no_conn = 0, conns = Map.empty, recv_buf = rb, multiproc = False, net = [], net_out = [], s_calls = []\<rparr>"

definition ymo_server_create ::
  "'p protos \<Rightarrow> ymo_server_config \<Rightarrow> nat \<Rightarrow> u64 \<Rightarrow> bool \<Rightarrow> 'p ymo_server option \<times> server_call list" where
  "ymo_server_create vt config proto rb mem =
     (if \<not> mem then (None, [])
      else let s = server_new config proto rb
        in if init_cb (vt proto) \<noteq> YMO_OKAY then (None, s_calls (ymo_server_free vt s)) else (Some s, []))"

definition ymo_server_init_socket :: "init_answers \<Rightarrow> 'p ymo_server \<Rightarrow> ymo_status \<times> 'p ymo_server" where
  "ymo_server_init_socket a s =
     (if a_listen a \<noteq> YMO_OKAY then (a_listen a, s)
      else (YMO_OKAY, s\<lparr>s_state := YMO_SERVER_INITIALIZED\<rparr>))"

definition ymo_server_init :: "init_answers \<Rightarrow> 'p ymo_server \<Rightarrow> ymo_status \<times> 'p ymo_server" where
  "ymo_server_init a s =
     (case a_socket a of
        Inl errno \<Rightarrow> (errno, s)
      | Inr _ \<Rightarrow>
          if a_reuse a \<noteq> YMO_OKAY then (a_reuse a, server_call Listen_close s)
          else if a_nonblocking a \<noteq> YMO_OKAY then (a_nonblocking a, server_call Listen_close s)
          else if a_bind a \<noteq> YMO_OKAY then (a_bind a, server_call Listen_close s)
          else case ymo_server_init_socket a s of
                 (status, s) \<Rightarrow> (status, if status \<noteq> YMO_OKAY then server_call Listen_close s else s))"

text \<open>\<open>shared\<close> tells whether the shared memory for the mutex can be mapped; \<^verbatim>\<open>accept_mutex\<close> is set once
  \<open>multiproc\<close> is.\<close>

definition ymo_server_pre_fork :: "bool \<Rightarrow> 'p ymo_server \<Rightarrow> ymo_status \<times> 'p ymo_server" where
  "ymo_server_pre_fork shared s =
     (if multiproc s then (YMO_OKAY, s)
      else if \<not> shared then (ENOMEM, s)
      else (YMO_OKAY, (server_call Mutex_init s)\<lparr>multiproc := True\<rparr>))"

text \<open>\<open>env\<close> is the outcome of reading the idle timeout from the environment, with \<^verbatim>\<open>errno\<close> on failure.\<close>

definition ymo_server_start :: "ymo_status option \<Rightarrow> 'p ymo_server \<Rightarrow> ymo_status \<times> 'p ymo_server" where
  "ymo_server_start env s =
     (case env of
        Some r_err \<Rightarrow> (r_err, s)
      | None \<Rightarrow> (YMO_OKAY, (server_call Accept_start (server_call Toq_init s))\<lparr>s_state := YMO_SERVER_STARTED\<rparr>))"

definition ymo_server_stop_graceful :: "'p ymo_server \<Rightarrow> ymo_status \<times> 'p ymo_server" where
  "ymo_server_stop_graceful s =
     (let s = (server_call Listen_close (server_call Accept_stop s))\<lparr>s_state := YMO_SERVER_STOP_GRACEFUL\<rparr>
      in (YMO_OKAY, if no_conn s = 0 then server_call Ev_break s else s))"

end
