(* ===== verification/Hdr_Hash.thy ===== *)
theory Hdr_Hash
  imports Prelude
begin

text \<open>
  The default hash of HTTP header names (\<^verbatim>\<open>ymo_http_hdr_hash_283_5\<close> in
  \<^verbatim>\<open>src/protocol/http/ymo_http_hdr_table.h\<close>), on 16-bit integers with a 15-bit result, and the table of
  precomputed ids of common headers in the same file.
\<close>

section \<open>The hash\<close>

definition YMO_HDR_TABLE_BUCKET_SIZE :: nat where "YMO_HDR_TABLE_BUCKET_SIZE = 8"
definition YMO_HDR_TABLE_POOL_SIZE :: nat where "YMO_HDR_TABLE_POOL_SIZE = 4"
definition YMO_HDR_TABLE_MASK :: u16 where "YMO_HDR_TABLE_MASK = 0x7fff"

definition YMO_HTTP_HDR_HASH_INIT :: u16 where "YMO_HTTP_HDR_HASH_INIT = 5"

definition YMO_HDR_HASH_CH :: "u16 \<Rightarrow> byte \<Rightarrow> u16" where
  "YMO_HDR_HASH_CH h c = h * 283 + ucast (c AND 0xdf)"

text \<open>The hash of a string, and the length the loop counts.\<close>

definition ymo_http_hdr_hash_283_5 :: "bytes \<Rightarrow> u16 \<times> nat" where
  "ymo_http_hdr_hash_283_5 str_in =
     (foldl YMO_HDR_HASH_CH YMO_HTTP_HDR_HASH_INIT str_in AND YMO_HDR_TABLE_MASK, length str_in)"

text \<open>The ids of common headers, as the header file lists them.\<close>

definition YMO_HTTP_HID :: "(string \<times> u16) list" where
  "YMO_HTTP_HID =
     [(''A-IM'', 19549), (''Accept'', 597),
      (''Accept-CH'', 8637), (''Accept-Charset'', 27356),
      (''Accept-Datetime'', 1387), (''Accept-Encoding'', 17935),
      (''Accept-Language'', 220), (''Accept-Patch'', 14124),
      (''Accept-Ranges'', 7566), (''Access-Control-Allow-Credentials'', 24108),
      (''Access-Control-Allow-Headers'', 26806), (''Access-Control-Allow-Methods'', 18578),
      (''Access-Control-Allow-Origin'', 31630), (''Access-Control-Expose-Headers'', 12101),
      (''Access-Control-Max-Age'', 17818), (''Access-Control-Request-Headers'', 14004),
      (''Access-Control-Request-Method'', 4999), (''Age'', 30026),
      (''Allow'', 14532), (''Alt-Svc'', 4375),
      (''Alternate-Protocol'', 9616), (''Authorization'', 10104),
      (''Cache-Control'', 23577), (''Client-Date'', 4867),
      (''Client-Peer'', 1155), (''Client-Response-Num'', 9643),
      (''Connection'', 31919), (''Content-Disposition'', 20678),
      (''Content-Encoding'', 30996), (''Content-Language'', 13281),
      (''Content-Length'', 12647), (''Content-Location'', 6246),
      (''Content-MD5'', 23393), (''Content-Range'', 25688),
      (''Content-Security-Policy'', 15382), (''Content-Security-Policy-Report-Only'', 19990),
      (''Content-Type'', 22203), (''Cookie'', 7269),
      (''DNT'', 10145), (''Date'', 27707),
      (''Delta-Base'', 4627), (''ETag'', 26426),
      (''Expect'', 20206), (''Expect-CT'', 3188),
      (''Expires'', 25883), (''Field'', 26493),
      (''Forwarded'', 9023), (''From'', 23787),
      (''Front-End-Https'', 24116), (''HTTP'', 1005),
      (''HTTP2-Settings'', 1895), (''Host'', 26265),
      (''IM'', 27965), (''If-Match'', 27778),
      (''If-Modified-Since'', 11681), (''If-None-Match'', 27075),
      (''If-Range'', 25482), (''If-Unmodified-Since'', 5398),
      (''Keep-Alive'', 14934), (''Last-Modified'', 16971),
      (''Link'', 27519), (''Location'', 8770),
      (''Max-Forwards'', 29556), (''NEL'', 22048),
      (''Origin'', 31375), (''P3P'', 4240),
      (''Permissions-Policy'', 23036), (''Pragma'', 26433),
      (''Prefer'', 1325), (''Preference-Applied'', 6448),
      (''Proxy-Authenticate'', 19117), (''Proxy-Authorization'', 5837),
      (''Proxy-Connection'', 3606), (''Public-Key-Pins'', 6631),
      (''Range'', 460), (''Referer'', 1000),
      (''Refresh'', 9946), (''Report-To'', 2987),
      (''Retry-After'', 21570), (''Save-Data'', 18729),
      (''Sec-WebSocket-Extensions'', 11183), (''Sec-WebSocket-Key'', 1788),
      (''Sec-WebSocket-Protocol'', 19175), (''Sec-WebSocket-Version'', 16357),
      (''Server'', 30792), (''Set-Cookie'', 10316),
      (''Status'', 6483), (''Strict-Transport-Security'', 3375),
      (''TE'', 31070), (''Timing-Allow-Origin'', 27524),
      (''Tk'', 31076), (''Trailer'', 28074),
      (''Transfer-Encoding'', 15812), (''Upgrade'', 17987),
      (''Upgrade-Insecure-Requests'', 8995), (''User-Agent'', 16616),
      (''Vary'', 6159), (''Via'', 8521),
      (''WWW-Authenticate'', 32140), (''Warning'', 18231),
      (''X-ATT-DeviceId'', 8371), (''X-Aspnet-Version'', 15676),
      (''X-Content-Duration'', 5654), (''X-Content-Security-Policy'', 9965),
      (''X-Content-Type-Options'', 27961), (''X-Correlation-ID'', 13212),
      (''X-Csrf-Token'', 27754), (''X-Forwarded-For'', 5858),
      (''X-Forwarded-Host'', 32011), (''X-Forwarded-Proto'', 8005),
      (''X-Frame-Options'', 13216), (''X-Http-Method-Override'', 28957),
      (''X-Permitted-Cross-Domain-Policies'', 30637), (''X-Pingback'', 32127),
      (''X-Powered-By'', 14782), (''X-Redirect-By'', 27466),
      (''X-Request-ID'', 24927), (''X-Requested-With'', 29363),
      (''X-Robots-Tag'', 30624), (''X-UA-Compatible'', 24207),
      (''X-UIDH'', 9254), (''X-Wap-Profile'', 5928),
      (''X-WebKit-CSP'', 20791), (''X-XSS-Protection'', 104)]"

definition YMO_HTTP_HID_SET_COOKIE :: u16 where "YMO_HTTP_HID_SET_COOKIE = 10316"

section \<open>The hash ignores the case of letters\<close>

lemma hash_ch_fold: "c AND 0xdf = d AND 0xdf \<Longrightarrow> YMO_HDR_HASH_CH h c = YMO_HDR_HASH_CH h d"
  by (simp add: YMO_HDR_HASH_CH_def)

lemma hash_fold_cong:
  "map (\<lambda>c. c AND 0xdf) s = map (\<lambda>c. c AND 0xdf) t \<Longrightarrow>
   foldl YMO_HDR_HASH_CH h s = foldl YMO_HDR_HASH_CH h t"
proof (induction s arbitrary: t h)
  case (Cons c s)
  then obtain d t' where t: "t = d # t'" by (cases t) auto
  with Cons.prems hash_ch_fold [of c d h] Cons.IH [of t'] show ?case by simp
qed simp

lemma hid_ok: "list_all (\<lambda>(name, h_id). fst (ymo_http_hdr_hash_283_5 (str name)) = h_id) YMO_HTTP_HID"
  by code_simp

lemma hid_distinct: "distinct (map snd YMO_HTTP_HID)"
  by (simp add: YMO_HTTP_HID_def)

section \<open>Properties\<close>

text \<open>Every precomputed header id of the header file is the hash of the name its comment gives,
  the ids are pairwise different, and the hash of a name does not depend on the case of its letters
  (on bit 5 of any of its bytes).\<close>
theorem header_ids_are_hashes:
  "(\<forall>p \<in> set YMO_HTTP_HID. ymo_http_hdr_hash_283_5 (str (fst p)) = (snd p, length (fst p))) \<and>
   distinct (map snd YMO_HTTP_HID) \<and>
   (\<forall>s t. map (\<lambda>c. c AND 0xdf) s = map (\<lambda>c. c AND 0xdf) t \<longrightarrow>
      ymo_http_hdr_hash_283_5 s = ymo_http_hdr_hash_283_5 t)"
proof (intro conjI ballI allI impI)
  show "ymo_http_hdr_hash_283_5 (str (fst p)) = (snd p, length (fst p))" if "p \<in> set YMO_HTTP_HID" for p
  proof -
    have "fst (ymo_http_hdr_hash_283_5 (str (fst p))) = snd p"
      using hid_ok that by (auto simp: list_all_iff)
    moreover have "snd (ymo_http_hdr_hash_283_5 (str (fst p))) = length (fst p)"
      by (simp add: ymo_http_hdr_hash_283_5_def str_def)
    ultimately show ?thesis by (metis prod.collapse)
  qed
  show "distinct (map snd YMO_HTTP_HID)" by (rule hid_distinct)
  show "ymo_http_hdr_hash_283_5 s = ymo_http_hdr_hash_283_5 t"
    if "map (\<lambda>c. c AND 0xdf) s = map (\<lambda>c. c AND 0xdf) t" for s t
    using hash_fold_cong [OF that] map_eq_imp_length_eq [OF that]
    by (simp add: ymo_http_hdr_hash_283_5_def)
qed

theorem header_ids_are_hashes_witness:
  "fst (ymo_http_hdr_hash_283_5 (str ''A-IM'')) = 19549 \<and>
   ymo_http_hdr_hash_283_5 (str ''Host'') = ymo_http_hdr_hash_283_5 (str ''hOST'')"
proof -
  have m: "(''A-IM'', 19549) \<in> set YMO_HTTP_HID" by (simp add: YMO_HTTP_HID_def)
  have e: "map (\<lambda>c. c AND 0xdf) (str ''Host'') = map (\<lambda>c. c AND 0xdf) (str ''hOST'')"
    by (simp add: str_def chr_def)
  show ?thesis
    using header_ids_are_hashes m e by (metis fst_conv snd_conv)
qed

end
