(* ===== verification/Hdr_Table.thy ===== *)
theory Hdr_Table
  imports Hdr_Hash
begin

text \<open>
  The HTTP header tables of \<^verbatim>\<open>src/protocol/http/ymo_http_hdr_table.c\<close>: a hash table of eight
  chains, keyed by a 15-bit hash of the header name, with a pool of four nodes.  Names and values are
  C strings the table does not own; they are modelled by the bytes before their terminator.
\<close>

section \<open>Nodes and tables\<close>

text \<open>
  The managed buffer of a node: none, an allocated block of bytes (terminator included), or a
  pointer to memory that has been freed.
\<close>

datatype hdr_buffer = NoBuf | Buf bytes | Dangling

record hdr_node =
  h_id :: u16
  nopool :: bool
  hdr :: bytes
  hdr_len :: nat
  hvalue :: bytes
  buffer :: hdr_buffer

text \<open>
  A table: the chains, the number of nodes in the pool's free list, and the number of allocations
  that still succeed.
\<close>

record hdr_table =
  bucket :: "hdr_node list list"
  pool :: nat
  mem :: nat

definition ymo_http_hdr_table_create :: "nat \<Rightarrow> hdr_table" where
  "ymo_http_hdr_table_create m =
     \<lparr>bucket = replicate YMO_HDR_TABLE_BUCKET_SIZE [], pool = 0, mem = m\<rparr>"

definition ymo_http_hdr_table_init :: "hdr_table \<Rightarrow> hdr_table" where
  "ymo_http_hdr_table_init table = table\<lparr>pool := YMO_HDR_TABLE_POOL_SIZE\<rparr>"

text \<open>A node from the pool, or from the allocator; the flag is the node's \<^verbatim>\<open>YMO_HDR_FLAG_NOPOOL\<close>.\<close>

definition ymo_http_hdr_table_node_create :: "hdr_table \<Rightarrow> (bool \<times> hdr_table) option" where
  "ymo_http_hdr_table_node_create table =
     (if pool table \<noteq> 0 then Some (False, table\<lparr>pool := pool table - 1\<rparr>)
      else if mem table \<noteq> 0 then Some (True, table\<lparr>mem := mem table - 1\<rparr>)
      else None)"

definition ymo_http_hdr_table_node_free :: "hdr_node \<Rightarrow> hdr_table \<Rightarrow> hdr_table" where
  "ymo_http_hdr_table_node_free node table =
     (let table = (case buffer node of Buf _ \<Rightarrow> table\<lparr>mem := mem table + 1\<rparr> | _ \<Rightarrow> table)
      in if nopool node then table\<lparr>mem := mem table + 1\<rparr> else table\<lparr>pool := pool table + 1\<rparr>)"

definition hdr_index :: "u16 \<Rightarrow> nat" where
  "hdr_index h = unat h mod YMO_HDR_TABLE_BUCKET_SIZE"

definition table_insert_first :: "hdr_table \<Rightarrow> u16 \<Rightarrow> nat \<Rightarrow> bytes \<Rightarrow> bytes \<Rightarrow> u16 \<times> hdr_table" where
  "table_insert_first table h index name value =
     (case ymo_http_hdr_table_node_create table of
        None \<Rightarrow> (0, table)
      | Some (np, table) \<Rightarrow>
          (h, table\<lparr>bucket := (bucket table)[index :=
                \<lparr>h_id = h, nopool = np, hdr = name, hdr_len = length name, hvalue = value,
                 buffer = NoBuf\<rparr> # bucket table ! index]\<rparr>))"

text \<open>The first node of a chain with the given id: its position.\<close>

fun find_pos :: "u16 \<Rightarrow> hdr_node list \<Rightarrow> nat option" where
  "find_pos h [] = None"
| "find_pos h (n # ns) = (if h_id n = h then Some 0 else map_option Suc (find_pos h ns))"

definition set_node :: "nat \<Rightarrow> nat \<Rightarrow> hdr_node \<Rightarrow> hdr_table \<Rightarrow> hdr_table" where
  "set_node index k n table = table\<lparr>bucket := (bucket table)[index := (bucket table ! index)[k := n]]\<rparr>"

text \<open>
  Inserting replaces the value of an existing header.  Its managed buffer is freed but the pointer
  to it stays in the node.
\<close>

definition ymo_http_hdr_table_insert_precompute ::
  "hdr_table \<Rightarrow> u16 \<Rightarrow> bytes \<Rightarrow> bytes \<Rightarrow> u16 \<times> hdr_table" where
  "ymo_http_hdr_table_insert_precompute table h name value =
     (let index = hdr_index h in
      case find_pos h (bucket table ! index) of
        Some k \<Rightarrow>
          (let current = bucket table ! index ! k;
               freed = (case buffer current of NoBuf \<Rightarrow> NoBuf | _ \<Rightarrow> Dangling);
               table = (if buffer current = NoBuf then table else table\<lparr>mem := mem table + 1\<rparr>)
           in (h, set_node index k
                 (current\<lparr>buffer := freed, hdr := name, hvalue := value, hdr_len := length name\<rparr>) table))
      | None \<Rightarrow> table_insert_first table h index name value)"

definition ymo_http_hdr_table_insert :: "hdr_table \<Rightarrow> bytes \<Rightarrow> bytes \<Rightarrow> u16 \<times> hdr_table" where
  "ymo_http_hdr_table_insert table name value =
     ymo_http_hdr_table_insert_precompute table (fst (ymo_http_hdr_hash_283_5 name)) name value"

text \<open>Reading a block as a C string; \<open>None\<close> is a read past its end.\<close>

definition block_str :: "bytes \<Rightarrow> bytes option" where
  "block_str bs = (if 0 \<in> set bs then Some (takeWhile (\<lambda>c. c \<noteq> 0) bs) else None)"

text \<open>
  Appending a value to a node.  \<open>junk\<close> is the last byte of the block that \<open>realloc\<close> returns: the
  code writes the separator and the value over the old terminator and writes no new one.  The
  result is \<open>None\<close> when a block is read past its end or after it was freed; \<open>Some None\<close> when the
  allocation fails.
\<close>

definition hdr_node_append :: "byte \<Rightarrow> bool \<Rightarrow> hdr_node \<Rightarrow> bytes \<Rightarrow> hdr_node option option" where
  "hdr_node_append junk got current value =
     (case buffer current of
        NoBuf \<Rightarrow>
          Some (if got then Some (current\<lparr>buffer := Buf (hvalue current @ [chr CHR '',''] @ value @ [0])\<rparr>)
                else None)
      | Buf bs \<Rightarrow>
          (case block_str bs of
             None \<Rightarrow> None
           | Some b \<Rightarrow>
               Some (if got then Some (current\<lparr>buffer := Buf (b @ [chr CHR '',''] @ value @ [junk])\<rparr>)
                     else None))
      | Dangling \<Rightarrow> None)"

text \<open>
  \<^verbatim>\<open>ymo_http_hdr_table_add_precompute\<close>.  A failed \<open>realloc\<close> leaves \<open>NULL\<close> in the node (and leaks the
  old block); the id returned is then 0.
\<close>

definition add_current :: "byte \<Rightarrow> hdr_table \<Rightarrow> u16 \<Rightarrow> nat \<Rightarrow> nat \<Rightarrow> bytes \<Rightarrow> (u16 \<times> hdr_table) option" where
  "add_current junk table h index k value =
     (let current = bucket table ! index ! k; got = (mem table \<noteq> 0) in
      case hdr_node_append junk got current value of
        None \<Rightarrow> None
      | Some None \<Rightarrow> Some (0, set_node index k (current\<lparr>buffer := NoBuf\<rparr>) table)
      | Some (Some n) \<Rightarrow>
          Some (h, set_node index k n (if buffer current = NoBuf then table\<lparr>mem := mem table - 1\<rparr> else table)))"

definition ymo_http_hdr_table_add_precompute ::
  "byte \<Rightarrow> hdr_table \<Rightarrow> u16 \<Rightarrow> bytes \<Rightarrow> bytes \<Rightarrow> (u16 \<times> hdr_table) option" where
  "ymo_http_hdr_table_add_precompute junk table h name value =
     (let index = hdr_index h in
      case find_pos h (bucket table ! index) of
        Some k \<Rightarrow> add_current junk table h index k value
      | None \<Rightarrow> Some (table_insert_first table h index name value))"

text \<open>\<^verbatim>\<open>ymo_http_hdr_table_add\<close>: \<^verbatim>\<open>Set-Cookie\<close> gets one node for each value.\<close>

definition ymo_http_hdr_table_add :: "byte \<Rightarrow> hdr_table \<Rightarrow> bytes \<Rightarrow> bytes \<Rightarrow> (u16 \<times> hdr_table) option" where
  "ymo_http_hdr_table_add junk table name value =
     (let h = fst (ymo_http_hdr_hash_283_5 name); index = hdr_index h in
      case find_pos h (bucket table ! index) of
        Some k \<Rightarrow>
          if h = YMO_HTTP_HID_SET_COOKIE
          then Some (table_insert_first table YMO_HTTP_HID_SET_COOKIE index name value)
          else add_current junk table h index k value
      | None \<Rightarrow> Some (table_insert_first table h index name value))"

text \<open>
  What a caller reads of a node: its value or its managed buffer; \<open>None\<close> is an invalid read.
\<close>

definition node_value :: "hdr_node \<Rightarrow> bytes option" where
  "node_value n = (case buffer n of NoBuf \<Rightarrow> Some (hvalue n) | Buf bs \<Rightarrow> block_str bs | Dangling \<Rightarrow> None)"

text \<open>A lookup: \<open>Some None\<close> is \<open>NULL\<close>, \<open>None\<close> an invalid read.\<close>

definition ymo_http_hdr_table_get_id :: "hdr_table \<Rightarrow> u16 \<Rightarrow> bytes option option" where
  "ymo_http_hdr_table_get_id table h =
     (let index = hdr_index h in
      case find_pos h (bucket table ! index) of
        None \<Rightarrow> Some None
      | Some k \<Rightarrow> map_option Some (node_value (bucket table ! index ! k)))"

definition ymo_http_hdr_table_get :: "hdr_table \<Rightarrow> bytes \<Rightarrow> bytes option option" where
  "ymo_http_hdr_table_get table name = ymo_http_hdr_table_get_id table (fst (ymo_http_hdr_hash_283_5 name))"

definition ymo_http_hdr_table_clear :: "hdr_table \<Rightarrow> hdr_table" where
  "ymo_http_hdr_table_clear table =
     (fold ymo_http_hdr_table_node_free (concat (bucket table)) table)
       \<lparr>bucket := replicate YMO_HDR_TABLE_BUCKET_SIZE []\<rparr>"

text \<open>
  The iterator: a cursor is a chain and a position in it.  From a node without successor the search
  goes on at the chain after the one its hash selects.
\<close>

fun first_bucket :: "hdr_node list list \<Rightarrow> nat \<Rightarrow> (nat \<times> nat) option" where
  "first_bucket [] i = None"
| "first_bucket (b # bs) i = (if b \<noteq> [] then Some (i, 0) else first_bucket bs (i + 1))"

definition ymo_http_hdr_table_next :: "hdr_table \<Rightarrow> (nat \<times> nat) option \<Rightarrow> (nat \<times> nat) option" where
  "ymo_http_hdr_table_next table cur =
     (case cur of
        None \<Rightarrow> first_bucket (bucket table) 0
      | Some (i, k) \<Rightarrow>
          if k + 1 < length (bucket table ! i) then Some (i, k + 1)
          else let h_start = hdr_index (h_id (bucket table ! i ! k)) + 1
               in first_bucket (drop h_start (bucket table)) h_start)"

text \<open>A loop over the whole table, as its callers write it, on fuel.\<close>

fun hdr_iterate :: "nat \<Rightarrow> hdr_table \<Rightarrow> (nat \<times> nat) option \<Rightarrow> (bytes \<times> bytes option) list option" where
  "hdr_iterate 0 table cur = None"
| "hdr_iterate (Suc fuel) table cur =
     (case ymo_http_hdr_table_next table cur of
        None \<Rightarrow> Some []
      | Some (i, k) \<Rightarrow>
          map_option (\<lambda>rest. (hdr (bucket table ! i ! k), node_value (bucket table ! i ! k)) # rest)
            (hdr_iterate fuel table (Some (i, k))))"

section \<open>The invariant\<close>

text \<open>
  Eight chains; the nodes of each have hashes that select it, and at most one of them has a given
  id; managed buffers hold terminated strings.
\<close>

definition node_ok :: "hdr_node \<Rightarrow> bool" where
  "node_ok n \<longleftrightarrow> hdr_len n = length (hdr n) \<and> node_value n \<noteq> None"

definition table_ok :: "hdr_table \<Rightarrow> bool" where
  "table_ok table \<longleftrightarrow>
     length (bucket table) = YMO_HDR_TABLE_BUCKET_SIZE \<and>
     (\<forall>i < YMO_HDR_TABLE_BUCKET_SIZE. \<forall>n \<in> set (bucket table ! i). hdr_index (h_id n) = i \<and> node_ok n)"

lemma hdr_index_lt [simp]: "hdr_index h < 8" "hdr_index h < YMO_HDR_TABLE_BUCKET_SIZE"
  by (simp_all add: hdr_index_def YMO_HDR_TABLE_BUCKET_SIZE_def)

lemma table_okD:
  "table_ok table \<Longrightarrow> n \<in> set (bucket table ! hdr_index h) \<Longrightarrow> hdr_index (h_id n) = hdr_index h \<and> node_ok n"
  by (metis hdr_index_lt(2) table_ok_def)

lemma table_ok_create: "table_ok (ymo_http_hdr_table_init (ymo_http_hdr_table_create m))"
  by (simp add: table_ok_def ymo_http_hdr_table_init_def ymo_http_hdr_table_create_def)

lemma find_pos_SomeD: "find_pos h ns = Some k \<Longrightarrow> k < length ns \<and> h_id (ns ! k) = h"
  by (induction ns arbitrary: k) (auto split: if_splits)

lemma find_pos_update:
  "k < length ns \<Longrightarrow> h_id n = h_id (ns ! k) \<Longrightarrow> find_pos h (ns[k := n]) = find_pos h ns"
proof (induction ns arbitrary: k)
  case (Cons m ns)
  then show ?case by (cases k) auto
qed simp

text \<open>The value stored under an id.\<close>

definition lookup :: "hdr_table \<Rightarrow> u16 \<Rightarrow> bytes option" where
  "lookup table h = Option.bind (ymo_http_hdr_table_get_id table h) id"

lemma lookup_alt:
  "lookup table h = (case find_pos h (bucket table ! hdr_index h) of None \<Rightarrow> None
     | Some k \<Rightarrow> node_value (bucket table ! hdr_index h ! k))"
  by (cases "\<exists>k v. find_pos h (bucket table ! hdr_index h) = Some k \<and> node_value (bucket table ! hdr_index h ! k) = Some v")
    (auto simp: lookup_def ymo_http_hdr_table_get_id_def Let_def split: option.splits)

lemma get_id_ok: "table_ok table \<Longrightarrow> ymo_http_hdr_table_get_id table h = Some (lookup table h)"
proof -
  assume ok: "table_ok table"
  show ?thesis
  proof (cases "find_pos h (bucket table ! hdr_index h)")
    case (Some k)
    then have "bucket table ! hdr_index h ! k \<in> set (bucket table ! hdr_index h)"
      using find_pos_SomeD by (metis nth_mem)
    then have "node_value (bucket table ! hdr_index h ! k) \<noteq> None"
      using table_okD [OF ok] unfolding node_ok_def by blast
    with Some show ?thesis by (auto simp: lookup_def ymo_http_hdr_table_get_id_def Let_def)
  qed (simp add: lookup_def ymo_http_hdr_table_get_id_def Let_def)
qed

text \<open>Changing one node, and putting a node in front of a chain.\<close>

lemma bucket_set_node [simp]:
  "bucket (set_node i k n table) = (bucket table)[i := (bucket table ! i)[k := n]]"
  by (simp add: set_node_def)

lemma set_node_ok:
  assumes "table_ok table" "k < length (bucket table ! hdr_index h)" "h_id n = h" "node_ok n"
    "bucket table' = bucket table"
  shows "table_ok (set_node (hdr_index h) k n table')"
proof -
  have "hdr_index (h_id m) = i \<and> node_ok m"
    if "i < YMO_HDR_TABLE_BUCKET_SIZE" "m \<in> set (bucket (set_node (hdr_index h) k n table') ! i)" for i m
  proof (cases "i = hdr_index h")
    case True
    then have "m = n \<or> m \<in> set (bucket table ! hdr_index h)"
      using that assms(1,5) set_update_subset_insert [of "bucket table ! hdr_index h" k n]
      by (auto simp: table_ok_def)
    with True assms table_okD [OF assms(1), of m h] show ?thesis by auto
  next
    case False
    with that assms(1,5) show ?thesis by (simp add: table_ok_def)
  qed
  then show ?thesis using assms(1,5) by (simp add: table_ok_def)
qed

lemma set_node_lookup:
  assumes "table_ok table" "find_pos h (bucket table ! hdr_index h) = Some k" "h_id n = h"
    "bucket table' = bucket table"
  shows "lookup (set_node (hdr_index h) k n table') h' = (if h' = h then node_value n else lookup table h')"
proof -
  note k = find_pos_SomeD [OF assms(2)]
  have len: "length (bucket table) = 8" using assms(1) by (simp add: table_ok_def YMO_HDR_TABLE_BUCKET_SIZE_def)
  show ?thesis
  proof (cases "hdr_index h' = hdr_index h")
    case False
    then show ?thesis
      using assms(4) by (auto simp: lookup_alt split: option.splits)
  next
    case same: True
    show ?thesis
    proof (cases "h' = h")
      case True
      then show ?thesis using k len assms
        by (auto simp: lookup_alt find_pos_update split: option.splits)
    next
      case False
      have "j \<noteq> k" if "find_pos h' (bucket table ! hdr_index h) = Some j" for j
        using find_pos_SomeD [OF that] k False by auto
      with False same k len assms show ?thesis
        by (auto simp: lookup_alt find_pos_update split: option.splits)
    qed
  qed
qed

lemma node_create_cases:
  "(pool table = 0 \<and> mem table = 0 \<and> ymo_http_hdr_table_node_create table = None) \<or>
   (\<exists>np t. ymo_http_hdr_table_node_create table = Some (np, t) \<and> bucket t = bucket table \<and>
      pool t + mem t + 1 = pool table + mem table)"
  by (auto simp: ymo_http_hdr_table_node_create_def)

lemma insert_first_ok:
  assumes ok: "table_ok table" and "table_insert_first table h (hdr_index h) name value = (r, table')"
  shows "table_ok table'"
    "0 < pool table + mem table \<Longrightarrow> r = h \<and>
       lookup table' h' = (if h' = h then Some value else lookup table h')"
    "pool table + mem table \<le> pool table' + mem table' + 1"
proof -
  have len: "length (bucket table) = 8" using ok by (simp add: table_ok_def YMO_HDR_TABLE_BUCKET_SIZE_def)
  have "table_ok table' \<and> (0 < pool table + mem table \<longrightarrow> r = h \<and>
       lookup table' h' = (if h' = h then Some value else lookup table h')) \<and>
     pool table + mem table \<le> pool table' + mem table' + 1"
    using node_create_cases [of table]
  proof (elim disjE exE conjE)
    assume "pool table = 0" "mem table = 0" "ymo_http_hdr_table_node_create table = None"
    with assms show ?thesis by (auto simp: table_insert_first_def)
  next
    fix np t assume c: "ymo_http_hdr_table_node_create table = Some (np, t)" "bucket t = bucket table"
      "pool t + mem t + 1 = pool table + mem table"
    let ?n = "\<lparr>h_id = h, nopool = np, hdr = name, hdr_len = length name, hvalue = value, buffer = NoBuf\<rparr>"
    have t': "r = h" "table' = t\<lparr>bucket := (bucket table)[hdr_index h := ?n # bucket table ! hdr_index h]\<rparr>"
      using assms(2) c by (auto simp: table_insert_first_def)
    have "table_ok table'" using ok unfolding t'(2) table_ok_def
      by (auto simp: nth_list_update node_ok_def node_value_def)
    moreover have "lookup table' h' = (if h' = h then Some value else lookup table h')"
    proof (cases "hdr_index h' = hdr_index h")
      case False
      then show ?thesis unfolding t'(2)
        by (auto simp: lookup_alt split: option.splits)
    next
      case True
      then show ?thesis unfolding t'(2) using len
        by (auto simp: lookup_alt node_value_def [of "\<lparr>h_id = _, nopool = _, hdr = _, hdr_len = _, hvalue = _, buffer = NoBuf\<rparr>"] split: option.splits)
    qed
    ultimately show ?thesis using t' c(3) by simp
  qed
  then show "table_ok table'"
    "0 < pool table + mem table \<Longrightarrow> r = h \<and>
       lookup table' h' = (if h' = h then Some value else lookup table h')"
    "pool table + mem table \<le> pool table' + mem table' + 1" by auto
qed


section \<open>Insertion\<close>

definition has_buffer :: "hdr_table \<Rightarrow> u16 \<Rightarrow> bool" where
  "has_buffer table h \<longleftrightarrow>
     (case find_pos h (bucket table ! hdr_index h) of
        None \<Rightarrow> False | Some k \<Rightarrow> buffer (bucket table ! hdr_index h ! k) \<noteq> NoBuf)"

lemma insert_ok:
  assumes ok: "table_ok table" and nb: "\<not> has_buffer table h"
    and ins: "ymo_http_hdr_table_insert_precompute table h name value = (r, table')"
  shows "table_ok table'"
    "0 < pool table + mem table \<Longrightarrow> r = h \<and>
       lookup table' h' = (if h' = h then Some value else lookup table h')"
    "pool table + mem table \<le> pool table' + mem table' + 1"
proof -
  have "table_ok table' \<and> (0 < pool table + mem table \<longrightarrow> r = h \<and>
       lookup table' h' = (if h' = h then Some value else lookup table h')) \<and>
     pool table + mem table \<le> pool table' + mem table' + 1"
  proof (cases "find_pos h (bucket table ! hdr_index h)")
    case None
    then have "table_insert_first table h (hdr_index h) name value = (r, table')"
      using ins by (simp add: ymo_http_hdr_table_insert_precompute_def Let_def)
    note first = insert_first_ok [OF ok this]
    from first(1) first(2) [of h'] first(3) show ?thesis by auto
  next
    case (Some k)
    let ?c = "bucket table ! hdr_index h ! k"
    let ?n = "?c\<lparr>buffer := NoBuf, hdr := name, hvalue := value, hdr_len := length name\<rparr>"
    have b: "buffer ?c = NoBuf" using nb Some by (simp add: has_buffer_def)
    have r: "r = h" "table' = set_node (hdr_index h) k ?n table"
      using ins Some b by (auto simp: ymo_http_hdr_table_insert_precompute_def Let_def)
    note k = find_pos_SomeD [OF Some]
    have "table_ok table'" unfolding r(2)
      using k by (intro set_node_ok [OF ok]) (auto simp: node_ok_def node_value_def)
    moreover have "lookup table' h' = (if h' = h then Some value else lookup table h')"
      unfolding r(2) using k by (subst set_node_lookup [OF ok Some]) (auto simp: node_value_def)
    ultimately show ?thesis using r by (simp add: set_node_def)
  qed
  then show "table_ok table'"
    "0 < pool table + mem table \<Longrightarrow> r = h \<and>
       lookup table' h' = (if h' = h then Some value else lookup table h')"
    "pool table + mem table \<le> pool table' + mem table' + 1" by auto
qed

text \<open>Tables in which no value has been appended to another.\<close>

definition no_buffers :: "hdr_table \<Rightarrow> bool" where
  "no_buffers table \<longleftrightarrow> (\<forall>n \<in> set (concat (bucket table)). buffer n = NoBuf)"

lemma no_buffers_has:
  assumes "no_buffers table" "table_ok table"
  shows "\<not> has_buffer table h"
proof (cases "find_pos h (bucket table ! hdr_index h)")
  case (Some k)
  then have "bucket table ! hdr_index h ! k \<in> set (bucket table ! hdr_index h)"
    using find_pos_SomeD by (metis nth_mem)
  moreover have "bucket table ! hdr_index h \<in> set (bucket table)"
    using assms(2) by (simp add: table_ok_def)
  ultimately show ?thesis using assms(1) Some by (auto simp: no_buffers_def has_buffer_def)
qed (simp add: has_buffer_def)

lemma no_buffers_update:
  assumes nb: "no_buffers table" and xs: "\<forall>n \<in> set xs. buffer n = NoBuf"
  shows "no_buffers (table'\<lparr>bucket := (bucket table)[i := xs]\<rparr>)"
  using assms set_update_subset_insert [of "bucket table" i xs] by (fastforce simp: no_buffers_def)

lemma insert_no_buffers:
  assumes nb: "no_buffers table" and ok: "table_ok table"
    and ins: "ymo_http_hdr_table_insert_precompute table h name value = (r, table')"
  shows "no_buffers table'"
proof -
  have mem: "bucket table ! hdr_index h \<in> set (bucket table)" using ok by (simp add: table_ok_def)
  then have chain: "\<forall>n \<in> set (bucket table ! hdr_index h). buffer n = NoBuf"
    using nb by (auto simp: no_buffers_def)
  show ?thesis
  proof (cases "find_pos h (bucket table ! hdr_index h)")
    case None
    then have ti: "table_insert_first table h (hdr_index h) name value = (r, table')"
      using ins by (simp add: ymo_http_hdr_table_insert_precompute_def Let_def)
    from node_create_cases [of table] show ?thesis
    proof (elim disjE exE conjE)
      assume "ymo_http_hdr_table_node_create table = None"
      with ti nb show ?thesis by (auto simp: table_insert_first_def)
    next
      fix np t assume c: "ymo_http_hdr_table_node_create table = Some (np, t)" "bucket t = bucket table"
      with ti chain no_buffers_update [OF nb] show ?thesis by (auto simp: table_insert_first_def)
    qed
  next
    case (Some k)
    then have b: "buffer (bucket table ! hdr_index h ! k) = NoBuf"
      using chain find_pos_SomeD by (metis nth_mem)
    let ?xs = "(bucket table ! hdr_index h)[k := (bucket table ! hdr_index h ! k)
        \<lparr>buffer := NoBuf, hdr := name, hvalue := value, hdr_len := length name\<rparr>]"
    have "\<forall>n \<in> set ?xs. buffer n = NoBuf"
      using chain set_update_subset_insert by fastforce
    with no_buffers_update [OF nb this] Some b ins show ?thesis
      by (auto simp: ymo_http_hdr_table_insert_precompute_def set_node_def Let_def)
  qed
qed

section \<open>The interface of a header store\<close>

text \<open>
  A store with room for a number of new entries: \<open>put\<close> replaces, \<open>get\<close> returns what was put last.
\<close>

locale header_store =
  fixes inv :: "'s \<Rightarrow> bool" and room :: "'s \<Rightarrow> nat" and get :: "'s \<Rightarrow> 'k \<Rightarrow> 'v option"
    and put :: "'k \<Rightarrow> 'w \<Rightarrow> 's \<Rightarrow> 's" and val :: "'w \<Rightarrow> 'v"
  assumes inv_put: "inv s \<Longrightarrow> inv (put k w s)"
    and room_put: "inv s \<Longrightarrow> room s \<le> room (put k w s) + 1"
    and get_put: "inv s \<Longrightarrow> 0 < room s \<Longrightarrow> get (put k w s) k' = (if k' = k then Some (val w) else get s k')"
begin

lemma get_fold_put:
  "inv s \<Longrightarrow> length kws \<le> room s \<Longrightarrow>
   inv (fold (\<lambda>(k, w). put k w) kws s) \<and>
   get (fold (\<lambda>(k, w). put k w) kws s) k =
     (case map_of (rev kws) k of Some w \<Rightarrow> Some (val w) | None \<Rightarrow> get s k)"
proof (induction kws arbitrary: s)
  case (Cons kw kws)
  obtain k0 w0 where kw: "kw = (k0, w0)" by (cases kw)
  have "length kws \<le> room (put k0 w0 s)" using Cons.prems room_put [of s k0 w0] by simp
  with Cons.IH [OF inv_put [OF Cons.prems(1)] this] get_put [OF Cons.prems(1), of k0 w0 k] Cons.prems(2)
  show ?case unfolding kw by (auto simp: map_add_def split: option.splits)
qed simp

end

definition insert_named :: "u16 \<Rightarrow> bytes \<times> bytes \<Rightarrow> hdr_table \<Rightarrow> hdr_table" where
  "insert_named h w t = snd (ymo_http_hdr_table_insert_precompute t h (fst w) (snd w))"

lemma insert_named_laws:
  assumes "table_ok t \<and> no_buffers t"
  shows "table_ok (insert_named h w t) \<and> no_buffers (insert_named h w t)"
    "pool t + mem t \<le> pool (insert_named h w t) + mem (insert_named h w t) + 1"
    "0 < pool t + mem t \<Longrightarrow>
      lookup (insert_named h w t) h' = (if h' = h then Some (snd w) else lookup t h')"
proof -
  obtain r t' where r: "ymo_http_hdr_table_insert_precompute t h (fst w) (snd w) = (r, t')"
    by (cases "ymo_http_hdr_table_insert_precompute t h (fst w) (snd w)")
  have nb: "\<not> has_buffer t h" using no_buffers_has assms by blast
  note i = insert_ok [OF conjunct1 [OF assms] nb r]
  show "table_ok (insert_named h w t) \<and> no_buffers (insert_named h w t)"
    using i(1) insert_no_buffers [OF _ _ r] assms r by (simp add: insert_named_def)
  show "pool t + mem t \<le> pool (insert_named h w t) + mem (insert_named h w t) + 1"
    using i(3) r by (simp add: insert_named_def)
  show "0 < pool t + mem t \<Longrightarrow>
      lookup (insert_named h w t) h' = (if h' = h then Some (snd w) else lookup t h')"
    using i(2) r by (simp add: insert_named_def)
qed

interpretation hs: header_store "\<lambda>t. table_ok t \<and> no_buffers t" "\<lambda>t. pool t + mem t" lookup
  insert_named snd
  by unfold_locales (use insert_named_laws in auto)

section \<open>Iteration\<close>

definition rest_from :: "hdr_table \<Rightarrow> (nat \<times> nat) option \<Rightarrow> hdr_node list" where
  "rest_from table cur =
     (case cur of None \<Rightarrow> concat (bucket table)
      | Some (i, k) \<Rightarrow> drop (k + 1) (bucket table ! i) @ concat (drop (i + 1) (bucket table)))"

definition valid_cur :: "hdr_table \<Rightarrow> (nat \<times> nat) option \<Rightarrow> bool" where
  "valid_cur table cur \<longleftrightarrow>
     (case cur of None \<Rightarrow> True | Some (i, k) \<Rightarrow> i < length (bucket table) \<and> k < length (bucket table ! i))"

lemma first_bucket_spec:
  "(first_bucket bs i = None \<and> concat bs = []) \<or>
   (\<exists>j. first_bucket bs i = Some (i + j, 0) \<and> j < length bs \<and> bs ! j \<noteq> [] \<and>
      concat bs = bs ! j @ concat (drop (j + 1) bs))"
proof (induction bs i rule: first_bucket.induct)
  case (2 b bs i)
  show ?case
  proof (cases "b = []")
    case True
    from 2 [simplified, OF True] show ?thesis
    proof (elim disjE exE conjE)
      fix j assume "first_bucket bs (Suc i) = Some (Suc (i + j), 0)" "j < length bs" "bs ! j \<noteq> []"
        "concat bs = bs ! j @ concat (drop (Suc j) bs)"
      with True show ?thesis by (intro disjI2 exI [of _ "Suc j"]) simp
    qed (simp add: True)
  qed (auto intro!: exI [of _ 0])
qed simp

lemma next_spec:
  assumes ok: "table_ok table" and v: "valid_cur table cur"
  shows "(ymo_http_hdr_table_next table cur = None \<and> rest_from table cur = []) \<or>
    (\<exists>i k. ymo_http_hdr_table_next table cur = Some (i, k) \<and> valid_cur table (Some (i, k)) \<and>
      rest_from table cur = bucket table ! i ! k # rest_from table (Some (i, k)))"
proof -
  have jump: "(first_bucket (drop m (bucket table)) m = None \<and> concat (drop m (bucket table)) = []) \<or>
    (\<exists>i k. first_bucket (drop m (bucket table)) m = Some (i, k) \<and> valid_cur table (Some (i, k)) \<and>
      concat (drop m (bucket table)) = bucket table ! i ! k # rest_from table (Some (i, k)))" for m
    using first_bucket_spec [of "drop m (bucket table)" m]
  proof (elim disjE exE conjE)
    fix j assume a: "first_bucket (drop m (bucket table)) m = Some (m + j, 0)" "j < length (drop m (bucket table))"
      "drop m (bucket table) ! j \<noteq> []"
      "concat (drop m (bucket table)) = drop m (bucket table) ! j @ concat (drop (j + 1) (drop m (bucket table)))"
    then obtain x xs where x: "bucket table ! (m + j) = x # xs" by (cases "bucket table ! (m + j)") auto
    with a have "concat (drop m (bucket table)) = bucket table ! (m + j) ! 0 # rest_from table (Some (m + j, 0))"
      by (simp add: rest_from_def add.commute)
    with a x show ?thesis by (auto simp: valid_cur_def)
  qed simp
  show ?thesis
  proof (cases cur)
    case None
    then show ?thesis using jump [of 0] by (simp add: ymo_http_hdr_table_next_def rest_from_def)
  next
    case (Some c)
    obtain i k where c: "c = (i, k)" by (cases c)
    have ik: "i < length (bucket table)" "k < length (bucket table ! i)" using v Some c by (auto simp: valid_cur_def)
    have "hdr_index (h_id (bucket table ! i ! k)) = i" using ok ik by (simp add: table_ok_def)
    with jump [of "i + 1"] Some c ik show ?thesis
      by (cases "k + 1 < length (bucket table ! i)")
        (auto simp: ymo_http_hdr_table_next_def rest_from_def valid_cur_def Cons_nth_drop_Suc [symmetric])
  qed
qed

lemma iterate_spec:
  "table_ok table \<Longrightarrow> valid_cur table cur \<Longrightarrow> length (rest_from table cur) < fuel \<Longrightarrow>
   hdr_iterate fuel table cur = Some (map (\<lambda>n. (hdr n, node_value n)) (rest_from table cur))"
proof (induction fuel arbitrary: cur)
  case (Suc fuel)
  from next_spec [OF Suc.prems(1,2)] show ?case
  proof (elim disjE exE conjE)
    fix i k assume n: "ymo_http_hdr_table_next table cur = Some (i, k)" "valid_cur table (Some (i, k))"
      "rest_from table cur = bucket table ! i ! k # rest_from table (Some (i, k))"
    with Suc.IH [OF Suc.prems(1) n(2)] Suc.prems(3) show ?thesis by simp
  qed simp
qed simp

section \<open>Clearing\<close>

text \<open>What a table has taken from the pool and from the allocator.\<close>

definition held :: "hdr_node \<Rightarrow> nat" where
  "held n = (if nopool n then 1 else 0) + (case buffer n of Buf _ \<Rightarrow> 1 | _ \<Rightarrow> 0)"

lemma clear_fold:
  "bucket (fold ymo_http_hdr_table_node_free ns table) = bucket table \<and>
   pool (fold ymo_http_hdr_table_node_free ns table) = pool table + length (filter (\<lambda>n. \<not> nopool n) ns) \<and>
   mem (fold ymo_http_hdr_table_node_free ns table) = mem table + sum_list (map held ns)"
proof (induction ns arbitrary: table)
  case (Cons n ns)
  then show ?case
    by (cases "buffer n") (simp_all add: ymo_http_hdr_table_node_free_def held_def Let_def)
qed simp


section \<open>Appending\<close>

lemma comma_nonzero [simp]: "chr CHR '','' \<noteq> 0"
  by (simp add: chr_def)

lemma block_str_append [simp]: "0 \<notin> set s \<Longrightarrow> block_str (s @ t) = map_option (\<lambda>u. s @ u) (block_str t)"
  by (auto simp: block_str_def takeWhile_append)

lemma block_str_simps [simp]: "block_str [] = None" "block_str (c # s) = (if c = 0 then Some [] else map_option (\<lambda>u. c # u) (block_str s))"
  by (auto simp: block_str_def)

lemma block_str_no_zero: "block_str bs = Some b \<Longrightarrow> 0 \<notin> set b"
  by (auto simp: block_str_def dest: set_takeWhileD split: if_splits)

text \<open>What an append leaves in the node, for the value that could be read before.\<close>

lemma node_append_value:
  assumes "node_value n = Some old" "0 \<notin> set old" "0 \<notin> set value"
  shows "\<exists>m. hdr_node_append junk True n value = Some (Some m) \<and> h_id m = h_id n \<and>
    hdr_len m = hdr_len n \<and> hdr m = hdr n \<and>
    node_value m = (if buffer n = NoBuf \<or> junk = 0 then Some (old @ [chr CHR '',''] @ value) else None)"
  using assms by (cases "buffer n") (auto simp: hdr_node_append_def node_value_def)

lemma get_set_node:
  assumes "table_ok table" "find_pos h (bucket table ! hdr_index h) = Some k" "h_id n = h"
    "bucket table' = bucket table"
  shows "ymo_http_hdr_table_get_id (set_node (hdr_index h) k n table') h = map_option Some (node_value n)"
  using assms find_pos_SomeD [OF assms(2)]
  by (simp add: ymo_http_hdr_table_get_id_def Let_def find_pos_update table_ok_def)

section \<open>Properties\<close>

text \<open>C17: after any sequence of insertions of headers into a table that has no appended values and
  enough nodes, looking up a name returns the value last inserted under a name with the same hash,
  or what the table held before; the table's invariant is kept and no read is invalid.\<close>
theorem header_insert_get:
  assumes "table_ok t" "no_buffers t" "length kvs \<le> pool t + mem t"
  shows "let t' = fold (\<lambda>(name, value) t. snd (ymo_http_hdr_table_insert t name value)) kvs t in
    table_ok t' \<and> no_buffers t' \<and>
    ymo_http_hdr_table_get t' name' = Some
      (case map_of (rev (map (\<lambda>(name, value). (fst (ymo_http_hdr_hash_283_5 name), value)) kvs))
              (fst (ymo_http_hdr_hash_283_5 name')) of
         Some v \<Rightarrow> Some v | None \<Rightarrow> lookup t (fst (ymo_http_hdr_hash_283_5 name')))"
proof -
  let ?kws = "map (\<lambda>(name, v). (fst (ymo_http_hdr_hash_283_5 name), name, v)) kvs"
  let ?h = "fst (ymo_http_hdr_hash_283_5 name')"
  have e: "fold (\<lambda>(name, v) t. snd (ymo_http_hdr_table_insert t name v)) kvs =
      fold (\<lambda>(k, w). insert_named k w) ?kws"
    by (simp add: fold_map insert_named_def [abs_def] ymo_http_hdr_table_insert_def comp_def case_prod_beta')
  have "map_option snd (map_of (map (\<lambda>(name, v). (f name, name, v)) xs) h) =
      map_of (map (\<lambda>(name, v). (f name, v)) xs) h" for f :: "bytes \<Rightarrow> u16" and xs :: "(bytes \<times> bytes) list" and h
    by (induction xs) auto
  then have m: "map_option snd (map_of (rev ?kws) ?h) =
      map_of (rev (map (\<lambda>(name, v). (fst (ymo_http_hdr_hash_283_5 name), v)) kvs)) ?h"
    unfolding rev_map .
  have "length ?kws \<le> pool t + mem t" using assms(3) by simp
  from hs.get_fold_put [OF conjI [OF assms(1,2)] this, of ?h] show ?thesis
    unfolding e m [symmetric]
    by (auto simp: Let_def ymo_http_hdr_table_get_def get_id_ok split: option.splits)
qed

definition empty_table :: hdr_table where
  "empty_table = ymo_http_hdr_table_init (ymo_http_hdr_table_create 2)"

lemma empty_table_ok: "table_ok empty_table" "no_buffers empty_table" "pool empty_table + mem empty_table = 6"
  by (simp_all add: empty_table_def table_ok_create)
    (simp_all add: no_buffers_def ymo_http_hdr_table_init_def ymo_http_hdr_table_create_def YMO_HDR_TABLE_POOL_SIZE_def)

theorem header_insert_get_witness:
  "ymo_http_hdr_table_get
     (fold (\<lambda>(name, value) t. snd (ymo_http_hdr_table_insert t name value))
        [([0x41], [1]), ([0x42], [2]), ([0x61], [3])] empty_table) [0x41] = Some (Some [3])"
  using header_insert_get [OF empty_table_ok(1,2), of "[([0x41], [1]), ([0x42], [2]), ([0x61], [3])]" "[0x41]"]
    empty_table_ok(3)
  by (simp add: ymo_http_hdr_hash_283_5_def YMO_HDR_HASH_CH_def YMO_HTTP_HDR_HASH_INIT_def
      YMO_HDR_TABLE_MASK_def Let_def)

lemma get_set_node_other:
  assumes "table_ok table" "find_pos h (bucket table ! hdr_index h) = Some k" "h_id n = h"
    "bucket table' = bucket table" "h' \<noteq> h"
  shows "ymo_http_hdr_table_get_id (set_node (hdr_index h) k n table') h' = ymo_http_hdr_table_get_id table h'"
proof (cases "hdr_index h' = hdr_index h")
  case True
  note k = find_pos_SomeD [OF assms(2)]
  have "j \<noteq> k" if "find_pos h' (bucket table ! hdr_index h) = Some j" for j
    using find_pos_SomeD [OF that] k assms(5) by auto
  with True k assms show ?thesis
    by (auto simp: ymo_http_hdr_table_get_id_def Let_def find_pos_update table_ok_def split: option.splits)
qed (use assms(4) in \<open>simp add: ymo_http_hdr_table_get_id_def Let_def split: option.splits\<close>)

text \<open>Appending to the value of a header that is there.\<close>

lemma add_present:
  assumes ok: "table_ok t" and mem: "mem t \<noteq> 0" and old: "lookup t h = Some old"
    and nz: "0 \<notin> set old" "0 \<notin> set value"
  shows "\<exists>k t'. find_pos h (bucket t ! hdr_index h) = Some k \<and> add_current junk t h (hdr_index h) k value = Some (h, t') \<and>
    ymo_http_hdr_table_get_id t' h =
      (if has_buffer t h \<and> junk \<noteq> 0 then None else Some (Some (old @ [chr CHR '',''] @ value))) \<and>
    (\<forall>h'. h' \<noteq> h \<longrightarrow> ymo_http_hdr_table_get_id t' h' = ymo_http_hdr_table_get_id t h') \<and>
    (\<not> has_buffer t h \<or> junk = 0 \<longrightarrow> table_ok t')"
proof -
  obtain k where k: "find_pos h (bucket t ! hdr_index h) = Some k"
    and v: "node_value (bucket t ! hdr_index h ! k) = Some old"
    using old by (auto simp: lookup_alt split: option.splits)
  let ?c = "bucket t ! hdr_index h ! k"
  note pos = find_pos_SomeD [OF k]
  obtain m where m: "hdr_node_append junk True ?c value = Some (Some m)" "h_id m = h"
      "hdr_len m = hdr_len ?c" "hdr m = hdr ?c"
      "node_value m = (if buffer ?c = NoBuf \<or> junk = 0 then Some (old @ [chr CHR '',''] @ value) else None)"
    using node_append_value [OF v nz, of junk] pos by auto
  let ?u = "if buffer ?c = NoBuf then t\<lparr>mem := mem t - 1\<rparr> else t"
  let ?t = "set_node (hdr_index h) k m ?u"
  have b: "bucket ?u = bucket t" by simp
  have hb: "has_buffer t h \<longleftrightarrow> buffer ?c \<noteq> NoBuf" using k by (simp add: has_buffer_def)
  have "add_current junk t h (hdr_index h) k value = Some (h, ?t)"
    using m(1) mem by (simp add: add_current_def Let_def)
  moreover have "ymo_http_hdr_table_get_id ?t h = map_option Some (node_value m)"
    by (rule get_set_node [OF ok k m(2) b])
  moreover have "h' \<noteq> h \<longrightarrow> ymo_http_hdr_table_get_id ?t h' = ymo_http_hdr_table_get_id t h'" for h'
    using get_set_node_other [OF ok k m(2) b] by blast
  moreover have "node_ok ?c" using table_okD [OF ok, of ?c h] pos by auto
  then have "\<not> has_buffer t h \<or> junk = 0 \<Longrightarrow> table_ok ?t"
    using pos m hb by (intro set_node_ok [OF ok _ m(2) _ b]) (auto simp: node_ok_def)
  ultimately show ?thesis using k m(5) hb by auto
qed

text \<open>
  C33: \<^verbatim>\<open>ymo_http_hdr_table_add\<close>, on a table with memory and for a header that is already there (by the hash
  of its name), with values without NUL bytes.  For any header but Set-Cookie the first value added gives the
  comma-separated list of both values, and every other header keeps its own; on the second and later additions the
  buffer gets no terminator, and reading the header is valid only if the byte that happens to follow is zero.  A
  second Set-Cookie is kept apart: it gets a node of its own, in front of the one that is there, and every other
  chain is as before.
\<close>
theorem header_add_appends:
  assumes ok: "table_ok t" and mem: "mem t \<noteq> 0" and h: "h = fst (ymo_http_hdr_hash_283_5 name)" and old: "lookup t h = Some old"
    and nz: "0 \<notin> set old" "0 \<notin> set value"
  shows "(h \<noteq> YMO_HTTP_HID_SET_COOKIE \<longrightarrow> (\<exists>t'. ymo_http_hdr_table_add junk t name value = Some (h, t') \<and>
      ymo_http_hdr_table_get_id t' h =
        (if has_buffer t h \<and> junk \<noteq> 0 then None else Some (Some (old @ [chr CHR '',''] @ value))) \<and>
      (\<forall>h'. h' \<noteq> h \<longrightarrow> ymo_http_hdr_table_get_id t' h' = ymo_http_hdr_table_get_id t h') \<and>
      (\<not> has_buffer t h \<or> junk = 0 \<longrightarrow> table_ok t'))) \<and>
    (h = YMO_HTTP_HID_SET_COOKIE \<longrightarrow> (\<exists>n t'. ymo_http_hdr_table_add junk t name value = Some (h, t') \<and> table_ok t' \<and>
      bucket t' = (bucket t)[hdr_index h := n # bucket t ! hdr_index h] \<and> h_id n = h \<and> hdr n = name \<and> node_value n = Some value))"
proof -
  from add_present [OF ok mem old nz, of junk] obtain k t1 where
    k: "find_pos h (bucket t ! hdr_index h) = Some k" "add_current junk t h (hdr_index h) k value = Some (h, t1)" and
    t1: "ymo_http_hdr_table_get_id t1 h = (if has_buffer t h \<and> junk \<noteq> 0 then None else Some (Some (old @ [chr CHR '',''] @ value)))"
      "\<forall>h'. h' \<noteq> h \<longrightarrow> ymo_http_hdr_table_get_id t1 h' = ymo_http_hdr_table_get_id t h'"
      "\<not> has_buffer t h \<or> junk = 0 \<longrightarrow> table_ok t1"
    by (elim exE conjE) (rule that)
  have add: "ymo_http_hdr_table_add junk t name value =
      (if h = YMO_HTTP_HID_SET_COOKIE then Some (table_insert_first t h (hdr_index h) name value) else Some (h, t1))"
    using k by (simp add: ymo_http_hdr_table_add_def Let_def flip: h)
  obtain np u where u: "ymo_http_hdr_table_node_create t = Some (np, u)" "bucket u = bucket t"
    using node_create_cases [of t] mem by auto
  let ?n = "\<lparr>h_id = h, nopool = np, hdr = name, hdr_len = length name, hvalue = value, buffer = NoBuf\<rparr>"
  let ?t = "u\<lparr>bucket := (bucket t)[hdr_index h := ?n # bucket t ! hdr_index h]\<rparr>"
  have first: "table_insert_first t h (hdr_index h) name value = (h, ?t)" using u by (simp add: table_insert_first_def)
  have "table_ok ?t" by (rule insert_first_ok(1) [OF ok first])
  with add first have "\<exists>n t'. ymo_http_hdr_table_add junk t name value = Some (h, t') \<and> table_ok t' \<and>
      bucket t' = (bucket t)[hdr_index h := n # bucket t ! hdr_index h] \<and> h_id n = h \<and> hdr n = name \<and> node_value n = Some value"
    if "h = YMO_HTTP_HID_SET_COOKIE" using that by (intro exI [of _ ?n] exI [of _ ?t]) (simp add: node_value_def)
  with add t1 show ?thesis by (intro conjI impI exI [of _ t1]) simp_all
qed

definition one_header :: hdr_table where
  "one_header = \<lparr>bucket = [[\<lparr>h_id = 8, nopool = False, hdr = [1], hdr_len = 1, hvalue = [2], buffer = NoBuf\<rparr>],
     [], [], [], [], [], [], []], pool = 3, mem = 5\<rparr>"

lemma one_header_ok: "table_ok one_header" "lookup one_header 8 = Some [2]" "\<not> has_buffer one_header 8"
proof -
  have all: "(\<forall>i < 8. P i) \<longleftrightarrow> P 0 \<and> P 1 \<and> P 2 \<and> P 3 \<and> P 4 \<and> P 5 \<and> P 6 \<and> P (7 :: nat)" for P
    by (simp add: numeral_eq_Suc All_less_Suc2)
  show "table_ok one_header" unfolding table_ok_def YMO_HDR_TABLE_BUCKET_SIZE_def all
    by (simp add: one_header_def hdr_index_def YMO_HDR_TABLE_BUCKET_SIZE_def node_ok_def node_value_def)
qed (simp_all add: one_header_def lookup_alt has_buffer_def hdr_index_def YMO_HDR_TABLE_BUCKET_SIZE_def node_value_def)

lemma short_name_hash: "fst (ymo_http_hdr_hash_283_5 [0x41]) \<noteq> YMO_HTTP_HID_SET_COOKIE"
  by (simp add: ymo_http_hdr_hash_283_5_def YMO_HDR_HASH_CH_def YMO_HTTP_HDR_HASH_INIT_def YMO_HDR_TABLE_MASK_def
      YMO_HTTP_HID_SET_COOKIE_def Let_def)

theorem header_add_appends_witness:
  "\<exists>t'. ymo_http_hdr_table_add 7 (snd (ymo_http_hdr_table_insert empty_table [0x41] [2])) [0x41] [3] =
       Some (fst (ymo_http_hdr_hash_283_5 [0x41]), t') \<and>
     ymo_http_hdr_table_get t' [0x41] = Some (Some [2, 0x2c, 3])"
proof -
  let ?h = "fst (ymo_http_hdr_hash_283_5 [0x41])"
  define t where "t = snd (ymo_http_hdr_table_insert empty_table [0x41] [2])"
  define r where "r = fst (ymo_http_hdr_table_insert empty_table [0x41] [2])"
  have r: "ymo_http_hdr_table_insert_precompute empty_table ?h [0x41] [2] = (r, t)"
    by (simp add: t_def r_def ymo_http_hdr_table_insert_def)
  note nb = no_buffers_has [OF empty_table_ok(2,1), of ?h]
  note i = insert_ok [OF empty_table_ok(1) nb r]
  have t: "table_ok t" "lookup t ?h = Some [2]" using i(1) i(2) [of ?h] empty_table_ok(3) by simp_all
  have "no_buffers t" by (rule insert_no_buffers [OF empty_table_ok(2,1) r])
  then have b: "\<not> has_buffer t ?h" by (rule no_buffers_has [OF _ t(1)])
  have m: "mem t \<noteq> 0"
    by (simp add: t_def ymo_http_hdr_table_insert_def ymo_http_hdr_table_insert_precompute_def empty_table_def hdr_index_def
        ymo_http_hdr_table_init_def ymo_http_hdr_table_create_def table_insert_first_def ymo_http_hdr_table_node_create_def
        YMO_HDR_TABLE_POOL_SIZE_def YMO_HDR_TABLE_BUCKET_SIZE_def Let_def)
  from mp [OF conjunct1 [OF header_add_appends [OF t(1) m refl t(2), of "[3]" 7]] short_name_hash] b show ?thesis
    unfolding t_def [symmetric] by (auto simp: ymo_http_hdr_table_get_def chr_def)
qed

text \<open>Inserting (replacing) a header to which a value was added before frees the buffer of the
  joined value and keeps the pointer: the next lookup of that header is a use after free.\<close>
theorem header_insert_after_add_dangles:
  assumes ok: "table_ok t" and buf: "has_buffer t h"
  shows "ymo_http_hdr_table_get_id (snd (ymo_http_hdr_table_insert_precompute t h name value)) h = None"
proof -
  obtain k where k: "find_pos h (bucket t ! hdr_index h) = Some k"
    and b: "buffer (bucket t ! hdr_index h ! k) \<noteq> NoBuf"
    using buf by (auto simp: has_buffer_def split: option.splits)
  let ?c = "bucket t ! hdr_index h ! k"
  let ?n = "?c\<lparr>buffer := Dangling, hdr := name, hvalue := value, hdr_len := length name\<rparr>"
  have f: "(case buffer ?c of NoBuf \<Rightarrow> NoBuf | _ \<Rightarrow> Dangling) = Dangling" using b by (cases "buffer ?c") auto
  have "snd (ymo_http_hdr_table_insert_precompute t h name value) =
      set_node (hdr_index h) k ?n (t\<lparr>mem := mem t + 1\<rparr>)"
    using k b f by (simp add: ymo_http_hdr_table_insert_precompute_def Let_def)
  moreover have "ymo_http_hdr_table_get_id (set_node (hdr_index h) k ?n (t\<lparr>mem := mem t + 1\<rparr>)) h = map_option Some (node_value ?n)"
    using find_pos_SomeD [OF k] by (intro get_set_node [OF ok k]) auto
  ultimately show ?thesis by (simp add: node_value_def)
qed

theorem header_insert_after_add_dangles_witness:
  "\<exists>t'. ymo_http_hdr_table_add_precompute 0 one_header 8 [1] [3] = Some (8, t') \<and>
     ymo_http_hdr_table_get_id (snd (ymo_http_hdr_table_insert_precompute t' 8 [1] [4])) 8 = None"
proof -
  let ?n = "\<lparr>h_id = 8, nopool = False, hdr = [1], hdr_len = 1, hvalue = [2], buffer = Buf [2, 0x2c, 3, 0]\<rparr>"
  let ?t = "\<lparr>bucket = [[?n], [], [], [], [], [], [], []], pool = 3, mem = 4\<rparr>"
  have a: "ymo_http_hdr_table_add_precompute 0 one_header 8 [1] [3] = Some (8, ?t)"
    by (simp add: one_header_def ymo_http_hdr_table_add_precompute_def add_current_def hdr_node_append_def
        hdr_index_def YMO_HDR_TABLE_BUCKET_SIZE_def set_node_def chr_def Let_def)
  have all: "(\<forall>i < 8. P i) \<longleftrightarrow> P 0 \<and> P 1 \<and> P 2 \<and> P 3 \<and> P 4 \<and> P 5 \<and> P 6 \<and> P (7 :: nat)" for P
    by (simp add: numeral_eq_Suc All_less_Suc2)
  have "table_ok ?t" unfolding table_ok_def YMO_HDR_TABLE_BUCKET_SIZE_def all
    by (simp add: hdr_index_def YMO_HDR_TABLE_BUCKET_SIZE_def node_ok_def node_value_def)
  moreover have "has_buffer ?t 8" by (simp add: has_buffer_def hdr_index_def YMO_HDR_TABLE_BUCKET_SIZE_def)
  ultimately show ?thesis using a header_insert_after_add_dangles [of ?t 8 "[1]" "[4]"] by blast
qed

text \<open>C34: the loop over the table with its iterator ends and visits every stored header exactly once,
  chain by chain, with its current value.\<close>
theorem header_iterate_all:
  assumes "table_ok t" "length (concat (bucket t)) < fuel"
  shows "hdr_iterate fuel t None = Some (map (\<lambda>n. (hdr n, node_value n)) (concat (bucket t)))"
  using iterate_spec [OF assms(1), of None fuel] assms(2) by (simp add: rest_from_def valid_cur_def)

theorem header_iterate_all_witness: "hdr_iterate 2 one_header None = Some [([1], Some [2])]"
  using header_iterate_all [OF one_header_ok(1), of 2] by (simp add: one_header_def node_value_def)

text \<open>Clearing a table empties it and gives back every node to where it came from, and every
  managed buffer to the allocator: nothing is leaked.\<close>
theorem header_clear_releases:
  "bucket (ymo_http_hdr_table_clear t) = replicate 8 [] \<and>
   pool (ymo_http_hdr_table_clear t) = pool t + length (filter (\<lambda>n. \<not> nopool n) (concat (bucket t))) \<and>
   mem (ymo_http_hdr_table_clear t) = mem t + sum_list (map held (concat (bucket t)))"
  using clear_fold [of "concat (bucket t)" t]
  by (simp add: ymo_http_hdr_table_clear_def YMO_HDR_TABLE_BUCKET_SIZE_def)

end
