(* ===== verification/Http_Parse.thy ===== *)
theory Http_Parse
  imports Util Hdr_Table
begin

text \<open>
  The incremental HTTP/1.x request parser (\<^verbatim>\<open>src/protocol/http/ymo_http_parse.c\<close>) and the
  exchange it fills in (\<^verbatim>\<open>src/protocol/http/ymo_http_exchange.c\<close>).  Pointers into the receive buffer
  are indices.  Every parsing function takes the bytes of one read and returns \<open>None\<close> when the code
  writes outside the receive buffer or reads outside the bytes it was given; otherwise the
  resulting exchange with an error number or the count of bytes consumed.
\<close>

section \<open>Exchanges\<close>

datatype http_state =
    HTTP_STATE_CONNECTED | HTTP_STATE_REQUEST_METHOD | HTTP_STATE_REQUEST_URI_PATH
  | HTTP_STATE_REQUEST_QUERY | HTTP_STATE_REQUEST_FRAGMENT | HTTP_STATE_REQUEST_VERSION
  | HTTP_STATE_CRLF | HTTP_STATE_HEADER_NAME | HTTP_STATE_HEADER_VALUE_LEADING_SPACE
  | HTTP_STATE_HEADER_VALUE | HTTP_STATE_HEADERS_COMPLETE | HTTP_STATE_EXPECT
  | HTTP_STATE_BODY_CHUNK_HEADER | HTTP_STATE_BODY | HTTP_STATE_BODY_CHUNK_TRAILER
  | HTTP_STATE_COMPLETE

text \<open>The increment of the enumeration, on the states where the parser uses it.\<close>

fun state_succ :: "http_state \<Rightarrow> http_state" where
  "state_succ HTTP_STATE_REQUEST_METHOD = HTTP_STATE_REQUEST_URI_PATH"
| "state_succ HTTP_STATE_REQUEST_URI_PATH = HTTP_STATE_REQUEST_QUERY"
| "state_succ HTTP_STATE_REQUEST_QUERY = HTTP_STATE_REQUEST_FRAGMENT"
| "state_succ HTTP_STATE_REQUEST_FRAGMENT = HTTP_STATE_REQUEST_VERSION"
| "state_succ s = s"

definition YMO_HTTP_FLAG_VERSION_1_1 :: u32 where "YMO_HTTP_FLAG_VERSION_1_1 = 1"
definition YMO_HTTP_FLAG_REQUEST_CLOSE :: u32 where "YMO_HTTP_FLAG_REQUEST_CLOSE = 0xfb"
definition YMO_HTTP_FLAG_REQUEST_KEEPALIVE :: u32 where "YMO_HTTP_FLAG_REQUEST_KEEPALIVE = 0x4"
definition YMO_HTTP_FLAG_SUPPORTS_CHUNKED :: u32 where "YMO_HTTP_FLAG_SUPPORTS_CHUNKED = 0x8"
definition YMO_HTTP_FLAG_EXPECT :: u32 where "YMO_HTTP_FLAG_EXPECT = 0x10"
definition YMO_HTTP_FLAG_UPGRADE :: u32 where "YMO_HTTP_FLAG_UPGRADE = 0x20"
definition YMO_HTTP_REQUEST_CHUNKED :: u32 where "YMO_HTTP_REQUEST_CHUNKED = 0x10000"

lemmas http_flag_defs = YMO_HTTP_FLAG_VERSION_1_1_def YMO_HTTP_FLAG_REQUEST_CLOSE_def
  YMO_HTTP_FLAG_REQUEST_KEEPALIVE_def YMO_HTTP_FLAG_SUPPORTS_CHUNKED_def YMO_HTTP_FLAG_EXPECT_def
  YMO_HTTP_FLAG_UPGRADE_def YMO_HTTP_REQUEST_CHUNKED_def

definition YMO_HTTP_RECV_BUF_SIZE :: nat where "YMO_HTTP_RECV_BUF_SIZE = 1024"

text \<open>
  The exchange with its embedded request.  \<open>body_remain\<close> shares a union with the header fields in C;
  it is set when the headers are complete.
\<close>

record exchange =
  uri :: "nat option"
  query :: "nat option"
  fragment :: "nat option"
  version :: "nat option"
  flags :: u32
  content_length :: u64
  headers :: hdr_table
  hdr_name :: "nat option"
  hdr_value :: "nat option"
  xh_id :: u16
  body_remain :: u64
  state :: http_state
  next_state :: http_state
  recv_current :: nat
  remain :: u64
  recv_buf :: bytes

definition ymo_http_exchange_reset :: "exchange \<Rightarrow> exchange" where
  "ymo_http_exchange_reset x =
     x\<lparr>uri := None, query := None, fragment := None, version := None, flags := 0,
       content_length := 0, headers := ymo_http_hdr_table_clear (headers x),
       hdr_name := None, hdr_value := None, xh_id := YMO_HTTP_HDR_HASH_INIT, body_remain := 0,
       state := HTTP_STATE_CONNECTED, next_state := HTTP_STATE_CONNECTED,
       recv_current := 0, remain := word_of_nat YMO_HTTP_RECV_BUF_SIZE\<rparr>"

text \<open>
  A new exchange is zeroed memory that is reset; \<open>ws\<close> tells whether the request workspace could be
  allocated (a failure is followed by writes through \<open>NULL\<close>).
\<close>

definition ymo_http_exchange_create :: "nat \<Rightarrow> bool \<Rightarrow> exchange option" where
  "ymo_http_exchange_create m ws =
     (if \<not> ws then None
      else Some (ymo_http_exchange_reset
        \<lparr>uri = None, query = None, fragment = None, version = None, flags = 0, content_length = 0,
         headers = ymo_http_hdr_table_init (ymo_http_hdr_table_create m),
         hdr_name = None, hdr_value = None, xh_id = 0, body_remain = 0,
         state = HTTP_STATE_CONNECTED, next_state = HTTP_STATE_CONNECTED, recv_current = 0, remain = 0,
         recv_buf = replicate YMO_HTTP_RECV_BUF_SIZE 0\<rparr>))"

definition ymo_http_request_flags :: "exchange \<Rightarrow> u32" where
  "ymo_http_request_flags x = flags x"

text \<open>The C string at an index of the receive buffer.\<close>

definition str_at :: "exchange \<Rightarrow> nat \<Rightarrow> bytes" where
  "str_at x i = takeWhile (\<lambda>c. c \<noteq> 0) (drop i (recv_buf x))"

text \<open>A write to the receive buffer.\<close>

definition wr :: "nat \<Rightarrow> byte \<Rightarrow> exchange \<Rightarrow> exchange option" where
  "wr i c x = (if i < length (recv_buf x) then Some (x\<lparr>recv_buf := (recv_buf x)[i := c]\<rparr>) else None)"

type_synonym parse_result = "((ymo_status + nat) \<times> exchange) option"

text \<open>How the parsing functions end: by storing the write position, or with \<^const>\<open>EFBIG\<close>.\<close>

definition parse_done :: "exchange \<Rightarrow> nat \<Rightarrow> u64 \<Rightarrow> nat \<Rightarrow> parse_result" where
  "parse_done x cur rem n =
     (if rem \<noteq> 0 then Some (Inr n, x\<lparr>recv_current := cur, remain := rem\<rparr>) else Some (Inl EFBIG, x))"

definition parser_saw_cr :: "http_state \<Rightarrow> exchange \<Rightarrow> exchange" where
  "parser_saw_cr next x = x\<lparr>state := HTTP_STATE_CRLF, next_state := next\<rparr>"

section \<open>The request line\<close>

definition CR :: byte where "CR = 13"
definition LF :: byte where "LF = 10"

definition IS_HTTP_METHOD_TOKEN :: "byte \<Rightarrow> bool" where
  "IS_HTTP_METHOD_TOKEN c \<longleftrightarrow> (chr CHR ''A'' \<le> c \<and> c \<le> chr CHR ''Z'') \<or> c = chr CHR ''-''"

definition IS_HTTP_HDR_FIELD_TOKEN :: "byte \<Rightarrow> bool" where
  "IS_HTTP_HDR_FIELD_TOKEN c \<longleftrightarrow>
     (chr CHR ''0'' \<le> c \<and> c \<le> chr CHR ''9'') \<or> (chr CHR ''A'' \<le> c \<and> c \<le> chr CHR ''Z'') \<or>
     (chr CHR ''a'' \<le> c \<and> c \<le> chr CHR ''z'') \<or> c = chr CHR ''-''"

definition STD_HTTP_VERSION_STR_LEN :: nat where "STD_HTTP_VERSION_STR_LEN = 8"

text \<open>The check of the version string that starts at index \<open>v\<close>: only its characters 5 and 7.\<close>

definition check_request :: "nat \<Rightarrow> nat \<Rightarrow> exchange \<Rightarrow> ymo_status \<times> exchange" where
  "check_request v version_len x =
     (if version_len = STD_HTTP_VERSION_STR_LEN then
        let c1 = recv_buf x ! (v + 5); c2 = recv_buf x ! (v + 7) in
        if c1 = chr CHR ''1'' \<and> c2 = chr CHR ''1'' then
          (YMO_OKAY, x\<lparr>flags := flags x OR (YMO_HTTP_FLAG_VERSION_1_1 OR YMO_HTTP_FLAG_SUPPORTS_CHUNKED
             OR YMO_HTTP_FLAG_REQUEST_KEEPALIVE)\<rparr>)
        else if c1 = chr CHR ''1'' \<and> c2 = chr CHR ''0'' then (YMO_OKAY, x)
        else (EINVAL, x)
      else (EINVAL, x))"

text \<open>
  What one character does: it is stored, it ends an item (with the pointer that is set to the next
  one and the number of states skipped), it ends the line, or it is refused.
\<close>

datatype line_act =
    Store | Next_item "nat \<Rightarrow> exchange \<Rightarrow> exchange" nat | Line_end | Bad ymo_status | Other

definition line_action :: "http_state \<Rightarrow> byte \<Rightarrow> line_act" where
  "line_action st c =
     (case st of
        HTTP_STATE_REQUEST_METHOD \<Rightarrow>
          if IS_HTTP_METHOD_TOKEN c then Store
          else if c = chr CHR '' '' then Next_item (\<lambda>p x. x\<lparr>uri := Some p\<rparr>) 0
          else Bad EINVAL
      | HTTP_STATE_REQUEST_URI_PATH \<Rightarrow>
          if c = chr CHR ''?'' then Next_item (\<lambda>p x. x\<lparr>query := Some p\<rparr>) 0
          else if c = chr CHR ''#'' then Next_item (\<lambda>p x. x\<lparr>query := None, fragment := Some p\<rparr>) 1
          else if c = chr CHR '' '' then
            Next_item (\<lambda>p x. x\<lparr>query := None, fragment := None, version := Some p\<rparr>) 2
          else Store
      | HTTP_STATE_REQUEST_QUERY \<Rightarrow>
          if c = chr CHR ''#'' then Next_item (\<lambda>p x. x\<lparr>fragment := Some p\<rparr>) 0
          else if c = chr CHR '' '' then Next_item (\<lambda>p x. x\<lparr>fragment := None, version := Some p\<rparr>) 1
          else Store
      | HTTP_STATE_REQUEST_FRAGMENT \<Rightarrow>
          if c \<noteq> chr CHR '' '' then Store else Next_item (\<lambda>p x. x\<lparr>version := Some p\<rparr>) 0
      | HTTP_STATE_REQUEST_VERSION \<Rightarrow> if c \<noteq> CR then Store else Line_end
      | _ \<Rightarrow> Other)"

text \<open>
  The loop of \<^verbatim>\<open>ymo_parse_http_request_line\<close>; \<open>cur\<close> and \<open>rem\<close> are its local copies of the write
  position and of the space left.  The local copy of the state always equals the exchange's.
\<close>

fun request_line_loop :: "exchange \<Rightarrow> nat \<Rightarrow> u64 \<Rightarrow> bytes \<Rightarrow> nat \<Rightarrow> parse_result" where
  "request_line_loop x cur rem [] n = None"
| "request_line_loop x cur rem (c # cs) n =
     (case line_action (state x) c of
        Store \<Rightarrow>
          (case wr cur c x of
             None \<Rightarrow> None
           | Some x \<Rightarrow>
               if cs \<noteq> [] \<and> rem - 1 \<noteq> 0 then request_line_loop x (cur + 1) (rem - 1) cs (n + 1)
               else parse_done x (cur + 1) (rem - 1) (n + 1))
      | Next_item set_ptr skip \<Rightarrow>
          (case wr cur 0 x of
             None \<Rightarrow> None
           | Some x \<Rightarrow>
               (let x = set_ptr (cur + 1) x; x = x\<lparr>state := (state_succ ^^ Suc skip) (state x)\<rparr> in
                if cs \<noteq> [] \<and> rem - 1 \<noteq> 0 then request_line_loop x (cur + 1) (rem - 1) cs (n + 1)
                else parse_done x (cur + 1) (rem - 1) (n + 1)))
      | Line_end \<Rightarrow>
          (case version x of
             None \<Rightarrow> None
           | Some v \<Rightarrow>
               (case check_request v (cur - v) x of
                  (st, x) \<Rightarrow>
                    if st = YMO_OKAY then
                      (case wr cur 0 x of
                         None \<Rightarrow> None
                       | Some x \<Rightarrow> parse_done (parser_saw_cr HTTP_STATE_HEADER_NAME x) (cur + 1) rem (n + 1))
                    else Some (Inl st, x\<lparr>recv_current := cur\<rparr>)))
      | Bad st \<Rightarrow> Some (Inl st, x)
      | Other \<Rightarrow> parse_done x cur rem n)"

definition ymo_parse_http_request_line :: "exchange \<Rightarrow> bytes \<Rightarrow> parse_result" where
  "ymo_parse_http_request_line x input = request_line_loop x (recv_current x) (remain x) input 0"

section \<open>End of line\<close>

definition ymo_parse_http_crlf :: "exchange \<Rightarrow> bytes \<Rightarrow> parse_result" where
  "ymo_parse_http_crlf x input =
     (case input of
        [] \<Rightarrow> None
      | c # _ \<Rightarrow>
          if c \<noteq> LF then Some (Inl EBADMSG, x)
          else let x = x\<lparr>state := next_state x\<rparr> in
            Some (Inr 1, case state x of
                HTTP_STATE_HEADER_NAME \<Rightarrow> x\<lparr>hdr_name := Some (recv_current x)\<rparr>
              | HTTP_STATE_BODY_CHUNK_HEADER \<Rightarrow> x\<lparr>next_state := HTTP_STATE_BODY_CHUNK_TRAILER\<rparr>
              | HTTP_STATE_BODY \<Rightarrow> x\<lparr>next_state := HTTP_STATE_COMPLETE\<rparr>
              | _ \<Rightarrow> x))"

section \<open>Headers\<close>

fun header_name_loop :: "exchange \<Rightarrow> nat \<Rightarrow> u64 \<Rightarrow> bytes \<Rightarrow> nat \<Rightarrow> parse_result" where
  "header_name_loop x cur rem [] n = None"
| "header_name_loop x cur rem (c # cs) n =
     (if c \<noteq> chr CHR '':'' then
        if c \<noteq> CR then
          if IS_HTTP_HDR_FIELD_TOKEN c then
            (case wr cur c (x\<lparr>xh_id := YMO_HDR_HASH_CH (xh_id x) c\<rparr>) of
               None \<Rightarrow> None
             | Some x \<Rightarrow>
                 if cs \<noteq> [] \<and> rem - 1 \<noteq> 0 then header_name_loop x (cur + 1) (rem - 1) cs (n + 1)
                 else parse_done x (cur + 1) (rem - 1) (n + 1))
          else Some (Inl EBADMSG, x)
        else parse_done (parser_saw_cr HTTP_STATE_HEADERS_COMPLETE x) cur rem (n + 1)
      else
        (case wr cur 0 x of
           None \<Rightarrow> None
         | Some x \<Rightarrow>
             parse_done (x\<lparr>state := HTTP_STATE_HEADER_VALUE_LEADING_SPACE\<rparr>) (cur + 1) (rem - 1) (n + 1)))"

text \<open>
  The decimal \<open>strtol\<close>: leading white space, an optional sign, digits; the value saturates at the
  bounds of \<^verbatim>\<open>long\<close>.  Without digits the end pointer is the start of the string.
\<close>

definition is_digit :: "byte \<Rightarrow> bool" where
  "is_digit c \<longleftrightarrow> 48 \<le> c \<and> c \<le> 57"

definition is_space :: "byte \<Rightarrow> bool" where
  "is_space c \<longleftrightarrow> c = 32 \<or> (9 \<le> c \<and> c \<le> 13)"

definition strtol10 :: "bytes \<Rightarrow> int \<times> bytes" where
  "strtol10 s =
     (let s1 = dropWhile is_space s;
          neg = (s1 \<noteq> [] \<and> hd s1 = chr CHR ''-'');
          s2 = (if s1 \<noteq> [] \<and> (hd s1 = chr CHR ''-'' \<or> hd s1 = chr CHR ''+'') then tl s1 else s1);
          ds = takeWhile is_digit s2;
          v = foldl (\<lambda>a d. a * 10 + (uint d - 48)) 0 ds;
          v = (if neg then - v else v)
      in if ds = [] then (0, s)
         else (max (- (2 ^ 63)) (min (2 ^ 63 - 1) v), dropWhile is_digit s2))"

definition str_eq_nocase :: "bytes \<Rightarrow> nat \<Rightarrow> string \<Rightarrow> bool" where
  "str_eq_nocase v len lit \<longleftrightarrow> ymo_strcasecmp v len (str lit) (length lit) = 0"

text \<open>
  \<^verbatim>\<open>http_header_got_value\<close>: the header is added to the table (see \<^const>\<open>hdr_node_append\<close> for \<open>junk\<close>),
  and the headers that steer the parser are looked at.
\<close>

definition http_header_got_value :: "byte \<Rightarrow> exchange \<Rightarrow> nat \<Rightarrow> nat \<Rightarrow> nat \<Rightarrow> exchange option" where
  "http_header_got_value junk x name_at value_at value_len =
     (let h = xh_id x AND YMO_HDR_TABLE_MASK; name = str_at x name_at; v = str_at x value_at in
      case ymo_http_hdr_table_add_precompute junk (headers x) h name v of
        None \<Rightarrow> None
      | Some (_, t) \<Rightarrow>
          (let x = x\<lparr>headers := t\<rparr>;
               x = (if h = 31919 then
                      if flags x AND YMO_HTTP_FLAG_VERSION_1_1 \<noteq> 0 then
                        if str_eq_nocase v value_len ''close''
                        then x\<lparr>flags := flags x AND YMO_HTTP_FLAG_REQUEST_CLOSE\<rparr> else x
                      else if str_eq_nocase v value_len ''keep-alive''
                        then x\<lparr>flags := flags x OR YMO_HTTP_FLAG_REQUEST_KEEPALIVE\<rparr> else x
                    else if h = 12647 then
                      (case strtol10 v of
                         (content, rest) \<Rightarrow> if rest = [] then x\<lparr>content_length := word_of_int content\<rparr> else x)
                    else if h = 20206 then
                      if str_eq_nocase v value_len ''100-continue''
                      then x\<lparr>flags := flags x OR YMO_HTTP_FLAG_EXPECT\<rparr> else x
                    else if h = 17987 then x\<lparr>flags := flags x OR YMO_HTTP_FLAG_UPGRADE\<rparr>
                    else if h = 15812 then
                      if str_eq_nocase v value_len ''chunked''
                      then x\<lparr>flags := flags x OR YMO_HTTP_REQUEST_CHUNKED\<rparr> else x
                    else x)
           in Some (x\<lparr>xh_id := YMO_HTTP_HDR_HASH_INIT\<rparr>)))"

text \<open>
  The loop of \<^verbatim>\<open>parse_http_header_value\<close>: the space left is decremented for the character and again in
  the loop condition (when there is a next character), and wraps around below zero.
\<close>

fun header_value_loop :: "byte \<Rightarrow> exchange \<Rightarrow> nat \<Rightarrow> u64 \<Rightarrow> bytes \<Rightarrow> nat \<Rightarrow> parse_result" where
  "header_value_loop junk x cur rem [] n = None"
| "header_value_loop junk x cur rem (c # cs) n =
     (if c \<noteq> CR then
        (case wr cur c x of
           None \<Rightarrow> None
         | Some x \<Rightarrow>
             if cs \<noteq> [] then
               if rem - 2 \<noteq> 0 then header_value_loop junk x (cur + 1) (rem - 2) cs (n + 1)
               else parse_done x (cur + 1) (rem - 2) (n + 1)
             else parse_done x (cur + 1) (rem - 1) (n + 1))
      else
        (case wr cur 0 x of
           None \<Rightarrow> None
         | Some x \<Rightarrow>
             (case (hdr_name x, hdr_value x) of
                (Some nm, Some v) \<Rightarrow>
                  (case http_header_got_value junk x nm v (cur - v) of
                     None \<Rightarrow> None
                   | Some x \<Rightarrow> parse_done (parser_saw_cr HTTP_STATE_HEADER_NAME x) (cur + 1) (rem - 1) (n + 1))
              | _ \<Rightarrow> None)))"

text \<open>
  The loop of \<^verbatim>\<open>ymo_parse_http_headers\<close> over names and values, on fuel (\<open>Suc\<close> for each turn); every
  turn but the swallowing of a space consumes a non-empty part of the input.
\<close>

fun headers_loop :: "nat \<Rightarrow> byte \<Rightarrow> exchange \<Rightarrow> nat \<Rightarrow> u64 \<Rightarrow> bytes \<Rightarrow> nat \<Rightarrow> parse_result" where
  "headers_loop 0 junk x cur rem cs n = None"
| "headers_loop (Suc fuel) junk x cur rem cs n =
     (let step = (\<lambda>r. case r of
            None \<Rightarrow> None
          | Some (Inl st, x) \<Rightarrow> Some (Inl st, x)
          | Some (Inr k, x) \<Rightarrow>
              if drop k cs \<noteq> [] \<and> remain x \<noteq> 0
              then headers_loop fuel junk x (recv_current x) (remain x) (drop k cs) (n + k)
              else parse_done x (recv_current x) (remain x) (n + k))
      in case state x of
           HTTP_STATE_HEADER_NAME \<Rightarrow> step (header_name_loop x cur rem cs 0)
         | HTTP_STATE_HEADER_VALUE_LEADING_SPACE \<Rightarrow>
             (case cs of
                [] \<Rightarrow> None
              | c # cs' \<Rightarrow>
                  if c = chr CHR '' '' then
                    if cs' \<noteq> [] \<and> rem \<noteq> 0 then headers_loop fuel junk x cur rem cs' (n + 1)
                    else parse_done x cur rem (n + 1)
                  else step (header_value_loop junk
                         (x\<lparr>hdr_value := Some cur, state := HTTP_STATE_HEADER_VALUE\<rparr>) cur rem cs 0))
         | HTTP_STATE_HEADER_VALUE \<Rightarrow> step (header_value_loop junk x cur rem cs 0)
         | _ \<Rightarrow> parse_done x cur rem n)"

definition ymo_parse_http_headers :: "byte \<Rightarrow> exchange \<Rightarrow> bytes \<Rightarrow> parse_result" where
  "ymo_parse_http_headers junk x input =
     headers_loop (Suc (length input)) junk x (recv_current x) (remain x) input 0"

section \<open>The body\<close>

text \<open>A hexadecimal digit of a chunk size is shifted into \<open>body_remain\<close> (\<open>char\<close> is signed).\<close>

definition chunk_digit :: "u64 \<Rightarrow> byte \<Rightarrow> u64" where
  "chunk_digit r c =
     push_bit 4 r OR ((scast c AND 0xF) + signed_drop_bit 6 (scast c)) OR
       (signed_drop_bit 3 (scast c) AND 0x8)"

text \<open>
  The three inner loops, with the byte counter \<open>len\<close> of the source.  They return the bytes not read
  yet and the counter; \<open>None\<close> is a read past the end of the input.  A line feed leaves its loop
  before the counter is decremented.
\<close>

fun chunk_header_loop :: "exchange \<Rightarrow> bytes \<Rightarrow> nat \<Rightarrow> (exchange \<times> bytes \<times> nat) option" where
  "chunk_header_loop x [] len = None"
| "chunk_header_loop x (c # cs) len =
     (if c = LF then
        Some (if body_remain x \<noteq> 0
              then x\<lparr>state := HTTP_STATE_BODY, next_state := HTTP_STATE_BODY_CHUNK_TRAILER\<rparr>
              else x\<lparr>state := HTTP_STATE_BODY_CHUNK_TRAILER, next_state := HTTP_STATE_COMPLETE\<rparr>, cs, len)
      else let x = (if c = CR then x else x\<lparr>body_remain := chunk_digit (body_remain x) c\<rparr>) in
        if len - 1 \<noteq> 0 then chunk_header_loop x cs (len - 1) else Some (x, cs, len - 1))"

fun chunk_trailer_loop :: "exchange \<Rightarrow> bytes \<Rightarrow> nat \<Rightarrow> (exchange \<times> bytes \<times> nat) option" where
  "chunk_trailer_loop x [] len = None"
| "chunk_trailer_loop x (c # cs) len =
     (if c = LF then Some (x\<lparr>state := next_state x\<rparr>, cs, len)
      else if len - 1 \<noteq> 0 then chunk_trailer_loop x cs (len - 1) else Some (x, cs, len - 1))"

text \<open>
  \<^verbatim>\<open>ymo_parse_http_body\<close>; \<open>body_cb\<close> is the protocol's callback, which gets a piece of the body and works on
  a state of its own (\<open>None\<close>: it writes out of bounds).  Fuel: one unit for each turn of the outer loop.
\<close>

type_synonym 's body_cb = "bytes \<Rightarrow> 's \<Rightarrow> (ymo_status \<times> 's) option"

fun body_loop ::
  "nat \<Rightarrow> 's body_cb \<Rightarrow> exchange \<Rightarrow> bytes \<Rightarrow> nat \<Rightarrow> 's \<Rightarrow> ((ymo_status + bytes) \<times> exchange \<times> 's) option" where
  "body_loop 0 body_cb x cs len s = None"
| "body_loop (Suc fuel) body_cb x cs len s =
     (case state x of
        HTTP_STATE_BODY_CHUNK_HEADER \<Rightarrow>
          (case chunk_header_loop x cs len of
             None \<Rightarrow> None
           | Some (x, cs, len) \<Rightarrow>
               if len \<noteq> 0 then body_loop fuel body_cb x cs len s else Some (Inr cs, x, s))
      | HTTP_STATE_BODY \<Rightarrow>
          if body_remain x = 0 then
            let x = x\<lparr>state := HTTP_STATE_COMPLETE\<rparr> in
            if len \<noteq> 0 then body_loop fuel body_cb x cs len s else Some (Inr cs, x, s)
          else
            (let avail = min len (unat (body_remain x)) in
             if length cs < avail then None
             else case body_cb (take avail cs) s of
                 None \<Rightarrow> None
               | Some (st, s) \<Rightarrow>
                   if st = YMO_OKAY then
                     let x = x\<lparr>body_remain := body_remain x - word_of_nat avail\<rparr>;
                         x = (if body_remain x = 0 then
                                if flags x AND YMO_HTTP_REQUEST_CHUNKED \<noteq> 0
                                then x\<lparr>state := HTTP_STATE_BODY_CHUNK_TRAILER, next_state := HTTP_STATE_BODY_CHUNK_HEADER\<rparr>
                                else x\<lparr>state := next_state x\<rparr>
                              else x);
                         len = len - avail; cs = drop avail cs
                     in if len \<noteq> 0 then body_loop fuel body_cb x cs len s else Some (Inr cs, x, s)
                   else Some (Inl st, x, s))
      | HTTP_STATE_BODY_CHUNK_TRAILER \<Rightarrow>
          (case chunk_trailer_loop x cs len of
             None \<Rightarrow> None
           | Some (x, cs, len) \<Rightarrow>
               if len \<noteq> 0 then body_loop fuel body_cb x cs len s else Some (Inr cs, x, s))
      | _ \<Rightarrow> Some (Inr cs, x, s))"

text \<open>Three turns for each byte of input are enough: every second turn consumes one.\<close>

definition ymo_parse_http_body ::
  "'s body_cb \<Rightarrow> exchange \<Rightarrow> bytes \<Rightarrow> 's \<Rightarrow> ((ymo_status + nat) \<times> exchange \<times> 's) option" where
  "ymo_parse_http_body body_cb x input s =
     map_option (\<lambda>(r, x, s). (map_sum id (\<lambda>cs. length input - length cs) r, x, s))
       (body_loop (3 * length input + 3) body_cb x input (length input) s)"


section \<open>Runs of stored characters\<close>

definition put :: "nat \<Rightarrow> bytes \<Rightarrow> bytes \<Rightarrow> bytes" where
  "put i s b = take i b @ s @ drop (i + length s) b"

lemma put_Nil [simp]: "put i [] b = b"
  by (simp add: put_def)

lemma length_put [simp]: "i + length s \<le> length b \<Longrightarrow> length (put i s b) = length b"
  by (simp add: put_def)

lemma update_put: "i < length b \<Longrightarrow> b[i := c] = put i [c] b"
  by (simp add: put_def upd_conv_take_nth_drop)

lemma put_put:
  "i + length s \<le> length b \<Longrightarrow> put (i + length s) t (put i s b) = put i (s @ t) b"
  by (simp add: put_def ac_simps)

lemma put_Cons: "i < length b \<Longrightarrow> put (Suc i) t (put i [c] b) = put i (c # t) b"
  using put_put [of i "[c]" b t] by simp

lemma put_snoc:
  "cur + length f < length b \<Longrightarrow> put (Suc (cur + length f)) t (put cur (f @ [c]) b) = put cur (f @ c # t) b"
  using put_put [of cur "f @ [c]" b t] by simp

lemma wr_ok [simp]: "i < length (recv_buf x) \<Longrightarrow> wr i c x = Some (x\<lparr>recv_buf := put i [c] (recv_buf x)\<rparr>)"
  by (simp add: wr_def update_put)

lemma wr_None [simp]: "length (recv_buf x) \<le> i \<Longrightarrow> wr i c x = None"
  by (simp add: wr_def)

lemma str_at_put:
  assumes "i + length (a @ s @ [0]) \<le> length b" "0 \<notin> set s" "recv_buf x = put i (a @ s @ [0] @ t) b"
  shows "i + length (a @ s @ [0] @ t) \<le> length b \<Longrightarrow> str_at x (i + length a) = s"
  using assms by (simp add: str_at_def put_def takeWhile_append)

lemma word_gt_1: "(1 :: u64) < r \<Longrightarrow> r - 1 \<noteq> 0"
  by auto

lemma unat_minus_1: "(r :: u64) \<noteq> 0 \<Longrightarrow> unat (r - 1) = unat r - 1"
  by (simp add: unat_minus_one)

lemma unat_pos: "0 < unat r \<Longrightarrow> (r :: u64) \<noteq> 0"
  by auto

text \<open>The characters that are stored in the current state.\<close>

lemma request_line_run:
  "\<forall>c \<in> set s. line_action (state x) c = Store \<Longrightarrow> cs \<noteq> [] \<Longrightarrow> length s < unat rem \<Longrightarrow>
   cur + length s \<le> length (recv_buf x) \<Longrightarrow>
   request_line_loop x cur rem (s @ cs) n =
     request_line_loop (x\<lparr>recv_buf := put cur s (recv_buf x)\<rparr>) (cur + length s)
       (rem - word_of_nat (length s)) cs (n + length s)"
proof (induction s arbitrary: x cur rem n)
  case (Cons c s)
  have r: "rem \<noteq> 0" "unat (rem - 1) = unat rem - 1" using Cons.prems(3) unat_minus_1 unat_pos by auto
  then have r1: "rem - 1 \<noteq> 0" using Cons.prems(3) by (intro unat_pos) simp
  let ?x = "x\<lparr>recv_buf := put cur [c] (recv_buf x)\<rparr>"
  have "request_line_loop x cur rem ((c # s) @ cs) n = request_line_loop ?x (cur + 1) (rem - 1) (s @ cs) (n + 1)"
    using Cons.prems r1 by simp
  also have "\<dots> = request_line_loop (?x\<lparr>recv_buf := put (cur + 1) s (recv_buf ?x)\<rparr>) (cur + 1 + length s)
      (rem - 1 - word_of_nat (length s)) cs (n + 1 + length s)"
    using Cons.prems r by (intro Cons.IH) auto
  finally show ?case using Cons.prems by (simp add: put_Cons algebra_simps)
qed simp

lemma request_line_item:
  assumes "line_action (state x) c = Next_item set_ptr skip" "cs \<noteq> []" "1 < unat rem"
    "cur < length (recv_buf x)"
  shows "request_line_loop x cur rem (c # cs) n =
    (let x = set_ptr (cur + 1) (x\<lparr>recv_buf := put cur [0] (recv_buf x)\<rparr>) in
     request_line_loop (x\<lparr>state := (state_succ ^^ Suc skip) (state x)\<rparr>) (cur + 1) (rem - 1) cs (n + 1))"
proof -
  have "rem \<noteq> 0" using assms(3) by (intro unat_pos) simp
  then have "rem - 1 \<noteq> 0" using assms(3) by (intro unat_pos) (simp add: unat_minus_1)
  then show ?thesis using assms by (simp add: Let_def)
qed

lemma request_line_end:
  assumes "state x = HTTP_STATE_REQUEST_VERSION" "version x = Some v" "cur < length (recv_buf x)"
    "check_request v (cur - v) x = (YMO_OKAY, y)" "rem \<noteq> 0"
  shows "request_line_loop x cur rem (CR # cs) n =
    Some (Inr (n + 1), y\<lparr>recv_buf := put cur [0] (recv_buf y), state := HTTP_STATE_CRLF,
      next_state := HTTP_STATE_HEADER_NAME, recv_current := cur + 1, remain := rem\<rparr>)"
proof -
  have "recv_buf y = recv_buf x" using assms(4) by (auto simp: check_request_def Let_def split: if_splits)
  with assms show ?thesis by (simp add: line_action_def parse_done_def parser_saw_cr_def)
qed


section \<open>Well-formed request lines\<close>

definition SP :: byte where "SP = 32"

definition version_ok :: "bytes \<Rightarrow> bool" where
  "version_ok v \<longleftrightarrow> length v = 8 \<and> CR \<notin> set v \<and> v ! 5 = chr CHR ''1'' \<and> v ! 7 \<in> {chr CHR ''0'', chr CHR ''1''}"

definition version_flags :: "bytes \<Rightarrow> u32 \<Rightarrow> u32" where
  "version_flags v fl =
     (if v ! 7 = chr CHR ''1'' then fl OR (YMO_HTTP_FLAG_VERSION_1_1 OR YMO_HTTP_FLAG_SUPPORTS_CHUNKED
        OR YMO_HTTP_FLAG_REQUEST_KEEPALIVE) else fl)"

text \<open>An optional part of the target with its separator, and what it leaves in the buffer.\<close>

definition opt_part :: "byte \<Rightarrow> bytes option \<Rightarrow> bytes" where
  "opt_part c s = (case s of None \<Rightarrow> [] | Some s \<Rightarrow> c # s)"

lemma opt_part_simps [simp]: "opt_part c None = []" "opt_part c (Some s) = c # s"
  by (simp_all add: opt_part_def)

lemma length_opt_part: "length (opt_part c s) = length (opt_part d s)"
  by (cases s) simp_all

abbreviation "QM \<equiv> chr CHR ''?''"
abbreviation "HASH \<equiv> chr CHR ''#''"

lemma sep_eqs [simp]: "chr CHR '' '' = SP" "QM \<noteq> SP" "HASH \<noteq> SP" "QM \<noteq> HASH" "HASH \<noteq> QM" "SP \<noteq> QM" "SP \<noteq> HASH"
  by (simp_all add: chr_def SP_def)

lemma nth_put: "i + length s \<le> length b \<Longrightarrow> k < length s \<Longrightarrow> put i s b ! (i + k) = s ! k"
  by (simp add: put_def nth_append)

lemma version_tail:
  assumes st: "state x = HTTP_STATE_REQUEST_VERSION" "version x = Some cur" and v: "version_ok v"
    and fit: "cur + 9 \<le> length (recv_buf x)" "9 \<le> unat rem"
  shows "request_line_loop x cur rem (v @ CR # cs) n =
    Some (Inr (n + 9), x\<lparr>flags := version_flags v (flags x), recv_buf := put cur (v @ [0]) (recv_buf x),
      state := HTTP_STATE_CRLF, next_state := HTTP_STATE_HEADER_NAME, recv_current := cur + 9, remain := rem - 8\<rparr>)"
proof -
  have len: "length v = 8" using v by (simp add: version_ok_def)
  have "\<forall>c \<in> set v. line_action (state x) c = Store"
    using v st by (auto simp: line_action_def version_ok_def)
  from request_line_run [OF this, of "CR # cs" rem cur n]
  have run: "request_line_loop x cur rem (v @ CR # cs) n =
      request_line_loop (x\<lparr>recv_buf := put cur v (recv_buf x)\<rparr>) (cur + 8) (rem - 8) (CR # cs) (n + 8)"
    using fit len by simp
  let ?x = "x\<lparr>recv_buf := put cur v (recv_buf x)\<rparr>"
  have n: "put cur v (recv_buf x) ! (cur + 5) = v ! 5" "put cur v (recv_buf x) ! (cur + 7) = v ! 7"
    using nth_put [of cur v "recv_buf x" 5] nth_put [of cur v "recv_buf x" 7] fit len by simp_all
  have c: "check_request cur (cur + 8 - cur) ?x = (YMO_OKAY, ?x\<lparr>flags := version_flags v (flags x)\<rparr>)"
    using n v by (auto simp: check_request_def STD_HTTP_VERSION_STR_LEN_def version_ok_def version_flags_def Let_def chr_def)
  have "8 \<le> rem" using fit(2) by (simp add: word_le_nat_alt)
  then have "unat (rem - 8) = unat rem - 8" by (simp add: unat_sub)
  then have "rem - 8 \<noteq> 0" using fit(2) by (intro unat_pos) simp
  from request_line_end [OF _ _ _ c this, of cs "n + 8"] st fit len run show ?thesis
    by (simp add: put_put [of cur v, unfolded len])
qed

lemma fragment_tail:
  assumes st: "state x = HTTP_STATE_REQUEST_FRAGMENT" and f: "SP \<notin> set f" and v: "version_ok v"
    and fit: "cur + length f + 10 \<le> length (recv_buf x)" "length f + 10 \<le> unat rem"
  shows "request_line_loop x cur rem (f @ SP # v @ CR # cs) n =
    Some (Inr (n + length f + 10), x\<lparr>version := Some (cur + length f + 1), flags := version_flags v (flags x),
      recv_buf := put cur (f @ 0 # v @ [0]) (recv_buf x),
      state := HTTP_STATE_CRLF, next_state := HTTP_STATE_HEADER_NAME, recv_current := cur + length f + 10,
      remain := rem - word_of_nat (length f + 9)\<rparr>)"
proof -
  let ?x = "x\<lparr>recv_buf := put cur f (recv_buf x)\<rparr>"
  let ?r = "rem - word_of_nat (length f)"
  have "\<forall>c \<in> set f. line_action (state x) c = Store" using f st by (auto simp: line_action_def)
  from request_line_run [OF this, of "SP # v @ CR # cs" rem cur n]
  have run: "request_line_loop x cur rem (f @ SP # v @ CR # cs) n =
      request_line_loop ?x (cur + length f) ?r (SP # v @ CR # cs) (n + length f)"
    using fit by simp
  have ur: "unat ?r = unat rem - length f" using fit(2) unat_sub_word_of_nat by simp
  have act: "line_action (state ?x) SP = Next_item (\<lambda>p x. x\<lparr>version := Some p\<rparr>) 0"
    using st by (simp add: line_action_def)
  have ur1: "unat (?r - 1) = unat rem - length f - 1"
    using fit(2) unat_sub_word_of_nat [of "length f + 1" rem] by (simp add: algebra_simps)
  show ?thesis unfolding run
    using fit ur ur1 st v
    by (subst request_line_item [OF act])
      (simp_all add: version_tail put_put put_snoc put_Cons Let_def algebra_simps)
qed


lemma query_tail:
  assumes st: "state x = HTTP_STATE_REQUEST_QUERY" and q: "SP \<notin> set q" "HASH \<notin> set q"
    and f: "\<forall>f' \<in> set_option f. SP \<notin> set f'" and v: "version_ok v"
    and fit: "cur + length q + length (opt_part HASH f) + 10 \<le> length (recv_buf x)"
      "length q + length (opt_part HASH f) + 10 \<le> unat rem"
  shows "request_line_loop x cur rem (q @ opt_part HASH f @ SP # v @ CR # cs) n =
    Some (Inr (n + length q + length (opt_part HASH f) + 10),
      x\<lparr>fragment := map_option (\<lambda>_. cur + length q + 1) f,
        version := Some (cur + length q + length (opt_part HASH f) + 1), flags := version_flags v (flags x),
        recv_buf := put cur (q @ opt_part 0 f @ 0 # v @ [0]) (recv_buf x),
        state := HTTP_STATE_CRLF, next_state := HTTP_STATE_HEADER_NAME,
        recv_current := cur + length q + length (opt_part HASH f) + 10,
        remain := rem - word_of_nat (length q + length (opt_part HASH f) + 9)\<rparr>)"
proof -
  let ?x = "x\<lparr>recv_buf := put cur q (recv_buf x)\<rparr>"
  let ?r = "rem - word_of_nat (length q)"
  let ?rest = "opt_part HASH f @ SP # v @ CR # cs"
  have "\<forall>c \<in> set q. line_action (state x) c = Store" using q st by (auto simp: line_action_def)
  from request_line_run [OF this, of ?rest rem cur n]
  have run: "request_line_loop x cur rem (q @ ?rest) n =
      request_line_loop ?x (cur + length q) ?r ?rest (n + length q)"
    using fit by simp
  have ur: "unat ?r = unat rem - length q" using fit(2) unat_sub_word_of_nat by simp
  have ur1: "unat (?r - 1) = unat rem - length q - 1"
    using fit(2) unat_sub_word_of_nat [of "length q + 1" rem] by (simp add: algebra_simps)
  show ?thesis
  proof (cases f)
    case None
    have act: "line_action (state ?x) SP = Next_item (\<lambda>p x. x\<lparr>fragment := None, version := Some p\<rparr>) 1"
      using st by (simp add: line_action_def)
    show ?thesis unfolding run using None fit ur ur1 st v
      by (simp del: request_line_loop.simps) (subst request_line_item [OF act],
        simp_all add: version_tail put_put put_snoc put_Cons Let_def algebra_simps numeral_2_eq_2 del: request_line_loop.simps)
  next
    case (Some f')
    have act: "line_action (state ?x) HASH = Next_item (\<lambda>p x. x\<lparr>fragment := Some p\<rparr>) 0"
      using st by (simp add: line_action_def)
    show ?thesis unfolding run using Some f fit ur ur1 st v
      by (simp del: request_line_loop.simps) (subst request_line_item [OF act],
        simp_all add: fragment_tail put_put put_snoc put_Cons Let_def algebra_simps del: request_line_loop.simps)
  qed
qed


lemma path_tail:
  assumes st: "state x = HTTP_STATE_REQUEST_URI_PATH" and p: "SP \<notin> set p" "HASH \<notin> set p" "QM \<notin> set p"
    and q: "\<forall>q' \<in> set_option q. SP \<notin> set q' \<and> HASH \<notin> set q'"
    and f: "\<forall>f' \<in> set_option f. SP \<notin> set f'" and v: "version_ok v"
    and fit: "cur + length p + length (opt_part QM q) + length (opt_part HASH f) + 10 \<le> length (recv_buf x)"
      "length p + length (opt_part QM q) + length (opt_part HASH f) + 10 \<le> unat rem"
  shows "request_line_loop x cur rem (p @ opt_part QM q @ opt_part HASH f @ SP # v @ CR # cs) n =
    Some (Inr (n + length p + length (opt_part QM q) + length (opt_part HASH f) + 10),
      x\<lparr>query := map_option (\<lambda>_. cur + length p + 1) q,
        fragment := map_option (\<lambda>_. cur + length p + length (opt_part QM q) + 1) f,
        version := Some (cur + length p + length (opt_part QM q) + length (opt_part HASH f) + 1),
        flags := version_flags v (flags x),
        recv_buf := put cur (p @ opt_part 0 q @ opt_part 0 f @ 0 # v @ [0]) (recv_buf x),
        state := HTTP_STATE_CRLF, next_state := HTTP_STATE_HEADER_NAME,
        recv_current := cur + length p + length (opt_part QM q) + length (opt_part HASH f) + 10,
        remain := rem - word_of_nat (length p + length (opt_part QM q) + length (opt_part HASH f) + 9)\<rparr>)"
proof -
  let ?x = "x\<lparr>recv_buf := put cur p (recv_buf x)\<rparr>"
  let ?r = "rem - word_of_nat (length p)"
  let ?rest = "opt_part QM q @ opt_part HASH f @ SP # v @ CR # cs"
  have "\<forall>c \<in> set p. line_action (state x) c = Store" using p st by (auto simp: line_action_def)
  from request_line_run [OF this, of ?rest rem cur n]
  have run: "request_line_loop x cur rem (p @ ?rest) n =
      request_line_loop ?x (cur + length p) ?r ?rest (n + length p)"
    using fit by simp
  have ur: "unat ?r = unat rem - length p" using fit(2) unat_sub_word_of_nat by simp
  have ur1: "unat (?r - 1) = unat rem - length p - 1"
    using fit(2) unat_sub_word_of_nat [of "length p + 1" rem] by (simp add: algebra_simps)
  show ?thesis
  proof (cases q)
    case (Some q')
    have act: "line_action (state ?x) QM = Next_item (\<lambda>p x. x\<lparr>query := Some p\<rparr>) 0"
      using st by (simp add: line_action_def)
    show ?thesis unfolding run using Some q f fit ur ur1 st v
      by (simp del: request_line_loop.simps) (subst request_line_item [OF act],
        simp_all add: query_tail put_put put_snoc put_Cons Let_def algebra_simps del: request_line_loop.simps)
  next
    case None
    show ?thesis
    proof (cases f)
      case (Some f')
      have act: "line_action (state ?x) HASH = Next_item (\<lambda>p x. x\<lparr>query := None, fragment := Some p\<rparr>) 1"
        using st by (simp add: line_action_def)
      show ?thesis unfolding run using None Some f fit ur ur1 st v
        by (simp del: request_line_loop.simps) (subst request_line_item [OF act],
          simp_all add: fragment_tail put_put put_snoc put_Cons Let_def algebra_simps numeral_2_eq_2 del: request_line_loop.simps)
    next
      case no: None
      have act: "line_action (state ?x) SP =
          Next_item (\<lambda>p x. x\<lparr>query := None, fragment := None, version := Some p\<rparr>) 2"
        using st by (simp add: line_action_def)
      show ?thesis unfolding run using None no fit ur ur1 st v
        by (simp del: request_line_loop.simps) (subst request_line_item [OF act],
          simp_all add: version_tail put_put put_snoc put_Cons Let_def algebra_simps numeral_2_eq_2 del: request_line_loop.simps)
    qed
  qed
qed

text \<open>A request line, and its image in the receive buffer: every separator becomes a terminator.\<close>

definition request_line :: "bytes \<Rightarrow> bytes \<Rightarrow> bytes option \<Rightarrow> bytes option \<Rightarrow> bytes \<Rightarrow> bytes" where
  "request_line m p q f v = m @ SP # p @ opt_part QM q @ opt_part HASH f @ SP # v @ [CR]"

definition request_line_ok :: "bytes \<Rightarrow> bytes \<Rightarrow> bytes option \<Rightarrow> bytes option \<Rightarrow> bytes \<Rightarrow> bool" where
  "request_line_ok m p q f v \<longleftrightarrow>
     list_all IS_HTTP_METHOD_TOKEN m \<and> list_all (\<lambda>c. c \<notin> {0, SP, HASH, QM}) p \<and>
     (case q of None \<Rightarrow> True | Some q \<Rightarrow> list_all (\<lambda>c. c \<notin> {0, SP, HASH}) q) \<and>
     (case f of None \<Rightarrow> True | Some f \<Rightarrow> list_all (\<lambda>c. c \<notin> {0, SP}) f) \<and>
     version_ok v \<and> 0 \<notin> set v"

lemma SP_not_method [simp]: "\<not> IS_HTTP_METHOD_TOKEN SP"
  by (simp add: IS_HTTP_METHOD_TOKEN_def SP_def chr_def byte_order)

lemma method_token_nonzero: "IS_HTTP_METHOD_TOKEN c \<Longrightarrow> c \<noteq> 0"
  by (auto simp: IS_HTTP_METHOD_TOKEN_def chr_def byte_order)

lemma request_line_parse:
  assumes st: "state x = HTTP_STATE_REQUEST_METHOD" and ok: "request_line_ok m p q f v"
    and fit: "cur + length (request_line m p q f v) \<le> length (recv_buf x)"
      "length (request_line m p q f v) \<le> unat rem"
  shows "request_line_loop x cur rem (request_line m p q f v @ cs) n =
    Some (Inr (n + length (request_line m p q f v)),
      x\<lparr>uri := Some (cur + length m + 1),
        query := map_option (\<lambda>_. cur + length m + length p + 2) q,
        fragment := map_option (\<lambda>_. cur + length m + length p + length (opt_part QM q) + 2) f,
        version := Some (cur + length m + length p + length (opt_part QM q) + length (opt_part HASH f) + 2),
        flags := version_flags v (flags x),
        recv_buf := put cur (m @ 0 # p @ opt_part 0 q @ opt_part 0 f @ 0 # v @ [0]) (recv_buf x),
        state := HTTP_STATE_CRLF, next_state := HTTP_STATE_HEADER_NAME,
        recv_current := cur + length (request_line m p q f v),
        remain := rem - word_of_nat (length (request_line m p q f v) - 1)\<rparr>)"
proof -
  let ?x = "x\<lparr>recv_buf := put cur m (recv_buf x)\<rparr>"
  let ?r = "rem - word_of_nat (length m)"
  let ?rest = "p @ opt_part QM q @ opt_part HASH f @ SP # v @ CR # cs"
  have v8: "length v = 8" "version_ok v" using ok by (auto simp: request_line_ok_def version_ok_def)
  have len: "length (request_line m p q f v) =
      length m + length p + length (opt_part QM q) + length (opt_part HASH f) + 11"
    using v8 by (simp add: request_line_def)
  have "\<forall>c \<in> set m. line_action (state x) c = Store"
    using ok st by (auto simp: line_action_def request_line_ok_def list_all_iff)
  from request_line_run [OF this, of "SP # ?rest" rem cur n]
  have run: "request_line_loop x cur rem (m @ SP # ?rest) n =
      request_line_loop ?x (cur + length m) ?r (SP # ?rest) (n + length m)"
    using fit len by simp
  have ur: "unat ?r = unat rem - length m" using fit(2) len unat_sub_word_of_nat by simp
  have ur1: "unat (?r - 1) = unat rem - length m - 1"
    using fit(2) len unat_sub_word_of_nat [of "length m + 1" rem] by (simp add: algebra_simps)
  have act: "line_action (state ?x) SP = Next_item (\<lambda>p x. x\<lparr>uri := Some p\<rparr>) 0"
    using st by (simp add: line_action_def)
  have parts: "SP \<notin> set p" "HASH \<notin> set p" "QM \<notin> set p"
      "\<forall>q' \<in> set_option q. SP \<notin> set q' \<and> HASH \<notin> set q'" "\<forall>f' \<in> set_option f. SP \<notin> set f'"
    using ok by (auto simp: request_line_ok_def list_all_iff split: option.splits)
  have "request_line m p q f v @ cs = m @ SP # ?rest" by (simp add: request_line_def)
  then show ?thesis using run fit len ur ur1 st parts v8
    by (simp del: request_line_loop.simps) (subst request_line_item [OF act],
      simp_all add: path_tail put_put put_snoc put_Cons Let_def algebra_simps del: request_line_loop.simps)
qed


section \<open>Splitting the input over reads\<close>

text \<open>
  The write position and the space left are kept in local variables during a call; what the
  exchange has for them does not matter to a call that succeeds.
\<close>

definition stale :: "nat \<Rightarrow> u64 \<Rightarrow> exchange \<Rightarrow> exchange" where
  "stale i r x = x\<lparr>recv_current := i, remain := r\<rparr>"

lemma stale_sel [simp]:
  "state (stale i r x) = state x" "recv_buf (stale i r x) = recv_buf x" "version (stale i r x) = version x"
  "flags (stale i r x) = flags x"
  by (simp_all add: stale_def)

lemma stale_pos: "recv_current (stale i r x) = i" "remain (stale i r x) = r"
  by (simp_all add: stale_def)

lemma stale_upd:
  "(stale i r x)\<lparr>recv_buf := b\<rparr> = stale i r (x\<lparr>recv_buf := b\<rparr>)"
  "(stale i r x)\<lparr>uri := p\<rparr> = stale i r (x\<lparr>uri := p\<rparr>)"
  "(stale i r x)\<lparr>query := p\<rparr> = stale i r (x\<lparr>query := p\<rparr>)"
  "(stale i r x)\<lparr>fragment := p\<rparr> = stale i r (x\<lparr>fragment := p\<rparr>)"
  "(stale i r x)\<lparr>version := p\<rparr> = stale i r (x\<lparr>version := p\<rparr>)"
  "(stale i r x)\<lparr>flags := fl\<rparr> = stale i r (x\<lparr>flags := fl\<rparr>)"
  "(stale i r x)\<lparr>state := st\<rparr> = stale i r (x\<lparr>state := st\<rparr>)"
  "(stale i r x)\<lparr>next_state := st\<rparr> = stale i r (x\<lparr>next_state := st\<rparr>)"
  "(stale i r x)\<lparr>recv_current := j, remain := q\<rparr> = x\<lparr>recv_current := j, remain := q\<rparr>"
  by (simp_all add: stale_def)

lemma stale_parse_done:
  "parse_done (stale i r x) cur rem n = Some (Inr k, z) \<Longrightarrow> parse_done x cur rem n = Some (Inr k, z)"
  by (auto simp: parse_done_def stale_upd split: if_splits)

lemma stale_wr: "wr cur c (stale i r x) = map_option (stale i r) (wr cur c x)"
  by (simp add: wr_def stale_upd)

lemma stale_next_item:
  "line_action st c = Next_item set_ptr skip \<Longrightarrow> set_ptr p (stale i r x) = stale i r (set_ptr p x)"
  by (auto simp: line_action_def stale_upd split: http_state.splits if_splits)

lemma stale_check_request:
  "check_request v k (stale i r x) = map_prod id (stale i r) (check_request v k x)"
  by (auto simp: check_request_def stale_upd Let_def)

lemma request_line_stale:
  "request_line_loop (stale i r x) cur rem b n = Some (Inr k, z) \<Longrightarrow>
   request_line_loop x cur rem b n = Some (Inr k, z)"
proof (induction b arbitrary: x cur rem n)
  case (Cons c cs)
  show ?case
  proof (cases "line_action (state x) c")
    case Store
    with Cons show ?thesis by (auto simp: stale_wr split: option.splits if_splits dest!: stale_parse_done)
  next
    case (Next_item set_ptr skip)
    with Cons show ?thesis
      by (auto simp: stale_wr stale_next_item [OF Next_item] stale_upd Let_def split: option.splits if_splits dest!: stale_parse_done)
  next
    case Line_end
    with Cons.prems show ?thesis
      by (auto simp: stale_wr stale_check_request stale_upd parser_saw_cr_def Let_def
          split: option.splits if_splits prod.splits dest!: stale_parse_done)
  next
    case Other
    with Cons.prems show ?thesis by (auto dest!: stale_parse_done)
  qed (use Cons.prems in auto)
qed simp

lemma parse_done_Inr:
  "parse_done x cur rem n = Some (Inr k, y) \<Longrightarrow> y = stale cur rem x \<and> k = n \<and> rem \<noteq> 0"
  by (auto simp: parse_done_def stale_def split: if_splits)

lemma request_line_append:
  "request_line_loop x cur rem a n = Some (Inr (n + length a), y) \<Longrightarrow> a \<noteq> [] \<Longrightarrow>
   state y \<noteq> HTTP_STATE_CRLF \<Longrightarrow> b \<noteq> [] \<Longrightarrow>
   request_line_loop y (recv_current y) (remain y) b (n + length a) = Some (Inr j, z) \<Longrightarrow>
   request_line_loop x cur rem (a @ b) n = Some (Inr j, z)"
proof (induction a arbitrary: x cur rem n)
  case (Cons c cs)
  show ?case
  proof (cases "line_action (state x) c")
    case Store
    with Cons.prems(1) obtain x1 where w: "wr cur c x = Some x1" by (auto split: option.splits)
    show ?thesis
    proof (cases "cs \<noteq> [] \<and> rem - 1 \<noteq> 0")
      case True
      with Cons.IH [of x1 "cur + 1" "rem - 1" "n + 1"] Store w Cons.prems show ?thesis by simp
    next
      case False
      with Store w Cons.prems(1) have d: "parse_done x1 (cur + 1) (rem - 1) (n + 1) = Some (Inr (n + length (c # cs)), y)"
        by auto
      from parse_done_Inr [OF d] False have e: "cs = []" "y = stale (cur + 1) (rem - 1) x1" "rem - 1 \<noteq> 0" by auto
      have "request_line_loop x1 (cur + 1) (rem - 1) b (n + 1) = Some (Inr j, z)"
        by (rule request_line_stale [of "cur + 1" "rem - 1"]) (use Cons.prems(5) e in \<open>simp add: stale_pos\<close>)
      then show ?thesis
        unfolding e(1) append.simps request_line_loop.simps Store line_act.case w option.case
        using Cons.prems(4) e(3) by (simp only: if_True simp_thms)
    qed
  next
    case (Next_item set_ptr skip)
    with Cons.prems(1) obtain x0 where w: "wr cur 0 x = Some x0" by (auto split: option.splits)
    define x1 where "x1 = (set_ptr (cur + 1) x0)\<lparr>state := (state_succ ^^ Suc skip) (state (set_ptr (cur + 1) x0))\<rparr>"
    show ?thesis
    proof (cases "cs \<noteq> [] \<and> rem - 1 \<noteq> 0")
      case True
      with Cons.IH [of x1 "cur + 1" "rem - 1" "n + 1"] Next_item w Cons.prems show ?thesis
        by (simp add: x1_def Let_def)
    next
      case False
      with Next_item w Cons.prems(1)
      have d: "parse_done x1 (cur + 1) (rem - 1) (n + 1) = Some (Inr (n + length (c # cs)), y)"
        by (auto simp: x1_def Let_def)
      from parse_done_Inr [OF d] False have e: "cs = []" "y = stale (cur + 1) (rem - 1) x1" "rem - 1 \<noteq> 0" by auto
      have "request_line_loop x1 (cur + 1) (rem - 1) b (n + 1) = Some (Inr j, z)"
        by (rule request_line_stale [of "cur + 1" "rem - 1"]) (use Cons.prems(5) e in \<open>simp add: stale_pos\<close>)
      then show ?thesis
        unfolding e(1) append.simps request_line_loop.simps Next_item line_act.case w option.case
        using Cons.prems(4) e(3) by (simp only: if_True simp_thms Let_def x1_def)
    qed
  next
    case Line_end
    with Cons.prems(1,3) show ?thesis
      by (auto simp: parse_done_def parser_saw_cr_def split: option.splits if_splits prod.splits)
  next
    case Other
    with Cons.prems(1) show ?thesis by (auto simp: parse_done_def split: if_splits)
  qed (use Cons.prems in auto)
qed simp

section \<open>Bounds of the request line\<close>

lemma check_request_buf: "check_request v k x = (st, y) \<Longrightarrow> recv_buf y = recv_buf x \<and> version y = version x \<and> st \<in> {YMO_OKAY, EINVAL}"
  by (auto simp: check_request_def Let_def split: if_splits)

lemma next_item_buf:
  "line_action st c = Next_item set_ptr skip \<Longrightarrow> recv_buf (set_ptr p x) = recv_buf x \<and> state (set_ptr p x) = state x"
  by (auto simp: line_action_def split: http_state.splits if_splits)

text \<open>
  A version pointer is set whenever the version is being parsed.
\<close>

definition line_inv :: "exchange \<Rightarrow> bool" where
  "line_inv x \<longleftrightarrow> (state x = HTTP_STATE_REQUEST_VERSION \<longrightarrow> version x \<noteq> None)"

lemma next_item_inv:
  "line_action (state x) c = Next_item set_ptr skip \<Longrightarrow> line_inv (x\<lparr>recv_buf := b\<rparr>) \<Longrightarrow>
   line_inv ((set_ptr p (x\<lparr>recv_buf := b\<rparr>))\<lparr>state := (state_succ ^^ Suc skip) (state (set_ptr p (x\<lparr>recv_buf := b\<rparr>)))\<rparr>)"
  by (auto simp: line_action_def line_inv_def numeral_2_eq_2 split: http_state.splits if_splits)

lemma request_line_bounds:
  "cs \<noteq> [] \<Longrightarrow> line_inv x \<Longrightarrow> rem \<noteq> 0 \<Longrightarrow> cur + unat rem \<le> length (recv_buf x) \<Longrightarrow>
   \<exists>r y. request_line_loop x cur rem cs n = Some (r, y) \<and> length (recv_buf y) = length (recv_buf x) \<and>
     (\<forall>k. r = Inr k \<longrightarrow> line_inv y \<and> k \<le> n + length cs \<and> remain y \<noteq> 0 \<and>
        recv_current y + unat (remain y) \<le> length (recv_buf x) + (if state y = HTTP_STATE_CRLF then 1 else 0))"
proof (induction cs arbitrary: x cur rem n)
  case (Cons c cs)
  have "0 < unat rem" using Cons.prems(3) by (simp add: unat_gt_0)
  then have cur: "cur < length (recv_buf x)" using Cons.prems(4) by linarith
  note r1 = unat_minus_1 [OF Cons.prems(3)]
  show ?case
  proof (cases "line_action (state x) c")
    case Store
    let ?x = "x\<lparr>recv_buf := put cur [c] (recv_buf x)\<rparr>"
    show ?thesis
    proof (cases "cs \<noteq> [] \<and> rem - 1 \<noteq> 0")
      case True
      have "\<exists>r y. request_line_loop ?x (cur + 1) (rem - 1) cs (n + 1) = Some (r, y) \<and> length (recv_buf y) = length (recv_buf ?x) \<and>
        (\<forall>k. r = Inr k \<longrightarrow> line_inv y \<and> k \<le> n + 1 + length cs \<and> remain y \<noteq> 0 \<and>
        recv_current y + unat (remain y) \<le> length (recv_buf ?x) + (if state y = HTTP_STATE_CRLF then 1 else 0))"
        using True Cons.prems cur r1 \<open>0 < unat rem\<close> by (intro Cons.IH) (auto simp: line_inv_def)
      with Store True cur show ?thesis by simp
    next
      case False
      with Store cur Cons.prems r1 \<open>0 < unat rem\<close> show ?thesis by (auto simp: parse_done_def line_inv_def)
    qed
  next
    case (Next_item set_ptr skip)
    let ?x0 = "x\<lparr>recv_buf := put cur [0] (recv_buf x)\<rparr>"
    let ?x = "(set_ptr (cur + 1) ?x0)\<lparr>state := (state_succ ^^ Suc skip) (state (set_ptr (cur + 1) ?x0))\<rparr>"
    have b: "recv_buf ?x = put cur [0] (recv_buf x)" using next_item_buf [OF Next_item] by simp
    have inv: "line_inv ?x" using next_item_inv [OF Next_item] Cons.prems(2) by (simp add: line_inv_def)
    show ?thesis
    proof (cases "cs \<noteq> [] \<and> rem - 1 \<noteq> 0")
      case True
      have "\<exists>r y. request_line_loop ?x (cur + 1) (rem - 1) cs (n + 1) = Some (r, y) \<and> length (recv_buf y) = length (recv_buf ?x) \<and>
        (\<forall>k. r = Inr k \<longrightarrow> line_inv y \<and> k \<le> n + 1 + length cs \<and> remain y \<noteq> 0 \<and>
        recv_current y + unat (remain y) \<le> length (recv_buf ?x) + (if state y = HTTP_STATE_CRLF then 1 else 0))"
        using True Cons.prems cur r1 \<open>0 < unat rem\<close> inv b by (intro Cons.IH) auto
      with Next_item True cur b show ?thesis by (simp add: Let_def)
    next
      case False
      with Next_item cur Cons.prems r1 \<open>0 < unat rem\<close> b inv show ?thesis
        by (auto simp: parse_done_def Let_def line_inv_def)
    qed
  next
    case Line_end
    then have "state x = HTTP_STATE_REQUEST_VERSION" by (auto simp: line_action_def split: http_state.splits if_splits)
    then obtain v where v: "version x = Some v" using Cons.prems(2) by (auto simp: line_inv_def)
    obtain st y where c: "check_request v (cur - v) x = (st, y)" by (cases "check_request v (cur - v) x")
    with check_request_buf [OF c] Line_end v cur Cons.prems show ?thesis
      by (auto simp: parse_done_def parser_saw_cr_def line_inv_def)
  next
    case Other
    with Cons.prems show ?thesis by (auto simp: parse_done_def line_inv_def)
  qed (use Cons.prems in auto)
qed simp


section \<open>A header line\<close>

abbreviation "COLON \<equiv> chr CHR '':''"

lemma field_token_neq: "IS_HTTP_HDR_FIELD_TOKEN c \<Longrightarrow> c \<noteq> COLON \<and> c \<noteq> CR \<and> c \<noteq> 0"
  by (auto simp: IS_HTTP_HDR_FIELD_TOKEN_def chr_def CR_def byte_order)

lemma header_name_run:
  "list_all IS_HTTP_HDR_FIELD_TOKEN s \<Longrightarrow> cs \<noteq> [] \<Longrightarrow> length s < unat rem \<Longrightarrow>
   cur + length s \<le> length (recv_buf x) \<Longrightarrow>
   header_name_loop x cur rem (s @ cs) n =
     header_name_loop (x\<lparr>xh_id := foldl YMO_HDR_HASH_CH (xh_id x) s, recv_buf := put cur s (recv_buf x)\<rparr>)
       (cur + length s) (rem - word_of_nat (length s)) cs (n + length s)"
proof (induction s arbitrary: x cur rem n)
  case (Cons c s)
  have r: "rem \<noteq> 0" "unat (rem - 1) = unat rem - 1" using Cons.prems(3) unat_minus_1 unat_pos by auto
  then have r1: "rem - 1 \<noteq> 0" using Cons.prems(3) by (intro unat_pos) simp
  let ?x = "x\<lparr>xh_id := YMO_HDR_HASH_CH (xh_id x) c, recv_buf := put cur [c] (recv_buf x)\<rparr>"
  have "header_name_loop x cur rem ((c # s) @ cs) n = header_name_loop ?x (cur + 1) (rem - 1) (s @ cs) (n + 1)"
    using Cons.prems r1 field_token_neq [of c] by simp
  also have "\<dots> = header_name_loop (?x\<lparr>xh_id := foldl YMO_HDR_HASH_CH (xh_id ?x) s, recv_buf := put (cur + 1) s (recv_buf ?x)\<rparr>)
      (cur + 1 + length s) (rem - 1 - word_of_nat (length s)) cs (n + 1 + length s)"
    using Cons.prems r by (intro Cons.IH) auto
  finally show ?case using Cons.prems by (simp add: put_Cons algebra_simps)
qed simp

lemma header_value_run:
  "CR \<notin> set s \<Longrightarrow> cs \<noteq> [] \<Longrightarrow> 2 * length s < unat rem \<Longrightarrow>
   cur + length s \<le> length (recv_buf x) \<Longrightarrow>
   header_value_loop junk x cur rem (s @ cs) n =
     header_value_loop junk (x\<lparr>recv_buf := put cur s (recv_buf x)\<rparr>)
       (cur + length s) (rem - word_of_nat (2 * length s)) cs (n + length s)"
proof (induction s arbitrary: x cur rem n)
  case (Cons c s)
  have r: "unat (rem - 2) = unat rem - 2" using Cons.prems(3) unat_sub_word_of_nat [of 2 rem] by simp
  then have r2: "rem - 2 \<noteq> 0" using Cons.prems(3) by (intro unat_pos) simp
  let ?x = "x\<lparr>recv_buf := put cur [c] (recv_buf x)\<rparr>"
  have "header_value_loop junk x cur rem ((c # s) @ cs) n = header_value_loop junk ?x (cur + 1) (rem - 2) (s @ cs) (n + 1)"
    using Cons.prems r2 by (cases "c = CR") auto
  also have "\<dots> = header_value_loop junk (?x\<lparr>recv_buf := put (cur + 1) s (recv_buf ?x)\<rparr>)
      (cur + 1 + length s) (rem - 2 - word_of_nat (2 * length s)) cs (n + 1 + length s)"
    using Cons.prems r by (intro Cons.IH) auto
  finally show ?case using Cons.prems by (simp add: put_Cons algebra_simps)
qed simp

text \<open>
  The odd case: the space left stays odd, is never found to be zero and wraps around.
\<close>

lemma odd_minus_2: "odd (unat (r :: u64)) \<Longrightarrow> odd (unat (r - 2)) \<and> r - 2 \<noteq> 0"
proof -
  assume o: "odd (unat r)"
  have par: "odd (unat w) \<longleftrightarrow> odd w" for w :: u64 using bit_unsigned_iff [of w 0] by (simp add: bit_0)
  then have "odd (unat (r - 2))" using o by simp
  then show ?thesis by auto
qed

lemma header_value_overflow:
  "CR \<notin> set s \<Longrightarrow> odd (unat rem) \<Longrightarrow> cur \<le> length (recv_buf x) \<Longrightarrow> length (recv_buf x) < cur + length s \<Longrightarrow>
   header_value_loop junk x cur rem s n = None"
proof (induction s arbitrary: x cur rem n)
  case (Cons c s)
  show ?case
  proof (cases "cur < length (recv_buf x)")
    case True
    then have s: "s \<noteq> []" using Cons.prems(4) by auto
    let ?x = "x\<lparr>recv_buf := put cur [c] (recv_buf x)\<rparr>"
    have "header_value_loop junk ?x (cur + 1) (rem - 2) s (n + 1) = None"
      using Cons.prems True odd_minus_2 [OF Cons.prems(2)] by (intro Cons.IH) auto
    then show ?thesis using Cons.prems(1) True s odd_minus_2 [OF Cons.prems(2)] by (cases "c = CR") auto
  next
    case False
    with Cons.prems(1) show ?thesis by (cases "c = CR") auto
  qed
qed simp

section \<open>Chunk sizes\<close>

definition hexval :: "byte \<Rightarrow> nat option" where
  "hexval c =
     (if 48 \<le> c \<and> c \<le> 57 then Some (unat c - 48)
      else if 65 \<le> c \<and> c \<le> 70 then Some (unat c - 55)
      else if 97 \<le> c \<and> c \<le> 102 then Some (unat c - 87) else None)"

definition chunk_low :: "byte \<Rightarrow> u64" where
  "chunk_low c = ((scast c AND 0xF) + signed_drop_bit 6 (scast c)) OR (signed_drop_bit 3 (scast c) AND 0x8)"

lemma chunk_low_hex: "hexval c \<noteq> None \<longrightarrow> chunk_low c = word_of_nat (the (hexval c)) \<and> the (hexval c) < 16"
  by (rule all_bytesI [of _ c])
    (simp add: all_bytes_def chunk_low_def hexval_def byte_order)

lemma push_bit_or_low: "k < 16 \<Longrightarrow> push_bit 4 (r :: u64) OR word_of_nat k = 16 * r + word_of_nat k"
proof -
  assume k: "k < 16"
  have "push_bit 4 r AND word_of_nat k = 0"
  proof (rule bit_word_eqI)
    fix n assume "n < LENGTH(64)"
    have "\<not> bit k n" if "4 \<le> n"
    proof -
      have "(16 :: nat) \<le> 2 ^ n" using power_increasing [OF that, of "2 :: nat"] by simp
      with k have "k < 2 ^ n" by simp
      then show ?thesis by (simp add: bit_iff_odd)
    qed
    then show "bit (push_bit 4 r AND word_of_nat k) n = bit (0 :: u64) n"
      by (auto simp: bit_simps)
  qed
  then have "push_bit 4 r OR word_of_nat k = push_bit 4 r + word_of_nat k"
    by (simp add: disjunctive_add_eq_or)
  then show ?thesis by (simp add: push_bit_eq_mult)
qed

lemma chunk_digit_hex:
  assumes "hexval c = Some d"
  shows "chunk_digit r c = 16 * r + word_of_nat d"
proof -
  have "chunk_low c = word_of_nat d" "d < 16" using chunk_low_hex [of c] assms by auto
  moreover have "chunk_digit r c = push_bit 4 r OR chunk_low c"
    by (simp add: chunk_digit_def chunk_low_def or.assoc)
  ultimately show ?thesis using push_bit_or_low by simp
qed

end
