(* ===== verification/Http_Request.thy ===== *)
theory Http_Request
  imports Http_Parse
begin

text \<open>
  What the request parser guarantees: request lines, header lines, bodies and chunk sizes are read
  correctly, also when they arrive in pieces; and where it writes or reads outside its buffers.
\<close>

section \<open>Bodies\<close>

text \<open>
  A sequence of reads of the body, until the exchange is complete, with how many bytes each of them consumes.
\<close>

fun body_reads :: "'s body_cb \<Rightarrow> exchange \<Rightarrow> bytes list \<Rightarrow> 's \<Rightarrow> (nat list \<times> exchange \<times> 's) option" where
  "body_reads body_cb x [] s = Some ([], x, s)"
| "body_reads body_cb x (cs # css) s =
     (if state x = HTTP_STATE_COMPLETE then Some ([], x, s)
      else case ymo_parse_http_body body_cb x cs s of
        Some (Inr k, y, s) \<Rightarrow> map_option (\<lambda>(ks, r). (k # ks, r)) (body_reads body_cb y css s)
      | _ \<Rightarrow> None)"

text \<open>What the reads of a body of \<open>n\<close> bytes have to consume: all that they are given, and of the last the rest of the body.\<close>

fun body_counts :: "nat \<Rightarrow> bytes list \<Rightarrow> nat list" where
  "body_counts n [] = []"
| "body_counts n (cs # css) = (if n = 0 then [] else min n (length cs) # body_counts (n - length cs) css)"

lemma body_counts_sum: "sum_list (body_counts n css) = min n (length (concat css))"
  by (induction n css rule: body_counts.induct) auto

text \<open>
  What the parser relies on: a callback that stores what it gets; \<open>got\<close> is what it has stored, \<open>fits n\<close>
  that it will take \<open>n\<close> more bytes.
\<close>

locale body_sink =
  fixes body_cb :: "'s body_cb" and got :: "'s \<Rightarrow> bytes" and fits :: "nat \<Rightarrow> 's \<Rightarrow> bool"
  assumes accepts: "fits n s \<Longrightarrow> d \<noteq> [] \<Longrightarrow> length d \<le> n \<Longrightarrow>
    \<exists>s'. body_cb d s = Some (YMO_OKAY, s') \<and> got s' = got s @ d \<and> fits (n - length d) s'"
begin

text \<open>One read of a body with a length.\<close>

lemma body_plain:
  assumes st: "state x = HTTP_STATE_BODY" "next_state x = HTTP_STATE_COMPLETE"
    and fl: "flags x AND YMO_HTTP_REQUEST_CHUNKED = 0" and b: "body_remain x \<noteq> 0"
    and cs: "cs \<noteq> []" and fit: "fits (unat (body_remain x)) s"
  shows "let k = min (length cs) (unat (body_remain x)) in
    \<exists>s'. ymo_parse_http_body body_cb x cs s =
     Some (Inr k,
       x\<lparr>body_remain := body_remain x - word_of_nat k,
         state := (if unat (body_remain x) \<le> length cs then HTTP_STATE_COMPLETE else HTTP_STATE_BODY)\<rparr>, s') \<and>
     got s' = got s @ take k cs \<and> fits (unat (body_remain x) - k) s'"
proof (cases "unat (body_remain x) \<le> length cs")
  case True
  obtain f where f: "3 * length cs + 3 = Suc (Suc f)" by (metis add_Suc_right numeral_3_eq_3)
  have "take (unat (body_remain x)) cs \<noteq> []" using cs b by (simp add: unat_gt_0)
  from accepts [OF fit this] obtain s' where s': "body_cb (take (unat (body_remain x)) cs) s = Some (YMO_OKAY, s')"
      "got s' = got s @ take (unat (body_remain x)) cs" "fits 0 s'"
    using True by (auto simp: min_absorb2)
  have "body_loop (Suc (Suc f)) body_cb x cs (length cs) s =
      Some (Inr (drop (unat (body_remain x)) cs), x\<lparr>body_remain := 0, state := HTTP_STATE_COMPLETE\<rparr>, s')"
    using True st fl b s'(1) by (simp add: Let_def min_absorb2)
  with True st s' show ?thesis unfolding ymo_parse_http_body_def f by (simp add: Let_def min_absorb2)
next
  case False
  obtain f where f: "3 * length cs + 3 = Suc f" by simp
  from accepts [OF fit cs] obtain s' where s': "body_cb cs s = Some (YMO_OKAY, s')"
      "got s' = got s @ cs" "fits (unat (body_remain x) - length cs) s'"
    using False by auto
  have "unat (body_remain x - word_of_nat (length cs)) = unat (body_remain x) - length cs"
    using False by (intro unat_sub_word_of_nat) simp
  with False have nz: "body_remain x - word_of_nat (length cs) \<noteq> 0" by (intro unat_pos) simp
  have "body_loop (Suc f) body_cb x cs (length cs) s =
      Some (Inr [], x\<lparr>body_remain := body_remain x - word_of_nat (length cs)\<rparr>, s')"
    using False st b s'(1) nz by (simp add: Let_def min_absorb1)
  with False st s' show ?thesis unfolding ymo_parse_http_body_def f by (simp add: Let_def min_absorb1)
qed

lemma body_reads_plain:
  "state x = HTTP_STATE_BODY \<Longrightarrow> next_state x = HTTP_STATE_COMPLETE \<Longrightarrow>
   flags x AND YMO_HTTP_REQUEST_CHUNKED = 0 \<Longrightarrow> body_remain x \<noteq> 0 \<Longrightarrow>
   \<forall>cs \<in> set css. cs \<noteq> [] \<Longrightarrow> fits (unat (body_remain x)) s \<Longrightarrow>
   \<exists>y s'. body_reads body_cb x css s = Some (body_counts (unat (body_remain x)) css, y, s') \<and> got s' = got s @ take (unat (body_remain x)) (concat css) \<and>
     (state y = HTTP_STATE_COMPLETE \<longleftrightarrow> unat (body_remain x) \<le> length (concat css))"
proof (induction css arbitrary: x s)
  case (Cons cs css)
  let ?b = "unat (body_remain x)"
  have ne: "cs \<noteq> []" using Cons.prems(5) by simp
  note step = body_plain [OF Cons.prems(1-4) ne Cons.prems(6)]
  show ?case
  proof (cases "?b \<le> length cs")
    case True
    let ?y = "x\<lparr>body_remain := 0, state := HTTP_STATE_COMPLETE\<rparr>"
    obtain s' where "ymo_parse_http_body body_cb x cs s = Some (Inr ?b, ?y, s')" "got s' = got s @ take ?b cs"
      using step True by (auto simp: Let_def min_absorb2)
    moreover have "body_reads body_cb ?y css s' = Some ([], ?y, s')" "body_counts 0 css = []" by (cases css; simp)+
    ultimately show ?thesis using True Cons.prems(1,4) by (simp add: unat_eq_zero)
  next
    case False
    let ?y = "x\<lparr>body_remain := body_remain x - word_of_nat (length cs), state := HTTP_STATE_BODY\<rparr>"
    obtain s' where p: "ymo_parse_http_body body_cb x cs s = Some (Inr (length cs), ?y, s')" "got s' = got s @ cs"
        "fits (?b - length cs) s'"
      using step False by (auto simp: Let_def min_absorb1)
    have u: "unat (body_remain ?y) = ?b - length cs"
      using False unat_sub_word_of_nat [of "length cs" "body_remain x"] by simp
    then have "body_remain ?y \<noteq> 0" using False by (intro unat_pos) simp
    then have "\<exists>z s''. body_reads body_cb ?y css s' = Some (body_counts (unat (body_remain ?y)) css, z, s'') \<and>
        got s'' = got s' @ take (unat (body_remain ?y)) (concat css) \<and>
        (state z = HTTP_STATE_COMPLETE \<longleftrightarrow> unat (body_remain ?y) \<le> length (concat css))"
      using Cons.prems p(3) u by (intro Cons.IH) simp_all
    with p u False Cons.prems(1,4) show ?thesis by (auto simp: unat_eq_zero)
  qed
qed (simp add: unat_gt_0)

end

text \<open>A callback that keeps everything.\<close>

definition log_cb :: "bytes body_cb" where
  "log_cb d out = Some (YMO_OKAY, out @ d)"

interpretation log: body_sink log_cb "\<lambda>out. out" "\<lambda>_ _. True"
  by unfold_locales (simp add: log_cb_def)

section \<open>Header lines\<close>

lemma str_at_put':
  assumes "recv_buf x = put i (a @ s @ 0 # t) b" "i + length (a @ s @ 0 # t) \<le> length b" "0 \<notin> set s"
  shows "str_at x (i + length a) = s"
  using assms by (simp add: str_at_def put_def takeWhile_append)

definition hash_of :: "bytes \<Rightarrow> u16" where
  "hash_of name = fst (ymo_http_hdr_hash_283_5 name)"

lemma got_value_fields:
  assumes "http_header_got_value junk x nm v len = Some z"
  shows "state z = state x" "recv_buf z = recv_buf x" "xh_id z = YMO_HTTP_HDR_HASH_INIT"
    "ymo_http_hdr_table_add_precompute junk (headers x) (xh_id x AND YMO_HDR_TABLE_MASK) (str_at x nm) (str_at x v)
       = Some (r, t) \<Longrightarrow> headers z = t"
  using assms by (auto simp: http_header_got_value_def Let_def split: option.splits prod.splits if_splits)

lemma got_value_Some:
  "http_header_got_value junk x nm v len = None \<longleftrightarrow>
   ymo_http_hdr_table_add_precompute junk (headers x) (xh_id x AND YMO_HDR_TABLE_MASK) (str_at x nm) (str_at x v) = None"
  by (simp add: http_header_got_value_def Let_def split: option.splits prod.splits)


text \<open>A complete header line, parsed in one call.\<close>

lemma header_line:
  assumes st: "state x = HTTP_STATE_HEADER_NAME" "hdr_name x = Some (recv_current x)"
      "xh_id x = YMO_HTTP_HDR_HASH_INIT"
    and nm: "list_all IS_HTTP_HDR_FIELD_TOKEN name"
    and v: "CR \<notin> set v" "0 \<notin> set v" "v = [] \<or> hd v \<noteq> SP"
    and fit: "recv_current x + length name + length v + 2 \<le> length (recv_buf x)"
      "length name + 2 * length v + 2 < unat (remain x)"
  defines "y \<equiv> x\<lparr>xh_id := foldl YMO_HDR_HASH_CH (xh_id x) name,
      recv_buf := put (recv_current x) (name @ 0 # v @ [0]) (recv_buf x),
      recv_current := recv_current x + length name + 1, remain := remain x - word_of_nat (length name + 1),
      hdr_value := Some (recv_current x + length name + 1), state := HTTP_STATE_HEADER_VALUE\<rparr>"
  shows "ymo_parse_http_headers junk x (name @ COLON # SP # v @ CR # cs) =
    (case http_header_got_value junk y (recv_current x) (recv_current x + length name + 1) (length v) of
       None \<Rightarrow> None
     | Some z \<Rightarrow> Some (Inr (length name + length v + 3),
         (parser_saw_cr HTTP_STATE_HEADER_NAME z)\<lparr>recv_current := recv_current x + length name + length v + 2,
            remain := remain x - word_of_nat (length name + 2 * length v + 2)\<rparr>))"
    "str_at y (recv_current x) = name" "str_at y (recv_current x + length name + 1) = v"
    "xh_id y AND YMO_HDR_TABLE_MASK = hash_of name"
proof -
  let ?c = "recv_current x" and ?r = "remain x"
  have nz: "0 \<notin> set name" using nm field_token_neq by (auto simp: list_all_iff)
  show "str_at y ?c = name"
    using str_at_put' [of y ?c "[]" name "v @ [0]" "recv_buf x"] fit(1) nz by (simp add: y_def)
  show "str_at y (?c + length name + 1) = v"
    using str_at_put' [of y ?c "name @ [0]" v "[]" "recv_buf x"] fit(1) v(2) by (simp add: y_def)
  show "xh_id y AND YMO_HDR_TABLE_MASK = hash_of name"
    by (simp add: y_def hash_of_def ymo_http_hdr_hash_283_5_def st(3))
  let ?i0 = "name @ COLON # SP # v @ CR # cs"
  let ?x1 = "x\<lparr>xh_id := foldl YMO_HDR_HASH_CH (xh_id x) name, recv_buf := put ?c (name @ [0]) (recv_buf x),
      state := HTTP_STATE_HEADER_VALUE_LEADING_SPACE, recv_current := ?c + length name + 1,
      remain := ?r - word_of_nat (length name + 1)\<rparr>"
  have u1: "unat (?r - word_of_nat (length name + 1)) = unat ?r - (length name + 1)"
    using fit(2) by (intro unat_sub_word_of_nat) simp
  then have r1: "?r - word_of_nat (length name + 1) \<noteq> 0" using fit(2) by (intro unat_pos) simp
  have n: "header_name_loop x ?c ?r ?i0 0 = Some (Inr (length name + 1), ?x1)"
    using header_name_run [OF nm, of "COLON # SP # v @ CR # cs" ?r ?c x 0] fit r1
    by (simp add: put_snoc put_put parse_done_def algebra_simps)
  obtain f where f: "Suc (length ?i0) = Suc (Suc (Suc (Suc f)))" by simp
  let ?x2 = "?x1\<lparr>hdr_value := Some (?c + length name + 1), state := HTTP_STATE_HEADER_VALUE\<rparr>"
  let ?b2 = "put ?c (name @ 0 # v) (recv_buf x)"
  have b2: "put (Suc (?c + length name)) v (put ?c (name @ [0]) (recv_buf x)) = ?b2"
    using fit(1) by (simp add: put_snoc)
  let ?r2 = "?r - word_of_nat (length name + 1) - word_of_nat (2 * length v)"
  have vl: "header_value_loop junk ?x2 (?c + length name + 1) (?r - word_of_nat (length name + 1)) (v @ CR # cs) 0 =
      header_value_loop junk (?x2\<lparr>recv_buf := ?b2\<rparr>) (?c + length name + 1 + length v) ?r2 (CR # cs) (length v)"
    using header_value_run [OF v(1), of "CR # cs" "?r - word_of_nat (length name + 1)" "?c + length name + 1" ?x2 junk 0]
      fit u1 b2 by simp
  have u3: "unat (?r - word_of_nat (length name + 2 * length v + 2)) = unat ?r - (length name + 2 * length v + 2)"
    using fit(2) by (intro unat_sub_word_of_nat) simp
  then have r3: "?r - word_of_nat (length name + 2 * length v + 2) \<noteq> 0" using fit(2) by (intro unat_pos) simp
  have r3': "?r2 - 1 = ?r - word_of_nat (length name + 2 * length v + 2)" by (simp add: algebra_simps)
  have y: "?x2\<lparr>recv_buf := put (?c + length name + 1 + length v) [0] ?b2\<rparr> = y"
    using put_put [of ?c "name @ 0 # v" "recv_buf x" "[0]"] fit(1) by (simp add: y_def st ac_simps)
  have last: "header_value_loop junk (?x2\<lparr>recv_buf := ?b2\<rparr>) (?c + length name + 1 + length v) ?r2 (CR # cs) (length v) =
      (case http_header_got_value junk y ?c (?c + length name + 1) (length v) of None \<Rightarrow> None
       | Some z \<Rightarrow> parse_done (parser_saw_cr HTTP_STATE_HEADER_NAME z) (?c + length name + 1 + length v + 1)
           (?r - word_of_nat (length name + 2 * length v + 2)) (length v + 1))"
  proof -
    have hy: "hdr_name y = Some ?c" "hdr_value y = Some (?c + length name + 1)" by (simp_all add: y_def st)
    have w: "wr (?c + length name + 1 + length v) 0 (?x2\<lparr>recv_buf := ?b2\<rparr>) = Some y"
      using fit(1) y by simp
    show ?thesis
      unfolding header_value_loop.simps if_not_P [of "CR \<noteq> CR", simplified] w r3'
      using hy by (simp add: add.commute)
  qed
  have hd: "\<exists>d ds. v @ CR # cs = d # ds \<and> d \<noteq> SP" using v(3) by (cases v) (auto simp: CR_def SP_def)
  then obtain d ds where d: "v @ CR # cs = d # ds" "d \<noteq> SP" by blast
  let ?go = "\<lambda>r. case r of
      None \<Rightarrow> None
    | Some (Inl st, x) \<Rightarrow> Some (Inl st, x)
    | Some (Inr k, x) \<Rightarrow>
        if drop k (v @ CR # cs) \<noteq> [] \<and> remain x \<noteq> 0
        then headers_loop (Suc f) junk x (recv_current x) (remain x) (drop k (v @ CR # cs)) (length name + 2 + k)
        else parse_done x (recv_current x) (remain x) (length name + 2 + k)"
  note nosimp = headers_loop.simps header_value_loop.simps header_name_loop.simps
  have "headers_loop (Suc (Suc (Suc (Suc f)))) junk x ?c ?r ?i0 0 =
      headers_loop (Suc (Suc (Suc f))) junk ?x1 (?c + length name + 1) (?r - word_of_nat (length name + 1))
        (SP # v @ CR # cs) (length name + 1)"
    using n r1 st(1) by (subst headers_loop.simps(2)) (simp add: Let_def del: nosimp)
  also have "\<dots> = headers_loop (Suc (Suc f)) junk ?x1 (?c + length name + 1) (?r - word_of_nat (length name + 1))
        (v @ CR # cs) (length name + 2)"
    using r1 by (subst headers_loop.simps(2)) (simp add: Let_def del: nosimp)
  also have "\<dots> = ?go (header_value_loop junk ?x2 (?c + length name + 1) (?r - word_of_nat (length name + 1)) (v @ CR # cs) 0)"
    using d by (subst headers_loop.simps(2)) (simp add: Let_def del: nosimp)
  finally have go: "ymo_parse_http_headers junk x ?i0 =
      ?go (header_value_loop junk ?x2 (?c + length name + 1) (?r - word_of_nat (length name + 1)) (v @ CR # cs) 0)"
    unfolding ymo_parse_http_headers_def f .
  show "ymo_parse_http_headers junk x ?i0 =
    (case http_header_got_value junk y (recv_current x) (recv_current x + length name + 1) (length v) of
       None \<Rightarrow> None
     | Some z \<Rightarrow> Some (Inr (length name + length v + 3),
         (parser_saw_cr HTTP_STATE_HEADER_NAME z)\<lparr>recv_current := recv_current x + length name + length v + 2,
            remain := remain x - word_of_nat (length name + 2 * length v + 2)\<rparr>))"
    unfolding go vl last
    using r3 by (cases "http_header_got_value junk y ?c (?c + length name + 1) (length v)")
      (simp_all add: parse_done_def parser_saw_cr_def)
qed


text \<open>A request line, with where its parts are and what it leaves alone.\<close>

lemma request_line_view:
  assumes x: "state x = HTTP_STATE_REQUEST_METHOD" "recv_current x = 0" and ok: "request_line_ok m p q f v"
    and fit: "length (request_line m p q f v) \<le> length (recv_buf x)" "length (request_line m p q f v) \<le> unat (remain x)"
  shows "\<exists>y. ymo_parse_http_request_line x (request_line m p q f v @ cs) = Some (Inr (length (request_line m p q f v)), y) \<and>
    state y = HTTP_STATE_CRLF \<and> next_state y = HTTP_STATE_HEADER_NAME \<and> flags y = version_flags v (flags x) \<and>
    recv_current y = length (request_line m p q f v) \<and>
    remain y = remain x - word_of_nat (length (request_line m p q f v) - 1) \<and>
    headers y = headers x \<and> xh_id y = xh_id x \<and> content_length y = content_length x \<and>
    length (recv_buf y) = length (recv_buf x) \<and> recv_buf y ! (length (request_line m p q f v) - 1) = 0 \<and>
    (\<forall>i \<in> {0} \<union> set_option (uri y) \<union> set_option (query y) \<union> set_option (fragment y) \<union> set_option (version y).
       i < length (request_line m p q f v)) \<and>
    str_at y 0 = m \<and> map_option (str_at y) (uri y) = Some p \<and> map_option (str_at y) (query y) = q \<and>
    map_option (str_at y) (fragment y) = f \<and> map_option (str_at y) (version y) = Some v"
proof -
  let ?L = "m @ 0 # p @ opt_part 0 q @ opt_part 0 f @ 0 # v @ [0]"
  note parse = request_line_parse [OF assms(1,3), of 0 "remain x" cs 0]
  obtain y where y: "ymo_parse_http_request_line x (request_line m p q f v @ cs) =
      Some (Inr (length (request_line m p q f v)), y)" "recv_buf y = put 0 ?L (recv_buf x)"
    "uri y = Some (length m + 1)" "query y = map_option (\<lambda>_. length m + length p + 2) q"
    "fragment y = map_option (\<lambda>_. length m + length p + length (opt_part QM q) + 2) f"
    "version y = Some (length m + length p + length (opt_part QM q) + length (opt_part HASH f) + 2)"
    "flags y = version_flags v (flags x)" "state y = HTTP_STATE_CRLF" "next_state y = HTTP_STATE_HEADER_NAME"
    "recv_current y = length (request_line m p q f v)"
    "remain y = remain x - word_of_nat (length (request_line m p q f v) - 1)"
    "headers y = headers x" "xh_id y = xh_id x" "content_length y = content_length x"
    using parse assms(2,4,5) by (simp add: ymo_parse_http_request_line_def)
  have nz: "0 \<notin> set m" "0 \<notin> set p" "0 \<notin> set v" "\<And>q'. q = Some q' \<Longrightarrow> 0 \<notin> set q'" "\<And>f'. f = Some f' \<Longrightarrow> 0 \<notin> set f'"
    using assms(3) method_token_nonzero by (auto simp: request_line_ok_def list_all_iff)
  have len: "length ?L \<le> length (recv_buf x)"
    using assms(4) length_opt_part [of 0 q QM] length_opt_part [of 0 f HASH] by (simp add: request_line_def)
  have at: "str_at y (length a) = s" if "?L = a @ s @ 0 # t" "0 \<notin> set s" for a s t
    using str_at_put' [of y 0 a s t "recv_buf x"] y(2) len that by simp
  have lq: "length (opt_part QM q) = length (opt_part 0 q)" "length (opt_part HASH f) = length (opt_part 0 f)"
    by (rule length_opt_part)+
  have "str_at y 0 = m" using at [of "[]" m "p @ opt_part 0 q @ opt_part 0 f @ 0 # v @ [0]"] nz by simp
  moreover obtain t where t: "opt_part 0 f @ 0 # v @ [0] = 0 # t" by (cases f) auto
  moreover obtain t' where t': "opt_part 0 q @ opt_part 0 f @ 0 # v @ [0] = 0 # t'" using t by (cases q) auto
  moreover have "str_at y (length m + 1) = p"
    using at [of "m @ [0]" p t'] nz t' by simp
  moreover have "map_option (str_at y) (query y) = q"
  proof (cases q)
    case (Some q')
    then have "str_at y (length (m @ 0 # p @ [0])) = q'" using nz t by (intro at [of _ _ t]) simp_all
    with y(4) Some show ?thesis by simp
  qed (simp add: y(4))
  moreover have "map_option (str_at y) (fragment y) = f"
  proof (cases f)
    case (Some f')
    then have "str_at y (length (m @ 0 # p @ opt_part 0 q @ [0])) = f'" using nz by (intro at) simp_all
    with y(5) Some lq show ?thesis by (simp add: add.assoc)
  qed (simp add: y(5))
  moreover have "map_option (str_at y) (version y) = Some v"
  proof -
    have "str_at y (length (m @ 0 # p @ opt_part 0 q @ opt_part 0 f @ [0])) = v" using nz by (intro at) simp_all
    then show ?thesis using y(6) lq by (simp add: add.assoc)
  qed
  moreover have L: "length ?L = length (request_line m p q f v)" using lq by (simp add: request_line_def)
  moreover have "recv_buf y ! (length ?L - 1) = 0"
    using nth_put [of 0 ?L "recv_buf x" "length ?L - 1"] y(2) len by (simp add: nth_append)
  moreover have "length (recv_buf y) = length (recv_buf x)" using y(2) len by simp
  moreover have "\<forall>i \<in> {0} \<union> set_option (uri y) \<union> set_option (query y) \<union> set_option (fragment y) \<union> set_option (version y).
      i < length (request_line m p q f v)"
    using y(3-6) unfolding L [symmetric] lq by (auto simp: elem_set)
  ultimately show ?thesis using y by (intro exI [of _ y]) simp
qed


section \<open>Properties\<close>

definition fresh_exchange :: exchange where
  "fresh_exchange = (the (ymo_http_exchange_create 4 True))\<lparr>state := HTTP_STATE_REQUEST_METHOD\<rparr>"

lemma fresh_exchange_simps [simp]:
  "state fresh_exchange = HTTP_STATE_REQUEST_METHOD" "recv_current fresh_exchange = 0"
  "remain fresh_exchange = 1024" "length (recv_buf fresh_exchange) = 1024" "flags fresh_exchange = 0"
  "version fresh_exchange = None" "body_remain fresh_exchange = 0"
  by (simp_all add: fresh_exchange_def ymo_http_exchange_create_def ymo_http_exchange_reset_def
      YMO_HTTP_RECV_BUF_SIZE_def)

text \<open>C1: a well-formed request line that fits the receive buffer is consumed exactly up to its
  carriage return; method, path, query, fragment and version can then be read as C strings at their
  pointers, absent parts are NULL, and a version 1.1 request gets the keep-alive and chunking
  flags.\<close>
theorem request_line_parsed:
  assumes "state x = HTTP_STATE_REQUEST_METHOD" "recv_current x = 0" "request_line_ok m p q f v"
    and "length (request_line m p q f v) \<le> length (recv_buf x)" "length (request_line m p q f v) \<le> unat (remain x)"
  shows "\<exists>y u ve. ymo_parse_http_request_line x (request_line m p q f v @ cs) =
      Some (Inr (length (request_line m p q f v)), y) \<and>
    state y = HTTP_STATE_CRLF \<and> next_state y = HTTP_STATE_HEADER_NAME \<and>
    str_at y 0 = m \<and> uri y = Some u \<and> str_at y u = p \<and>
    map_option (str_at y) (query y) = q \<and> map_option (str_at y) (fragment y) = f \<and>
    version y = Some ve \<and> str_at y ve = v \<and> flags y = version_flags v (flags x)"
proof -
  obtain y where y: "ymo_parse_http_request_line x (request_line m p q f v @ cs) = Some (Inr (length (request_line m p q f v)), y)"
    "state y = HTTP_STATE_CRLF" "next_state y = HTTP_STATE_HEADER_NAME" "flags y = version_flags v (flags x)"
    "str_at y 0 = m" "map_option (str_at y) (uri y) = Some p" "map_option (str_at y) (query y) = q"
    "map_option (str_at y) (fragment y) = f" "map_option (str_at y) (version y) = Some v"
    using request_line_view [OF assms, of cs] by (elim exE conjE) (rule that)
  from y(6,9) obtain u ve where "uri y = Some u" "str_at y u = p" "version y = Some ve" "str_at y ve = v" by auto
  with y show ?thesis by (intro exI [of _ y] exI [of _ u] exI [of _ ve]) simp
qed

theorem request_line_parsed_witness:
  "\<exists>y u. ymo_parse_http_request_line fresh_exchange (str ''GET /a?b HTTP/1.1'' @ [CR, LF]) = Some (Inr 18, y) \<and>
     uri y = Some u \<and> str_at y u = str ''/a'' \<and> map_option (str_at y) (query y) = Some (str ''b'') \<and> fragment y = None"
proof -
  have l: "str ''GET /a?b HTTP/1.1'' @ [CR, LF] =
      request_line (str ''GET'') (str ''/a'') (Some (str ''b'')) None (str ''HTTP/1.1'') @ [LF]"
    by (simp add: request_line_def str_def chr_def SP_def)
  have n: "length (request_line (str ''GET'') (str ''/a'') (Some (str ''b'')) None (str ''HTTP/1.1'')) = 18"
    by (simp add: request_line_def str_def)
  have "request_line_ok (str ''GET'') (str ''/a'') (Some (str ''b'')) None (str ''HTTP/1.1'')"
    by (simp add: request_line_ok_def str_def chr_def SP_def CR_def version_ok_def IS_HTTP_METHOD_TOKEN_def byte_order)
  from request_line_parsed [OF _ _ this, of fresh_exchange "[LF]"] show ?thesis unfolding l n by auto
qed

text \<open>The request line may arrive in any two pieces: if the first read is consumed completely
  without reaching the end of the line, parsing the second read from there gives the same exchange,
  and the same total count, as parsing both at once.\<close>
theorem request_line_streamed:
  assumes "ymo_parse_http_request_line x a = Some (Inr (length a), y)" "a \<noteq> []" "state y \<noteq> HTTP_STATE_CRLF"
    and "ymo_parse_http_request_line y b = Some (Inr j, z)" "b \<noteq> []"
  shows "ymo_parse_http_request_line x (a @ b) = Some (Inr (length a + j), z)"
proof -
  have shift: "request_line_loop x' cur rem cs n = Some (Inr k, w) \<Longrightarrow>
      request_line_loop x' cur rem cs (n + d) = Some (Inr (k + d), w)" for x' cur rem cs n k w d
  proof (induction cs arbitrary: x' cur rem n)
    case (Cons c cs)
    note IH = Cons.IH [of _ _ _ "Suc n", simplified]
    from Cons.prems show ?case
      by (cases "line_action (state x') c")
        (auto simp: Let_def parse_done_def IH split: option.splits prod.splits if_splits)
  qed simp
  have "request_line_loop y (recv_current y) (remain y) b (0 + length a) = Some (Inr (j + length a), z)"
    using shift [of y "recv_current y" "remain y" b 0 j z "length a"] assms(4)
    by (simp add: ymo_parse_http_request_line_def)
  with request_line_append [of x _ _ a 0 y b] assms show ?thesis
    by (simp add: ymo_parse_http_request_line_def add.commute)
qed

theorem request_line_streamed_witness:
  "\<exists>y z. ymo_parse_http_request_line fresh_exchange (str ''GE'') = Some (Inr 2, y) \<and>
     ymo_parse_http_request_line y (str ''T /'') = Some (Inr 3, z) \<and>
     ymo_parse_http_request_line fresh_exchange (str ''GET /'') = Some (Inr 5, z)"
proof -
  note ev = ymo_parse_http_request_line_def line_action_def IS_HTTP_METHOD_TOKEN_def chr_def str_def SP_def
    byte_order parse_done_def Let_def
  obtain y where y: "ymo_parse_http_request_line fresh_exchange (str ''GE'') = Some (Inr 2, y)"
      "state y = HTTP_STATE_REQUEST_METHOD" "recv_current y = 2" "remain y = 1022" "length (recv_buf y) = 1024"
    by (simp add: ev)
  obtain z where z: "ymo_parse_http_request_line y (str ''T /'') = Some (Inr 3, z)"
    using y(2-5) by (simp add: ev)
  have "ymo_parse_http_request_line fresh_exchange (str ''GE'' @ str ''T /'') = Some (Inr (2 + 3), z)"
    using request_line_streamed [of fresh_exchange "str ''GE''" y "str ''T /''" 3 z] y z by (simp add: str_def)
  with y z show ?thesis by (auto simp: str_def)
qed

text \<open>C28: while the write position plus the space left is within the receive buffer, parsing a
  request line never writes outside it, and keeps the relation, except that it is off by one after
  the end of the line: the terminator written for the carriage return is not counted.\<close>
theorem request_line_in_bounds:
  assumes "input \<noteq> []" "line_inv x" "remain x \<noteq> 0" "recv_current x + unat (remain x) \<le> length (recv_buf x)"
  shows "\<exists>r y. ymo_parse_http_request_line x input = Some (r, y) \<and> length (recv_buf y) = length (recv_buf x) \<and>
    (\<forall>k. r = Inr k \<longrightarrow> line_inv y \<and> k \<le> length input \<and> remain y \<noteq> 0 \<and>
       recv_current y + unat (remain y) \<le> length (recv_buf x) + (if state y = HTTP_STATE_CRLF then 1 else 0))"
  using request_line_bounds [OF assms(1-4), of 0] by (simp add: ymo_parse_http_request_line_def)

theorem request_line_in_bounds_witness:
  "\<exists>r y. ymo_parse_http_request_line fresh_exchange [0x47] = Some (r, y) \<and> length (recv_buf y) = 1024"
  using request_line_in_bounds [of "[0x47]" fresh_exchange] by (auto simp: line_inv_def)

text \<open>A request line that fills the receive buffer exactly is accepted with one byte reported
  as still free, and the next header character is then written past the end of the buffer.\<close>
theorem request_line_off_by_one:
  assumes "state x = HTTP_STATE_REQUEST_METHOD" "recv_current x = 0" "request_line_ok m p q f v"
    and full: "length (request_line m p q f v) = 1024" "length (recv_buf x) = 1024" "remain x = 1024"
    and tok: "IS_HTTP_HDR_FIELD_TOKEN c"
  shows "\<exists>y z. ymo_parse_http_request_line x (request_line m p q f v) = Some (Inr 1024, y) \<and>
    ymo_parse_http_crlf y [LF] = Some (Inr 1, z) \<and> state z = HTTP_STATE_HEADER_NAME \<and>
    recv_current z = 1024 \<and> remain z = 1 \<and> ymo_parse_http_headers junk z (c # cs) = None"
proof -
  obtain y where y: "ymo_parse_http_request_line x (request_line m p q f v) = Some (Inr 1024, y)"
      "state y = HTTP_STATE_CRLF" "next_state y = HTTP_STATE_HEADER_NAME" "recv_current y = 1024"
      "remain y = 1" "length (recv_buf y) = 1024"
  proof -
    have len: "length (m @ 0 # p @ opt_part 0 q @ opt_part 0 f @ 0 # v @ [0]) = 1024"
      using full(1) length_opt_part [of 0 q QM] length_opt_part [of 0 f HASH] by (simp add: request_line_def)
    have "\<exists>y. ymo_parse_http_request_line x (request_line m p q f v) = Some (Inr 1024, y) \<and>
        state y = HTTP_STATE_CRLF \<and> next_state y = HTTP_STATE_HEADER_NAME \<and> recv_current y = 1024 \<and>
        remain y = 1 \<and> length (recv_buf y) = 1024"
      using request_line_parse [OF assms(1,3), of 0 "remain x" "[]" 0] assms(2) full len
      by (simp add: ymo_parse_http_request_line_def)
    then show ?thesis using that by blast
  qed
  let ?z = "y\<lparr>state := HTTP_STATE_HEADER_NAME, hdr_name := Some 1024\<rparr>"
  have "ymo_parse_http_crlf y [LF] = Some (Inr 1, ?z)" using y by (simp add: ymo_parse_http_crlf_def Let_def)
  moreover have "ymo_parse_http_headers junk ?z (c # cs) = None"
    using y field_token_neq [OF tok] tok by (simp add: ymo_parse_http_headers_def Let_def)
  ultimately show ?thesis using y by auto
qed

definition long_line :: bytes where
  "long_line = request_line [0x47] (replicate 1012 0x61) None None (str ''HTTP/1.1'')"

theorem request_line_off_by_one_witness:
  "\<exists>y z. ymo_parse_http_request_line fresh_exchange long_line = Some (Inr 1024, y) \<and>
     ymo_parse_http_crlf y [LF] = Some (Inr 1, z) \<and> ymo_parse_http_headers 0 z [0x41] = None"
proof -
  have ok: "request_line_ok [0x47] (replicate 1012 0x61) None None (str ''HTTP/1.1'')"
    by (simp add: request_line_ok_def str_def chr_def SP_def CR_def version_ok_def IS_HTTP_METHOD_TOKEN_def byte_order
        list_all_iff)
  have len: "length (request_line [0x47] (replicate 1012 0x61) None None (str ''HTTP/1.1'')) = 1024"
    by (simp add: request_line_def str_def)
  have tok: "IS_HTTP_HDR_FIELD_TOKEN 0x41" by (simp add: IS_HTTP_HDR_FIELD_TOKEN_def chr_def byte_order)
  from request_line_off_by_one [OF _ _ ok len _ _ tok, of fresh_exchange 0 "[]"] show ?thesis
    unfolding long_line_def by auto
qed

text \<open>A header line whose value has at most half the size of the space left is consumed up to its
  carriage return; the value is stored under the hash of the name, whatever its letters' case, and
  every other header of the table is as before.\<close>
theorem header_line_parsed:
  assumes st: "state x = HTTP_STATE_HEADER_NAME" "hdr_name x = Some (recv_current x)"
      "xh_id x = YMO_HTTP_HDR_HASH_INIT"
    and nm: "list_all IS_HTTP_HDR_FIELD_TOKEN name"
    and v: "CR \<notin> set v" "0 \<notin> set v" "v = [] \<or> hd v \<noteq> SP"
    and fit: "recv_current x + length name + length v + 2 \<le> length (recv_buf x)"
      "length name + 2 * length v + 2 < unat (remain x)"
    and t: "table_ok (headers x)" "lookup (headers x) (hash_of name) = None" "0 < pool (headers x) + mem (headers x)"
  shows "\<exists>z. ymo_parse_http_headers junk x (name @ COLON # SP # v @ CR # cs) =
      Some (Inr (length name + length v + 3), z) \<and>
    state z = HTTP_STATE_CRLF \<and> next_state z = HTTP_STATE_HEADER_NAME \<and> xh_id z = YMO_HTTP_HDR_HASH_INIT \<and>
    table_ok (headers z) \<and>
    (\<forall>h. lookup (headers z) h = (if h = hash_of name then Some v else lookup (headers x) h))"
proof -
  note hl = header_line [OF st nm v fit]
  let ?y = "x\<lparr>xh_id := foldl YMO_HDR_HASH_CH (xh_id x) name,
      recv_buf := put (recv_current x) (name @ 0 # v @ [0]) (recv_buf x),
      recv_current := recv_current x + length name + 1, remain := remain x - word_of_nat (length name + 1),
      hdr_value := Some (recv_current x + length name + 1), state := HTTP_STATE_HEADER_VALUE\<rparr>"
  have "find_pos (hash_of name) (bucket (headers x) ! hdr_index (hash_of name)) = None"
  proof (rule ccontr)
    assume "find_pos (hash_of name) (bucket (headers x) ! hdr_index (hash_of name)) \<noteq> None"
    then obtain k where k: "find_pos (hash_of name) (bucket (headers x) ! hdr_index (hash_of name)) = Some k" by auto
    have "bucket (headers x) ! hdr_index (hash_of name) ! k \<in> set (bucket (headers x) ! hdr_index (hash_of name))"
      using find_pos_SomeD [OF k] by simp
    from table_okD [OF t(1) this] k t(2) show False by (simp add: lookup_alt node_ok_def)
  qed
  then have add: "ymo_http_hdr_table_add_precompute junk (headers ?y) (xh_id ?y AND YMO_HDR_TABLE_MASK)
      (str_at ?y (recv_current x)) (str_at ?y (recv_current x + length name + 1)) =
    Some (table_insert_first (headers x) (hash_of name) (hdr_index (hash_of name)) name v)"
    unfolding hl(2-4) by (simp add: ymo_http_hdr_table_add_precompute_def Let_def)
  obtain r t' where ti: "table_insert_first (headers x) (hash_of name) (hdr_index (hash_of name)) name v = (r, t')"
    by (cases "table_insert_first (headers x) (hash_of name) (hdr_index (hash_of name)) name v")
  note ins = insert_first_ok [OF t(1) ti]
  obtain z where z: "http_header_got_value junk ?y (recv_current x) (recv_current x + length name + 1) (length v) = Some z"
    using got_value_Some [of junk ?y] add by (metis not_None_eq)
  note f = got_value_fields [OF z]
  have "headers z = t'" using f(4) add ti by simp
  with ins(1) ins(2) [OF t(3)] z f(3) hl(1) [of junk cs] show ?thesis by (simp add: parser_saw_cr_def)
qed

definition header_exchange :: exchange where
  "header_exchange = fresh_exchange\<lparr>state := HTTP_STATE_HEADER_NAME, hdr_name := Some 0\<rparr>"

theorem header_line_parsed_witness:
  "\<exists>z. ymo_parse_http_headers 0 header_exchange (str ''Ab: c'' @ [CR]) = Some (Inr 6, z) \<and>
     lookup (headers z) (hash_of (str ''aB'')) = Some (str ''c'')"
proof -
  have t: "table_ok (headers header_exchange)" "lookup (headers header_exchange) h = None"
      "pool (headers header_exchange) + mem (headers header_exchange) = 8"
      "xh_id header_exchange = YMO_HTTP_HDR_HASH_INIT" for h
    by (simp_all add: header_exchange_def fresh_exchange_def ymo_http_exchange_create_def ymo_http_exchange_reset_def
        ymo_http_hdr_table_clear_def ymo_http_hdr_table_init_def ymo_http_hdr_table_create_def lookup_alt table_ok_def
        YMO_HDR_TABLE_POOL_SIZE_def)
  have l: "str ''Ab: c'' @ [CR] = str ''Ab'' @ COLON # SP # str ''c'' @ CR # []" by (simp add: str_def chr_def SP_def)
  have e: "hash_of (str ''aB'') = hash_of (str ''Ab'')"
    by (simp add: hash_of_def ymo_http_hdr_hash_283_5_def str_def chr_def YMO_HDR_HASH_CH_def)
  have pos: "0 < pool (headers header_exchange) + mem (headers header_exchange)" by (simp only: t(3))
  have x: "state header_exchange = HTTP_STATE_HEADER_NAME" "hdr_name header_exchange = Some (recv_current header_exchange)"
      "recv_current header_exchange = 0" "length (recv_buf header_exchange) = 1024" "remain header_exchange = 1024"
    by (simp_all add: header_exchange_def)
  have "list_all IS_HTTP_HDR_FIELD_TOKEN (str ''Ab'')" "CR \<notin> set (str ''c'')" "0 \<notin> set (str ''c'')"
      "hd (str ''c'') \<noteq> SP"
    by (simp_all add: str_def chr_def CR_def SP_def IS_HTTP_HDR_FIELD_TOKEN_def byte_order)
  from header_line_parsed [OF x(1,2) t(4) this(1-3) disjI2 [OF this(4)] _ _ t(1,2) pos, of 0 "[]"] x(3-5)
  show ?thesis unfolding l e by (auto simp: str_def)
qed

text \<open>When the space left is odd, a header value that is longer than the rest of the receive
  buffer and arrives in one read is written past the end of the buffer: the space left is
  decremented twice for each character and wraps around without ever being found zero.\<close>
theorem header_value_overflows:
  assumes "state x = HTTP_STATE_HEADER_VALUE" "odd (unat (remain x))" "CR \<notin> set v"
    and "recv_current x \<le> length (recv_buf x)" "length (recv_buf x) < recv_current x + length v"
  shows "ymo_parse_http_headers junk x v = None"
  using header_value_overflow [OF assms(3,2,4,5), of junk 0] assms(1)
  by (simp add: ymo_parse_http_headers_def Let_def)

theorem header_value_overflows_witness:
  "ymo_parse_http_headers 0 (fresh_exchange\<lparr>state := HTTP_STATE_HEADER_VALUE, recv_current := 5, remain := 1019\<rparr>)
     (replicate 1020 0x61) = None"
  using header_value_overflows [of "fresh_exchange\<lparr>state := HTTP_STATE_HEADER_VALUE, recv_current := 5, remain := 1019\<rparr>"
      "replicate 1020 0x61" 0] by (simp add: CR_def)

text \<open>The bit-twiddled reading of a chunk size is the number its hexadecimal digits denote, of
  either case, modulo the width of the counter.\<close>
theorem chunk_size_is_hex:
  "foldl (\<lambda>a d. Option.bind a (\<lambda>a. map_option (\<lambda>d. 16 * a + d) (hexval d))) (Some 0) ds = Some k \<Longrightarrow>
   foldl chunk_digit 0 ds = word_of_nat k"
proof (induction ds arbitrary: k rule: rev_induct)
  case (snoc d ds)
  then obtain a e where "foldl (\<lambda>a d. Option.bind a (\<lambda>a. map_option (\<lambda>d. 16 * a + d) (hexval d))) (Some 0) ds = Some a"
      "hexval d = Some e" "k = 16 * a + e" by (auto simp: bind_eq_Some_conv)
  with snoc.IH [of a] chunk_digit_hex [of d e] show ?case by simp
qed simp

theorem chunk_size_is_hex_witness: "foldl chunk_digit 0 (str ''1aF'') = 0x1af"
  using chunk_size_is_hex [of "str ''1aF''" "0x1af"] by (simp add: str_def chr_def hexval_def byte_order)

text \<open>
  C22: a request body that is not chunked and whose length is not 0, cut in any way into non-empty reads, is handed
  to a callback that accepts it byte for byte and in order.  Each read consumes all that it is given, except the one
  in which the body ends, which consumes the rest of the body and leaves the bytes behind it (the next request)
  alone; the exchange is complete exactly when all of the body has arrived, and no read before that has consumed
  anything that is not of the body.
\<close>
theorem body_delivered:
  assumes "state x = HTTP_STATE_BODY" "next_state x = HTTP_STATE_COMPLETE"
    and "flags x AND YMO_HTTP_REQUEST_CHUNKED = 0" "body_remain x \<noteq> 0"
    and "\<forall>cs \<in> set css. cs \<noteq> []"
  shows "\<exists>ks y. body_reads log_cb x css [] = Some (ks, y, take (unat (body_remain x)) (concat css)) \<and>
    ks = body_counts (unat (body_remain x)) css \<and> sum_list ks = min (unat (body_remain x)) (length (concat css)) \<and>
    (state y = HTTP_STATE_COMPLETE \<longleftrightarrow> unat (body_remain x) \<le> length (concat css))"
  using log.body_reads_plain [OF assms, of "[]"] body_counts_sum by auto

lemma counts_example: "body_counts 4 [[1, 2, 3], [4, 5]] = [3, 1]"
  by simp

theorem body_delivered_witness:
  "\<exists>y. body_reads log_cb
       (fresh_exchange\<lparr>state := HTTP_STATE_BODY, next_state := HTTP_STATE_COMPLETE, body_remain := 4\<rparr>)
       [[1, 2, 3], [4, 5]] [] = Some ([3, 1], y, [1, 2, 3, 4]) \<and> state y = HTTP_STATE_COMPLETE"
  using body_delivered [of "fresh_exchange\<lparr>state := HTTP_STATE_BODY, next_state := HTTP_STATE_COMPLETE, body_remain := 4\<rparr>"
      "[[1, 2, 3], [4, 5]]"] by (simp add: counts_example del: body_reads.simps body_counts.simps)

text \<open>The line feed that ends a chunk header is not counted, so that a read which ends with the
  data of the chunk makes the parser read one byte past it.\<close>
theorem chunk_header_over_read:
  "ymo_parse_http_body log_cb
     (fresh_exchange\<lparr>state := HTTP_STATE_BODY_CHUNK_HEADER, flags := YMO_HTTP_REQUEST_CHUNKED\<rparr>)
     [0x31, CR, LF, 0x41] [] = None"
proof -
  have d: "chunk_digit 0 0x31 = 1" by (simp add: chunk_digit_def)
  have f: "3 * length [0x31, CR, LF, 0x41] + 3 = Suc (Suc (Suc 12))" by simp
  have "body_loop (Suc (Suc (Suc n))) log_cb
      (fresh_exchange\<lparr>state := HTTP_STATE_BODY_CHUNK_HEADER, flags := YMO_HTTP_REQUEST_CHUNKED\<rparr>)
      [0x31, CR, LF, 0x41] (length [0x31, CR, LF, 0x41]) [] = None" for n
    by (simp add: CR_def LF_def d Let_def http_flag_defs log_cb_def)
  then show ?thesis unfolding ymo_parse_http_body_def f by (simp only: option.map)
qed

text \<open>A \<^verbatim>\<open>Connection: close\<close> header after \<^verbatim>\<open>Transfer-Encoding: chunked\<close> makes an HTTP/1.1
  request lose its chunked flag: the mask that clears the keep-alive bit clears every bit from 8 up.\<close>
theorem connection_close_drops_chunked:
  assumes "xh_id x AND YMO_HDR_TABLE_MASK = 31919" "flags x AND YMO_HTTP_FLAG_VERSION_1_1 \<noteq> 0"
    and "str_at x v = str ''close''" "http_header_got_value junk x nm v 5 = Some y"
  shows "flags y AND YMO_HTTP_REQUEST_CHUNKED = 0"
proof -
  have l: "length (str ''close'') = 5" "length ''close'' = 5" by (simp_all add: str_def)
  have "ymo_strcasecmp (str ''close'') (length (str ''close'')) (str ''close'') (length (str ''close'')) = 0"
    by (subst strcasecmp_eq_0_iff) (simp_all add: l(1))
  then have e: "str_eq_nocase (str ''close'') 5 ''close''" unfolding str_eq_nocase_def l .
  obtain r t where "ymo_http_hdr_table_add_precompute junk (headers x) 31919 (str_at x nm) (str ''close'') = Some (r, t)"
    using assms(4) got_value_Some [of junk x nm v 5] assms(1,3) by (cases "ymo_http_hdr_table_add_precompute junk
      (headers x) 31919 (str_at x nm) (str ''close'')") auto
  with assms(4) have "flags y = flags x AND YMO_HTTP_FLAG_REQUEST_CLOSE"
    unfolding http_header_got_value_def Let_def assms(1,3) using assms(2) e by auto
  then show ?thesis by (simp add: http_flag_defs and.assoc)
qed

theorem connection_close_drops_chunked_witness:
  "\<exists>y. http_header_got_value 0 (fresh_exchange\<lparr>xh_id := 31919, flags := 0x1000d,
         recv_buf := str ''Connection'' @ [0] @ str ''close'' @ [0]\<rparr>) 0 11 5 = Some y \<and>
       flags y AND YMO_HTTP_REQUEST_CHUNKED = 0"
proof -
  let ?x = "fresh_exchange\<lparr>xh_id := 31919, flags := 0x1000d, recv_buf := str ''Connection'' @ [0] @ str ''close'' @ [0]\<rparr>"
  have "ymo_http_hdr_table_add_precompute 0 (headers ?x) (xh_id ?x AND YMO_HDR_TABLE_MASK) (str_at ?x 0) (str_at ?x 11) \<noteq> None"
    by (simp add: ymo_http_hdr_table_add_precompute_def Let_def fresh_exchange_def ymo_http_exchange_create_def
        ymo_http_exchange_reset_def ymo_http_hdr_table_clear_def ymo_http_hdr_table_init_def
        ymo_http_hdr_table_create_def YMO_HDR_TABLE_BUCKET_SIZE_def hdr_index_def YMO_HDR_TABLE_MASK_def)
  then obtain y where y: "http_header_got_value 0 ?x 0 11 5 = Some y"
    using got_value_Some [of 0 ?x 0 11 5] by auto
  with connection_close_drops_chunked [OF _ _ _ y] show ?thesis
    by (auto simp: str_at_def str_def chr_def YMO_HDR_TABLE_MASK_def http_flag_defs)
qed

end
