(* ===== verification/Http_Response.thy ===== *)
theory Http_Response
  imports Http_Request Net
begin

text \<open>
  HTTP responses: \<^verbatim>\<open>src/protocol/http/ymo_http_response.c\<close>, from the status line to the chunks that are
  sent.  \<open>None\<close> is an access outside an array, or a use of \<open>NULL\<close>; what an operation asks of the
  connection is returned beside the response.
\<close>

section \<open>Numbers as text\<close>

text \<open>The digits \<^verbatim>\<open>printf\<close> writes for \<^verbatim>\<open>%i\<close>, \<^verbatim>\<open>%zu\<close> (base ten) and \<^verbatim>\<open>%zx\<close> (base sixteen).\<close>

definition digit :: "nat \<Rightarrow> byte" where
  "digit d = word_of_nat (if d < 10 then 48 + d else 87 + d)"

fun digits :: "nat \<Rightarrow> nat \<Rightarrow> bytes" where
  "digits b n = (if n < b \<or> b < 2 then [digit n] else digits b (n div b) @ [digit (n mod b)])"

declare digits.simps [simp del]

lemma digits_small: "n < b \<Longrightarrow> digits b n = [digit n]"
  by (simp add: digits.simps)

lemma digits_step: "b \<le> n \<Longrightarrow> 2 \<le> b \<Longrightarrow> digits b n = digits b (n div b) @ [digit (n mod b)]"
  by (simp add: digits.simps [of b n])

lemma digits_nonempty [simp]: "digits b n \<noteq> []"
  by (simp add: digits.simps [of b n])

section \<open>The response\<close>

definition YMO_HTTP_RESPONSE_READY :: u32 where "YMO_HTTP_RESPONSE_READY = 0x1000000"
definition YMO_HTTP_RESPONSE_STARTED :: u32 where "YMO_HTTP_RESPONSE_STARTED = 0x2000000"
definition YMO_HTTP_RESPONSE_COMPLETE :: u32 where "YMO_HTTP_RESPONSE_COMPLETE = 0x4000000"
definition YMO_HTTP_RESPONSE_CHUNKED :: u32 where "YMO_HTTP_RESPONSE_CHUNKED = 0x8000000"
definition YMO_HTTP_RESPONSE_CHUNK_TERM :: u32 where "YMO_HTTP_RESPONSE_CHUNK_TERM = 0x10000000"

lemmas response_flag_defs = YMO_HTTP_RESPONSE_READY_def YMO_HTTP_RESPONSE_STARTED_def
  YMO_HTTP_RESPONSE_COMPLETE_def YMO_HTTP_RESPONSE_CHUNKED_def YMO_HTTP_RESPONSE_CHUNK_TERM_def

definition STATUS_STR_BUFF_SIZE :: nat where "STATUS_STR_BUFF_SIZE = 32"
definition STATUS_STR_MAX_LEN :: nat where "STATUS_STR_MAX_LEN = STATUS_STR_BUFF_SIZE - 1"
definition YMO_HTTP_SEND_BUF_SIZE :: nat where "YMO_HTTP_SEND_BUF_SIZE = 1024"

text \<open>
  \<open>body_tail\<close> is the position of the bucket the tail pointer points to in the chain \<open>body_head\<close>;
  \<open>proto_new\<close> is an index into the program's protocols.
\<close>

record response =
  r_headers :: hdr_table
  content_len :: u64
  content_len_str :: bytes
  status_len :: nat
  status_str :: bytes
  body_head :: chain
  body_tail :: "nat option"
  proto_new :: "nat option"
  r_status :: u16
  r_flags :: u32

text \<open>\<open>m\<close> is the memory left for header nodes.\<close>

definition ymo_http_response_create :: "nat \<Rightarrow> response" where
  "ymo_http_response_create m =
     \<lparr>r_headers = ymo_http_hdr_table_init (ymo_http_hdr_table_create m), content_len = 0, content_len_str = [],
      status_len = 0, status_str = replicate STATUS_STR_BUFF_SIZE 0, body_head = [], body_tail = None,
      proto_new = None, r_status = 200, r_flags = 0\<rparr>"

definition has_flag :: "u32 \<Rightarrow> u32 \<Rightarrow> bool" where
  "has_flag f fs \<longleftrightarrow> fs AND f \<noteq> 0"

definition ymo_http_response_get_header :: "response \<Rightarrow> bytes \<Rightarrow> bytes option option" where
  "ymo_http_response_get_header r name = ymo_http_hdr_table_get (r_headers r) name"

definition ymo_http_response_insert_header :: "bytes \<Rightarrow> bytes \<Rightarrow> response \<Rightarrow> response" where
  "ymo_http_response_insert_header name v r = r\<lparr>r_headers := snd (ymo_http_hdr_table_insert (r_headers r) name v)\<rparr>"

text \<open>In spite of its name this inserts, like the previous one.\<close>

definition ymo_http_response_add_header :: "bytes \<Rightarrow> bytes \<Rightarrow> response \<Rightarrow> response" where
  "ymo_http_response_add_header name v r = r\<lparr>r_headers := snd (ymo_http_hdr_table_insert (r_headers r) name v)\<rparr>"

definition ymo_http_response_set_flag :: "u32 \<Rightarrow> response \<Rightarrow> response" where
  "ymo_http_response_set_flag f r = r\<lparr>r_flags := r_flags r OR f\<rparr>"

definition ymo_http_response_set_flags :: "u32 \<Rightarrow> response \<Rightarrow> response" where
  "ymo_http_response_set_flags fs r = r\<lparr>r_flags := fs\<rparr>"

definition ymo_http_response_is_ready :: "response \<Rightarrow> bool" where
  "ymo_http_response_is_ready r \<longleftrightarrow> has_flag YMO_HTTP_RESPONSE_READY (r_flags r)"

definition ymo_http_response_finished :: "response \<Rightarrow> bool" where
  "ymo_http_response_finished r \<longleftrightarrow> has_flag YMO_HTTP_RESPONSE_COMPLETE (r_flags r)"

definition ymo_http_response_ready :: "response \<Rightarrow> response \<times> conn_act list" where
  "ymo_http_response_ready r = (ymo_http_response_set_flag YMO_HTTP_RESPONSE_READY r, [Tx_enable True])"

definition ymo_http_response_finish :: "response \<Rightarrow> response \<times> conn_act list" where
  "ymo_http_response_finish r =
     (ymo_http_response_set_flag (YMO_HTTP_RESPONSE_READY OR YMO_HTTP_RESPONSE_COMPLETE) r, [Tx_enable True])"

text \<open>Data is appended from the tail pointer on; the pointer then is the tail of the data, if there is any.\<close>

definition ymo_http_response_body_append :: "chain \<Rightarrow> response \<Rightarrow> response \<times> conn_act list" where
  "ymo_http_response_body_append body_data r =
     (let r = (if body_head r = []
          then r\<lparr>body_head := body_data, body_tail := (if body_data = [] then None else Some 0)\<rparr>
          else case body_tail r of
                 None \<Rightarrow> r\<lparr>body_tail := (if body_data = [] then None else Some (length (body_head r)))\<rparr>
               | Some k \<Rightarrow>
                   r\<lparr>body_head := take k (body_head r) @ fst (ymo_bucket_append (drop k (body_head r)) body_data),
                     body_tail := (if body_data = [] then None
                       else Some (length (body_head r) + length body_data - 1))\<rparr>)
      in if has_flag YMO_HTTP_FLAG_SUPPORTS_CHUNKED (r_flags r) then ymo_http_response_ready r else (r, []))"

section \<open>The status\<close>

text \<open>\<open>None\<close>: the function has no reason for the code and returns \<open>NULL\<close>.\<close>

definition http_reasons :: "(nat \<times> string) list" where
  "http_reasons =
     [(100, ''Continue''), (101, ''Switching Protocols''), (200, ''OK''), (201, ''Created''), (202, ''Accepted''),
      (203, ''Non-Authoritative Information''), (204, ''No Content''), (205, ''Reset Content''),
      (206, ''Partial Content''), (300, ''Multiple Choices''), (301, ''Moved Permanently''), (302, ''Found''),
      (303, ''See Other''), (304, ''Not Modified''), (305, ''Use Proxy''), (307, ''Temporary Redirect''),
      (400, ''Bad Request''), (401, ''Unauthorized''), (402, ''Payment Required''), (403, ''Forbidden''),
      (404, ''Not Found''), (405, ''Method Not Allowed''), (406, ''Not Acceptable''),
      (407, ''Proxy Authentication Required''), (408, ''Request Timeout''), (409, ''Conflict''), (410, ''Gone''),
      (411, ''Length Required''), (412, ''Precondition Failed''), (413, ''Request Entity Too Large''),
      (414, ''Request URI Too long''), (415, ''Unsupported Media Type''),
      (416, ''Requested Range Not Satisfiable''), (417, ''Expectation Failed''), (500, ''Internal Server Error''),
      (501, ''Not Implemented''), (502, ''Bad Gateway''), (503, ''Service Unavailable''),
      (504, ''Gateway Timeout''), (505, ''HTTP Version Not Supported'')]"

definition get_http_reason :: "u16 \<Rightarrow> bytes option" where
  "get_http_reason status = map_option str (map_of http_reasons (unat status))"

text \<open>
  \<^verbatim>\<open>snprintf\<close> stores at most \<open>STATUS_STR_MAX_LEN - 1\<close> characters and a terminator but returns the length of
  the whole text.  Formatting a \<open>NULL\<close> reason is undefined.
\<close>

definition status_text :: "u16 \<Rightarrow> bytes option" where
  "status_text status = map_option (\<lambda>reason. digits 10 (unat status) @ str '' '' @ reason) (get_http_reason status)"

definition overwrite :: "bytes \<Rightarrow> bytes \<Rightarrow> bytes" where
  "overwrite new old = new @ drop (length new) old"

definition ymo_http_response_set_status :: "u16 \<Rightarrow> response \<Rightarrow> response option" where
  "ymo_http_response_set_status status r =
     map_option (\<lambda>text. r\<lparr>r_status := status, status_len := length text,
         status_str := overwrite (take (STATUS_STR_MAX_LEN - 1) text @ [0]) (status_str r)\<rparr>) (status_text status)"

text \<open>
  The status line in a C string: \<^verbatim>\<open>memccpy\<close> answers \<open>NULL\<close> when it finds no terminator, and the length is
  then computed from it.  The code is read from the first three characters.
\<close>

definition YMO_HTTP_STATUS_CHR3_TO_INT :: "bytes \<Rightarrow> u16" where
  "YMO_HTTP_STATUS_CHR3_TO_INT s =
     ucast (s ! 0 AND 0xf) * 100 + ucast (s ! 1 AND 0xf) * 10 + ucast (s ! 2 AND 0xf)"

definition ymo_http_response_set_status_str :: "bytes \<Rightarrow> response \<Rightarrow> response option" where
  "ymo_http_response_set_status_str s r =
     (if length s < STATUS_STR_MAX_LEN \<and> 2 \<le> length s
      then Some (r\<lparr>status_str := overwrite (s @ [0]) (status_str r), status_len := length s,
        r_status := YMO_HTTP_STATUS_CHR3_TO_INT (s @ [0])\<rparr>)
      else None)"

text \<open>Issuing a status finishes the response; the flag tells whether the session is now in error.\<close>

definition ymo_http_response_issue :: "u16 \<Rightarrow> response \<Rightarrow> (response \<times> bool \<times> conn_act list) option" where
  "ymo_http_response_issue status r =
     (let r = (if 400 \<le> status then ymo_http_response_insert_header (str ''Connection'') (str ''Close'') r else r)
      in map_option (\<lambda>r. case ymo_http_response_finish r of (r, todo) \<Rightarrow> (r, 400 \<le> status, todo))
           (ymo_http_response_set_status status r))"

section \<open>Serialisation\<close>

definition HID_CONTENT_LENGTH :: u16 where "HID_CONTENT_LENGTH = 12647"
definition HID_TRANSFER_ENCODING :: u16 where "HID_TRANSFER_ENCODING = 15812"

definition should_buffer_body :: "response \<Rightarrow> (bool \<times> response) option" where
  "should_buffer_body r =
     (case ymo_http_hdr_table_get_id (r_headers r) HID_CONTENT_LENGTH of
        None \<Rightarrow> None
      | Some app_hdr_cl \<Rightarrow>
        (case ymo_http_hdr_table_get_id (r_headers r) HID_TRANSFER_ENCODING of
           None \<Rightarrow> None
         | Some app_hdr_te \<Rightarrow>
             Some (if app_hdr_cl \<noteq> None \<or> app_hdr_te \<noteq> None then (False, r)
               else if ymo_http_response_finished r then
                 (let len = content_len r + word_of_nat (ymo_bucket_len_all (body_head r));
                      text = digits 10 (unat len)
                  in (False, r\<lparr>content_len := len, content_len_str := text,
                        r_headers := snd (ymo_http_hdr_table_insert_precompute (r_headers r)
                          HID_CONTENT_LENGTH (str ''Content-Length'') text)\<rparr>))
               else if has_flag YMO_HTTP_FLAG_SUPPORTS_CHUNKED (r_flags r) then
                 (False, r\<lparr>r_headers := snd (ymo_http_hdr_table_insert (r_headers r)
                            (str ''Transfer-Encoding'') (str ''Chunked'')),
                           r_flags := r_flags r OR YMO_HTTP_RESPONSE_CHUNKED\<rparr>)
               else (True, r))))"

text \<open>
  Writing to the buffer of the head: the bytes so far and what is held to remain; a write past the
  end of the buffer is \<open>None\<close>.
\<close>

definition emit :: "bytes \<Rightarrow> bytes \<times> int \<Rightarrow> (bytes \<times> int) option" where
  "emit bs w =
     (case w of (out, avail) \<Rightarrow>
        if length out + length bs \<le> YMO_HTTP_SEND_BUF_SIZE then Some (out @ bs, avail - int (length bs)) else None)"

text \<open>
  One header: \<open>Inl ENOMEM\<close> when it is found not to fit.  The check on the name lets four bytes too many
  pass; the value is copied with its terminator, which the next character replaces.
\<close>

definition emit_header :: "bytes \<Rightarrow> bytes \<Rightarrow> bytes \<times> int \<Rightarrow> (ymo_status + bytes \<times> int) option" where
  "emit_header key value w =
     (if int (length key) < snd w + 2 then
        (case Option.bind (emit key w) (emit (str '': '')) of
           None \<Rightarrow> None
         | Some (out, avail) \<Rightarrow>
             if avail < int (length value) + 1 then Some (Inl ENOMEM)
             else
               (case emit value (out, avail) of
                  None \<Rightarrow> None
                | Some (out, avail) \<Rightarrow>
                    if 2 \<le> avail then map_option Inr (emit [CR, LF] (out, avail)) else Some (Inl ENOMEM)))
      else Some (Inl ENOMEM))"

fun emit_headers :: "(bytes \<times> bytes option) list \<Rightarrow> bytes \<times> int \<Rightarrow> (ymo_status + bytes \<times> int) option" where
  "emit_headers [] w = Some (Inr w)"
| "emit_headers ((key, value) # hs) w =
     (case value of
        None \<Rightarrow> None
      | Some v \<Rightarrow>
        (case emit_header key v w of
           None \<Rightarrow> None
         | Some (Inl st) \<Rightarrow> Some (Inl st)
         | Some (Inr w) \<Rightarrow> emit_headers hs w))"

definition emit_head :: "response \<Rightarrow> (ymo_status + bytes) option" where
  "emit_head r =
     (let avail = int YMO_HTTP_SEND_BUF_SIZE in
      if avail < int (status_len r) + 11 then Some (Inl ENOMEM)
      else if length (status_str r) < status_len r then None
      else
        (case hdr_iterate (Suc (length (concat (bucket (r_headers r))))) (r_headers r) None of
           None \<Rightarrow> None
         | Some hs \<Rightarrow>
           (case Option.bind (emit (str ''HTTP/1.1 '' @ take (status_len r) (status_str r) @ [CR, LF]) ([], avail))
                   (emit_headers hs) of
              None \<Rightarrow> None
            | Some (Inl st) \<Rightarrow> Some (Inl st)
            | Some (Inr (out, avail)) \<Rightarrow>
                if avail < 2 then Some (Inl ENOMEM)
                else map_option (\<lambda>(out, _). Inr out) (emit [CR, LF] (out, avail)))))"

text \<open>
  \<open>m\<close> counts the allocations that succeed: the buffer and the bucket.  \<open>Inl YMO_OKAY\<close>: the body is still
  being buffered.
\<close>

definition ymo_http_response_start :: "nat \<Rightarrow> response \<Rightarrow> ((ymo_status + chain) \<times> response) option" where
  "ymo_http_response_start m r =
     (if hd (status_str r) = 0 \<or> status_len r = 0 then Some (Inl EINVAL, r)
      else
        (case should_buffer_body r of
           None \<Rightarrow> None
         | Some (True, r) \<Rightarrow> Some (Inl YMO_OKAY, r)
         | Some (False, r) \<Rightarrow>
             if m = 0 then Some (Inl ENOMEM, r)
             else
               (case emit_head r of
                  None \<Rightarrow> None
                | Some (Inl st) \<Rightarrow> Some (Inl st, r)
                | Some (Inr out) \<Rightarrow>
                    let bucket_out = snd (ymo_bucket_create (m - 1) [] [] (Some out) out)
                    in Some (if bucket_out \<noteq> [] then Inr bucket_out else Inl ENOMEM, r))))"

section \<open>The body\<close>

text \<open>
  The static buffer \<^verbatim>\<open>chunk_hdr_buf\<close> has eight bytes, of which \<^verbatim>\<open>snprintf\<close> fills at most six and a
  terminator; as many bytes are copied from it as the whole text has.
\<close>

definition chunk_hdr_bytes :: "nat \<Rightarrow> bytes option" where
  "chunk_hdr_bytes len =
     (let text = digits 16 len @ [CR, LF]
      in if 8 < length text then None
         else Some (if length text \<le> 6 then text else take 6 text @ replicate (length text - 6) 0))"

fun chunk_body :: "nat \<Rightarrow> chain \<Rightarrow> chain option" where
  "chunk_body m [] = Some []"
| "chunk_body m (body_data # current) =
     (case chunk_hdr_bytes (blen body_data) of
        None \<Rightarrow> None
      | Some hdr_text \<Rightarrow>
        (case ymo_bucket_create_cpy m [] [] hdr_text of
           Some (_, chunk_hdr # _) \<Rightarrow>
             (case ymo_bucket_create_cpy (m - 2) [] [] [CR, LF] of
                None \<Rightarrow> None
              | Some (_, term) \<Rightarrow>
                  map_option (\<lambda>rest. chunk_hdr # body_data # term @ rest) (chunk_body (m - 4) current))
         | _ \<Rightarrow> None))"

definition ymo_http_response_body_get :: "nat \<Rightarrow> response \<Rightarrow> (chain \<times> response) option" where
  "ymo_http_response_body_get m r =
     map_option (\<lambda>bucket_out. (bucket_out, r\<lparr>body_head := [], body_tail := None\<rparr>))
       (if has_flag YMO_HTTP_RESPONSE_CHUNKED (r_flags r) then chunk_body m (body_head r)
        else Some (body_head r))"

text \<open>What freeing a response gives back is the table's.\<close>

definition ymo_http_response_free :: "response \<Rightarrow> hdr_table" where
  "ymo_http_response_free r = ymo_http_hdr_table_clear (r_headers r)"

section \<open>Reading numbers back\<close>

lemma digit_values:
  "d < 16 \<Longrightarrow> hexval (digit d) = Some d"
  "d < 10 \<Longrightarrow> is_digit (digit d) \<and> uint (digit d) = 48 + int d"
proof -
  have "\<forall>d \<in> {..<16}. hexval (digit d) = Some d" "\<forall>d \<in> {..<10}. is_digit (digit d) \<and> uint (digit d) = 48 + int d"
    by (simp_all add: lessThan_nat_numeral lessThan_Suc digit_def hexval_def is_digit_def byte_order)
  then show "d < 16 \<Longrightarrow> hexval (digit d) = Some d"
    "d < 10 \<Longrightarrow> is_digit (digit d) \<and> uint (digit d) = 48 + int d" by auto
qed

definition hex_number :: "bytes \<Rightarrow> nat" where
  "hex_number s = foldl (\<lambda>a c. 16 * a + the (hexval c)) 0 s"

lemma hex_digits: "hex_number (digits 16 n) = n \<and> (\<forall>c \<in> set (digits 16 n). hexval c \<noteq> None)"
proof (induction n rule: less_induct)
  case (less n)
  show ?case
  proof (cases "n < 16")
    case True
    then show ?thesis by (simp add: digits_small hex_number_def digit_values(1))
  next
    case False
    with less [of "n div 16"] show ?thesis
      by (auto simp: digits_step hex_number_def digit_values(1))
  qed
qed

lemma decimal_digits:
  "foldl (\<lambda>a d. a * 10 + (uint d - 48)) 0 (digits 10 n) = int n \<and> list_all is_digit (digits 10 n)"
proof (induction n rule: less_induct)
  case (less n)
  show ?case
  proof (cases "n < 10")
    case True
    then show ?thesis by (simp add: digits_small digit_values(2))
  next
    case False
    have "int (n div 10 * 10 + n mod 10) = int n" by (simp only: div_mult_mod_eq)
    with False less [of "n div 10"] show ?thesis
      unfolding of_nat_add of_nat_mult of_nat_numeral by (auto simp: digits_step digit_values(2))
  qed
qed

lemma chunk_digit_digits: "foldl chunk_digit 0 (digits 16 n) = word_of_nat n"
proof (induction n rule: less_induct)
  case (less n)
  show ?case
  proof (cases "n < 16")
    case True
    then show ?thesis by (simp add: digits_small chunk_digit_hex [OF digit_values(1)])
  next
    case False
    have "(word_of_nat (16 * (n div 16) + n mod 16) :: u64) = word_of_nat n" by (simp only: mult_div_mod_eq)
    with False less [of "n div 16"] show ?thesis
      unfolding of_nat_add of_nat_mult of_nat_numeral
      by (simp add: digits_step chunk_digit_hex [OF digit_values(1)])
  qed
qed

lemma strtol_digits: "n < 2 ^ 63 \<Longrightarrow> strtol10 (digits 10 n @ [c]) = (int n, [c])" if "\<not> is_digit c"
proof -
  assume n: "n < 2 ^ 63"
  obtain d ds where d: "digits 10 n = d # ds" by (cases "digits 10 n") auto
  then have "is_digit d" using decimal_digits [of n] by simp
  then have a: "\<not> is_space d" "d \<noteq> chr CHR ''-''" "d \<noteq> chr CHR ''+''"
    by (auto simp: is_digit_def is_space_def chr_def byte_order)
  have "takeWhile is_digit (digits 10 n @ [c]) = digits 10 n" "dropWhile is_digit (digits 10 n @ [c]) = [c]"
    using decimal_digits [of n] that by (auto simp: list_all_iff takeWhile_append2 dropWhile_append2)
  with a n decimal_digits [of n] show ?thesis
    by (simp add: strtol10_def Let_def d)
qed

lemma digits_length: "n < b ^ k \<Longrightarrow> 2 \<le> b \<Longrightarrow> 0 < k \<Longrightarrow> length (digits b n) \<le> k"
proof (induction k arbitrary: n)
  case (Suc k)
  show ?case
  proof (cases "n < b")
    case False
    then have "n div b < b ^ k" "0 < k"
      using Suc.prems by (auto simp: less_mult_imp_div_less mult.commute intro: ccontr)
    with Suc.IH [of "n div b"] Suc.prems False show ?thesis by (simp add: digits_step)
  qed (simp add: digits_small)
qed simp

lemma digits_length_ge: "b ^ k \<le> n \<Longrightarrow> 2 \<le> b \<Longrightarrow> k < length (digits b n)"
proof (induction k arbitrary: n)
  case (Suc k)
  have "b ^ 1 \<le> b ^ Suc k" by (rule power_increasing) (use Suc.prems in auto)
  then have "b \<le> n" using Suc.prems(1) by (metis order_trans power_one_right)
  moreover have "b ^ k \<le> n div b"
    using Suc.prems by (simp add: less_eq_div_iff_mult_less_eq mult.commute)
  ultimately show ?case using Suc.IH [of "n div b"] Suc.prems by (simp add: digits_step)
qed simp

section \<open>Chunks\<close>

text \<open>A reference decoder of the chunked transfer coding, without extensions and trailers: the body and the rest.\<close>

definition hex_digits_of :: "bytes \<Rightarrow> bytes" where
  "hex_digits_of s = takeWhile (\<lambda>c. hexval c \<noteq> None) s"

fun dechunk :: "nat \<Rightarrow> bytes \<Rightarrow> (bytes \<times> bytes) option" where
  "dechunk 0 s = None"
| "dechunk (Suc k) s =
     (let ds = hex_digits_of s; n = hex_number ds; t = drop (length ds) s; u = drop 2 t in
      if ds = [] \<or> take 2 t \<noteq> [CR, LF] \<or> take 2 (drop n u) \<noteq> [CR, LF] then None
      else if n = 0 then Some ([], drop 2 u)
      else map_option (\<lambda>(body, rest). (take n u @ body, rest)) (dechunk k (drop (n + 2) u)))"

definition chunk_text :: "bytes \<Rightarrow> bytes" where
  "chunk_text d = digits 16 (length d) @ [CR, LF] @ d @ [CR, LF]"

lemma hex_digits_of_digits: "hex_digits_of (digits 16 n @ CR # s) = digits 16 n"
proof -
  have "hexval CR = None" by (simp add: hexval_def CR_def byte_order)
  with hex_digits [of n] show ?thesis by (auto simp: hex_digits_of_def takeWhile_append2)
qed

lemma dechunk_chunk:
  "d \<noteq> [] \<Longrightarrow> dechunk (Suc k) (chunk_text d @ s) = map_option (\<lambda>(body, rest). (d @ body, rest)) (dechunk k s)"
  using hex_digits [of "length d"] by (simp add: chunk_text_def hex_digits_of_digits Let_def)

lemma dechunk_last: "dechunk (Suc k) (digits 16 0 @ [CR, LF, CR, LF] @ s) = Some ([], s)"
  using hex_digits [of 0] by (simp add: hex_digits_of_digits Let_def)

lemma dechunk_chunks:
  "list_all (\<lambda>d. d \<noteq> []) ds \<Longrightarrow> length ds < k \<Longrightarrow>
   dechunk k (concat (map chunk_text ds) @ digits 16 0 @ [CR, LF, CR, LF] @ s) = Some (concat ds, s)"
proof (induction ds arbitrary: k)
  case Nil
  then show ?case using dechunk_last [of "k - 1" s] by (cases k) simp_all
next
  case (Cons d ds)
  then obtain k' where k: "k = Suc k'" "length ds < k'" by (cases k) auto
  have "dechunk k (chunk_text d @ (concat (map chunk_text ds) @ digits 16 0 @ [CR, LF, CR, LF] @ s)) = Some (d @ concat ds, s)"
    unfolding k(1) by (subst dechunk_chunk) (use Cons k in simp_all)
  then show ?case by simp
qed

lemma chunk_hdr_small: "len < 0x10000 \<Longrightarrow> chunk_hdr_bytes len = Some (digits 16 len @ [CR, LF])"
  using digits_length [of len 16 4] by (simp add: chunk_hdr_bytes_def Let_def)

definition cpy_bucket :: "bytes \<Rightarrow> ymo_bucket" where
  "cpy_bucket d = \<lparr>data = d, blen = length d, buf = Some d, bytes_sent = 0, has_cleanup = False\<rparr>"

lemma create_cpy_ok: "2 \<le> m \<Longrightarrow> d \<noteq> [] \<Longrightarrow> ymo_bucket_create_cpy m [] [] d = Some ([], [cpy_bucket d])"
  by (simp add: ymo_bucket_create_cpy_def bucket_link_def cpy_bucket_def)

lemma chunk_body_ok:
  "list_all (\<lambda>b. blen b < 0x10000) bs \<Longrightarrow> 4 * length bs \<le> m \<Longrightarrow>
   chunk_body m bs = Some (concat (map (\<lambda>b. [cpy_bucket (digits 16 (blen b) @ [CR, LF]), b, cpy_bucket [CR, LF]]) bs))"
  by (induction bs arbitrary: m) (simp_all add: chunk_hdr_small create_cpy_ok)

lemma pending_chunks:
  "list_all bucket_ok bs \<Longrightarrow> list_all (\<lambda>b. bytes_sent b = 0) bs \<Longrightarrow>
   pending (concat (map (\<lambda>b. [cpy_bucket (digits 16 (blen b) @ [CR, LF]), b, cpy_bucket [CR, LF]]) bs)) =
     concat (map chunk_text (map data bs))"
  by (induction bs)
    (auto simp: pending_def bucket_iov_def cpy_bucket_def chunk_text_def bucket_ok_def)

text \<open>
  C11: a body sent in chunks decodes to the body: when no piece is empty or longer than 65535 bytes and
  there is memory for four blocks a piece, what
  \<^verbatim>\<open>ymo_http_response_body_get\<close> hands out, followed by the terminal chunk the protocol appends, is read
  back by a decoder of the chunked coding as the concatenation of the pieces, and nothing after it is
  touched.
\<close>

theorem chunked_body_roundtrip:
  assumes "has_flag YMO_HTTP_RESPONSE_CHUNKED (r_flags r)" "4 * length (body_head r) \<le> m"
    and "list_all (\<lambda>b. bucket_ok b \<and> bytes_sent b = 0 \<and> 0 < blen b \<and> blen b < 0x10000) (body_head r)"
  shows "\<exists>bs r'. ymo_http_response_body_get m r = Some (bs, r') \<and> body_head r' = [] \<and>
    dechunk (Suc (length (body_head r))) (pending bs @ str (''0'') @ [CR, LF, CR, LF] @ rest) =
      Some (concat (map data (body_head r)), rest)"
proof -
  let ?bs = "concat (map (\<lambda>b. [cpy_bucket (digits 16 (blen b) @ [CR, LF]), b, cpy_bucket [CR, LF]]) (body_head r))"
  have "ymo_http_response_body_get m r = Some (?bs, r\<lparr>body_head := [], body_tail := None\<rparr>)"
    using assms by (simp add: ymo_http_response_body_get_def chunk_body_ok list_all_iff)
  moreover have "pending ?bs = concat (map chunk_text (map data (body_head r)))"
    using assms(3) by (intro pending_chunks) (auto simp: list_all_iff)
  moreover have "str ''0'' = digits 16 0" by (simp add: digits_small digit_def str_def chr_def)
  moreover have "list_all (\<lambda>d. d \<noteq> []) (map data (body_head r))"
    using assms(3) by (fastforce simp: list_all_iff bucket_ok_def)
  ultimately show ?thesis
    using dechunk_chunks [of "map data (body_head r)" "Suc (length (body_head r))" rest] by simp
qed

definition chunked_response :: response where
  "chunked_response = (ymo_http_response_create 4)\<lparr>r_flags := YMO_HTTP_RESPONSE_CHUNKED, body_head := [bk [1, 2, 3], bk [4]]\<rparr>"

theorem chunked_body_roundtrip_witness:
  "\<exists>bs r'. ymo_http_response_body_get 8 chunked_response = Some (bs, r') \<and>
     dechunk 3 (pending bs @ str (''0'') @ [CR, LF, CR, LF]) = Some ([1, 2, 3, 4], [])"
  using chunked_body_roundtrip [of chunked_response 8 "[]"]
  by (auto simp: chunked_response_def has_flag_def YMO_HTTP_RESPONSE_CHUNKED_def bk_def bucket_ok_def numeral_3_eq_3)

text \<open>
  The header of a chunk of 65536 bytes or more is not what the chunked coding asks for: from five
  hexadecimal digits on, its last bytes are null bytes in place of the end of the line; from seven
  digits on, bytes past the end of the static buffer are sent.  An empty piece is written as the
  terminal chunk, so that a receiver takes it for the end of the body.
\<close>

theorem chunk_header_defects:
  "(0x10000 \<le> len \<and> len < 0x1000000 \<longrightarrow> (\<exists>h. chunk_hdr_bytes len = Some h \<and> last h = 0 \<and> h \<noteq> digits 16 len @ [CR, LF])) \<and>
   (0x1000000 \<le> len \<longrightarrow> chunk_hdr_bytes len = None) \<and>
   dechunk (Suc k) (chunk_text [] @ s) = Some ([], s)"
proof (intro conjI impI)
  assume len: "0x10000 \<le> len \<and> len < 0x1000000"
  let ?text = "digits 16 len @ [CR, LF]"
  let ?h = "take 6 ?text @ replicate (length ?text - 6) 0"
  have "4 < length (digits 16 len)" "length (digits 16 len) \<le> 6"
    using len digits_length_ge [of 16 4 len] digits_length [of len 16 6] by simp_all
  then have "chunk_hdr_bytes len = Some ?h" "last ?h = 0" "last ?text = LF"
    by (simp_all add: chunk_hdr_bytes_def Let_def last_replicate)
  moreover have "LF \<noteq> 0" by (simp add: LF_def)
  ultimately have "?h \<noteq> ?text" by metis
  moreover note \<open>chunk_hdr_bytes len = Some ?h\<close> \<open>last ?h = 0\<close>
  ultimately show "\<exists>h. chunk_hdr_bytes len = Some h \<and> last h = 0 \<and> h \<noteq> ?text" by blast
next
  assume "0x1000000 \<le> len"
  then have "6 < length (digits 16 len)" using digits_length_ge [of 16 6 len] by simp
  then show "chunk_hdr_bytes len = None" by (simp add: chunk_hdr_bytes_def Let_def)
next
  show "dechunk (Suc k) (chunk_text [] @ s) = Some ([], s)"
    using dechunk_last [of k s] by (simp add: chunk_text_def)
qed

theorem chunk_header_defects_witness: "chunk_hdr_bytes 0x1000000 = None"
  by (rule mp [OF conjunct1 [OF conjunct2 [OF chunk_header_defects]]]) simp

section \<open>The head\<close>

definition header_line :: "bytes \<times> bytes \<Rightarrow> bytes" where
  "header_line h = fst h @ str '': '' @ snd h @ [CR, LF]"

lemma length_str [simp]: "length (str s) = length s"
  by (simp add: str_def)

text \<open>What is held to remain of the buffer is what remains of it.\<close>

definition head_left :: "bytes \<Rightarrow> int" where
  "head_left out = int YMO_HTTP_SEND_BUF_SIZE - int (length out)"

lemma emit_headers_ok:
  "length out + length (concat (map header_line hs)) + 2 \<le> YMO_HTTP_SEND_BUF_SIZE \<Longrightarrow>
   emit_headers (map (\<lambda>(k, v). (k, Some v)) hs) (out, head_left out) =
     Some (Inr (out @ concat (map header_line hs), head_left (out @ concat (map header_line hs))))"
proof (induction hs arbitrary: out)
  case (Cons h hs)
  obtain k v where h: "h = (k, v)" by (cases h)
  have "emit_header k v (out, head_left out) = Some (Inr (out @ header_line h, head_left (out @ header_line h)))"
    using Cons.prems by (simp add: h emit_header_def emit_def header_line_def head_left_def)
  then show ?case using Cons.prems Cons.IH [of "out @ header_line h"] by (simp add: h)
qed simp

definition response_head :: "bytes \<Rightarrow> hdr_table \<Rightarrow> bytes" where
  "response_head line t = str ''HTTP/1.1 '' @ line @ [CR, LF] @
     concat (map header_line (map (\<lambda>n. (hdr n, the (node_value n))) (concat (bucket t)))) @ [CR, LF]"

lemma table_values:
  assumes "table_ok t"
  shows "map (\<lambda>n. (hdr n, node_value n)) (concat (bucket t)) =
    map (\<lambda>(k, v). (k, Some v)) (map (\<lambda>n. (hdr n, the (node_value n))) (concat (bucket t)))"
proof -
  have "node_value n \<noteq> None" if n: "b \<in> set (bucket t)" "n \<in> set b" for n b
  proof -
    from n(1) obtain i where "i < length (bucket t)" "b = bucket t ! i" by (auto simp: in_set_conv_nth)
    with n(2) assms have "node_ok n" by (simp add: table_ok_def)
    then show ?thesis by (simp add: node_ok_def)
  qed
  then have "node_value n = Some (the (node_value n))" if "n \<in> set (concat (bucket t))" for n
    using that by auto
  then show ?thesis by simp
qed

lemma emit_head_ok:
  assumes "table_ok (r_headers r)" "status_len r \<le> length (status_str r)"
    and "length (response_head (take (status_len r) (status_str r)) (r_headers r)) \<le> YMO_HTTP_SEND_BUF_SIZE"
  shows "emit_head r = Some (Inr (response_head (take (status_len r) (status_str r)) (r_headers r)))"
proof -
  let ?line = "str ''HTTP/1.1 '' @ take (status_len r) (status_str r) @ [CR, LF]"
  let ?hs = "map (\<lambda>n. (hdr n, the (node_value n))) (concat (bucket (r_headers r)))"
  have l: "length (str ''HTTP/1.1 '') = 9" by (simp add: str_def)
  have "hdr_iterate (Suc (length (concat (bucket (r_headers r))))) (r_headers r) None = Some (map (\<lambda>(k, v). (k, Some v)) ?hs)"
    using iterate_spec [OF assms(1), of None "Suc (length (concat (bucket (r_headers r))))"] table_values [OF assms(1)]
    by (simp add: rest_from_def valid_cur_def)
  moreover have "emit_headers (map (\<lambda>(k, v). (k, Some v)) ?hs) (?line, head_left ?line) =
      Some (Inr (?line @ concat (map header_line ?hs), head_left (?line @ concat (map header_line ?hs))))"
    using assms(3) by (intro emit_headers_ok) (simp add: response_head_def)
  moreover have "emit ?line ([], int YMO_HTTP_SEND_BUF_SIZE) = Some (?line, head_left ?line)"
    using assms(3) by (simp add: emit_def head_left_def response_head_def)
  ultimately show ?thesis
    using assms(2,3) l unfolding emit_head_def Let_def
    by (simp add: emit_def head_left_def response_head_def)
qed

text \<open>The status line a response holds.\<close>

definition status_is :: "bytes \<Rightarrow> response \<Rightarrow> bool" where
  "status_is line r \<longleftrightarrow> take (status_len r) (status_str r) = line \<and> status_len r \<le> length (status_str r) \<and>
     status_len r \<noteq> 0 \<and> hd (status_str r) \<noteq> 0"

lemma set_status_is:
  assumes "ymo_http_response_set_status status r0 = Some r" "status_text status = Some line" "length line < STATUS_STR_MAX_LEN"
  shows "status_is line r"
proof -
  obtain reason where reason: "line = digits 10 (unat status) @ str '' '' @ reason"
    using assms(2) by (auto simp: status_text_def)
  have line: "take (status_len r) (status_str r) = line" "status_len r \<le> length (status_str r)" "hd (status_str r) = hd line"
    using assms reason by (auto simp: ymo_http_response_set_status_def overwrite_def)
  moreover have "is_digit (hd line)"
    using decimal_digits [of "unat status"] by (cases "digits 10 (unat status)") (auto simp: reason)
  then have "hd line \<noteq> 0" by (auto simp: is_digit_def)
  moreover have "status_len r \<noteq> 0" using line(1) by (cases "status_len r") (simp_all add: reason)
  ultimately show ?thesis by (simp add: status_is_def)
qed

text \<open>The head goes into one bucket, and only the length fields and the table of the response change.\<close>

definition head_bucket :: "bytes \<Rightarrow> ymo_bucket" where
  "head_bucket text = \<lparr>data = text, blen = length text, buf = Some text, bytes_sent = 0, has_cleanup = False\<rparr>"

definition with_length :: "hdr_table \<Rightarrow> response \<Rightarrow> response" where
  "with_length t r = r\<lparr>content_len := word_of_nat (ymo_bucket_len_all (body_head r)),
     content_len_str := digits 10 (ymo_bucket_len_all (body_head r)), r_headers := t\<rparr>"

lemma response_start_ok:
  assumes "status_is line r" "ymo_http_response_finished r" "content_len r = 0"
    and "table_ok (r_headers r)" "no_buffers (r_headers r)"
    and "lookup (r_headers r) HID_CONTENT_LENGTH = None" "lookup (r_headers r) HID_TRANSFER_ENCODING = None"
    and "ymo_http_hdr_table_insert_precompute (r_headers r) HID_CONTENT_LENGTH (str ''Content-Length'')
        (digits 10 (ymo_bucket_len_all (body_head r))) = (h, t)"
    and "length (response_head line t) \<le> YMO_HTTP_SEND_BUF_SIZE" "ymo_bucket_len_all (body_head r) < 2 ^ 63" "2 \<le> m"
  shows "ymo_http_response_start m r = Some (Inr [head_bucket (response_head line t)], with_length t r)"
proof -
  note ins = insert_ok [OF assms(4) no_buffers_has [OF assms(5,4)] assms(8)]
  have u: "unat (word_of_nat (ymo_bucket_len_all (body_head r)) :: u64) = ymo_bucket_len_all (body_head r)"
    using assms(10) by (simp add: unat_of_nat)
  have b: "should_buffer_body r = Some (False, with_length t r)"
    using assms(2,3,6-8,10)
    by (simp add: should_buffer_body_def get_id_ok [OF assms(4)] Let_def with_length_def u)
  have "emit_head (with_length t r) = Some (Inr (response_head line t))"
    using emit_head_ok [of "with_length t r"] ins(1) assms(1,9) by (simp add: with_length_def status_is_def)
  then show ?thesis
    using b assms(1,11)
    by (simp add: ymo_http_response_start_def status_is_def Let_def ymo_bucket_create_def bucket_link_def head_bucket_def)
qed

text \<open>
  C10: a response that is finished, not chunked, and whose status was set last, to one with a known reason phrase
  whose text fits the status buffer, goes out as its status line, its headers in the order of the table, an empty
  line and its body, if the head fits the send buffer, the body is below 2^63 bytes, two allocations succeed, the
  application has set neither Content-Length nor Transfer-Encoding (nor the length itself), no header has had
  values appended, and the table has room for one more node.  The bucket of the head holds exactly those bytes; a
  Content-Length header is added that reads back as the length of the body; the other headers are those the
  application set; and the body follows unchanged.
\<close>

theorem response_serialized:
  assumes "ymo_http_response_set_status status r0 = Some r" "status_text status = Some line" "length line < STATUS_STR_MAX_LEN"
    and "ymo_http_response_finished r" "\<not> has_flag YMO_HTTP_RESPONSE_CHUNKED (r_flags r)" "content_len r = 0"
    and "table_ok (r_headers r)" "no_buffers (r_headers r)" "0 < pool (r_headers r) + mem (r_headers r)"
    and "lookup (r_headers r) HID_CONTENT_LENGTH = None" "lookup (r_headers r) HID_TRANSFER_ENCODING = None"
    and "t = snd (ymo_http_hdr_table_insert_precompute (r_headers r) HID_CONTENT_LENGTH (str ''Content-Length'')
        (digits 10 (ymo_bucket_len_all (body_head r))))"
    and "length (response_head line t) \<le> YMO_HTTP_SEND_BUF_SIZE" "ymo_bucket_len_all (body_head r) < 2 ^ 63" "2 \<le> m"
  shows "\<exists>b r' r''. ymo_http_response_start m r = Some (Inr [b], r') \<and> bucket_full b \<and> data b = response_head line t \<and>
    r_headers r' = t \<and>
    (\<forall>h. lookup t h = (if h = HID_CONTENT_LENGTH then Some (digits 10 (ymo_bucket_len_all (body_head r))) else lookup (r_headers r) h)) \<and>
    strtol10 (digits 10 (ymo_bucket_len_all (body_head r)) @ [CR]) = (int (ymo_bucket_len_all (body_head r)), [CR]) \<and>
    ymo_http_response_body_get m' r' = Some (body_head r, r'')"
proof -
  let ?len = "ymo_bucket_len_all (body_head r)"
  obtain h where i: "ymo_http_hdr_table_insert_precompute (r_headers r) HID_CONTENT_LENGTH (str ''Content-Length'') (digits 10 ?len) = (h, t)"
    using assms(12) by (cases "ymo_http_hdr_table_insert_precompute (r_headers r) HID_CONTENT_LENGTH (str ''Content-Length'') (digits 10 ?len)") simp
  note ins = insert_ok [OF assms(7) no_buffers_has [OF assms(8,7)] i]
  have "\<not> is_digit CR" by (simp add: is_digit_def CR_def byte_order)
  then show ?thesis
    using response_start_ok [OF set_status_is [OF assms(1-3)] assms(4,6-8,10,11) i assms(13-15)]
      ins(2) [OF assms(9)] assms(5,14) strtol_digits [of CR ?len]
    by (auto simp: with_length_def head_bucket_def ymo_http_response_body_get_def bucket_full_def response_head_def)
qed

definition ok_table :: hdr_table where
  "ok_table = ymo_http_hdr_table_init (ymo_http_hdr_table_create 2)"

definition hello_response :: response where
  "hello_response = the (ymo_http_response_set_status 200
     ((ymo_http_response_create 2)\<lparr>r_flags := YMO_HTTP_RESPONSE_COMPLETE, body_head := [bk [104, 105]]\<rparr>))"

lemma status_200: "status_text 200 = Some (str ''200 OK'')"
  by (simp add: status_text_def get_http_reason_def http_reasons_def digits_step digits_small digit_def str_def chr_def)

lemma hello_fields:
  "ymo_http_response_set_status 200 ((ymo_http_response_create 2)\<lparr>r_flags := YMO_HTTP_RESPONSE_COMPLETE, body_head := [bk [104, 105]]\<rparr>) =
     Some hello_response"
  "r_headers hello_response = ok_table" "r_flags hello_response = YMO_HTTP_RESPONSE_COMPLETE" "content_len hello_response = 0"
  "body_head hello_response = [bk [104, 105]]"
  by (simp_all add: hello_response_def ymo_http_response_set_status_def status_200 ymo_http_response_create_def ok_table_def)

lemma ok_table_laws:
  "table_ok ok_table" "no_buffers ok_table" "0 < pool ok_table" "lookup ok_table h = None"
proof -
  show ok: "table_ok ok_table" by (simp add: ok_table_def table_ok_create)
  show "no_buffers ok_table" "0 < pool ok_table"
    by (simp_all add: ok_table_def no_buffers_def ymo_http_hdr_table_init_def ymo_http_hdr_table_create_def YMO_HDR_TABLE_POOL_SIZE_def)
  have "bucket ok_table ! hdr_index h = []"
    by (simp add: ok_table_def ymo_http_hdr_table_init_def ymo_http_hdr_table_create_def YMO_HDR_TABLE_BUCKET_SIZE_def)
  then show "lookup ok_table h = None" by (simp add: lookup_alt)
qed

theorem response_serialized_witness:
  "\<exists>b r'. ymo_http_response_start 2 hello_response = Some (Inr [b], r') \<and>
     data b = str ''HTTP/1.1 200 OK'' @ [CR, LF] @ str ''Content-Length: 2'' @ [CR, LF, CR, LF]"
proof -
  let ?t = "snd (ymo_http_hdr_table_insert_precompute ok_table HID_CONTENT_LENGTH (str ''Content-Length'') (digits 10 2))"
  have len: "ymo_bucket_len_all (body_head hello_response) = 2" by (simp add: hello_fields bk_def)
  have head: "response_head (str ''200 OK'') ?t =
      str ''HTTP/1.1 200 OK'' @ [CR, LF] @ str ''Content-Length: 2'' @ [CR, LF, CR, LF]"
  proof -
    have "hdr_index HID_CONTENT_LENGTH = 7"
      by (simp add: hdr_index_def HID_CONTENT_LENGTH_def YMO_HDR_TABLE_BUCKET_SIZE_def)
    then have "concat (bucket ?t) = [\<lparr>h_id = HID_CONTENT_LENGTH, nopool = False, hdr = str ''Content-Length'', hdr_len = 14,
        hvalue = str ''2'', buffer = NoBuf\<rparr>]"
      by (simp add: ymo_http_hdr_table_insert_precompute_def table_insert_first_def ymo_http_hdr_table_node_create_def
          ok_table_def ymo_http_hdr_table_init_def ymo_http_hdr_table_create_def YMO_HDR_TABLE_BUCKET_SIZE_def
          YMO_HDR_TABLE_POOL_SIZE_def digits_small digit_def chr_def str_def numeral_eq_Suc)
    then show ?thesis by (simp add: response_head_def header_line_def node_value_def str_def)
  qed
  then have hl: "length (response_head (str ''200 OK'') ?t) \<le> YMO_HTTP_SEND_BUF_SIZE"
    by (simp add: YMO_HTTP_SEND_BUF_SIZE_def)
  have "\<exists>b r' r''. ymo_http_response_start 2 hello_response = Some (Inr [b], r') \<and> bucket_full b \<and>
      data b = response_head (str ''200 OK'') ?t \<and> r_headers r' = ?t \<and>
      (\<forall>h. lookup ?t h = (if h = HID_CONTENT_LENGTH then Some (digits 10 (ymo_bucket_len_all (body_head hello_response)))
        else lookup (r_headers hello_response) h)) \<and>
      strtol10 (digits 10 (ymo_bucket_len_all (body_head hello_response)) @ [CR]) =
        (int (ymo_bucket_len_all (body_head hello_response)), [CR]) \<and>
      ymo_http_response_body_get 0 r' = Some (body_head hello_response, r'')"
    by (rule response_serialized [OF hello_fields(1) status_200])
      (simp_all add: hello_fields(2-4) len ok_table_laws hl STATUS_STR_MAX_LEN_def STATUS_STR_BUFF_SIZE_def
        ymo_http_response_finished_def has_flag_def response_flag_defs)
  then show ?thesis using head by (elim exE conjE) (intro exI conjI; simp)
qed

text \<open>
  For three of the status codes it knows (203, 407 and 416) the library sends bytes from past the end of
  the status buffer: \<^verbatim>\<open>snprintf\<close> cuts the line at 30 characters, but its uncut length is copied.  For every
  other code with a reason the line is complete.
\<close>

theorem status_line_overrun:
  assumes "get_http_reason status = Some reason" "length (status_str r) = STATUS_STR_BUFF_SIZE" "0 < m"
    and "table_ok (r_headers r)" "lookup (r_headers r) HID_CONTENT_LENGTH \<noteq> None"
  shows "\<exists>r' line. ymo_http_response_set_status status r = Some r' \<and> status_text status = Some line \<and>
    (if unat status \<in> {203, 407, 416} then ymo_http_response_start m r' = None
     else take (status_len r') (status_str r') = line \<and> length line < STATUS_STR_MAX_LEN)"
proof -
  have all: "list_all (\<lambda>(s, reason). 100 \<le> s \<and> s < 1000 \<and>
      (if s \<in> {203, 407, 416} then 28 < length reason \<and> length reason < 40 else length reason \<le> 26)) http_reasons"
    by (simp add: http_reasons_def)
  obtain why where why: "map_of http_reasons (unat status) = Some why" "reason = str why"
    using assms(1) by (auto simp: get_http_reason_def)
  then have s: "100 \<le> unat status" "unat status < 1000"
      "if unat status \<in> {203, 407, 416} then 28 < length reason \<and> length reason < 40 else length reason \<le> 26"
    using all map_of_SomeD [OF why(1)] why(2) by (auto simp: list_all_iff str_def split: if_splits)
  then have d: "length (digits 10 (unat status)) = 3"
    using digits_length [of "unat status" 10 3] digits_length_ge [of 10 2 "unat status"] by simp
  let ?line = "digits 10 (unat status) @ str '' '' @ reason"
  let ?r = "r\<lparr>r_status := status, status_len := length ?line,
      status_str := overwrite (take (STATUS_STR_MAX_LEN - 1) ?line @ [0]) (status_str r)\<rparr>"
  have line: "status_text status = Some ?line" "length ?line = 4 + length reason"
    using assms(1) d by (simp_all add: status_text_def str_def)
  have set_st: "ymo_http_response_set_status status r = Some ?r"
    by (simp add: ymo_http_response_set_status_def line(1))
  have cl: "should_buffer_body ?r = Some (False, ?r)"
    using assms(5) by (simp add: should_buffer_body_def get_id_ok [OF assms(4)])
  obtain d0 ds where dd: "digits 10 (unat status) = d0 # ds" by (cases "digits 10 (unat status)") auto
  then have "d0 \<noteq> 0" using decimal_digits [of "unat status"] by (auto simp: is_digit_def)
  then have hd0: "hd (status_str ?r) \<noteq> 0"
    by (simp add: dd overwrite_def STATUS_STR_MAX_LEN_def STATUS_STR_BUFF_SIZE_def)
  have "ymo_http_response_start m ?r = None" if "unat status \<in> {203, 407, 416}"
  proof -
    have "length (status_str ?r) < status_len ?r" "status_len ?r \<noteq> 0"
      using that s(3) assms(2) d
      by (auto simp: overwrite_def STATUS_STR_MAX_LEN_def STATUS_STR_BUFF_SIZE_def str_def)
    moreover have "status_len ?r \<le> 100" using that s(3) line(2) by (auto split: if_splits)
    ultimately have "emit_head ?r = None" unfolding emit_head_def Let_def YMO_HTTP_SEND_BUF_SIZE_def by simp
    then show ?thesis using hd0 cl assms(3) \<open>status_len ?r \<noteq> 0\<close>
      unfolding ymo_http_response_start_def by simp
  qed
  moreover have "take (status_len ?r) (status_str ?r) = ?line \<and> length ?line < STATUS_STR_MAX_LEN"
    if "unat status \<notin> {203, 407, 416}"
    using that s(3) line(2) by (simp add: overwrite_def STATUS_STR_MAX_LEN_def STATUS_STR_BUFF_SIZE_def)
  ultimately show ?thesis
    by (intro exI [of _ ?r] exI [of _ ?line] conjI set_st line(1)) (simp only: if_True if_False split: if_split, blast)
qed

definition length_response :: response where
  "length_response = (ymo_http_response_create 2)\<lparr>r_headers := insert_named HID_CONTENT_LENGTH ([67], [48]) ok_table\<rparr>"

theorem status_line_overrun_witness:
  "\<exists>r'. ymo_http_response_set_status 416 length_response = Some r' \<and> ymo_http_response_start 2 r' = None"
proof -
  have "get_http_reason 416 = Some (str ''Requested Range Not Satisfiable'')"
    by (simp add: get_http_reason_def http_reasons_def)
  moreover have "table_ok (r_headers length_response)" "lookup (r_headers length_response) HID_CONTENT_LENGTH = Some [48]"
    using insert_named_laws(1,3) [of ok_table HID_CONTENT_LENGTH "([67], [48])"] ok_table_laws(1-3)
    by (simp_all add: length_response_def)
  moreover have "length (status_str length_response) = STATUS_STR_BUFF_SIZE"
    by (simp add: length_response_def ymo_http_response_create_def)
  ultimately show ?thesis using status_line_overrun [of 416 _ length_response 2] by auto
qed

end
