(* ===== verification/Http_Session.thy ===== *)
theory Http_Session
  imports Server Http_Response
begin

text \<open>
  HTTP sessions (\<^verbatim>\<open>src/protocol/http/ymo_http_session.c\<close>) and the callbacks of the HTTP protocol
  (\<^verbatim>\<open>ymo_proto_http.c\<close>).  Responses are objects at addresses, linked into the session's queue, so that a
  use of one that has been freed is a \<open>Fault\<close>; a loop that does not end is a \<open>Hang\<close>.
\<close>

section \<open>State\<close>

datatype http_session_state = YMO_HTTP_SESSION_OPEN | YMO_HTTP_SESSION_CLOSING | YMO_HTTP_SESSION_ERROR

text \<open>
  An exchange with its response pointer and the request's body buffer: \<open>rq_body\<close> is the block allocated
  for it.
\<close>

record http_exchange =
  xg :: exchange
  x_response :: "nat option"
  rq_body :: "bytes option"
  body_received :: u64

record response_obj =
  rsp :: response
  rsp_next :: "nat option"
  rsp_exchange :: "http_exchange option"

text \<open>
  \<open>hs_heap\<close> are the live responses and \<open>hs_next\<close> is the next address to be used; \<open>hs_mem\<close> counts the
  allocations that succeed; \<open>hs_acts\<close> is what the session asks of its connection.  \<open>hs_net\<close> holds, for
  every transmission, what \<^verbatim>\<open>sendmsg\<close> answers before the socket blocks, and \<open>hs_wire\<close> what has been sent.
\<close>

record 'u http_session =
  hs_state :: http_session_state
  hs_exchange :: "http_exchange option"
  hs_response :: "nat option"
  send_buffer :: chain
  user_data :: 'u
  hs_heap :: "nat \<Rightarrow> response_obj option"
  hs_next :: nat
  hs_mem :: nat
  hs_acts :: "conn_act list"
  hs_net :: "(ymo_status + nat) list list"
  hs_wire :: bytes

text \<open>
  What the session does not decide: the memory a response's header table finds for nodes, the byte after
  a joined header value, what a new session's uninitialised state is, and what a read of \<^verbatim>\<open>proto_new\<close> in a
  freed response gives.
\<close>

record http_env =
  e_nodes :: nat
  e_junk :: byte
  e_state :: http_session_state
  e_freed :: "response_obj \<Rightarrow> nat option"

definition http_act :: "conn_act list \<Rightarrow> 'u http_session \<Rightarrow> 'u http_session" where
  "http_act todo s = s\<lparr>hs_acts := hs_acts s @ todo\<rparr>"

definition get_rsp :: "nat \<Rightarrow> 'u http_session \<Rightarrow> response_obj run" where
  "get_rsp a s = (case hs_heap s a of None \<Rightarrow> Fault | Some obj \<Rightarrow> Ret obj)"

definition put_rsp :: "nat \<Rightarrow> response_obj \<Rightarrow> 'u http_session \<Rightarrow> 'u http_session" where
  "put_rsp a obj s = s\<lparr>hs_heap := (hs_heap s)(a \<mapsto> obj)\<rparr>"

text \<open>Work on the response at an address, and on the connection through it.\<close>

definition on_rsp ::
  "nat \<Rightarrow> (response \<Rightarrow> response \<times> conn_act list) \<Rightarrow> 'u http_session \<Rightarrow> 'u http_session run" where
  "on_rsp a f s = run_bind (get_rsp a s) (\<lambda>obj.
     case f (rsp obj) of (r, todo) \<Rightarrow> Ret (http_act todo (put_rsp a (obj\<lparr>rsp := r\<rparr>) s)))"

definition rsp_issue :: "nat \<Rightarrow> u16 \<Rightarrow> 'u http_session \<Rightarrow> 'u http_session run" where
  "rsp_issue a status s = run_bind (get_rsp a s) (\<lambda>obj.
     case ymo_http_response_issue status (rsp obj) of
       None \<Rightarrow> Fault
     | Some (r, err, todo) \<Rightarrow>
         let s = http_act todo (put_rsp a (obj\<lparr>rsp := r\<rparr>) s)
         in Ret (if err then s\<lparr>hs_state := YMO_HTTP_SESSION_ERROR\<rparr> else s))"

section \<open>The session\<close>

definition ymo_http_session_create :: "http_env \<Rightarrow> bool \<Rightarrow> 'u \<Rightarrow> nat \<Rightarrow> 'u http_session option" where
  "ymo_http_session_create e ok junk m =
     (if \<not> ok then None
      else Some \<lparr>hs_state = e_state e, hs_exchange = None, hs_response = None, send_buffer = [], user_data = junk,
        hs_heap = Map.empty, hs_next = 0, hs_mem = m, hs_acts = [], hs_net = [], hs_wire = []\<rparr>)"

text \<open>A new exchange needs its own memory and a workspace; without the latter it is reset through \<open>NULL\<close>.\<close>

definition ymo_http_session_add_new_http_request ::
  "http_env \<Rightarrow> 'u http_session \<Rightarrow> (ymo_status \<times> 'u http_session) run" where
  "ymo_http_session_add_new_http_request e s =
     (if hs_mem s = 0 then Ret (ENOMEM, s)
      else
        (case ymo_http_exchange_create (e_nodes e) (1 < hs_mem s) of
           None \<Rightarrow> Fault
         | Some x \<Rightarrow> Ret (YMO_OKAY, s\<lparr>hs_mem := hs_mem s - 2,
             hs_exchange := Some \<lparr>xg = x, x_response = None, rq_body = None, body_received = 0\<rparr>\<rparr>)))"

definition ymo_http_session_free_request :: "'u http_session \<Rightarrow> ymo_status \<times> 'u http_session" where
  "ymo_http_session_free_request s =
     (if hs_exchange s \<noteq> None then (YMO_OKAY, s\<lparr>hs_exchange := None\<rparr>) else (EINVAL, s))"

definition rsp_create :: "http_env \<Rightarrow> 'u http_session \<Rightarrow> nat option \<times> 'u http_session" where
  "rsp_create e s =
     (if hs_mem s = 0 then (None, s)
      else (Some (hs_next s),
        s\<lparr>hs_mem := hs_mem s - 1, hs_next := hs_next s + 1,
          hs_heap := (hs_heap s)(hs_next s \<mapsto>
            \<lparr>rsp = ymo_http_response_create (e_nodes e), rsp_next = None, rsp_exchange = None\<rparr>)\<rparr>))"

text \<open>
  The response of a request starts with the request's flags and the header that tells what becomes of the
  connection.  A failed allocation is reported, but the \<open>NULL\<close> response is written to first.
\<close>

definition init_connection_header :: "u32 \<Rightarrow> response \<Rightarrow> response" where
  "init_connection_header fs r =
     (let insert = \<lambda>v r. r\<lparr>r_headers := snd (ymo_http_hdr_table_insert_precompute (r_headers r) 31919 (str ''Connection'') (str v))\<rparr>
      in if has_flag YMO_HTTP_FLAG_REQUEST_KEEPALIVE fs
         then if \<not> has_flag YMO_HTTP_FLAG_VERSION_1_1 fs then insert ''Keep-alive'' r else r
         else if has_flag YMO_HTTP_FLAG_VERSION_1_1 fs then insert ''close'' r else r)"

definition ymo_http_session_init_response ::
  "http_env \<Rightarrow> http_exchange \<Rightarrow> 'u http_session \<Rightarrow> (http_exchange \<times> 'u http_session) run" where
  "ymo_http_session_init_response e x s =
     (case rsp_create e s of
        (None, s) \<Rightarrow> Fault
      | (Some a, s) \<Rightarrow>
          run_bind (on_rsp a (\<lambda>r. (init_connection_header (flags (xg x)) (r\<lparr>r_flags := flags (xg x)\<rparr>), [])) s)
            (\<lambda>s. Ret (x\<lparr>x_response := Some a\<rparr>, s)))"

text \<open>The walk to the last response of the queue; there are no more than \<open>hs_next\<close> responses to pass.\<close>

fun last_response :: "nat \<Rightarrow> 'u http_session \<Rightarrow> nat \<Rightarrow> nat run" where
  "last_response 0 s a = Hang"
| "last_response (Suc fuel) s a = run_bind (get_rsp a s) (\<lambda>obj.
     case rsp_next obj of None \<Rightarrow> Ret a | Some b \<Rightarrow> last_response fuel s b)"

definition ymo_http_session_add_response :: "nat \<Rightarrow> 'u http_session \<Rightarrow> 'u http_session run" where
  "ymo_http_session_add_response a s =
     (case hs_response s of
        None \<Rightarrow> Ret (s\<lparr>hs_response := Some a\<rparr>)
      | Some b \<Rightarrow>
          run_bind (last_response (Suc (hs_next s)) s b) (\<lambda>l.
            run_bind (get_rsp l s) (\<lambda>obj. Ret (put_rsp l (obj\<lparr>rsp_next := Some a\<rparr>) s))))"

definition ymo_http_session_next_response :: "'u http_session \<Rightarrow> nat option" where
  "ymo_http_session_next_response s = hs_response s"

text \<open>Freeing a response frees the exchange it holds on to.\<close>

definition rsp_free :: "nat \<Rightarrow> 'u http_session \<Rightarrow> 'u http_session run" where
  "rsp_free a s = run_bind (get_rsp a s) (\<lambda>_. Ret (s\<lparr>hs_heap := (hs_heap s)(a := None)\<rparr>))"

definition ymo_http_session_complete_response :: "'u http_session \<Rightarrow> (ymo_status \<times> 'u http_session) run" where
  "ymo_http_session_complete_response s =
     (case hs_response s of
        None \<Rightarrow> Ret (EINVAL, s)
      | Some a \<Rightarrow>
          run_bind (get_rsp a s) (\<lambda>obj.
            run_bind (rsp_free a (s\<lparr>hs_response := rsp_next obj\<rparr>)) (\<lambda>s. Ret (YMO_OKAY, s))))"

fun complete_all :: "nat \<Rightarrow> 'u http_session \<Rightarrow> 'u http_session run" where
  "complete_all 0 s = Hang"
| "complete_all (Suc fuel) s = run_bind (ymo_http_session_complete_response s) (\<lambda>(st, s).
     if st = YMO_OKAY then complete_all fuel s else Ret s)"

text \<open>What is left of a session that has been freed: its requests to the connection.\<close>

definition ymo_http_session_free :: "'u http_session \<Rightarrow> 'u http_session run" where
  "ymo_http_session_free s =
     (let s = snd (ymo_http_session_free_request (http_act [Tx_enable False, Rx_enable False] s))
      in run_bind (complete_all (Suc (hs_next s)) s) (\<lambda>s. Ret (s\<lparr>send_buffer := []\<rparr>)))"

definition ymo_http_session_is_read_ready ::
  "http_env \<Rightarrow> 'u http_session \<Rightarrow> (ymo_status \<times> 'u http_session) run" where
  "ymo_http_session_is_read_ready e s =
     (if hs_exchange s = None then ymo_http_session_add_new_http_request e s else Ret (YMO_OKAY, s))"

definition http_exchange_reset :: "http_exchange \<Rightarrow> http_exchange" where
  "http_exchange_reset x = x\<lparr>xg := ymo_http_exchange_reset (xg x), body_received := 0\<rparr>"

definition ymo_http_session_set_userdata :: "'u \<Rightarrow> 'u http_session \<Rightarrow> 'u http_session" where
  "ymo_http_session_set_userdata u s = s\<lparr>user_data := u\<rparr>"

definition ymo_http_session_get_userdata :: "'u http_session \<Rightarrow> 'u" where
  "ymo_http_session_get_userdata s = user_data s"

section \<open>Buffering a request's body\<close>

definition YMO_HTTP_MAX_BODY :: nat where "YMO_HTTP_MAX_BODY = 4096"

text \<open>
  The default body callback, on the request's content length, body and count of bytes received.  The
  block is allocated once, with the length the first request with a body has announced.
\<close>

record body_state =
  b_length :: u64
  b_block :: "bytes option"
  b_received :: u64
  b_mem :: nat

definition buffer_alloc :: "body_state \<Rightarrow> body_state" where
  "buffer_alloc b =
     (if unat (b_length b) \<le> YMO_HTTP_MAX_BODY \<and> b_mem b \<noteq> 0
      then b\<lparr>b_mem := b_mem b - 1,
        b_block := Some (replicate (if b_length b \<noteq> 0 then unat (b_length b) else YMO_HTTP_MAX_BODY) 0)\<rparr>
      else b)"

definition buffer_body_cb :: "body_state body_cb" where
  "buffer_body_cb d b =
     (let fresh = (b_block b = None);
          b = (if fresh then buffer_alloc b else b)
      in case b_block b of
           None \<Rightarrow> Some (ENOMEM, b)
         | Some block \<Rightarrow>
             let b = (if fresh then b\<lparr>b_length := 0\<rparr> else b);
                 buf_remain = word_of_nat YMO_HTTP_MAX_BODY - b_received b;
                 at = unat (b_received b)
             in if unat buf_remain < length d then Some (EFBIG, b)
                else if length block < at + length d then None
                else Some (YMO_OKAY, b\<lparr>b_received := b_received b + word_of_nat (length d),
                  b_length := b_length b + word_of_nat (length d), b_block := Some (put at d block)\<rparr>))"

section \<open>The protocol\<close>

datatype upgrade_status =
  YMO_HTTP_UPGRADE_HANDLED | YMO_HTTP_UPGRADE_IGNORE | YMO_HTTP_UPGRADE_ERROR | YMO_HTTP_UPGRADE_NOPROTO

text \<open>
  The application's callbacks work on the session, which holds the response at the address they get;
  an upgrade callback leaves an error number.  \<open>body_cb\<close> is \<open>None\<close> for the default callback.
\<close>

type_synonym 'u upgrade_cb =
  "bytes option \<Rightarrow> http_exchange \<Rightarrow> nat \<Rightarrow> 'u http_session \<Rightarrow> ((upgrade_status \<times> ymo_status) \<times> 'u http_session) run"

record 'u http_proto_data =
  session_init :: "('u http_session \<Rightarrow> ymo_status \<times> 'u http_session) option"
  header_cb :: "(http_exchange \<Rightarrow> nat \<Rightarrow> 'u http_session \<Rightarrow> ymo_status \<times> 'u http_session) option"
  user_body_cb :: "(http_exchange \<Rightarrow> nat option \<Rightarrow> bytes \<Rightarrow> 'u http_session \<Rightarrow> ymo_status \<times> 'u http_session) option"
  http_cb :: "http_exchange \<Rightarrow> nat \<Rightarrow> 'u http_session \<Rightarrow> ymo_status \<times> 'u http_session"
  session_cleanup :: "('u http_session \<Rightarrow> 'u http_session) option"
  upgrade_handler :: "('u upgrade_cb \<times> nat) list"

text \<open>Two allocations: the protocol and its data.  Without a body callback the default one is used.\<close>

definition ymo_proto_http_create where
  "ymo_proto_http_create m on_session request_cb hdr_cb body_callback cleanup =
     (if m < (2 :: nat) then None
      else Some \<lparr>session_init = on_session, header_cb = hdr_cb, user_body_cb = body_callback, http_cb = request_cb,
        session_cleanup = cleanup, upgrade_handler = []\<rparr>)"

definition ymo_http_add_upgrade_handler ::
  "bool \<Rightarrow> 'u http_proto_data \<Rightarrow> ('u upgrade_cb \<times> nat) option \<Rightarrow> ymo_status \<times> 'u http_proto_data" where
  "ymo_http_add_upgrade_handler ok d h =
     (case h of
        None \<Rightarrow> (EINVAL, d)
      | Some h \<Rightarrow> if ok then (YMO_OKAY, d\<lparr>upgrade_handler := upgrade_handler d @ [h]\<rparr>) else (ENOMEM, d))"

text \<open>The first handler that knows the protocol decides; the result comes with the error number left behind.\<close>

fun ymo_http_check_upgrade ::
  "('u upgrade_cb \<times> nat) list \<Rightarrow> bytes option \<Rightarrow> http_exchange \<Rightarrow> nat \<Rightarrow> 'u http_session \<Rightarrow>
   ((upgrade_status \<times> ymo_status) \<times> 'u http_session) run" where
  "ymo_http_check_upgrade [] v x a s = Ret ((YMO_HTTP_UPGRADE_NOPROTO, YMO_OKAY), s)"
| "ymo_http_check_upgrade ((cb, proto) # rest) v x a s =
     run_bind (cb v x a s) (\<lambda>((st, err), s).
       case st of
         YMO_HTTP_UPGRADE_HANDLED \<Rightarrow>
           run_bind (on_rsp a (\<lambda>r. (r\<lparr>proto_new := Some proto\<rparr>, [])) s) (\<lambda>s. Ret ((st, err), s))
       | YMO_HTTP_UPGRADE_IGNORE \<Rightarrow> Ret ((st, err), s)
       | YMO_HTTP_UPGRADE_ERROR \<Rightarrow> Ret ((st, err), s)
       | YMO_HTTP_UPGRADE_NOPROTO \<Rightarrow> ymo_http_check_upgrade rest v x a s)"

text \<open>A handler that declines HTTP/2; it compares the header without a test whether there is one.\<close>

definition ymo_http2_not_available_upgrade_cb :: "'u upgrade_cb" where
  "ymo_http2_not_available_upgrade_cb v x a s =
     (case v of
        None \<Rightarrow> Fault
      | Some h \<Rightarrow> Ret (if str_eq_nocase h (length h) ''h2c'' then ((YMO_HTTP_UPGRADE_IGNORE, YMO_OKAY), s)
                        else ((YMO_HTTP_UPGRADE_NOPROTO, EPROTONOSUPPORT), s)))"

section \<open>Handling a request\<close>

text \<open>
  The upgrade handlers' verdict: \<open>Inl\<close> the status the request is answered with, \<open>Inr\<close> that the
  application's callback is to be run.
\<close>

definition try_upgrade ::
  "'u http_proto_data \<Rightarrow> http_exchange \<Rightarrow> nat \<Rightarrow> 'u http_session \<Rightarrow> ((ymo_status + unit) \<times> 'u http_session) run" where
  "try_upgrade d x a s =
     (if \<not> has_flag YMO_HTTP_FLAG_UPGRADE (flags (xg x)) then Ret (Inr (), s)
      else
        (case ymo_http_hdr_table_get_id (headers (xg x)) 17987 of
           None \<Rightarrow> Fault
         | Some hdr_upgrade \<Rightarrow>
             run_bind (ymo_http_check_upgrade (upgrade_handler d) hdr_upgrade x a s) (\<lambda>((st, err), s).
               case st of
                 YMO_HTTP_UPGRADE_IGNORE \<Rightarrow> Ret (Inr (), s)
               | YMO_HTTP_UPGRADE_HANDLED \<Rightarrow> Ret (Inl YMO_OKAY, s)
               | YMO_HTTP_UPGRADE_ERROR \<Rightarrow> Ret (Inl err, s)
               | YMO_HTTP_UPGRADE_NOPROTO \<Rightarrow> run_bind (rsp_issue a 501 s) (\<lambda>s. Ret (Inl YMO_OKAY, s)))))"

definition set_exchange :: "http_exchange option \<Rightarrow> 'u http_session \<Rightarrow> 'u http_session" where
  "set_exchange x s = s\<lparr>hs_exchange := x\<rparr>"

definition handle_callback_result ::
  "ymo_status \<Rightarrow> http_exchange \<Rightarrow> nat \<Rightarrow> 'u http_session \<Rightarrow> (ymo_status \<times> 'u http_session) run" where
  "handle_callback_result status x a s =
     (if status = YMO_OKAY then
        run_bind (ymo_http_session_add_response a s) (\<lambda>s.
          run_bind (get_rsp a s) (\<lambda>obj.
            Ret (status, if has_flag YMO_HTTP_FLAG_REQUEST_KEEPALIVE (r_flags (rsp obj))
                         then set_exchange (Some (http_exchange_reset x)) s else s)))
      else if YMO_IS_BLOCKED status then
        run_bind (get_rsp a s) (\<lambda>obj.
          run_bind (ymo_http_session_add_response a
              (set_exchange None (put_rsp a (obj\<lparr>rsp_exchange := hs_exchange s\<rparr>) s))) (\<lambda>s. Ret (status, s)))
      else run_bind (rsp_free a s) (\<lambda>s. Ret (status, s)))"

definition ymo_http_handler :: "'u http_proto_data \<Rightarrow> http_exchange \<Rightarrow> 'u http_session \<Rightarrow> (ymo_status \<times> 'u http_session) run" where
  "ymo_http_handler d x s =
     (case x_response x of
        None \<Rightarrow> Fault
      | Some a \<Rightarrow>
          run_bind (try_upgrade d x a s) (\<lambda>(v, s).
            case v of
              Inl status \<Rightarrow> handle_callback_result status x a s
            | Inr _ \<Rightarrow> (case http_cb d x a s of (status, s) \<Rightarrow> handle_callback_result status x a s)))"

section \<open>Writing\<close>

text \<open>Either the status of the write callback, or the protocol the connection goes over to.\<close>

datatype write_result = Wr ymo_status | Wr_transition nat

definition net_answers :: "'u http_session \<Rightarrow> (ymo_status + nat) list" where
  "net_answers s = (case hs_net s of [] \<Rightarrow> [] | answers # _ \<Rightarrow> answers) @ [Inl EAGAIN]"

definition chain_append :: "chain \<Rightarrow> chain \<Rightarrow> chain" where
  "chain_append dst src = (if src = [] then dst else if dst \<noteq> [] then fst (ymo_bucket_append dst src) else src)"

text \<open>The serialised head goes to the send buffer once: \<open>Inl\<close> the status to return, \<open>Inr\<close> the response to go on with.\<close>

definition write_start :: "nat \<Rightarrow> response \<Rightarrow> 'u http_session \<Rightarrow> ((ymo_status + response) \<times> response \<times> 'u http_session) run" where
  "write_start m r s =
     (if has_flag YMO_HTTP_RESPONSE_STARTED (r_flags r) then Ret (Inr r, r, s)
      else
        (case ymo_http_response_start m r of
           None \<Rightarrow> Fault
         | Some (Inl err, r) \<Rightarrow> Ret (Inl err, r, s\<lparr>send_buffer := []\<rparr>)
         | Some (Inr bucket_out, r) \<Rightarrow>
             let r = ymo_http_response_set_flag YMO_HTTP_RESPONSE_STARTED r
             in Ret (Inr r, r, s\<lparr>send_buffer := bucket_out\<rparr>)))"

definition chunk_term :: bytes where
  "chunk_term = str ''0'' @ [CR, LF, CR, LF]"

text \<open>The body data that is there and, at the end of a chunked response, the last chunk.\<close>

definition write_body :: "nat \<Rightarrow> response \<Rightarrow> 'u http_session \<Rightarrow> (response \<times> 'u http_session) run" where
  "write_body m r s =
     (case ymo_http_response_body_get m r of
        None \<Rightarrow> Fault
      | Some (body_data, r) \<Rightarrow>
          let s = s\<lparr>send_buffer := chain_append (send_buffer s) body_data\<rparr>
          in if has_flag YMO_HTTP_RESPONSE_COMPLETE (r_flags r) \<and> has_flag YMO_HTTP_RESPONSE_CHUNKED (r_flags r) \<and>
               \<not> has_flag YMO_HTTP_RESPONSE_CHUNK_TERM (r_flags r)
             then Ret (ymo_http_response_set_flag YMO_HTTP_RESPONSE_CHUNK_TERM r,
               s\<lparr>send_buffer := chain_append (send_buffer s) (snd (ymo_bucket_create m [] [] None chunk_term))\<rparr>)
             else Ret (r, s))"

text \<open>A response that has been sent completely is freed, and \<^verbatim>\<open>proto_new\<close> is read from it after that.\<close>

definition write_finished ::
  "http_env \<Rightarrow> ymo_status \<Rightarrow> response_obj \<Rightarrow> 'u http_session \<Rightarrow> (write_result \<times> 'u http_session) run" where
  "write_finished e status obj s =
     run_bind (ymo_http_session_complete_response (s\<lparr>send_buffer := []\<rparr>)) (\<lambda>(_, s).
       case e_freed e obj of
         Some p \<Rightarrow> Ret (Wr_transition p, s)
       | None \<Rightarrow>
           let s = (if \<not> has_flag YMO_HTTP_FLAG_REQUEST_KEEPALIVE (r_flags (rsp obj))
                    then http_act [Conn_shutdown] s else s);
               closing = (if hs_state s = YMO_HTTP_SESSION_ERROR then http_act [Conn_shutdown] s else s)
           in case ymo_http_session_next_response s of
                None \<Rightarrow> Ret (Wr status, closing)
              | Some n \<Rightarrow> run_bind (get_rsp n s) (\<lambda>next.
                  if ymo_http_response_is_ready (rsp next) then Ret (Wr EAGAIN, s) else Ret (Wr status, closing)))"

definition ymo_proto_http_write :: "http_env \<Rightarrow> nat \<Rightarrow> 'u http_session \<Rightarrow> (write_result \<times> 'u http_session) run" where
  "ymo_proto_http_write e m s =
     (case ymo_http_session_next_response s of
        None \<Rightarrow> Ret (Wr YMO_OKAY, s)
      | Some a \<Rightarrow>
          run_bind (get_rsp a s) (\<lambda>obj.
            let complete = ymo_http_response_finished (rsp obj)
            in if \<not> ymo_http_response_is_ready (rsp obj) then Ret (Wr YMO_OKAY, s)
               else run_bind (write_start m (rsp obj) s) (\<lambda>(v, r, s).
                 case v of
                   Inl err \<Rightarrow> Ret (Wr err, put_rsp a (obj\<lparr>rsp := r\<rparr>) s)
                 | Inr r \<Rightarrow>
                     run_bind (write_body m r s) (\<lambda>(r, s).
                       case ymo_conn_send_buckets (net_answers s) (send_buffer s) of
                         None \<Rightarrow> Fault
                       | Some (status, sent, rest) \<Rightarrow>
                           let obj = obj\<lparr>rsp := r\<rparr>;
                               s = put_rsp a obj (s\<lparr>send_buffer := rest, hs_net := tl (hs_net s), hs_wire := hs_wire s @ sent\<rparr>)
                           in if status = YMO_OKAY \<and> complete then write_finished e status obj s
                              else Ret (Wr status, s)))))"

text \<open>
  \<^verbatim>\<open>ymo_conn_tx_now\<close>, called in the middle of a read: the server's write handler runs.  When it closes the
  connection or hands it over, the session is freed under the reader's feet.
\<close>

definition http_tx_now :: "http_env \<Rightarrow> nat \<Rightarrow> 'u http_session \<Rightarrow> 'u http_session run" where
  "http_tx_now e m s = run_bind (ymo_proto_http_write e m s) (\<lambda>(res, s).
     case res of
       Wr status \<Rightarrow>
         if status = YMO_OKAY then Ret (http_act [Tx_enable False] s)
         else if YMO_IS_BLOCKED status then Ret s else Fault
     | Wr_transition _ \<Rightarrow> Fault)"

section \<open>Reading\<close>

definition send_100_continue :: "http_env \<Rightarrow> nat \<Rightarrow> 'u http_session \<Rightarrow> (ymo_status \<times> 'u http_session) run" where
  "send_100_continue e m s =
     (case rsp_create e s of
        (None, s) \<Rightarrow> Ret (ENOMEM, s)
      | (Some a, s) \<Rightarrow>
          run_bind (on_rsp a (\<lambda>r. (r\<lparr>r_flags := YMO_HTTP_FLAG_REQUEST_KEEPALIVE\<rparr>, [])) s) (\<lambda>s.
            run_bind (ymo_http_session_add_response a s) (\<lambda>s.
              run_bind (rsp_issue a 100 s) (\<lambda>s.
                run_bind (http_tx_now e m s) (\<lambda>s. Ret (YMO_OKAY, s))))))"

definition error_status :: "ymo_status \<Rightarrow> u32 \<Rightarrow> u16" where
  "error_status status fs =
     (case status of
        EPROTO \<Rightarrow> 400 | EBADMSG \<Rightarrow> 400 | EINVAL \<Rightarrow> 400
      | ENOMEM \<Rightarrow> 500
      | EFBIG \<Rightarrow> if has_flag YMO_HTTP_FLAG_EXPECT fs then 417 else 413
      | ENOTSUP \<Rightarrow> 501 | EPROTONOSUPPORT \<Rightarrow> 501 | ENOPROTOOPT \<Rightarrow> 501
      | EPROTOTYPE \<Rightarrow> 426
      | _ \<Rightarrow> 500)"

text \<open>The count of bytes consumed is 0, the value of \<^verbatim>\<open>YMO_OKAY\<close>.\<close>

definition ymo_proto_http_handle_error ::
  "http_env \<Rightarrow> http_exchange \<Rightarrow> ymo_status \<Rightarrow> 'u http_session \<Rightarrow> ((ymo_status + nat) \<times> 'u http_session) run" where
  "ymo_proto_http_handle_error e x status s =
     (if hs_state s = YMO_HTTP_SESSION_ERROR then Ret (Inl EPIPE, s)
      else
        (case rsp_create e s of
           (None, s) \<Rightarrow> Ret (Inl ENOMEM, s)
         | (Some a, s) \<Rightarrow>
             run_bind (ymo_http_session_add_response a s) (\<lambda>s.
               run_bind (rsp_issue a (error_status status (flags (xg x))) s) (\<lambda>s. Ret (Inr 0, s)))))"

text \<open>The body parser runs the body callback on the request's fields and on the session.\<close>

definition body_bridge :: "'u http_proto_data \<Rightarrow> http_exchange \<Rightarrow> (body_state \<times> 'u http_session) body_cb" where
  "body_bridge d x dat w =
     (case w of (b, s) \<Rightarrow>
        (case user_body_cb d of
           None \<Rightarrow> map_option (\<lambda>(st, b). (st, b, s)) (buffer_body_cb dat b)
         | Some cb \<Rightarrow> (case cb x (x_response x) dat s of (st, s) \<Rightarrow> Some (st, b, s))))"

definition http_parse_body ::
  "'u http_proto_data \<Rightarrow> http_exchange \<Rightarrow> bytes \<Rightarrow> 'u http_session \<Rightarrow> ((ymo_status + nat) \<times> 'u http_session) run" where
  "http_parse_body d x cs s =
     (let b = \<lparr>b_length = content_length (xg x), b_block = rq_body x, b_received = body_received x, b_mem = hs_mem s\<rparr>
      in case ymo_parse_http_body (body_bridge d x) (xg x) cs (b, s) of
           None \<Rightarrow> Fault
         | Some (r, y, b, s) \<Rightarrow>
             Ret (r, set_exchange (Some (x\<lparr>xg := y\<lparr>content_length := b_length b\<rparr>, rq_body := b_block b,
               body_received := b_received b\<rparr>)) (s\<lparr>hs_mem := b_mem b\<rparr>)))"

definition store_parse :: "http_exchange \<Rightarrow> 'u http_session \<Rightarrow> parse_result \<Rightarrow> ((ymo_status + nat) \<times> 'u http_session) run" where
  "store_parse x s res =
     (case res of None \<Rightarrow> Fault | Some (r, y) \<Rightarrow> Ret (r, set_exchange (Some (x\<lparr>xg := y\<rparr>)) s))"

text \<open>One turn of the parse loop, by the state of the exchange; some states have no case of their own.\<close>

definition http_parse_turn ::
  "http_env \<Rightarrow> 'u http_proto_data \<Rightarrow> http_exchange \<Rightarrow> bytes \<Rightarrow> 'u http_session \<Rightarrow> ((ymo_status + nat) \<times> 'u http_session) run" where
  "http_parse_turn e d x cs s =
     (let st = state (xg x) in
      if st = HTTP_STATE_CONNECTED
      then store_parse x s (ymo_parse_http_request_line ((xg x)\<lparr>state := HTTP_STATE_REQUEST_METHOD\<rparr>) cs)
      else if st \<in> {HTTP_STATE_REQUEST_METHOD, HTTP_STATE_REQUEST_URI_PATH, HTTP_STATE_REQUEST_VERSION}
      then store_parse x s (ymo_parse_http_request_line (xg x) cs)
      else if st = HTTP_STATE_CRLF then store_parse x s (ymo_parse_http_crlf (xg x) cs)
      else if st \<in> {HTTP_STATE_HEADER_NAME, HTTP_STATE_HEADER_VALUE_LEADING_SPACE, HTTP_STATE_HEADER_VALUE}
      then store_parse x s (ymo_parse_http_headers (e_junk e) (xg x) cs)
      else if st \<in> {HTTP_STATE_BODY_CHUNK_HEADER, HTTP_STATE_BODY, HTTP_STATE_BODY_CHUNK_TRAILER}
      then http_parse_body d x cs s
      else Ret (Inr 0, s))"

text \<open>The exchange when its headers are complete: whether a body follows, and whether the client waits for a go-ahead.\<close>

definition headers_done :: "exchange \<Rightarrow> exchange \<times> bool" where
  "headers_done x =
     (if content_length x \<noteq> 0
      then (x\<lparr>state := HTTP_STATE_BODY, next_state := HTTP_STATE_COMPLETE, body_remain := content_length x\<rparr>,
        has_flag YMO_HTTP_FLAG_EXPECT (flags x))
      else if has_flag YMO_HTTP_REQUEST_CHUNKED (flags x)
      then (x\<lparr>state := HTTP_STATE_BODY_CHUNK_HEADER, next_state := HTTP_STATE_BODY, body_remain := 0\<rparr>,
        has_flag YMO_HTTP_FLAG_EXPECT (flags x))
      else (x\<lparr>state := HTTP_STATE_COMPLETE, next_state := HTTP_STATE_COMPLETE\<rparr>, False))"

definition http_headers_complete ::
  "http_env \<Rightarrow> nat \<Rightarrow> 'u http_proto_data \<Rightarrow> http_exchange \<Rightarrow> 'u http_session \<Rightarrow> (ymo_status \<times> 'u http_session) run" where
  "http_headers_complete e m d x s =
     run_bind (ymo_http_session_init_response e x s) (\<lambda>(x, s).
       case headers_done (xg x) of
         (y, expect) \<Rightarrow>
           let x = x\<lparr>xg := y\<rparr>; s = set_exchange (Some x) s
           in run_bind (if expect then send_100_continue e m s else Ret (YMO_OKAY, s)) (\<lambda>(st, s).
                if st = YMO_OKAY \<and> \<not> has_flag YMO_HTTP_FLAG_UPGRADE (flags y)
                then case (header_cb d, x_response x) of
                       (Some cb, Some a) \<Rightarrow> Ret (cb x a s)
                     | (Some cb, None) \<Rightarrow> Fault
                     | (None, _) \<Rightarrow> Ret (st, s)
                else Ret (st, s)))"

text \<open>\<open>stopping\<close> tells whether the server is at \<^verbatim>\<open>YMO_SERVER_STOP_GRACEFUL\<close>.\<close>

definition http_complete ::
  "bool \<Rightarrow> 'u http_proto_data \<Rightarrow> http_exchange \<Rightarrow> nat \<Rightarrow> 'u http_session \<Rightarrow> ((ymo_status + nat) \<times> 'u http_session) run" where
  "http_complete stopping d x n s =
     run_bind (ymo_http_handler d x s) (\<lambda>(status, s).
       if status \<noteq> YMO_OKAY \<and> \<not> YMO_IS_BLOCKED status then Ret (Inl status, s)
       else Ret (Inr n, if stopping then http_act [Rx_enable False] s else s))"

text \<open>
  The loop of \<^verbatim>\<open>ymo_proto_http_read\<close> with the assessment behind it, on fuel: \<open>n\<close> bytes have been consumed
  and \<open>cs\<close> are left.
\<close>

fun http_loop ::
  "nat \<Rightarrow> http_env \<Rightarrow> nat \<Rightarrow> bool \<Rightarrow> 'u http_proto_data \<Rightarrow> nat \<Rightarrow> bytes \<Rightarrow> 'u http_session \<Rightarrow>
   ((ymo_status + nat) \<times> 'u http_session) run" where
  "http_loop 0 e m stopping d n cs s = Hang"
| "http_loop (Suc fuel) e m stopping d n cs s =
     (case hs_exchange s of
        None \<Rightarrow> Fault
      | Some x \<Rightarrow>
          if state (xg x) = HTTP_STATE_COMPLETE then http_complete stopping d x n s
          else if state (xg x) = HTTP_STATE_HEADERS_COMPLETE then
            run_bind (http_headers_complete e m d x s) (\<lambda>(st, s).
              if st \<noteq> YMO_OKAY then Ret (Inl st, s) else http_loop fuel e m stopping d n cs s)
          else if cs = [] then Ret (Inr n, s)
          else
            run_bind (http_parse_turn e d x cs s) (\<lambda>(r, s).
              case r of
                Inr k \<Rightarrow> http_loop fuel e m stopping d (n + k) (drop k cs) s
              | Inl err \<Rightarrow>
                  (case hs_exchange s of None \<Rightarrow> Fault | Some x \<Rightarrow> ymo_proto_http_handle_error e x err s)))"

definition ymo_proto_http_read ::
  "nat \<Rightarrow> http_env \<Rightarrow> nat \<Rightarrow> bool \<Rightarrow> 'u http_proto_data \<Rightarrow> bytes \<Rightarrow> 'u http_session \<Rightarrow>
   ((ymo_status + nat) \<times> 'u http_session) run" where
  "ymo_proto_http_read fuel e m stopping d input s =
     (if hs_state s = YMO_HTTP_SESSION_ERROR then Ret (Inr (length input), s)
      else run_bind (ymo_http_session_is_read_ready e s) (\<lambda>(status, s).
        if status \<noteq> YMO_OKAY then Ret (Inl status, s) else http_loop fuel e m stopping d 0 input s))"

section \<open>The life of a connection\<close>

definition ymo_proto_http_conn_init ::
  "http_env \<Rightarrow> 'u http_proto_data \<Rightarrow> bool \<Rightarrow> 'u \<Rightarrow> nat \<Rightarrow> 'u http_session option run" where
  "ymo_proto_http_conn_init e d ok junk m =
     (case ymo_http_session_create e ok junk m of
        None \<Rightarrow> Ret None
      | Some s \<Rightarrow>
        (case session_init d of
           None \<Rightarrow> Ret (Some s)
         | Some f \<Rightarrow>
             (case f s of (rc_init, s) \<Rightarrow>
                if rc_init \<noteq> YMO_OKAY then run_bind (ymo_http_session_free s) (\<lambda>_. Ret None) else Ret (Some s))))"

definition ymo_proto_http_conn_cleanup ::
  "'u http_proto_data \<Rightarrow> 'u http_session option \<Rightarrow> 'u http_session option run" where
  "ymo_proto_http_conn_cleanup d session =
     (case session of
        None \<Rightarrow> if session_cleanup d \<noteq> None then Fault else Ret None
      | Some s \<Rightarrow>
          run_bind (ymo_http_session_free (case session_cleanup d of None \<Rightarrow> s | Some f \<Rightarrow> f s)) (\<lambda>s. Ret (Some s)))"

end
