(* ===== verification/Http_Queue.thy ===== *)
theory Http_Queue
  imports Http_Session
begin

text \<open>
  The queue of responses of an HTTP session as an abstract list: responses leave it in the order in which
  the requests were handled, every one is freed exactly once, and no walk over it fails.  A request that
  is handled twice breaks it.
\<close>

section \<open>The queue\<close>

fun queue_at :: "(nat \<Rightarrow> response_obj option) \<Rightarrow> nat option \<Rightarrow> nat list \<Rightarrow> bool" where
  "queue_at h p [] \<longleftrightarrow> p = None"
| "queue_at h p (a # as) \<longleftrightarrow> p = Some a \<and> (\<exists>obj. h a = Some obj \<and> queue_at h (rsp_next obj) as)"

definition queue_ok :: "'u http_session \<Rightarrow> nat list \<Rightarrow> bool" where
  "queue_ok s as \<longleftrightarrow> queue_at (hs_heap s) (hs_response s) as \<and> distinct as \<and> (\<forall>a. hs_heap s a \<noteq> None \<longrightarrow> a < hs_next s)"

lemma queue_at_live: "queue_at h p as \<Longrightarrow> a \<in> set as \<Longrightarrow> h a \<noteq> None"
  by (induction as arbitrary: p) auto

lemma queue_at_other: "a \<notin> set as \<Longrightarrow> queue_at (h(a := v)) p as = queue_at h p as"
  by (induction as arbitrary: p) auto

lemma queue_length:
  assumes "queue_ok s as"
  shows "length as \<le> hs_next s"
proof -
  have "set as \<subseteq> {..<hs_next s}" using assms queue_at_live by (fastforce simp: queue_ok_def)
  then have "card (set as) \<le> hs_next s" using card_mono [of "{..<hs_next s}" "set as"] by simp
  then show ?thesis using assms by (simp add: queue_ok_def distinct_card)
qed

lemma last_response_ok:
  "queue_at (hs_heap s) (Some a) as \<Longrightarrow> length as \<le> fuel \<Longrightarrow>
   last_response fuel s a = Ret (last as) \<and> (\<exists>obj. hs_heap s (last as) = Some obj \<and> rsp_next obj = None)"
proof (induction as arbitrary: a fuel)
  case (Cons b bs)
  then obtain obj f where o: "b = a" "hs_heap s a = Some obj" "queue_at (hs_heap s) (rsp_next obj) bs" "fuel = Suc f" "length bs \<le> f"
    by (cases fuel) auto
  show ?case
  proof (cases bs)
    case Nil
    with o show ?thesis by (simp add: get_rsp_def)
  next
    case (Cons c cs)
    with o have "rsp_next obj = Some c" by simp
    with o Cons Cons.IH [of c f] show ?thesis by (simp add: get_rsp_def)
  qed
qed simp

lemma queue_at_append:
  "queue_at h p as \<Longrightarrow> as \<noteq> [] \<Longrightarrow> distinct as \<Longrightarrow> a \<notin> set as \<Longrightarrow> h a = Some obj \<Longrightarrow> rsp_next obj = None \<Longrightarrow>
   h (last as) = Some l \<Longrightarrow> queue_at (h(last as \<mapsto> l\<lparr>rsp_next := Some a\<rparr>)) p (as @ [a])"
proof (induction as arbitrary: p)
  case (Cons b bs)
  then show ?case
    by (cases bs) (auto simp: queue_at_other)
qed simp

lemma add_response_ok:
  assumes q: "queue_ok s as" and a: "a \<notin> set as" "hs_heap s a = Some obj" "rsp_next obj = None"
  shows "\<exists>s'. ymo_http_session_add_response a s = Ret s' \<and> queue_ok s' (as @ [a]) \<and>
    (\<forall>b. map_option rsp (hs_heap s' b) = map_option rsp (hs_heap s b)) \<and>
    s' = s\<lparr>hs_response := hs_response s', hs_heap := hs_heap s'\<rparr>"
proof (cases "as = []")
  case True
  with q a show ?thesis
    by (auto simp: ymo_http_session_add_response_def queue_ok_def)
next
  case False
  then obtain b where b: "hs_response s = Some b" using q by (cases as) (auto simp: queue_ok_def)
  have "length as \<le> Suc (hs_next s)" using queue_length [OF q] by simp
  with last_response_ok [of s b as "Suc (hs_next s)"] q b obtain l where
    l: "last_response (Suc (hs_next s)) s b = Ret (last as)" "hs_heap s (last as) = Some l" "rsp_next l = None"
    by (auto simp: queue_ok_def)
  let ?s = "put_rsp (last as) (l\<lparr>rsp_next := Some a\<rparr>) s"
  have "ymo_http_session_add_response a s = Ret ?s"
    using b l by (simp add: ymo_http_session_add_response_def get_rsp_def del: last_response.simps)
  moreover have "queue_ok ?s (as @ [a])"
    using q a False l queue_at_append [of "hs_heap s" "hs_response s" as a obj l]
    by (auto simp: queue_ok_def put_rsp_def)
  ultimately show ?thesis using l by (auto simp: put_rsp_def)
qed

lemma complete_response_ok:
  assumes "queue_ok s (a # as)"
  shows "\<exists>s'. ymo_http_session_complete_response s = Ret (YMO_OKAY, s') \<and> queue_ok s' as \<and>
    hs_heap s' = (hs_heap s)(a := None) \<and> hs_next s' = hs_next s"
proof -
  obtain obj where o: "hs_response s = Some a" "hs_heap s a = Some obj" "queue_at (hs_heap s) (rsp_next obj) as" "a \<notin> set as"
    using assms by (auto simp: queue_ok_def)
  then show ?thesis using assms
    by (simp add: ymo_http_session_complete_response_def get_rsp_def rsp_free_def queue_ok_def queue_at_other)
qed

lemma complete_all_ok:
  "queue_ok s as \<Longrightarrow> length as < fuel \<Longrightarrow>
   \<exists>s'. complete_all fuel s = Ret s' \<and> queue_ok s' [] \<and> (\<forall>a \<in> set as. hs_heap s' a = None) \<and>
     (\<forall>a. a \<notin> set as \<longrightarrow> hs_heap s' a = hs_heap s a)"
proof (induction as arbitrary: s fuel)
  case Nil
  then obtain f where "fuel = Suc f" by (cases fuel) auto
  with Nil show ?case by (auto simp: ymo_http_session_complete_response_def queue_ok_def)
next
  case (Cons a as)
  then obtain f where f: "fuel = Suc f" "length as < f" by (cases fuel) auto
  obtain s1 where s1: "ymo_http_session_complete_response s = Ret (YMO_OKAY, s1)" "queue_ok s1 as" "hs_heap s1 = (hs_heap s)(a := None)"
    using complete_response_ok [OF Cons.prems(1)] by auto
  obtain s2 where "complete_all f s1 = Ret s2" "queue_ok s2 []" "\<forall>b \<in> set as. hs_heap s2 b = None"
      "\<forall>b. b \<notin> set as \<longrightarrow> hs_heap s2 b = hs_heap s1 b"
    using Cons.IH [OF s1(2) f(2)] by auto
  with f s1 Cons.prems(1) show ?case by (auto simp: queue_ok_def)
qed

lemma session_free_ok:
  assumes "queue_ok s as"
  shows "\<exists>s'. ymo_http_session_free s = Ret s' \<and> (\<forall>a. hs_heap s' a = (if a \<in> set as then None else hs_heap s a))"
proof -
  define s0 where "s0 = snd (ymo_http_session_free_request (http_act [Tx_enable False, Rx_enable False] s))"
  have e: "hs_heap s0 = hs_heap s" "hs_response s0 = hs_response s" "hs_next s0 = hs_next s"
    by (auto simp: s0_def ymo_http_session_free_request_def http_act_def)
  then have "queue_ok s0 as" "length as < Suc (hs_next s0)"
    using assms queue_length [OF assms] by (simp_all add: queue_ok_def)
  from complete_all_ok [OF this] obtain s' where "complete_all (Suc (hs_next s0)) s0 = Ret s'"
      "\<forall>a \<in> set as. hs_heap s' a = None" "\<forall>a. a \<notin> set as \<longrightarrow> hs_heap s' a = hs_heap s0 a" by blast
  then show ?thesis
    using e(1) unfolding ymo_http_session_free_def Let_def s0_def [symmetric] by auto
qed

lemma queue_ok_cong:
  assumes "queue_ok s as" "hs_heap t = (hs_heap s)(a \<mapsto> obj)" "hs_response t = hs_response s" "hs_next t = hs_next s"
    and "hs_heap s a = Some obj'" "rsp_next obj = rsp_next obj'"
  shows "queue_ok t as"
proof -
  have "queue_at (hs_heap t) p bs = queue_at (hs_heap s) p bs" for p bs
    by (induction bs arbitrary: p) (use assms(2,5,6) in \<open>auto split: if_splits\<close>)
  then show ?thesis using assms by (auto simp: queue_ok_def)
qed

text \<open>A queue whose last response, \<open>a\<close>, is linked to itself: freeing it frees \<open>a\<close> twice.\<close>

lemma cyclic_complete:
  "queue_at h p (as @ [a]) \<Longrightarrow> distinct (as @ [a]) \<Longrightarrow> rsp_next obj = Some a \<Longrightarrow> hs_heap s = h(a \<mapsto> obj) \<Longrightarrow>
   hs_response s = p \<Longrightarrow> length as + 1 < fuel \<Longrightarrow> complete_all fuel s = Fault"
proof (induction as arbitrary: h p s fuel)
  case Nil
  then obtain f where "fuel = Suc (Suc f)" by (cases fuel; cases "fuel - 1") auto
  with Nil show ?case by (simp add: ymo_http_session_complete_response_def get_rsp_def rsp_free_def)
next
  case (Cons b bs)
  then obtain f where f: "fuel = Suc f" "length bs + 1 < f" by (cases fuel) auto
  from Cons.prems obtain bo where b: "p = Some b" "h b = Some bo" "queue_at h (rsp_next bo) (bs @ [a])" "b \<noteq> a" "b \<notin> set (bs @ [a])"
    by auto
  let ?s = "s\<lparr>hs_response := rsp_next bo, hs_heap := (hs_heap s)(b := None)\<rparr>"
  have heap: "hs_heap ?s = (h(b := None))(a \<mapsto> obj)" using b(4) by (auto simp: Cons.prems(4) fun_eq_iff)
  have "queue_at (h(b := None)) (rsp_next bo) (bs @ [a])" by (subst queue_at_other [OF b(5)]) (rule b(3))
  then have "complete_all f ?s = Fault"
    by (rule Cons.IH [OF _ _ Cons.prems(3) heap]) (use Cons.prems(2) f(2) in simp_all)
  moreover have "ymo_http_session_complete_response s = Ret (YMO_OKAY, ?s)"
    using Cons.prems(4,5) b(1,2,4) by (simp add: ymo_http_session_complete_response_def get_rsp_def rsp_free_def)
  ultimately show ?case using f(1) by simp
qed

text \<open>
  An application that answers at once: its callback may change the response it is given, its own data, the memory
  and what the connection is asked for, but neither the queue nor the kind of connection.
\<close>

definition answers_at_once :: "'u http_proto_data \<Rightarrow> http_exchange \<Rightarrow> nat \<Rightarrow> bool" where
  "answers_at_once d x a \<longleftrightarrow> (\<forall>s obj. hs_heap s a = Some obj \<longrightarrow>
     (\<exists>s' r. http_cb d x a s = (YMO_OKAY, s') \<and> hs_heap s' = (hs_heap s)(a \<mapsto> obj\<lparr>rsp := r\<rparr>) \<and>
        has_flag YMO_HTTP_FLAG_REQUEST_KEEPALIVE (r_flags r) = has_flag YMO_HTTP_FLAG_REQUEST_KEEPALIVE (r_flags (rsp obj)) \<and>
        hs_state s' = hs_state s \<and> hs_exchange s' = hs_exchange s \<and> hs_response s' = hs_response s \<and> hs_next s' = hs_next s))"

lemma request_completes:
  assumes "answers_at_once d x a" "hs_exchange s = Some x" "state (xg x) = HTTP_STATE_COMPLETE" "x_response x = Some a"
    and "hs_heap s a = Some obj" "\<not> has_flag YMO_HTTP_FLAG_REQUEST_KEEPALIVE (r_flags (rsp obj))"
    and "\<not> has_flag YMO_HTTP_FLAG_UPGRADE (flags (xg x))" "hs_state s \<noteq> YMO_HTTP_SESSION_ERROR"
  shows "\<exists>s1 r. hs_heap s1 = (hs_heap s)(a \<mapsto> obj\<lparr>rsp := r\<rparr>) \<and> \<not> has_flag YMO_HTTP_FLAG_REQUEST_KEEPALIVE (r_flags r) \<and>
    hs_state s1 = hs_state s \<and> hs_exchange s1 = Some x \<and> hs_response s1 = hs_response s \<and> hs_next s1 = hs_next s \<and>
    (\<forall>s2 obj2. ymo_http_session_add_response a s1 = Ret s2 \<and> hs_heap s2 a = Some obj2 \<and>
        \<not> has_flag YMO_HTTP_FLAG_REQUEST_KEEPALIVE (r_flags (rsp obj2)) \<longrightarrow>
      ymo_proto_http_read (Suc fuel) e m False d input s = Ret (Inr 0, s2))"
proof -
  obtain s1 r where s1: "http_cb d x a s = (YMO_OKAY, s1)" "hs_heap s1 = (hs_heap s)(a \<mapsto> obj\<lparr>rsp := r\<rparr>)"
    "\<not> has_flag YMO_HTTP_FLAG_REQUEST_KEEPALIVE (r_flags r)" "hs_state s1 = hs_state s" "hs_exchange s1 = Some x"
    "hs_response s1 = hs_response s" "hs_next s1 = hs_next s"
    using assms(1,2,5,6) unfolding answers_at_once_def by metis
  show ?thesis
    using s1 assms(2-4,7,8)
    by (intro exI [of _ s1] exI [of _ r]) (auto simp: ymo_proto_http_read_def ymo_http_session_is_read_ready_def http_complete_def
        ymo_http_handler_def try_upgrade_def handle_callback_result_def get_rsp_def)
qed

section \<open>Properties\<close>

text \<open>
  C9: the linked queue of a session's responses behaves as a list: a response is added at its end, without
  a change to what the others hold; the one to be sent next is its head; completing it frees it and
  leaves the rest; and freeing the session frees every queued response, each of them once.
\<close>

theorem response_queue_fifo:
  assumes "queue_ok s as"
  shows "ymo_http_session_next_response s = (if as = [] then None else Some (hd as)) \<and>
    (\<forall>a obj. a \<notin> set as \<and> hs_heap s a = Some obj \<and> rsp_next obj = None \<longrightarrow>
      (\<exists>s'. ymo_http_session_add_response a s = Ret s' \<and> queue_ok s' (as @ [a]) \<and>
        (\<forall>b. map_option rsp (hs_heap s' b) = map_option rsp (hs_heap s b)))) \<and>
    (as \<noteq> [] \<longrightarrow> (\<exists>s'. ymo_http_session_complete_response s = Ret (YMO_OKAY, s') \<and> queue_ok s' (tl as) \<and>
      hs_heap s' = (hs_heap s)(hd as := None))) \<and>
    (\<exists>s'. ymo_http_session_free s = Ret s' \<and> (\<forall>a. hs_heap s' a = (if a \<in> set as then None else hs_heap s a)))"
proof (intro conjI allI impI)
  show "ymo_http_session_next_response s = (if as = [] then None else Some (hd as))"
    using assms by (cases as) (auto simp: queue_ok_def ymo_http_session_next_response_def)
  show "\<exists>s'. ymo_http_session_add_response a s = Ret s' \<and> queue_ok s' (as @ [a]) \<and>
      (\<forall>b. map_option rsp (hs_heap s' b) = map_option rsp (hs_heap s b))"
    if "a \<notin> set as \<and> hs_heap s a = Some obj \<and> rsp_next obj = None" for a obj
    using add_response_ok [OF assms] that by blast
  show "\<exists>s'. ymo_http_session_complete_response s = Ret (YMO_OKAY, s') \<and> queue_ok s' (tl as) \<and>
      hs_heap s' = (hs_heap s)(hd as := None)" if "as \<noteq> []"
    using complete_response_ok [of s "hd as" "tl as"] assms that by auto
  show "\<exists>s'. ymo_http_session_free s = Ret s' \<and> (\<forall>a. hs_heap s' a = (if a \<in> set as then None else hs_heap s a))"
    by (rule session_free_ok [OF assms])
qed

definition new_response :: response_obj where
  "new_response = \<lparr>rsp = ymo_http_response_create 2, rsp_next = None, rsp_exchange = None\<rparr>"

definition two_responses :: "unit http_session" where
  "two_responses = \<lparr>hs_state = YMO_HTTP_SESSION_OPEN, hs_exchange = None, hs_response = Some 0, send_buffer = [],
     user_data = (), hs_heap = [0 \<mapsto> new_response\<lparr>rsp_next := Some 1\<rparr>, 1 \<mapsto> new_response, 2 \<mapsto> new_response],
     hs_next = 3, hs_mem = 4, hs_acts = [], hs_net = [], hs_wire = []\<rparr>"

theorem response_queue_fifo_witness:
  "ymo_http_session_next_response two_responses = Some 0 \<and>
   (\<exists>s'. ymo_http_session_add_response 2 two_responses = Ret s' \<and> queue_ok s' [0, 1, 2])"
proof -
  have q: "queue_ok two_responses [0, 1]"
    by (simp add: queue_ok_def two_responses_def new_response_def)
  have r: "hs_heap two_responses 2 = Some new_response" "rsp_next new_response = None"
    by (simp_all add: two_responses_def new_response_def)
  note f = response_queue_fifo [OF q]
  have "ymo_http_session_next_response two_responses = Some 0" using conjunct1 [OF f] by simp
  moreover have "\<exists>s'. ymo_http_session_add_response 2 two_responses = Ret s' \<and> queue_ok s' ([0, 1] @ [2]) \<and>
      (\<forall>b. map_option rsp (hs_heap s' b) = map_option rsp (hs_heap two_responses b))"
    by (rule mp [OF spec [OF spec [OF conjunct1 [OF conjunct2 [OF f]], of 2], of new_response]]) (simp add: r)
  ultimately show ?thesis by auto
qed

text \<open>
  C26: a request is complete and its response not queued yet; the connection is not to be kept alive and not to
  be upgraded, the session has had no error and any responses may be queued.  When the application answers at once
  (it may fill in the response, but leaves the queue to the server), the first read queues the response and
  consumes nothing of the input; and the exchange is not reset.  So the read that the same input leads to next
  handles the request a second time and links its response, the last of the queue, to itself, and freeing the
  session then frees that response twice.
\<close>

theorem request_handled_twice:
  assumes "hs_exchange s = Some x" "state (xg x) = HTTP_STATE_COMPLETE" "x_response x = Some a"
    and "hs_heap s a = Some obj" "rsp_next obj = None" "queue_ok s as" "a \<notin> set as"
    and "\<not> has_flag YMO_HTTP_FLAG_REQUEST_KEEPALIVE (r_flags (rsp obj))" "\<not> has_flag YMO_HTTP_FLAG_UPGRADE (flags (xg x))"
    and "answers_at_once d x a" "hs_state s \<noteq> YMO_HTTP_SESSION_ERROR"
  shows "\<exists>s1 s2. ymo_proto_http_read (Suc fuel) e m False d input s = Ret (Inr 0, s1) \<and> queue_ok s1 (as @ [a]) \<and>
    ymo_proto_http_read (Suc fuel) e m False d input s1 = Ret (Inr 0, s2) \<and>
    (\<exists>obj2. hs_heap s2 a = Some obj2 \<and> rsp_next obj2 = Some a) \<and> ymo_http_session_free s2 = Fault"
proof -
  from request_completes [OF assms(10,1-4,8,9,11), of fuel e m input] obtain t r where
    t: "hs_heap t = (hs_heap s)(a \<mapsto> obj\<lparr>rsp := r\<rparr>)" "\<not> has_flag YMO_HTTP_FLAG_REQUEST_KEEPALIVE (r_flags r)"
      "hs_state t = hs_state s" "hs_exchange t = Some x" "hs_response t = hs_response s" "hs_next t = hs_next s" and
    read1: "\<forall>s2 obj2. ymo_http_session_add_response a t = Ret s2 \<and> hs_heap s2 a = Some obj2 \<and>
        \<not> has_flag YMO_HTTP_FLAG_REQUEST_KEEPALIVE (r_flags (rsp obj2)) \<longrightarrow>
      ymo_proto_http_read (Suc fuel) e m False d input s = Ret (Inr 0, s2)"
    by (elim exE conjE) (rule that)
  have "queue_ok t as" by (rule queue_ok_cong [OF assms(6) t(1,5,6) assms(4)]) simp
  from add_response_ok [OF this assms(7), of "obj\<lparr>rsp := r\<rparr>"] t(1) assms(5) obtain s1 where
    s1: "ymo_http_session_add_response a t = Ret s1" "queue_ok s1 (as @ [a])" "\<forall>b. map_option rsp (hs_heap s1 b) = map_option rsp (hs_heap t b)"
      "s1 = t\<lparr>hs_response := hs_response s1, hs_heap := hs_heap s1\<rparr>" by auto
  have "map_option rsp (hs_heap s1 a) = Some r" using s1(3) t(1) by simp
  then obtain obj1 where o1: "hs_heap s1 a = Some obj1" "rsp obj1 = r" by auto
  have same: "hs_state s1 = hs_state s" "hs_exchange s1 = Some x" by (subst s1(4), simp add: t)+
  have r1: "ymo_proto_http_read (Suc fuel) e m False d input s = Ret (Inr 0, s1)" using read1 s1(1) o1 t(2) by blast
  have k: "\<not> has_flag YMO_HTTP_FLAG_REQUEST_KEEPALIVE (r_flags (rsp obj1))" "hs_state s1 \<noteq> YMO_HTTP_SESSION_ERROR"
    using t(2) o1(2) same(1) assms(11) by simp_all
  from request_completes [OF assms(10) same(2) assms(2,3) o1(1) k(1) assms(9) k(2), of fuel e m input] obtain u w where
    u: "hs_heap u = (hs_heap s1)(a \<mapsto> obj1\<lparr>rsp := w\<rparr>)" "\<not> has_flag YMO_HTTP_FLAG_REQUEST_KEEPALIVE (r_flags w)"
      "hs_response u = hs_response s1" "hs_next u = hs_next s1" and
    read2: "\<forall>s2 obj2. ymo_http_session_add_response a u = Ret s2 \<and> hs_heap s2 a = Some obj2 \<and>
        \<not> has_flag YMO_HTTP_FLAG_REQUEST_KEEPALIVE (r_flags (rsp obj2)) \<longrightarrow>
      ymo_proto_http_read (Suc fuel) e m False d input s1 = Ret (Inr 0, s2)"
    by (elim exE conjE) (rule that)
  have qu: "queue_ok u (as @ [a])" by (rule queue_ok_cong [OF s1(2) u(1,3,4) o1(1)]) simp
  let ?o = "obj1\<lparr>rsp := w, rsp_next := Some a\<rparr>"
  let ?s2 = "put_rsp a ?o u"
  obtain b where b: "hs_response u = Some b" using qu by (cases as) (auto simp: queue_ok_def)
  have n: "length (as @ [a]) \<le> hs_next u" by (rule queue_length [OF qu])
  have "last_response (Suc (hs_next u)) u b = Ret a"
    using last_response_ok [of u b "as @ [a]" "Suc (hs_next u)"] qu b n by (simp add: queue_ok_def del: last_response.simps)
  then have "ymo_http_session_add_response a u = Ret ?s2"
    using b u(1) by (simp add: ymo_http_session_add_response_def get_rsp_def put_rsp_def del: last_response.simps)
  then have r2: "ymo_proto_http_read (Suc fuel) e m False d input s1 = Ret (Inr 0, ?s2)"
    using read2 u(2) by (simp add: put_rsp_def)
  let ?z = "snd (ymo_http_session_free_request (http_act [Tx_enable False, Rx_enable False] ?s2))"
  have z: "hs_heap ?z = (hs_heap u)(a \<mapsto> ?o)" "hs_response ?z = hs_response u" "hs_next ?z = hs_next u"
    by (simp_all add: ymo_http_session_free_request_def http_act_def put_rsp_def)
  have "complete_all (Suc (hs_next ?z)) ?z = Fault"
    by (rule cyclic_complete [OF _ _ _ z(1,2)]) (use qu n z(3) in \<open>auto simp: queue_ok_def\<close>)
  then have "ymo_http_session_free ?s2 = Fault" by (simp add: ymo_http_session_free_def Let_def del: complete_all.simps)
  then show ?thesis using r1 r2 s1(2) by (auto simp: put_rsp_def)
qed

definition echo_proto :: "unit http_proto_data" where
  "echo_proto = \<lparr>session_init = None, header_cb = None, user_body_cb = None, http_cb = (\<lambda>x a s. (YMO_OKAY, s)),
     session_cleanup = None, upgrade_handler = []\<rparr>"

definition plain_env :: http_env where
  "plain_env = \<lparr>e_nodes = 4, e_junk = 0, e_state = YMO_HTTP_SESSION_OPEN, e_freed = (\<lambda>obj. proto_new (rsp obj))\<rparr>"

definition done_exchange :: http_exchange where
  "done_exchange = \<lparr>xg = fresh_exchange\<lparr>state := HTTP_STATE_COMPLETE\<rparr>, x_response = Some 0, rq_body = None, body_received = 0\<rparr>"

lemma echo_answers: "answers_at_once echo_proto x a"
  unfolding answers_at_once_def
proof (intro allI impI)
  fix s :: "unit http_session" and obj assume "hs_heap s a = Some obj"
  then have "hs_heap s = (hs_heap s)(a \<mapsto> obj\<lparr>rsp := rsp obj\<rparr>)" by (simp add: fun_upd_idem)
  then show "\<exists>s' r. http_cb echo_proto x a s = (YMO_OKAY, s') \<and> hs_heap s' = (hs_heap s)(a \<mapsto> obj\<lparr>rsp := r\<rparr>) \<and>
      has_flag YMO_HTTP_FLAG_REQUEST_KEEPALIVE (r_flags r) = has_flag YMO_HTTP_FLAG_REQUEST_KEEPALIVE (r_flags (rsp obj)) \<and>
      hs_state s' = hs_state s \<and> hs_exchange s' = hs_exchange s \<and> hs_response s' = hs_response s \<and> hs_next s' = hs_next s"
    by (intro exI [of _ s] exI [of _ "rsp obj"]) (simp add: echo_proto_def)
qed

theorem request_handled_twice_witness:
  "\<exists>s1 s2. ymo_proto_http_read 1 plain_env 4 False echo_proto [88]
       (two_responses\<lparr>hs_exchange := Some (done_exchange\<lparr>x_response := Some 2\<rparr>)\<rparr>) = Ret (Inr 0, s1) \<and> queue_ok s1 [0, 1, 2] \<and>
     ymo_proto_http_read 1 plain_env 4 False echo_proto [88] s1 = Ret (Inr 0, s2) \<and> ymo_http_session_free s2 = Fault"
proof -
  let ?x = "done_exchange\<lparr>x_response := Some 2\<rparr>"
  let ?s = "two_responses\<lparr>hs_exchange := Some ?x\<rparr>"
  have q: "queue_ok ?s [0, 1]" by (simp add: queue_ok_def two_responses_def new_response_def)
  have x: "hs_exchange ?s = Some ?x" "state (xg ?x) = HTTP_STATE_COMPLETE" "x_response ?x = Some 2" "hs_heap ?s 2 = Some new_response"
    "rsp_next new_response = None" "2 \<notin> set [0, 1 :: nat]" "\<not> has_flag YMO_HTTP_FLAG_REQUEST_KEEPALIVE (r_flags (rsp new_response))"
    "\<not> has_flag YMO_HTTP_FLAG_UPGRADE (flags (xg ?x))" "hs_state ?s \<noteq> YMO_HTTP_SESSION_ERROR"
    by (simp_all add: done_exchange_def two_responses_def new_response_def has_flag_def ymo_http_response_create_def)
  from request_handled_twice [OF x(1-5) q x(6-8) echo_answers x(9), of 0 plain_env 4 "[88]"] show ?thesis
    by (auto simp del: queue_at.simps)
qed

end
