(* ===== verification/Http_Serve.thy ===== *)
theory Http_Serve
  imports Http_Queue
begin

text \<open>
  Serving HTTP requests from the first byte to the callback: a request with its headers is parsed and
  handed to the application whole, a parse error is answered, and where the read callback does not
  return or writes out of bounds.
\<close>

section \<open>Header lines inside the read loop\<close>

text \<open>Names that do not steer the parser.\<close>

definition ordinary_header :: "bytes \<Rightarrow> bool" where
  "ordinary_header name \<longleftrightarrow> hash_of name \<notin> {31919, 12647, 20206, 17987, 15812}"

definition header_ok :: "bytes \<times> bytes \<Rightarrow> bool" where
  "header_ok h \<longleftrightarrow> list_all IS_HTTP_HDR_FIELD_TOKEN (fst h) \<and> ordinary_header (fst h) \<and>
     CR \<notin> set (snd h) \<and> 0 \<notin> set (snd h) \<and> (snd h = [] \<or> hd (snd h) \<noteq> SP)"

lemma got_value_ordinary:
  assumes "xh_id x AND YMO_HDR_TABLE_MASK \<notin> {31919, 12647, 20206, 17987, 15812}"
  shows "http_header_got_value junk x nm v len = map_option (\<lambda>(_, t). x\<lparr>headers := t, xh_id := YMO_HTTP_HDR_HASH_INIT\<rparr>)
    (ymo_http_hdr_table_add_precompute junk (headers x) (xh_id x AND YMO_HDR_TABLE_MASK) (str_at x nm) (str_at x v))"
  using assms by (auto simp: http_header_got_value_def Let_def split: option.splits)

lemma find_pos_lookup:
  assumes "table_ok t" "lookup t h = None"
  shows "find_pos h (bucket t ! hdr_index h) = None"
proof (rule ccontr)
  assume "find_pos h (bucket t ! hdr_index h) \<noteq> None"
  then obtain k where k: "find_pos h (bucket t ! hdr_index h) = Some k" by auto
  have "bucket t ! hdr_index h ! k \<in> set (bucket t ! hdr_index h)" using find_pos_SomeD [OF k] by simp
  from table_okD [OF assms(1) this] k assms(2) show False by (simp add: lookup_alt node_ok_def)
qed

lemma header_step:
  assumes st: "state x = HTTP_STATE_HEADER_NAME" "hdr_name x = Some (recv_current x)" "xh_id x = YMO_HTTP_HDR_HASH_INIT"
    and h: "header_ok (name, v)"
    and fit: "recv_current x + length name + length v + 2 \<le> length (recv_buf x)"
      "length name + 2 * length v + 2 < unat (remain x)"
    and t: "table_ok (headers x)" "lookup (headers x) (hash_of name) = None" "0 < pool (headers x) + mem (headers x)"
  shows "\<exists>t. ymo_parse_http_headers junk x (name @ COLON # SP # v @ CR # cs) =
      Some (Inr (length name + length v + 3),
        x\<lparr>recv_buf := put (recv_current x) (name @ 0 # v @ [0]) (recv_buf x), hdr_value := Some (recv_current x + length name + 1),
          headers := t, state := HTTP_STATE_CRLF, next_state := HTTP_STATE_HEADER_NAME,
          recv_current := recv_current x + length name + length v + 2,
          remain := remain x - word_of_nat (length name + 2 * length v + 2)\<rparr>) \<and>
    table_ok t \<and> pool (headers x) + mem (headers x) \<le> pool t + mem t + 1 \<and>
    (\<forall>h. lookup t h = (if h = hash_of name then Some v else lookup (headers x) h))"
proof -
  let ?y = "x\<lparr>xh_id := foldl YMO_HDR_HASH_CH (xh_id x) name,
      recv_buf := put (recv_current x) (name @ 0 # v @ [0]) (recv_buf x),
      recv_current := recv_current x + length name + 1, remain := remain x - word_of_nat (length name + 1),
      hdr_value := Some (recv_current x + length name + 1), state := HTTP_STATE_HEADER_VALUE\<rparr>"
  have ok: "list_all IS_HTTP_HDR_FIELD_TOKEN name" "CR \<notin> set v" "0 \<notin> set v" "v = [] \<or> hd v \<noteq> SP"
      "hash_of name \<notin> {31919, 12647, 20206, 17987, 15812}"
    using h by (auto simp: header_ok_def ordinary_header_def)
  note hl = header_line [OF st ok(1-4) fit]
  have add: "ymo_http_hdr_table_add_precompute junk (headers ?y) (xh_id ?y AND YMO_HDR_TABLE_MASK)
      (str_at ?y (recv_current x)) (str_at ?y (recv_current x + length name + 1)) =
    Some (table_insert_first (headers x) (hash_of name) (hdr_index (hash_of name)) name v)"
    unfolding hl(2-4) using find_pos_lookup [OF t(1,2)] by (simp add: ymo_http_hdr_table_add_precompute_def Let_def)
  obtain r t' where ti: "table_insert_first (headers x) (hash_of name) (hdr_index (hash_of name)) name v = (r, t')"
    by (cases "table_insert_first (headers x) (hash_of name) (hdr_index (hash_of name)) name v")
  note ins = insert_first_ok [OF t(1) ti]
  have "http_header_got_value junk ?y (recv_current x) (recv_current x + length name + 1) (length v) =
      Some (?y\<lparr>headers := t', xh_id := YMO_HTTP_HDR_HASH_INIT\<rparr>)"
    using got_value_ordinary [of ?y] hl(4) ok(5) add ti by simp
  with hl(1) [of junk cs] ins(1) ins(2) [OF t(3)] ins(3) st(3) show ?thesis
    by (intro exI [of _ t']) (simp add: parser_saw_cr_def)
qed

lemma header_end:
  assumes "state x = HTTP_STATE_HEADER_NAME" "remain x \<noteq> 0"
  shows "ymo_parse_http_headers junk x (CR # cs) =
    Some (Inr 1, x\<lparr>state := HTTP_STATE_CRLF, next_state := HTTP_STATE_HEADERS_COMPLETE\<rparr>)"
proof -
  have "headers_loop (Suc (Suc f)) junk x (recv_current x) (remain x) (CR # cs) 0 =
      Some (Inr 1, x\<lparr>state := HTTP_STATE_CRLF, next_state := HTTP_STATE_HEADERS_COMPLETE\<rparr>)" for f
    using assms by (simp add: parser_saw_cr_def parse_done_def chr_def CR_def)
  then show ?thesis by (simp add: ymo_parse_http_headers_def)
qed

lemma http_loop_turn:
  assumes "hs_exchange s = Some x" "state (xg x) \<noteq> HTTP_STATE_COMPLETE" "state (xg x) \<noteq> HTTP_STATE_HEADERS_COMPLETE"
    and "cs \<noteq> []" "http_parse_turn e d x cs s = Ret (Inr k, s')"
  shows "http_loop (Suc fuel) e m stopping d n cs s = http_loop fuel e m stopping d (n + k) (drop k cs) s'"
  using assms by simp

declare http_loop.simps [simp del]

lemma crlf_turn:
  assumes "hs_exchange s = Some x" "state (xg x) = HTTP_STATE_CRLF" "next_state (xg x) = HTTP_STATE_HEADER_NAME"
  shows "http_loop (Suc fuel) e m stopping d n (LF # cs) s = http_loop fuel e m stopping d (n + 1) cs
    (set_exchange (Some (x\<lparr>xg := (xg x)\<lparr>state := HTTP_STATE_HEADER_NAME, hdr_name := Some (recv_current (xg x))\<rparr>\<rparr>)) s)"
proof -
  have "http_parse_turn e d x (LF # cs) s = Ret (Inr 1,
      set_exchange (Some (x\<lparr>xg := (xg x)\<lparr>state := HTTP_STATE_HEADER_NAME, hdr_name := Some (recv_current (xg x))\<rparr>\<rparr>)) s)"
    using assms by (simp add: http_parse_turn_def store_parse_def ymo_parse_http_crlf_def Let_def)
  from http_loop_turn [OF assms(1) _ _ _ this] show ?thesis using assms(2) by simp
qed

text \<open>What later header lines leave alone of an exchange.\<close>

definition same_request :: "exchange \<Rightarrow> exchange \<Rightarrow> bool" where
  "same_request x y \<longleftrightarrow> uri y = uri x \<and> query y = query x \<and> fragment y = fragment x \<and> version y = version x \<and>
     flags y = flags x \<and> content_length y = content_length x \<and> recv_current x \<le> recv_current y \<and>
     take (recv_current x) (recv_buf y) = take (recv_current x) (recv_buf x) \<and> length (recv_buf y) = length (recv_buf x)"

definition at_header :: "exchange \<Rightarrow> bool" where
  "at_header x \<longleftrightarrow> state x = HTTP_STATE_HEADER_NAME \<and> hdr_name x = Some (recv_current x) \<and>
     xh_id x = YMO_HTTP_HDR_HASH_INIT \<and> table_ok (headers x)"

definition header_block :: "(bytes \<times> bytes) list \<Rightarrow> bytes" where
  "header_block hs = concat (map (\<lambda>(name, v). name @ COLON # SP # v @ [CR, LF]) hs)"

definition block_room :: "(bytes \<times> bytes) list \<Rightarrow> nat" where
  "block_room hs = (\<Sum>(name, v) \<leftarrow> hs. length name + 2 * length v + 2)"

lemma same_request_trans: "same_request x y \<Longrightarrow> same_request y z \<Longrightarrow> same_request x z"
proof -
  assume xy: "same_request x y" and yz: "same_request y z"
  then have c: "recv_current x \<le> recv_current y" by (simp add: same_request_def)
  then have "take (recv_current x) (recv_buf z) = take (recv_current x) (take (recv_current y) (recv_buf z))"
    by (simp add: min_absorb1)
  also have "\<dots> = take (recv_current x) (take (recv_current y) (recv_buf y))" using yz by (simp add: same_request_def)
  also have "\<dots> = take (recv_current x) (recv_buf x)" using c xy by (simp add: min_absorb1 same_request_def)
  finally show "same_request x z" using xy yz unfolding same_request_def by simp
qed

lemma header_block_parsed:
  assumes "hs_exchange s = Some x" "at_header (xg x)" "list_all header_ok hs" "distinct (map (hash_of \<circ> fst) hs)"
    and "\<forall>h \<in> set hs. lookup (headers (xg x)) (hash_of (fst h)) = None" "length hs \<le> pool (headers (xg x)) + mem (headers (xg x))"
    and "recv_current (xg x) + block_room hs \<le> length (recv_buf (xg x))" "block_room hs < unat (remain (xg x))"
  shows "\<exists>y. http_loop (2 * length hs + fuel) e m stopping d n (header_block hs @ cs) s =
      http_loop fuel e m stopping d (n + length (header_block hs)) cs (set_exchange (Some (x\<lparr>xg := y\<rparr>)) s) \<and>
    same_request (xg x) y \<and> at_header y \<and> remain y \<noteq> 0 \<and>
    (\<forall>h. lookup (headers y) h = (case map_of (map (\<lambda>(name, v). (hash_of name, v)) hs) h of
       Some v \<Rightarrow> Some v | None \<Rightarrow> lookup (headers (xg x)) h))"
  using assms
proof (induction hs arbitrary: x s n)
  case Nil
  then have "set_exchange (Some (x\<lparr>xg := xg x\<rparr>)) s = s" by (simp add: set_exchange_def)
  with Nil show ?case by (intro exI [of _ "xg x"]) (auto simp: header_block_def same_request_def intro: unat_pos)
next
  case (Cons h hs)
  obtain name v where h: "h = (name, v)" by (cases h)
  let ?x = "xg x"
  have r: "block_room (h # hs) = length name + 2 * length v + 2 + block_room hs" by (simp add: block_room_def h)
  have fit: "recv_current ?x + length name + length v + 2 \<le> length (recv_buf ?x)"
      "length name + 2 * length v + 2 < unat (remain ?x)"
    using Cons.prems(7,8) r by auto
  obtain t where t: "ymo_parse_http_headers (e_junk e) ?x (name @ COLON # SP # v @ CR # LF # header_block hs @ cs) =
      Some (Inr (length name + length v + 3),
        ?x\<lparr>recv_buf := put (recv_current ?x) (name @ 0 # v @ [0]) (recv_buf ?x), hdr_value := Some (recv_current ?x + length name + 1),
          headers := t, state := HTTP_STATE_CRLF, next_state := HTTP_STATE_HEADER_NAME,
          recv_current := recv_current ?x + length name + length v + 2,
          remain := remain ?x - word_of_nat (length name + 2 * length v + 2)\<rparr>)"
    "table_ok t" "pool (headers ?x) + mem (headers ?x) \<le> pool t + mem t + 1"
    "\<And>h. lookup t h = (if h = hash_of name then Some v else lookup (headers ?x) h)"
  proof -
    have a: "state ?x = HTTP_STATE_HEADER_NAME" "hdr_name ?x = Some (recv_current ?x)" "xh_id ?x = YMO_HTTP_HDR_HASH_INIT"
        "table_ok (headers ?x)"
      using Cons.prems(2) by (simp_all add: at_header_def)
    have b: "header_ok (name, v)" "lookup (headers ?x) (hash_of name) = None" "0 < pool (headers ?x) + mem (headers ?x)"
      using Cons.prems(3,5,6) h by auto
    show thesis
      using header_step [OF a(1-3) b(1) fit a(4) b(2,3), of "e_junk e" "LF # header_block hs @ cs"]
      by (elim exE conjE) (rule that, assumption+, erule spec)
  qed
  define x1 where "x1 = ?x\<lparr>recv_buf := put (recv_current ?x) (name @ 0 # v @ [0]) (recv_buf ?x), hdr_value := Some (recv_current ?x + length name + 1),
          headers := t, state := HTTP_STATE_CRLF, next_state := HTTP_STATE_HEADER_NAME,
          recv_current := recv_current ?x + length name + length v + 2,
          remain := remain ?x - word_of_nat (length name + 2 * length v + 2)\<rparr>"
  define x2 where "x2 = x1\<lparr>state := HTTP_STATE_HEADER_NAME, hdr_name := Some (recv_current x1)\<rparr>"
  define s1 where "s1 = set_exchange (Some (x\<lparr>xg := x1\<rparr>)) s"
  define s2 where "s2 = set_exchange (Some (x\<lparr>xg := x2\<rparr>)) s"
  have cs: "header_block (h # hs) @ cs = name @ COLON # SP # v @ CR # LF # header_block hs @ cs"
    by (simp add: header_block_def h)
  have turn: "http_parse_turn e d x (header_block (h # hs) @ cs) s = Ret (Inr (length name + length v + 3), s1)"
    using Cons.prems(2) t(1) unfolding cs by (simp add: http_parse_turn_def store_parse_def at_header_def s1_def x1_def)
  have "http_loop (Suc (Suc (2 * length hs + fuel))) e m stopping d n (header_block (h # hs) @ cs) s =
      http_loop (Suc (2 * length hs + fuel)) e m stopping d (n + (length name + length v + 3))
        (drop (length name + length v + 3) (header_block (h # hs) @ cs)) s1"
    using Cons.prems(1,2) by (intro http_loop_turn [OF _ _ _ _ turn]) (simp_all add: at_header_def cs)
  also have "drop (length name + length v + 3) (header_block (h # hs) @ cs) = LF # header_block hs @ cs"
    by (simp add: cs numeral_3_eq_3)
  also have "http_loop (Suc (2 * length hs + fuel)) e m stopping d (n + (length name + length v + 3)) (LF # header_block hs @ cs) s1 =
      http_loop (2 * length hs + fuel) e m stopping d (n + (length name + length v + 3) + 1) (header_block hs @ cs) s2"
    using crlf_turn [of s1 "x\<lparr>xg := x1\<rparr>"] by (simp add: s1_def s2_def x2_def set_exchange_def x1_def)
  finally have step: "http_loop (2 * length (h # hs) + fuel) e m stopping d n (header_block (h # hs) @ cs) s =
      http_loop (2 * length hs + fuel) e m stopping d (n + (length name + length v + 4)) (header_block hs @ cs) s2"
    by (simp add: numeral_eq_Suc)
  have u: "unat (remain x2) = unat (remain ?x) - (length name + 2 * length v + 2)"
    unfolding x2_def x1_def using unat_sub_word_of_nat [of "length name + 2 * length v + 2" "remain ?x"] fit(2) by simp
  have len: "length (recv_buf x2) = length (recv_buf ?x)" using fit(1) by (simp add: x2_def x1_def)
  have eqs: "set_exchange (Some (x\<lparr>xg := x2, xg := y\<rparr>)) s2 = set_exchange (Some (x\<lparr>xg := y\<rparr>)) s"
      "xg (x\<lparr>xg := x2\<rparr>) = x2" "headers x2 = t" for y
    by (simp_all add: s2_def set_exchange_def x2_def x1_def)
  have IH: "\<exists>y. http_loop (2 * length hs + fuel) e m stopping d (n + (length name + length v + 4)) (header_block hs @ cs) s2 =
      http_loop fuel e m stopping d (n + (length name + length v + 4) + length (header_block hs)) cs
        (set_exchange (Some ((x\<lparr>xg := x2\<rparr>)\<lparr>xg := y\<rparr>)) s2) \<and>
    same_request (xg (x\<lparr>xg := x2\<rparr>)) y \<and> at_header y \<and> remain y \<noteq> 0 \<and>
    (\<forall>h. lookup (headers y) h = (case map_of (map (\<lambda>(name, v). (hash_of name, v)) hs) h of
       Some v \<Rightarrow> Some v | None \<Rightarrow> lookup (headers (xg (x\<lparr>xg := x2\<rparr>))) h))"
  proof (rule Cons.IH)
    show "\<forall>g \<in> set hs. lookup (headers (xg (x\<lparr>xg := x2\<rparr>))) (hash_of (fst g)) = None"
      using Cons.prems(4,5) t(4) h by (auto simp: x2_def x1_def image_iff)
    show "length hs \<le> pool (headers (xg (x\<lparr>xg := x2\<rparr>))) + mem (headers (xg (x\<lparr>xg := x2\<rparr>)))"
      using Cons.prems(6) t(3) by (simp add: x2_def x1_def)
    show "block_room hs < unat (remain (xg (x\<lparr>xg := x2\<rparr>)))" using Cons.prems(8) r u by simp
    show "recv_current (xg (x\<lparr>xg := x2\<rparr>)) + block_room hs \<le> length (recv_buf (xg (x\<lparr>xg := x2\<rparr>)))"
      using Cons.prems(7) r len by (simp add: x2_def x1_def)
  qed (use Cons.prems t(2) in \<open>simp_all add: s2_def set_exchange_def at_header_def x2_def x1_def\<close>)
  obtain y where y: "http_loop (2 * length hs + fuel) e m stopping d (n + (length name + length v + 4)) (header_block hs @ cs) s2 =
      http_loop fuel e m stopping d (n + (length name + length v + 4) + length (header_block hs)) cs (set_exchange (Some (x\<lparr>xg := y\<rparr>)) s)"
    "same_request x2 y" "at_header y" "remain y \<noteq> 0"
    "\<forall>h. lookup (headers y) h = (case map_of (map (\<lambda>(name, v). (hash_of name, v)) hs) h of
       Some v \<Rightarrow> Some v | None \<Rightarrow> lookup t h)"
    using IH unfolding eqs by (elim exE conjE) (rule that)
  have "same_request ?x x2"
    using fit(1) len by (simp add: same_request_def x2_def x1_def put_def)
  then have "same_request ?x y" using y(2) by (rule same_request_trans)
  moreover have len2: "n + (length name + length v + 4) + length (header_block hs) = n + length (header_block (h # hs))"
    by (simp add: header_block_def h)
  have "http_loop (2 * length (h # hs) + fuel) e m stopping d n (header_block (h # hs) @ cs) s =
      http_loop fuel e m stopping d (n + length (header_block (h # hs))) cs (set_exchange (Some (x\<lparr>xg := y\<rparr>)) s)"
    unfolding step y(1) len2 ..
  moreover have "hash_of name \<notin> set (map (hash_of \<circ> fst) hs)" using Cons.prems(4) h by simp
  then have "map_of (map (\<lambda>(name, v). (hash_of name, v)) hs) (hash_of name) = None"
    by (force simp: map_of_eq_None_iff)
  ultimately show ?case
    using y(3-5) t(4) h by (intro exI [of _ y]) (auto split: option.splits)
qed

section \<open>A whole request\<close>

text \<open>An exchange that waits for a request: new, or reset after one.\<close>

definition idle_exchange :: "exchange \<Rightarrow> bool" where
  "idle_exchange x \<longleftrightarrow> state x = HTTP_STATE_CONNECTED \<and> recv_current x = 0 \<and> remain x = 1024 \<and> length (recv_buf x) = 1024 \<and>
     flags x = 0 \<and> content_length x = 0 \<and> xh_id x = YMO_HTTP_HDR_HASH_INIT \<and> table_ok (headers x) \<and> (\<forall>h. lookup (headers x) h = None)"

lemma table_clear_ok:
  assumes "length (bucket t) = 8"
  shows "table_ok (ymo_http_hdr_table_clear t)" "lookup (ymo_http_hdr_table_clear t) h = None"
proof -
  have b: "bucket (ymo_http_hdr_table_clear t) = replicate 8 []"
    using clear_fold [of "concat (bucket t)" t] by (simp add: ymo_http_hdr_table_clear_def YMO_HDR_TABLE_BUCKET_SIZE_def)
  then show "table_ok (ymo_http_hdr_table_clear t)" by (simp add: table_ok_def YMO_HDR_TABLE_BUCKET_SIZE_def)
  show "lookup (ymo_http_hdr_table_clear t) h = None" by (simp add: lookup_alt b)
qed

lemma reset_idle:
  "length (recv_buf x) = 1024 \<Longrightarrow> length (bucket (headers x)) = 8 \<Longrightarrow> idle_exchange (ymo_http_exchange_reset x)"
  by (simp add: idle_exchange_def ymo_http_exchange_reset_def table_clear_ok YMO_HTTP_RECV_BUF_SIZE_def)

lemma create_idle: "ymo_http_exchange_create nodes True = Some x \<Longrightarrow> idle_exchange x"
  by (auto simp: ymo_http_exchange_create_def YMO_HTTP_RECV_BUF_SIZE_def ymo_http_hdr_table_init_def
      ymo_http_hdr_table_create_def YMO_HDR_TABLE_BUCKET_SIZE_def intro!: reset_idle)

lemma str_at_kept:
  assumes "take c b' = take c (recv_buf x)" "i < c" "c \<le> length (recv_buf x)" "recv_buf x ! (c - 1) = 0" "length b' = length (recv_buf x)"
    and "recv_buf y = b'"
  shows "str_at y i = str_at x i"
proof -
  have z: "0 \<in> set (drop i (take c (recv_buf x)))"
  proof -
    have "drop i (take c (recv_buf x)) ! (c - 1 - i) = 0" using assms(2-4) by simp
    moreover have "c - 1 - i < length (drop i (take c (recv_buf x)))" using assms(2,3) by simp
    ultimately show ?thesis by (metis nth_mem)
  qed
  have "takeWhile (\<lambda>k. k \<noteq> 0) (drop i b) = takeWhile (\<lambda>k. k \<noteq> 0) (drop i (take c (recv_buf x)))"
    if "take c b = take c (recv_buf x)" for b
  proof -
    have "drop i b = drop i (take c b @ drop c b)" by simp
    also have "\<dots> = drop i (take c (recv_buf x)) @ drop (i - length (take c b)) (drop c b)"
      unfolding that by (simp only: drop_append)
    finally show ?thesis using z by (simp add: takeWhile_append1 [of 0])
  qed
  from this [of b'] this [of "recv_buf x"] assms(1,6) show ?thesis by (simp add: str_at_def)
qed

definition http_request :: "bytes \<Rightarrow> bytes \<Rightarrow> bytes option \<Rightarrow> bytes option \<Rightarrow> bytes \<Rightarrow> (bytes \<times> bytes) list \<Rightarrow> bytes" where
  "http_request mt p q f v hs = request_line mt p q f v @ LF # header_block hs @ [CR, LF]"

text \<open>The application's view of the request.\<close>

definition request_view ::
  "exchange \<Rightarrow> bytes \<Rightarrow> bytes \<Rightarrow> bytes option \<Rightarrow> bytes option \<Rightarrow> bytes \<Rightarrow> (bytes \<times> bytes) list \<Rightarrow> bool" where
  "request_view y mt p q f v hs \<longleftrightarrow>
     str_at y 0 = mt \<and> map_option (str_at y) (uri y) = Some p \<and> map_option (str_at y) (query y) = q \<and>
     map_option (str_at y) (fragment y) = f \<and> map_option (str_at y) (version y) = Some v \<and>
     (\<forall>h. lookup (headers y) h = map_of (map (\<lambda>(name, v). (hash_of name, v)) hs) h)"

lemma version_flags_none: "\<not> has_flag YMO_HTTP_FLAG_UPGRADE (version_flags v 0)"
  by (simp add: version_flags_def has_flag_def http_flag_defs)


definition line_stored ::
  "nat \<Rightarrow> exchange \<Rightarrow> bytes \<Rightarrow> bytes \<Rightarrow> bytes option \<Rightarrow> bytes option \<Rightarrow> bytes \<Rightarrow> bool" where
  "line_stored n y mt p q f v \<longleftrightarrow>
     0 < n \<and> n \<le> length (recv_buf y) \<and> recv_buf y ! (n - 1) = 0 \<and>
     (\<forall>i \<in> {0} \<union> set_option (uri y) \<union> set_option (query y) \<union> set_option (fragment y) \<union> set_option (version y). i < n) \<and>
     str_at y 0 = mt \<and> map_option (str_at y) (uri y) = Some p \<and> map_option (str_at y) (query y) = q \<and>
     map_option (str_at y) (fragment y) = f \<and> map_option (str_at y) (version y) = Some v"

lemma str_at_steer [simp]: "str_at (y\<lparr>state := a, hdr_name := b\<rparr>) = str_at y" "str_at (y\<lparr>state := a, next_state := c\<rparr>) = str_at y"
  "str_at (y\<lparr>next_state := c, state := a\<rparr>) = str_at y"
  by (simp_all add: fun_eq_iff str_at_def)

lemma line_stored_steer [simp]:
  "line_stored n (y\<lparr>state := a, hdr_name := b\<rparr>) mt p q f v = line_stored n y mt p q f v"
  "line_stored n (y\<lparr>state := a, next_state := c\<rparr>) mt p q f v = line_stored n y mt p q f v"
  by (simp_all add: line_stored_def)

lemma line_stored_kept:
  assumes "line_stored n x mt p q f v" "same_request x y" "n \<le> recv_current x"
  shows "line_stored n y mt p q f v"
proof -
  have "take n (recv_buf y) = take n (take (recv_current x) (recv_buf y))" using assms(3) by (simp add: min_absorb1)
  also have "\<dots> = take n (take (recv_current x) (recv_buf x))" using assms(2) by (simp add: same_request_def)
  finally have t: "take n (recv_buf y) = take n (recv_buf x)" using assms(3) by (simp add: min_absorb1)
  have len: "length (recv_buf y) = length (recv_buf x)" using assms(2) by (simp add: same_request_def)
  have n: "0 < n" "n \<le> length (recv_buf x)" "recv_buf x ! (n - 1) = 0" using assms(1) by (simp_all add: line_stored_def)
  have at: "str_at y i = str_at x i" if "i < n" for i
    by (rule str_at_kept [OF t that n(2,3) len refl])
  have "recv_buf y ! (n - 1) = take n (recv_buf y) ! (n - 1)" using n(1) by simp
  also have "\<dots> = 0" unfolding t using n(1,3) by simp
  finally have "recv_buf y ! (n - 1) = 0" .
  moreover have "map_option (str_at y) i = map_option (str_at x) i" if "\<forall>k \<in> set_option i. k < n" for i
    using at that by (cases i) auto
  ultimately show ?thesis using assms(1,2) at len by (simp add: line_stored_def same_request_def)
qed

lemma line_turn:
  assumes "hs_exchange s = Some x" "idle_exchange (xg x)" "request_line_ok mt p q f v" "length (request_line mt p q f v) \<le> 1024"
  shows "\<exists>y. http_loop (Suc (Suc fuel)) e m stopping d n (request_line mt p q f v @ LF # cs) s =
      http_loop fuel e m stopping d (n + length (request_line mt p q f v) + 1) cs (set_exchange (Some (x\<lparr>xg := y\<rparr>)) s) \<and>
    at_header y \<and> recv_current y = length (request_line mt p q f v) \<and> unat (remain y) = 1025 - length (request_line mt p q f v) \<and>
    flags y = version_flags v 0 \<and> content_length y = 0 \<and> headers y = headers (xg x) \<and> length (recv_buf y) = 1024 \<and>
    line_stored (length (request_line mt p q f v)) y mt p q f v"
proof -
  let ?n = "length (request_line mt p q f v)"
  let ?x = "(xg x)\<lparr>state := HTTP_STATE_REQUEST_METHOD\<rparr>"
  have idle: "state ?x = HTTP_STATE_REQUEST_METHOD" "recv_current ?x = 0" "?n \<le> length (recv_buf ?x)" "?n \<le> unat (remain ?x)"
    using assms(2,4) by (simp_all add: idle_exchange_def)
  obtain y where y: "ymo_parse_http_request_line ?x (request_line mt p q f v @ LF # cs) = Some (Inr ?n, y)"
    "state y = HTTP_STATE_CRLF" "next_state y = HTTP_STATE_HEADER_NAME" "flags y = version_flags v (flags ?x)"
    "recv_current y = ?n" "remain y = remain ?x - word_of_nat (?n - 1)" "headers y = headers ?x" "xh_id y = xh_id ?x"
    "content_length y = content_length ?x" "length (recv_buf y) = length (recv_buf ?x)" "recv_buf y ! (?n - 1) = 0"
    "\<forall>i \<in> {0} \<union> set_option (uri y) \<union> set_option (query y) \<union> set_option (fragment y) \<union> set_option (version y). i < ?n"
    "str_at y 0 = mt" "map_option (str_at y) (uri y) = Some p" "map_option (str_at y) (query y) = q"
    "map_option (str_at y) (fragment y) = f" "map_option (str_at y) (version y) = Some v"
    using request_line_view [OF idle(1,2) assms(3) idle(3,4), of "LF # cs"] by (elim exE conjE) (rule that)
  let ?y = "y\<lparr>state := HTTP_STATE_HEADER_NAME, hdr_name := Some (recv_current y)\<rparr>"
  have turn: "http_parse_turn e d x (request_line mt p q f v @ LF # cs) s = Ret (Inr ?n, set_exchange (Some (x\<lparr>xg := y\<rparr>)) s)"
    using assms(2) y(1) by (simp add: http_parse_turn_def store_parse_def idle_exchange_def)
  have "http_loop (Suc (Suc fuel)) e m stopping d n (request_line mt p q f v @ LF # cs) s =
      http_loop (Suc fuel) e m stopping d (n + ?n) (LF # cs) (set_exchange (Some (x\<lparr>xg := y\<rparr>)) s)"
    by (subst http_loop_turn [OF assms(1) _ _ _ turn]) (use assms(2) in \<open>simp_all add: idle_exchange_def\<close>)
  also have "\<dots> = http_loop fuel e m stopping d (n + ?n + 1) cs (set_exchange (Some (x\<lparr>xg := ?y\<rparr>)) s)"
    using crlf_turn [of "set_exchange (Some (x\<lparr>xg := y\<rparr>)) s" "x\<lparr>xg := y\<rparr>"] y(2,3) by (simp add: set_exchange_def)
  finally have step: "http_loop (Suc (Suc fuel)) e m stopping d n (request_line mt p q f v @ LF # cs) s =
      http_loop fuel e m stopping d (n + ?n + 1) cs (set_exchange (Some (x\<lparr>xg := ?y\<rparr>)) s)" .
  have "0 < ?n" by (simp add: request_line_def)
  then obtain k where k: "?n = Suc k" by (cases ?n) auto
  have "unat (remain y) = 1025 - ?n"
    using assms(2,4) y(6) k unat_sub_word_of_nat [of "?n - 1" "remain (xg x)"] by (simp add: idle_exchange_def)
  moreover have "line_stored ?n y mt p q f v"
    using \<open>0 < ?n\<close> assms(2,4) y(10-17) by (simp add: line_stored_def idle_exchange_def)
  ultimately show ?thesis
    using step assms(2) y(4,5,7,8,9,10) by (intro exI [of _ ?y] conjI) (simp_all add: at_header_def idle_exchange_def)
qed

lemma request_end_turn:
  assumes "hs_exchange s = Some x" "at_header (xg x)" "remain (xg x) \<noteq> 0"
  shows "http_loop (Suc (Suc fuel)) e m stopping d n (CR # LF # cs) s = http_loop fuel e m stopping d (n + 2) cs (set_exchange (Some
    (x\<lparr>xg := (xg x)\<lparr>next_state := HTTP_STATE_HEADERS_COMPLETE, state := HTTP_STATE_HEADERS_COMPLETE\<rparr>\<rparr>)) s)"
proof -
  let ?y1 = "(xg x)\<lparr>state := HTTP_STATE_CRLF, next_state := HTTP_STATE_HEADERS_COMPLETE\<rparr>"
  let ?y = "?y1\<lparr>state := HTTP_STATE_HEADERS_COMPLETE\<rparr>"
  have st: "state (xg x) = HTTP_STATE_HEADER_NAME" using assms(2) by (simp add: at_header_def)
  have t1: "http_parse_turn e d x (CR # LF # cs) s = Ret (Inr 1, set_exchange (Some (x\<lparr>xg := ?y1\<rparr>)) s)"
    using st header_end [OF st assms(3)] by (simp add: http_parse_turn_def store_parse_def)
  have t2: "http_parse_turn e d (x\<lparr>xg := ?y1\<rparr>) (LF # cs) (set_exchange (Some (x\<lparr>xg := ?y1\<rparr>)) s) =
      Ret (Inr 1, set_exchange (Some (x\<lparr>xg := ?y\<rparr>)) s)"
    by (simp add: http_parse_turn_def store_parse_def ymo_parse_http_crlf_def Let_def set_exchange_def)
  have "http_loop (Suc (Suc fuel)) e m stopping d n (CR # LF # cs) s =
      http_loop (Suc fuel) e m stopping d (n + 1) (LF # cs) (set_exchange (Some (x\<lparr>xg := ?y1\<rparr>)) s)"
    by (subst http_loop_turn [OF assms(1) _ _ _ t1]) (simp_all add: st)
  also have "\<dots> = http_loop fuel e m stopping d (n + 1 + 1) cs (set_exchange (Some (x\<lparr>xg := ?y\<rparr>)) s)"
    by (subst http_loop_turn [OF _ _ _ _ t2]) (simp_all add: set_exchange_def)
  finally show ?thesis by simp
qed

text \<open>The response a request is answered with.\<close>

abbreviation fresh_rsp :: "http_env \<Rightarrow> bytes \<Rightarrow> response" where
  "fresh_rsp e v \<equiv> (ymo_http_response_create (e_nodes e))\<lparr>r_flags := version_flags v 0\<rparr>"

lemma init_response_ok:
  assumes "hs_mem s \<noteq> 0" "flags (xg x) = version_flags v 0"
  shows "ymo_http_session_init_response e x s = Ret (x\<lparr>x_response := Some (hs_next s)\<rparr>,
    s\<lparr>hs_mem := hs_mem s - 1, hs_next := hs_next s + 1,
      hs_heap := (hs_heap s)(hs_next s \<mapsto> \<lparr>rsp = fresh_rsp e v, rsp_next = None, rsp_exchange = None\<rparr>)\<rparr>)"
proof -
  have "init_connection_header (version_flags v 0) r = r" for r
    by (simp add: init_connection_header_def version_flags_def has_flag_def http_flag_defs Let_def)
  then show ?thesis
    using assms by (simp add: ymo_http_session_init_response_def rsp_create_def on_rsp_def get_rsp_def put_rsp_def http_act_def)
qed

text \<open>What the read callback makes of the application's answer.\<close>

definition after_callback ::
  "bool \<Rightarrow> nat \<Rightarrow> http_exchange \<Rightarrow> nat \<Rightarrow> ymo_status \<times> 'u http_session \<Rightarrow> ((ymo_status + nat) \<times> 'u http_session) run" where
  "after_callback stopping n x a res =
     run_bind (handle_callback_result (fst res) x a (snd res)) (\<lambda>(status, s).
       if status \<noteq> YMO_OKAY \<and> \<not> YMO_IS_BLOCKED status then Ret (Inl status, s)
       else Ret (Inr n, if stopping then http_act [Rx_enable False] s else s))"

lemma headers_complete_turn:
  assumes "hs_exchange s = Some x" "state (xg x) = HTTP_STATE_HEADERS_COMPLETE" "content_length (xg x) = 0"
    and "flags (xg x) = version_flags v 0" "hs_mem s \<noteq> 0" "header_cb d = None"
  shows "\<exists>y s1. http_loop (Suc (Suc fuel)) e m stopping d n cs s = after_callback stopping n y (hs_next s) (http_cb d y (hs_next s) s1) \<and>
    y = x\<lparr>xg := (xg x)\<lparr>state := HTTP_STATE_COMPLETE, next_state := HTTP_STATE_COMPLETE\<rparr>, x_response := Some (hs_next s)\<rparr> \<and>
    s1 = s\<lparr>hs_exchange := Some y, hs_mem := hs_mem s - 1, hs_next := hs_next s + 1,
      hs_heap := (hs_heap s)(hs_next s \<mapsto> \<lparr>rsp = fresh_rsp e v, rsp_next = None, rsp_exchange = None\<rparr>)\<rparr>"
proof -
  let ?a = "hs_next s"
  obtain s0 where i: "ymo_http_session_init_response e x s = Ret (x\<lparr>x_response := Some ?a\<rparr>, s0)"
    "s0 = s\<lparr>hs_mem := hs_mem s - 1, hs_next := hs_next s + 1,
      hs_heap := (hs_heap s)(?a \<mapsto> \<lparr>rsp = fresh_rsp e v, rsp_next = None, rsp_exchange = None\<rparr>)\<rparr>"
    using init_response_ok [OF assms(5,4), of e] by auto
  define y where "y = x\<lparr>xg := (xg x)\<lparr>state := HTTP_STATE_COMPLETE, next_state := HTTP_STATE_COMPLETE\<rparr>, x_response := Some ?a\<rparr>"
  have y2: "x\<lparr>x_response := Some ?a, xg := (xg x)\<lparr>state := HTTP_STATE_COMPLETE, next_state := HTTP_STATE_COMPLETE\<rparr>\<rparr> = y"
    by (simp add: y_def)
  define s1 where "s1 = set_exchange (Some y) s0"
  have nf: "\<not> has_flag YMO_HTTP_REQUEST_CHUNKED (version_flags v 0)"
    by (simp add: version_flags_def has_flag_def http_flag_defs)
  have "http_headers_complete e m d x s = Ret (YMO_OKAY, s1)"
    using i(1) assms(3,4,6) nf by (simp add: http_headers_complete_def headers_done_def y2 s1_def Let_def)
  then have "http_loop (Suc (Suc fuel)) e m stopping d n cs s = http_loop (Suc fuel) e m stopping d n cs s1"
    using assms(1,2) by (simp add: http_loop.simps(2) [of "Suc fuel"])
  also have "\<dots> = http_complete stopping d y n s1"
    by (simp add: http_loop.simps(2) s1_def set_exchange_def y_def)
  also have "\<dots> = after_callback stopping n y ?a (http_cb d y ?a s1)"
    using version_flags_none [of v] assms(4)
    by (simp add: http_complete_def ymo_http_handler_def try_upgrade_def after_callback_def y_def split: prod.split)
  finally show ?thesis
    using i(2) by (intro exI [of _ y] exI [of _ s1]) (simp add: y_def s1_def set_exchange_def)
qed

lemma set_exchange_twice [simp]: "set_exchange y (set_exchange x s) = set_exchange y s"
  by (simp add: set_exchange_def)

lemma set_exchange_simps [simp]:
  "hs_exchange (set_exchange x s) = x" "hs_mem (set_exchange x s) = hs_mem s" "hs_next (set_exchange x s) = hs_next s"
  "hs_heap (set_exchange x s) = hs_heap s"
  by (simp_all add: set_exchange_def)

text \<open>The loop up to the end of the header block.\<close>

lemma request_parsed:
  assumes "hs_exchange s = Some x" "idle_exchange (xg x)" "request_line_ok mt p q f v" "list_all header_ok hs"
    and "distinct (map (hash_of \<circ> fst) hs)" "length hs \<le> pool (headers (xg x)) + mem (headers (xg x))"
    and "length (request_line mt p q f v) + block_room hs \<le> 1024"
  shows "\<exists>y. http_loop (2 * length hs + 4 + fuel) e m stopping d n (http_request mt p q f v hs @ rest) s =
      http_loop fuel e m stopping d (n + length (http_request mt p q f v hs)) rest (set_exchange (Some (x\<lparr>xg := y\<rparr>)) s) \<and>
    state y = HTTP_STATE_HEADERS_COMPLETE \<and> flags y = version_flags v 0 \<and> content_length y = 0 \<and> request_view y mt p q f v hs"
proof -
  let ?n = "length (request_line mt p q f v)" and ?cs = "CR # LF # rest" and ?fuel = "2 * length hs + Suc (Suc fuel)"
  have fit: "?n \<le> 1024" using assms(7) by simp
  obtain y where y: "http_loop (Suc (Suc ?fuel)) e m stopping d n (request_line mt p q f v @ LF # header_block hs @ ?cs) s =
        http_loop ?fuel e m stopping d (n + ?n + 1) (header_block hs @ ?cs) (set_exchange (Some (x\<lparr>xg := y\<rparr>)) s)"
      "at_header y" "recv_current y = ?n" "unat (remain y) = 1025 - ?n" "flags y = version_flags v 0" "content_length y = 0"
      "headers y = headers (xg x)" "length (recv_buf y) = 1024" "line_stored ?n y mt p q f v"
    using line_turn [OF assms(1,2,3) fit, where fuel = ?fuel and e = e and m = m and stopping = stopping and d = d and n = n
        and cs = "header_block hs @ ?cs"] by (elim exE conjE) (rule that)
  let ?x = "x\<lparr>xg := y\<rparr>" and ?s = "set_exchange (Some (x\<lparr>xg := y\<rparr>)) s" and ?m = "n + ?n + 1 + length (header_block hs)"
  have none: "lookup (headers y) h = None" for h using assms(2) y(7) by (simp add: idle_exchange_def)
  have a: "hs_exchange ?s = Some ?x" "at_header (xg ?x)" "\<forall>h \<in> set hs. lookup (headers (xg ?x)) (hash_of (fst h)) = None"
      "length hs \<le> pool (headers (xg ?x)) + mem (headers (xg ?x))"
      "recv_current (xg ?x) + block_room hs \<le> length (recv_buf (xg ?x))" "block_room hs < unat (remain (xg ?x))"
    using assms(6,7) y(2-4,7,8) none by simp_all
  obtain z where z: "http_loop ?fuel e m stopping d (n + ?n + 1) (header_block hs @ ?cs) ?s =
        http_loop (Suc (Suc fuel)) e m stopping d ?m ?cs (set_exchange (Some (?x\<lparr>xg := z\<rparr>)) ?s)"
      "same_request (xg ?x) z" "at_header z" "remain z \<noteq> 0"
      "\<forall>h. lookup (headers z) h = (case map_of (map (\<lambda>(name, v). (hash_of name, v)) hs) h of
         Some v \<Rightarrow> Some v | None \<Rightarrow> lookup (headers (xg ?x)) h)"
    using header_block_parsed [OF a(1,2) assms(4,5) a(3-6), where fuel = "Suc (Suc fuel)" and e = e and m = m
        and stopping = stopping and d = d and n = "n + ?n + 1" and cs = ?cs] by (elim exE conjE) (rule that)
  let ?z = "z\<lparr>next_state := HTTP_STATE_HEADERS_COMPLETE, state := HTTP_STATE_HEADERS_COMPLETE\<rparr>"
  have "http_loop (Suc (Suc fuel)) e m stopping d ?m ?cs (set_exchange (Some (?x\<lparr>xg := z\<rparr>)) ?s) =
      http_loop fuel e m stopping d (?m + 2) rest (set_exchange (Some (x\<lparr>xg := ?z\<rparr>)) s)"
    by (subst request_end_turn [of _ "x\<lparr>xg := z\<rparr>"]) (use z(3,4) in simp_all)
  then have run: "http_loop (Suc (Suc ?fuel)) e m stopping d n (http_request mt p q f v hs @ rest) s =
      http_loop fuel e m stopping d (n + length (http_request mt p q f v hs)) rest (set_exchange (Some (x\<lparr>xg := ?z\<rparr>)) s)"
    using y(1) z(1) by (simp add: http_request_def add.assoc)
  have "\<forall>h. lookup (headers z) h = map_of (map (\<lambda>(name, v). (hash_of name, v)) hs) h"
    using z(5) none by (simp split: option.splits)
  moreover have "line_stored ?n z mt p q f v" by (rule line_stored_kept [OF y(9)]) (use z(2) y(3) in simp_all)
  ultimately have "request_view ?z mt p q f v hs" by (simp add: request_view_def line_stored_def)
  moreover have "flags z = version_flags v 0" "content_length z = 0" using z(2) y(5,6) by (simp_all add: same_request_def)
  moreover have "2 * length hs + 4 + fuel = Suc (Suc ?fuel)" by simp
  ultimately show ?thesis
    using run by (intro exI [of _ ?z]) (simp add: \<open>2 * length hs + 4 + fuel = Suc (Suc ?fuel)\<close> del: add_Suc_right)
qed

lemma request_handled:
  assumes "hs_state s \<noteq> YMO_HTTP_SESSION_ERROR" "hs_exchange s = Some x" "idle_exchange (xg x)" "hs_mem s \<noteq> 0" "header_cb d = None"
    and "request_line_ok mt p q f v" "list_all header_ok hs" "distinct (map (hash_of \<circ> fst) hs)"
    and "length hs \<le> pool (headers (xg x)) + mem (headers (xg x))"
    and "length (request_line mt p q f v) + block_room hs \<le> 1024"
  shows "\<exists>y s1. ymo_proto_http_read (2 * length hs + 6 + fuel) e m stopping d (http_request mt p q f v hs @ rest) s =
      after_callback stopping (length (http_request mt p q f v hs)) y (hs_next s) (http_cb d y (hs_next s) s1) \<and>
    request_view (xg y) mt p q f v hs \<and> flags (xg y) = version_flags v 0 \<and> x_response y = Some (hs_next s) \<and>
    s1 = s\<lparr>hs_exchange := Some y, hs_mem := hs_mem s - 1, hs_next := hs_next s + 1,
      hs_heap := (hs_heap s)(hs_next s \<mapsto> \<lparr>rsp = fresh_rsp e v, rsp_next = None, rsp_exchange = None\<rparr>)\<rparr>"
proof -
  let ?n = "length (http_request mt p q f v hs)"
  obtain y where y: "http_loop (2 * length hs + 4 + Suc (Suc fuel)) e m stopping d 0 (http_request mt p q f v hs @ rest) s =
      http_loop (Suc (Suc fuel)) e m stopping d (0 + ?n) rest (set_exchange (Some (x\<lparr>xg := y\<rparr>)) s)"
    "state y = HTTP_STATE_HEADERS_COMPLETE" "flags y = version_flags v 0" "content_length y = 0" "request_view y mt p q f v hs"
    using request_parsed [OF assms(2,3,6-10), where fuel = "Suc (Suc fuel)" and e = e and m = m and stopping = stopping and d = d
        and n = 0 and rest = rest] by (elim exE conjE) (rule that)
  let ?s = "set_exchange (Some (x\<lparr>xg := y\<rparr>)) s"
  have "2 * length hs + 6 + fuel = 2 * length hs + 4 + Suc (Suc fuel)" by simp
  have read: "ymo_proto_http_read (2 * length hs + 6 + fuel) e m stopping d (http_request mt p q f v hs @ rest) s =
      http_loop (Suc (Suc fuel)) e m stopping d ?n rest ?s"
    unfolding ymo_proto_http_read_def \<open>2 * length hs + 6 + fuel = 2 * length hs + 4 + Suc (Suc fuel)\<close>
    using assms(1,2) y(1) by (simp add: ymo_http_session_is_read_ready_def)
  have h: "hs_exchange ?s = Some (x\<lparr>xg := y\<rparr>)" "state (xg (x\<lparr>xg := y\<rparr>)) = HTTP_STATE_HEADERS_COMPLETE"
      "content_length (xg (x\<lparr>xg := y\<rparr>)) = 0" "flags (xg (x\<lparr>xg := y\<rparr>)) = version_flags v 0" "hs_mem ?s \<noteq> 0"
    using y(2-4) assms(4) by simp_all
  obtain z s1 where z: "http_loop (Suc (Suc fuel)) e m stopping d ?n rest ?s =
        after_callback stopping ?n z (hs_next ?s) (http_cb d z (hs_next ?s) s1)"
      "z = (x\<lparr>xg := y\<rparr>)\<lparr>xg := (xg (x\<lparr>xg := y\<rparr>))\<lparr>state := HTTP_STATE_COMPLETE, next_state := HTTP_STATE_COMPLETE\<rparr>,
         x_response := Some (hs_next ?s)\<rparr>"
      "s1 = ?s\<lparr>hs_exchange := Some z, hs_mem := hs_mem ?s - 1, hs_next := hs_next ?s + 1,
        hs_heap := (hs_heap ?s)(hs_next ?s \<mapsto> \<lparr>rsp = fresh_rsp e v, rsp_next = None, rsp_exchange = None\<rparr>)\<rparr>"
    using headers_complete_turn [OF h assms(5), where fuel = fuel and e = e and m = m and stopping = stopping and n = ?n and cs = rest]
    by (elim exE conjE) (rule that)
  have "xg z = y\<lparr>state := HTTP_STATE_COMPLETE, next_state := HTTP_STATE_COMPLETE\<rparr>" using z(2) by simp
  then have "request_view (xg z) mt p q f v hs" "flags (xg z) = version_flags v 0"
    using y(3,5) by (simp_all add: request_view_def)
  moreover have "s1 = s\<lparr>hs_exchange := Some z, hs_mem := hs_mem s - 1, hs_next := hs_next s + 1,
      hs_heap := (hs_heap s)(hs_next s \<mapsto> \<lparr>rsp = fresh_rsp e v, rsp_next = None, rsp_exchange = None\<rparr>)\<rparr>"
    using z(3) by (simp add: set_exchange_def)
  moreover have "x_response z = Some (hs_next s)" using z(2) by simp
  ultimately show ?thesis
    using read z(1) by (intro exI [of _ z] exI [of _ s1]) simp
qed

text \<open>
  C8: a session without an error whose exchange is idle, with memory for a response and no header callback, is given
  a request without a body in one read.  Its request line is well formed (a method of token characters; path, query
  and fragment without NUL, space and the separators after them; version 1.0 or 1.1); its headers have names of token
  characters, values without CR, NUL or leading space, hashes distinct and other than those of Connection,
  Content-Length, Expect, Upgrade and Transfer-Encoding; the table has nodes for them, and all of it fits the 1024 bytes of the
  workspace, in which the parser counts a header's value twice.  Then the application's callback is run exactly once:
  it finds method, path, query, fragment, version and every header in the request, and a new response with the
  flags of the version and no header or body.  The read goes on with the answer of that callback, and
  consumes the bytes of this request and none of what follows.
\<close>

theorem http_request_handled:
  assumes "hs_state s \<noteq> YMO_HTTP_SESSION_ERROR" "hs_exchange s = Some x" "idle_exchange (xg x)" "hs_mem s \<noteq> 0" "header_cb d = None"
    and "request_line_ok mt p q f v" "list_all header_ok hs" "distinct (map (hash_of \<circ> fst) hs)"
    and "length hs \<le> pool (headers (xg x)) + mem (headers (xg x))"
    and "length (request_line mt p q f v) + block_room hs \<le> 1024"
  shows "\<exists>y s1. ymo_proto_http_read (2 * length hs + 6 + fuel) e m stopping d (http_request mt p q f v hs @ rest) s =
      after_callback stopping (length (http_request mt p q f v hs)) y (hs_next s) (http_cb d y (hs_next s) s1) \<and>
    request_view (xg y) mt p q f v hs \<and> flags (xg y) = version_flags v 0 \<and> x_response y = Some (hs_next s) \<and>
    s1 = s\<lparr>hs_exchange := Some y, hs_mem := hs_mem s - 1, hs_next := hs_next s + 1,
      hs_heap := (hs_heap s)(hs_next s \<mapsto> \<lparr>rsp = fresh_rsp e v, rsp_next = None, rsp_exchange = None\<rparr>)\<rparr>"
  by (rule request_handled [OF assms])

definition idle_session :: "unit http_session" where
  "idle_session = two_responses\<lparr>hs_exchange := Some \<lparr>xg = the (ymo_http_exchange_create 4 True), x_response = None,
     rq_body = None, body_received = 0\<rparr>, hs_response := None, hs_heap := Map.empty\<rparr>"

abbreviation new_exchange :: http_exchange where
  "new_exchange \<equiv> \<lparr>xg = the (ymo_http_exchange_create 4 True), x_response = None, rq_body = None, body_received = 0\<rparr>"

lemma idle_session_facts:
  "hs_state idle_session \<noteq> YMO_HTTP_SESSION_ERROR" "hs_exchange idle_session = Some new_exchange" "hs_mem idle_session \<noteq> 0"
  "hs_next idle_session = 3" "idle_exchange (xg new_exchange)"
  using create_idle [of 4 "the (ymo_http_exchange_create 4 True)"]
  by (simp_all add: idle_session_def two_responses_def ymo_http_exchange_create_def)

theorem http_request_handled_witness:
  "\<exists>y s1. ymo_proto_http_read 8 plain_env 4 False echo_proto
       (http_request (str ''GET'') (str ''/a'') (Some (str ''b'')) None (str ''HTTP/1.1'') [(str ''Host'', str ''c'')] @ [71]) idle_session =
     after_callback False (length (http_request (str ''GET'') (str ''/a'') (Some (str ''b'')) None (str ''HTTP/1.1'')
       [(str ''Host'', str ''c'')])) y 3 (YMO_OKAY, s1) \<and>
     request_view (xg y) (str ''GET'') (str ''/a'') (Some (str ''b'')) None (str ''HTTP/1.1'') [(str ''Host'', str ''c'')]"
proof -
  note s = idle_session_facts
  have c: "header_cb echo_proto = None" by (simp add: echo_proto_def)
  have ok: "request_line_ok (str ''GET'') (str ''/a'') (Some (str ''b'')) None (str ''HTTP/1.1'')"
    by (simp add: request_line_ok_def str_def chr_def SP_def CR_def version_ok_def IS_HTTP_METHOD_TOKEN_def byte_order)
  have h: "list_all header_ok [(str ''Host'', str ''c'')]" "distinct (map (hash_of \<circ> fst) [(str ''Host'', str ''c'')])"
    by (simp_all add: header_ok_def ordinary_header_def hash_of_def ymo_http_hdr_hash_283_5_def YMO_HDR_HASH_CH_def
      YMO_HTTP_HDR_HASH_INIT_def YMO_HDR_TABLE_MASK_def str_def chr_def CR_def SP_def IS_HTTP_HDR_FIELD_TOKEN_def byte_order)
  have p: "length [(str ''Host'', str ''c'')] \<le> pool (headers (xg new_exchange)) + mem (headers (xg new_exchange))"
    by (simp add: ymo_http_exchange_create_def ymo_http_exchange_reset_def ymo_http_hdr_table_init_def ymo_http_hdr_table_create_def
      ymo_http_hdr_table_clear_def YMO_HDR_TABLE_POOL_SIZE_def)
  have r: "length (request_line (str ''GET'') (str ''/a'') (Some (str ''b'')) None (str ''HTTP/1.1'')) + block_room [(str ''Host'', str ''c'')] \<le> 1024"
    by (simp add: request_line_def block_room_def str_def)
  have f: "2 * length [(str ''Host'', str ''c'')] + 6 + 0 = 8" by simp
  have cb: "http_cb echo_proto z a t = (YMO_OKAY, t)" for z a t by (simp add: echo_proto_def)
  show ?thesis
    using http_request_handled [OF s(1,2,5,3) c ok h p r, of 0 plain_env 4 False "[71]"]
    unfolding f s(4) cb by (elim exE conjE) (intro exI conjI, assumption+)
qed

end
