(* ===== verification/Http_Limits.thy ===== *)
theory Http_Limits
  imports Http_Serve
begin

text \<open>
  What the HTTP callbacks do at the edges: a read that never returns, the answer to an error, and bodies
  that are buffered, with the block that outlives its request.
\<close>

section \<open>A read that does not return\<close>

lemma request_line_stop:
  assumes "\<forall>c \<in> set s. line_action (state x) c = Store" "s \<noteq> []" "length s < unat rem" "cur + length s \<le> length (recv_buf x)"
  shows "request_line_loop x cur rem s n = Some (Inr (n + length s), x\<lparr>recv_buf := put cur s (recv_buf x),
    recv_current := cur + length s, remain := rem - word_of_nat (length s)\<rparr>)"
proof -
  obtain a c where s: "s = a @ [c]" using assms(2) by (cases s rule: rev_cases) auto
  have r: "rem - word_of_nat (length a) - 1 \<noteq> 0"
    using assms(3) unat_sub_word_of_nat [of "length a + 1" rem] s by (intro unat_pos) (simp add: algebra_simps)
  have "request_line_loop x cur rem (a @ [c]) n = request_line_loop (x\<lparr>recv_buf := put cur a (recv_buf x)\<rparr>) (cur + length a)
      (rem - word_of_nat (length a)) [c] (n + length a)"
    using assms s by (intro request_line_run) auto
  moreover have "line_action (state x) c = Store" "cur + length a < length (recv_buf x)" using assms(1,4) s by simp_all
  moreover have "rem - word_of_nat (length a) - 1 = rem - word_of_nat (length s)" by (simp add: s)
  moreover have "rem \<noteq> 1 + word_of_nat (length a)" using r by auto
  moreover have "put (cur + length a) [c] (put cur a (recv_buf x)) = put cur (a @ [c]) (recv_buf x)"
    using assms(4) s by (simp add: put_put)
  ultimately show ?thesis unfolding s by (simp add: parse_done_def)
qed

lemma query_unfinished:
  assumes st: "state x = HTTP_STATE_REQUEST_METHOD" "recv_current x = 0"
    and mt: "list_all IS_HTTP_METHOD_TOKEN mt" and p: "SP \<notin> set p" "HASH \<notin> set p" "QM \<notin> set p"
    and q: "SP \<notin> set q" "HASH \<notin> set q" "q \<noteq> []"
    and fit: "length (mt @ SP # p @ QM # q) \<le> length (recv_buf x)" "length (mt @ SP # p @ QM # q) < unat (remain x)"
  shows "\<exists>y. ymo_parse_http_request_line x (mt @ SP # p @ QM # q) = Some (Inr (length (mt @ SP # p @ QM # q)), y) \<and>
    state y = HTTP_STATE_REQUEST_QUERY"
proof -
  let ?m = "length mt" and ?p = "length p"
  let ?x1 = "x\<lparr>recv_buf := put 0 mt (recv_buf x)\<rparr>"
  let ?x2 = "(?x1\<lparr>recv_buf := put ?m [0] (recv_buf ?x1), uri := Some (?m + 1)\<rparr>)\<lparr>state := HTTP_STATE_REQUEST_URI_PATH\<rparr>"
  let ?x3 = "?x2\<lparr>recv_buf := put (?m + 1) p (recv_buf ?x2)\<rparr>"
  let ?x4 = "(?x3\<lparr>recv_buf := put (?m + ?p + 1) [0] (recv_buf ?x3), query := Some (?m + ?p + 2)\<rparr>)\<lparr>state := HTTP_STATE_REQUEST_QUERY\<rparr>"
  have r: "unat (remain x - word_of_nat k) = unat (remain x) - k" if "k \<le> ?m + ?p + 2 + length q" for k
    using fit(2) that by (intro unat_sub_word_of_nat) simp
  have "\<forall>c \<in> set mt. line_action (state x) c = Store" using mt st by (auto simp: line_action_def list_all_iff)
  then have "request_line_loop x 0 (remain x) (mt @ SP # p @ QM # q) 0 =
      request_line_loop ?x1 ?m (remain x - word_of_nat ?m) (SP # p @ QM # q) ?m"
    using fit by (subst request_line_run) auto
  also have "\<dots> = request_line_loop ?x2 (?m + 1) (remain x - word_of_nat (?m + 1)) (p @ QM # q) (?m + 1)"
    using st fit r [of ?m] by (subst request_line_item [of _ _ "\<lambda>p x. x\<lparr>uri := Some p\<rparr>" 0])
      (simp_all add: line_action_def Let_def algebra_simps)
  also have "\<dots> = request_line_loop ?x3 (?m + ?p + 1) (remain x - word_of_nat (?m + ?p + 1)) (QM # q) (?m + ?p + 1)"
    using p fit r [of "?m + 1"] by (subst request_line_run) (auto simp: line_action_def algebra_simps)
  also have "\<dots> = request_line_loop ?x4 (?m + ?p + 2) (remain x - word_of_nat (?m + ?p + 2)) q (?m + ?p + 2)"
    using q(3) fit r [of "?m + ?p + 1"] by (subst request_line_item [of _ _ "\<lambda>p x. x\<lparr>query := Some p\<rparr>" 0])
      (simp_all add: line_action_def Let_def algebra_simps)
  also have "\<dots> = Some (Inr (?m + ?p + 2 + length q), ?x4\<lparr>recv_buf := put (?m + ?p + 2) q (recv_buf ?x4),
      recv_current := ?m + ?p + 2 + length q, remain := remain x - word_of_nat (?m + ?p + 2) - word_of_nat (length q)\<rparr>)"
    using q fit r [of "?m + ?p + 2"] by (intro request_line_stop) (auto simp: line_action_def)
  finally show ?thesis unfolding ymo_parse_http_request_line_def st(2) by simp
qed

lemma stuck_turn: "state (xg x) = HTTP_STATE_REQUEST_QUERY \<Longrightarrow> http_parse_turn e d x cs s = Ret (Inr 0, s)"
  by (simp add: http_parse_turn_def)

lemma stuck_loop:
  "hs_exchange s = Some x \<Longrightarrow> state (xg x) = HTTP_STATE_REQUEST_QUERY \<Longrightarrow> cs \<noteq> [] \<Longrightarrow> http_loop fuel e m stopping d n cs s = Hang"
proof (induction fuel)
  case 0
  then show ?case by (simp add: http_loop.simps)
next
  case (Suc fuel)
  then show ?case by (simp add: http_loop.simps stuck_turn)
qed

text \<open>
  C25: a read that ends inside the query of a request line leaves the parser in a state for which the read
  loop has no case: the next byte from the client keeps the server in that loop for ever.
\<close>

theorem query_split_hangs:
  assumes "hs_state s \<noteq> YMO_HTTP_SESSION_ERROR" "hs_exchange s = Some x" "idle_exchange (xg x)"
    and "list_all IS_HTTP_METHOD_TOKEN mt" "SP \<notin> set p" "HASH \<notin> set p" "QM \<notin> set p"
    and "SP \<notin> set q" "HASH \<notin> set q" "q \<noteq> []" "length (mt @ SP # p @ QM # q) < 1024"
  shows "\<exists>s1. ymo_proto_http_read 2 e m stopping d (mt @ SP # p @ QM # q) s = Ret (Inr (length (mt @ SP # p @ QM # q)), s1) \<and>
    (\<forall>fuel input. input \<noteq> [] \<longrightarrow> ymo_proto_http_read fuel e m stopping d input s1 = Hang)"
proof -
  let ?in = "mt @ SP # p @ QM # q" and ?x = "(xg x)\<lparr>state := HTTP_STATE_REQUEST_METHOD\<rparr>"
  obtain y where y: "ymo_parse_http_request_line ?x ?in = Some (Inr (length ?in), y)" "state y = HTTP_STATE_REQUEST_QUERY"
    using query_unfinished [of ?x mt p q] assms by (auto simp: idle_exchange_def)
  let ?s = "set_exchange (Some (x\<lparr>xg := y\<rparr>)) s"
  have "http_parse_turn e d x ?in s = Ret (Inr (length ?in), ?s)"
    using assms(3) y(1) by (simp add: http_parse_turn_def store_parse_def idle_exchange_def)
  then have "http_loop 2 e m stopping d 0 ?in s = Ret (Inr (length ?in), ?s)"
    using assms(2,3) y(2) by (simp add: numeral_2_eq_2 http_loop.simps idle_exchange_def)
  moreover have "hs_state ?s = hs_state s" by (simp add: set_exchange_def)
  ultimately show ?thesis
    using assms(1,2) y(2) stuck_loop [of ?s "x\<lparr>xg := y\<rparr>"]
    by (intro exI [of _ ?s]) (simp add: ymo_proto_http_read_def ymo_http_session_is_read_ready_def)
qed

theorem query_split_hangs_witness:
  "\<exists>s1. ymo_proto_http_read 2 plain_env 4 False echo_proto (str ''GET'' @ SP # str ''/'' @ QM # str ''a'') idle_session = Ret (Inr 7, s1) \<and>
     ymo_proto_http_read 1000 plain_env 4 False echo_proto (str ''b'') s1 = Hang"
proof -
  have t: "list_all IS_HTTP_METHOD_TOKEN (str ''GET'')" "SP \<notin> set (str ''/'')" "HASH \<notin> set (str ''/'')" "QM \<notin> set (str ''/'')"
      "SP \<notin> set (str ''a'')" "HASH \<notin> set (str ''a'')" "str ''a'' \<noteq> []"
    "length (str ''GET'' @ SP # str ''/'' @ QM # str ''a'') < 1024"
    by (simp_all add: str_def chr_def SP_def IS_HTTP_METHOD_TOKEN_def byte_order)
  have l: "length (str ''GET'' @ SP # str ''/'' @ QM # str ''a'') = 7" "str ''b'' \<noteq> []" by (simp_all add: str_def)
  show ?thesis
    using query_split_hangs [OF idle_session_facts(1,2,5) t, of plain_env 4 False echo_proto] l by auto
qed

section \<open>Errors\<close>

lemma status_texts:
  "get_http_reason 400 \<noteq> None" "get_http_reason 413 \<noteq> None" "get_http_reason 417 \<noteq> None" "get_http_reason 500 \<noteq> None"
  "get_http_reason 501 \<noteq> None" "get_http_reason 426 = None"
  by (simp_all add: get_http_reason_def http_reasons_def)

lemma error_status_range:
  "error_status st fs \<in> {400, 413, 417, 426, 500, 501}" "error_status st fs = 426 \<longleftrightarrow> st = EPROTOTYPE" "400 \<le> error_status st fs"
  by (cases st; simp add: error_status_def)+

lemma response_issue_error:
  assumes "get_http_reason code \<noteq> None" "400 \<le> code"
  shows "\<exists>r'. ymo_http_response_issue code r = Some (r', True, [Tx_enable True]) \<and> r_status r' = code \<and>
    r_flags r' = r_flags r OR (YMO_HTTP_RESPONSE_READY OR YMO_HTTP_RESPONSE_COMPLETE)"
  using assms
  by (auto simp: ymo_http_response_issue_def ymo_http_response_set_status_def status_text_def ymo_http_response_finish_def
      ymo_http_response_set_flag_def ymo_http_response_insert_header_def)

text \<open>A new response at the end of the queue.\<close>

lemma queue_new_response:
  assumes "hs_mem s \<noteq> 0" "queue_ok s as"
  shows "\<exists>s0 s1 obj. rsp_create e s = (Some (hs_next s), s0) \<and> ymo_http_session_add_response (hs_next s) s0 = Ret s1 \<and>
    queue_ok s1 (as @ [hs_next s]) \<and> hs_heap s1 (hs_next s) = Some obj \<and> rsp obj = ymo_http_response_create (e_nodes e) \<and>
    hs_acts s1 = hs_acts s \<and> hs_state s1 = hs_state s"
proof -
  let ?a = "hs_next s" and ?new = "\<lparr>rsp = ymo_http_response_create (e_nodes e), rsp_next = None, rsp_exchange = None\<rparr>"
  define s0 where "s0 = s\<lparr>hs_mem := hs_mem s - 1, hs_next := ?a + 1, hs_heap := (hs_heap s)(?a \<mapsto> ?new)\<rparr>"
  have fresh: "?a \<notin> set as" "hs_heap s ?a = None" using assms(2) queue_at_live by (fastforce simp: queue_ok_def)+
  then have "queue_ok s0 as" using assms(2) by (auto simp: queue_ok_def s0_def queue_at_other less_Suc_eq)
  from add_response_ok [OF this fresh(1), of ?new] obtain s1 where s1:
    "ymo_http_session_add_response ?a s0 = Ret s1" "queue_ok s1 (as @ [?a])"
    "\<forall>b. map_option rsp (hs_heap s1 b) = map_option rsp (hs_heap s0 b)" "s1 = s0\<lparr>hs_response := hs_response s1, hs_heap := hs_heap s1\<rparr>"
    by (auto simp: s0_def)
  have "map_option rsp (hs_heap s1 ?a) = Some (rsp ?new)" using s1(3) by (simp add: s0_def)
  moreover have "hs_acts s1 = hs_acts s" "hs_state s1 = hs_state s" by (subst s1(4), simp add: s0_def)+
  moreover have "rsp_create e s = (Some ?a, s0)" using assms(1) by (simp add: rsp_create_def s0_def)
  ultimately show ?thesis using s1(1,2) by (intro exI [of _ s0] exI [of _ s1]) auto
qed

text \<open>The status that each kind of error has to have, from the meaning of the codes.\<close>

lemma error_status_table:
  "status \<in> {EPROTO, EBADMSG, EINVAL} \<longrightarrow> error_status status fs = 400"
  "status = EFBIG \<longrightarrow> error_status status fs = (if fs AND YMO_HTTP_FLAG_EXPECT \<noteq> 0 then 417 else 413)"
  "status \<in> {ENOTSUP, EPROTONOSUPPORT, ENOPROTOOPT} \<longrightarrow> error_status status fs = 501"
  "status \<notin> {EPROTO, EBADMSG, EINVAL, EFBIG, ENOTSUP, EPROTONOSUPPORT, ENOPROTOOPT, EPROTOTYPE} \<longrightarrow> error_status status fs = 500"
  by (cases status; simp add: error_status_def has_flag_def)+

lemma read_after_error:
  "hs_state s = YMO_HTTP_SESSION_ERROR \<Longrightarrow> ymo_proto_http_read fuel e m stopping d input s = Ret (Inr (length input), s)"
  by (simp add: ymo_proto_http_read_def)

text \<open>
  C24: an error of a session that has had none before is answered, when there is memory for a response, with exactly
  one response, queued behind those that are due and ready to be sent, which lets the connection be closed.  Its
  status is 400 for a malformed message (EPROTO, EBADMSG, EINVAL); for a request that is too large (EFBIG) 417 if it
  has an Expect header and 413 otherwise; 501 for what is not supported (ENOTSUP, EPROTONOSUPPORT, ENOPROTOOPT); and
  500 for every other, except EPROTOTYPE: status 426 has no reason phrase, and formatting it fails.  After the error
  the session takes and ignores all input.
\<close>

theorem http_parse_error_answered:
  assumes "hs_state s \<noteq> YMO_HTTP_SESSION_ERROR" "hs_mem s \<noteq> 0" "queue_ok s as"
  shows "(status = EPROTOTYPE \<longrightarrow> ymo_proto_http_handle_error e x status s = Fault) \<and>
    (status \<noteq> EPROTOTYPE \<longrightarrow> (\<exists>s' obj. ymo_proto_http_handle_error e x status s = Ret (Inr 0, s') \<and>
      hs_state s' = YMO_HTTP_SESSION_ERROR \<and> queue_ok s' (as @ [hs_next s]) \<and> hs_acts s' = hs_acts s @ [Tx_enable True] \<and>
      hs_heap s' (hs_next s) = Some obj \<and>
      (status \<in> {EPROTO, EBADMSG, EINVAL} \<longrightarrow> r_status (rsp obj) = 400) \<and>
      (status = EFBIG \<longrightarrow> r_status (rsp obj) = (if flags (xg x) AND YMO_HTTP_FLAG_EXPECT \<noteq> 0 then 417 else 413)) \<and>
      (status \<in> {ENOTSUP, EPROTONOSUPPORT, ENOPROTOOPT} \<longrightarrow> r_status (rsp obj) = 501) \<and>
      (status \<notin> {EPROTO, EBADMSG, EINVAL, EFBIG, ENOTSUP, EPROTONOSUPPORT, ENOPROTOOPT} \<longrightarrow> r_status (rsp obj) = 500) \<and>
      r_flags (rsp obj) = YMO_HTTP_RESPONSE_READY OR YMO_HTTP_RESPONSE_COMPLETE \<and>
      (\<forall>fuel e m stopping d input. ymo_proto_http_read fuel e m stopping d input s' = Ret (Inr (length input), s'))))"
proof -
  let ?a = "hs_next s" and ?code = "error_status status (flags (xg x))"
  obtain s0 s1 obj where s1: "rsp_create e s = (Some ?a, s0)" "ymo_http_session_add_response ?a s0 = Ret s1"
    "queue_ok s1 (as @ [?a])" and o: "hs_heap s1 ?a = Some obj" "rsp obj = ymo_http_response_create (e_nodes e)"
    and acts: "hs_acts s1 = hs_acts s" "hs_state s1 = hs_state s"
    using queue_new_response [OF assms(2,3), of e] by (elim exE conjE) (rule that)
  have run: "ymo_proto_http_handle_error e x status s = run_bind (rsp_issue ?a ?code s1) (\<lambda>s. Ret (Inr 0, s))"
    using assms(1) s1(1,2) by (simp add: ymo_proto_http_handle_error_def)
  have "get_http_reason ?code = None" if "status = EPROTOTYPE" using error_status_range(2) [of status "flags (xg x)"] status_texts that by simp
  then have "ymo_proto_http_handle_error e x status s = Fault" if "status = EPROTOTYPE"
    using that o(1) unfolding run
    by (simp add: rsp_issue_def get_rsp_def ymo_http_response_issue_def ymo_http_response_set_status_def status_text_def Let_def)
  moreover have "\<exists>s' obj. ymo_proto_http_handle_error e x status s = Ret (Inr 0, s') \<and>
      hs_state s' = YMO_HTTP_SESSION_ERROR \<and> queue_ok s' (as @ [?a]) \<and> hs_acts s' = hs_acts s @ [Tx_enable True] \<and>
      hs_heap s' ?a = Some obj \<and>
      (status \<in> {EPROTO, EBADMSG, EINVAL} \<longrightarrow> r_status (rsp obj) = 400) \<and>
      (status = EFBIG \<longrightarrow> r_status (rsp obj) = (if flags (xg x) AND YMO_HTTP_FLAG_EXPECT \<noteq> 0 then 417 else 413)) \<and>
      (status \<in> {ENOTSUP, EPROTONOSUPPORT, ENOPROTOOPT} \<longrightarrow> r_status (rsp obj) = 501) \<and>
      (status \<notin> {EPROTO, EBADMSG, EINVAL, EFBIG, ENOTSUP, EPROTONOSUPPORT, ENOPROTOOPT} \<longrightarrow> r_status (rsp obj) = 500) \<and>
      r_flags (rsp obj) = YMO_HTTP_RESPONSE_READY OR YMO_HTTP_RESPONSE_COMPLETE \<and>
      (\<forall>fuel e m stopping d input. ymo_proto_http_read fuel e m stopping d input s' = Ret (Inr (length input), s'))"
    if "status \<noteq> EPROTOTYPE"
  proof -
    have "get_http_reason ?code \<noteq> None" using error_status_range(1,2) [of status "flags (xg x)"] status_texts that by auto
    from response_issue_error [OF this error_status_range(3)] obtain r where r:
      "ymo_http_response_issue ?code (rsp obj) = Some (r, True, [Tx_enable True])" "r_status r = ?code"
      "r_flags r = r_flags (rsp obj) OR (YMO_HTTP_RESPONSE_READY OR YMO_HTTP_RESPONSE_COMPLETE)" by blast
    let ?s = "(http_act [Tx_enable True] (put_rsp ?a (obj\<lparr>rsp := r\<rparr>) s1))\<lparr>hs_state := YMO_HTTP_SESSION_ERROR\<rparr>"
    have "queue_ok ?s (as @ [?a])" 
      by (rule queue_ok_cong [OF s1(3) _ _ _ o(1), where obj = "obj\<lparr>rsp := r\<rparr>"]) (simp_all add: http_act_def put_rsp_def)
    moreover have "ymo_proto_http_handle_error e x status s = Ret (Inr 0, ?s)"
      unfolding run using r(1) o(1) by (simp add: rsp_issue_def get_rsp_def Let_def)
    moreover note error_status_table [of status "flags (xg x)", folded r(2)]
    ultimately show ?thesis
      using r(3) o(2) acts that by (intro exI [of _ ?s] exI [of _ "obj\<lparr>rsp := r\<rparr>"])
        (simp add: http_act_def put_rsp_def ymo_http_response_create_def read_after_error)
  qed
  ultimately show ?thesis by (intro conjI impI)
qed

theorem http_parse_error_answered_witness:
  "\<exists>s' obj. ymo_proto_http_handle_error plain_env done_exchange EFBIG two_responses = Ret (Inr 0, s') \<and>
     queue_ok s' [0, 1, 3] \<and> hs_heap s' 3 = Some obj \<and> r_status (rsp obj) = 413"
proof -
  have q: "queue_ok two_responses [0, 1]"
    by (simp add: queue_ok_def two_responses_def new_response_def)
  have s: "hs_state two_responses \<noteq> YMO_HTTP_SESSION_ERROR" "hs_mem two_responses \<noteq> 0" "hs_next two_responses = 3"
    by (simp_all add: two_responses_def)
  have c: "flags (xg done_exchange) AND YMO_HTTP_FLAG_EXPECT = 0" by (simp add: done_exchange_def)
  show ?thesis
    using mp [OF conjunct2 [OF http_parse_error_answered [OF s(1,2) q, of EFBIG plain_env done_exchange]]] c
    unfolding s(3) by auto
qed

section \<open>Bodies\<close>

text \<open>What the default callback has stored, and how much more it takes.\<close>

definition body_got :: "body_state \<Rightarrow> bytes" where
  "body_got b = (case b_block b of None \<Rightarrow> [] | Some block \<Rightarrow> take (unat (b_received b)) block)"

definition body_fits :: "nat \<Rightarrow> body_state \<Rightarrow> bool" where
  "body_fits n b \<longleftrightarrow>
     (case b_block b of
        None \<Rightarrow> b_received b = 0 \<and> n \<le> unat (b_length b) \<and> unat (b_length b) \<le> YMO_HTTP_MAX_BODY \<and> b_mem b \<noteq> 0
      | Some block \<Rightarrow> unat (b_received b) + n \<le> length block \<and> length block \<le> YMO_HTTP_MAX_BODY)"

lemma body_count_add: "unat a + k \<le> 4096 \<Longrightarrow> unat ((a :: u64) + word_of_nat k) = unat a + k"
proof -
  assume a: "unat a + k \<le> 4096"
  then have "unat (word_of_nat k :: u64) = k" by (simp add: unat_of_nat take_bit_nat_eq_self)
  with a show ?thesis by (subst unat_add_lem [THEN iffD1]) simp_all
qed

text \<open>One piece into a block.\<close>

lemma buffer_store:
  assumes "b_block b = Some block" "unat (b_received b) + n \<le> length block" "length block \<le> YMO_HTTP_MAX_BODY" "length d \<le> n"
  shows "\<exists>b'. buffer_body_cb d b = Some (YMO_OKAY, b') \<and> body_got b' = body_got b @ d \<and> body_fits (n - length d) b'"
proof -
  have r: "unat (b_received b) \<le> 4096" "unat (b_received b) + length d \<le> 4096" "unat (b_received b) + length d \<le> length block"
    using assms(2-4) by (simp_all add: YMO_HTTP_MAX_BODY_def)
  then have "unat (word_of_nat 4096 - b_received b :: u64) = 4096 - unat (b_received b)"
    by (subst unat_sub) (simp_all add: word_le_nat_alt)
  then have "\<not> unat (word_of_nat YMO_HTTP_MAX_BODY - b_received b :: u64) < length d" using r by (simp add: YMO_HTTP_MAX_BODY_def)
  with assms(1) r have "buffer_body_cb d b = Some (YMO_OKAY, b\<lparr>b_received := b_received b + word_of_nat (length d),
      b_length := b_length b + word_of_nat (length d), b_block := Some (put (unat (b_received b)) d block)\<rparr>)"
    by (simp add: buffer_body_cb_def Let_def)
  with assms r show ?thesis by (simp add: body_got_def body_fits_def body_count_add put_def)
qed

interpretation buffered: body_sink buffer_body_cb body_got body_fits
proof (unfold_locales, goal_cases)
  case (1 n b d)
  then show ?case
  proof (cases "b_block b")
    case (Some block)
    with 1 show ?thesis by (intro buffer_store [OF Some, of n]) (simp_all add: body_fits_def)
  next
    case None
    let ?b = "(buffer_alloc b)\<lparr>b_length := 0\<rparr>"
    have "b_length b \<noteq> 0" using 1 None by (auto simp: body_fits_def)
    then have alloc: "b_block ?b = Some (replicate (unat (b_length b)) 0)" "b_received ?b = 0"
      using 1 None by (simp_all add: body_fits_def buffer_alloc_def)
    have "buffer_body_cb d b = buffer_body_cb d ?b" using alloc None by (simp add: buffer_body_cb_def Let_def)
    moreover have "body_got b = body_got ?b" using alloc None by (simp add: body_got_def)
    moreover have "\<exists>b'. buffer_body_cb d ?b = Some (YMO_OKAY, b') \<and> body_got b' = body_got ?b @ d \<and> body_fits (n - length d) b'"
      using 1 None alloc by (intro buffer_store [OF alloc(1), of n]) (simp_all add: body_fits_def)
    ultimately show ?thesis by simp
  qed
qed

text \<open>
  C23: the default body callback stores the first body of an exchange (no block yet, nothing received) when it is
  not chunked, its length was announced and is between 1 and 4096, and the allocation of the block succeeds.  The
  body arrives in any non-empty pieces: the request gets it byte for byte and in order, each read consumes what it is given and no byte behind the body, and the exchange is complete exactly when
  all of it is there.  (C27 has what happens to a later body.)
\<close>

theorem buffered_body_stored:
  assumes "state x = HTTP_STATE_BODY" "next_state x = HTTP_STATE_COMPLETE" "flags x AND YMO_HTTP_REQUEST_CHUNKED = 0"
    and "body_remain x \<noteq> 0" "\<forall>cs \<in> set css. cs \<noteq> []"
    and "b_block b = None" "b_received b = 0" "b_length b = body_remain x" "unat (body_remain x) \<le> 4096" "b_mem b \<noteq> 0"
  shows "\<exists>y b'. body_reads buffer_body_cb x css b = Some (body_counts (unat (body_remain x)) css, y, b') \<and>
    body_got b' = take (unat (body_remain x)) (concat css) \<and>
    (state y = HTTP_STATE_COMPLETE \<longleftrightarrow> unat (body_remain x) \<le> length (concat css))"
proof -
  have "body_fits (unat (body_remain x)) b" "body_got b = []"
    using assms(6-10) by (simp_all add: body_fits_def body_got_def YMO_HTTP_MAX_BODY_def)
  with buffered.body_reads_plain [OF assms(1-5)] show ?thesis by force
qed

theorem buffered_body_stored_witness:
  "\<exists>y b'. body_reads buffer_body_cb
       (fresh_exchange\<lparr>state := HTTP_STATE_BODY, next_state := HTTP_STATE_COMPLETE, body_remain := 4\<rparr>) [[1, 2, 3], [4, 5]]
       \<lparr>b_length = 4, b_block = None, b_received = 0, b_mem = 1\<rparr> = Some ([3, 1], y, b') \<and> body_got b' = [1, 2, 3, 4] \<and>
     state y = HTTP_STATE_COMPLETE"
  using buffered_body_stored [of "fresh_exchange\<lparr>state := HTTP_STATE_BODY, next_state := HTTP_STATE_COMPLETE, body_remain := 4\<rparr>"
      "[[1, 2, 3], [4, 5]]" "\<lparr>b_length = 4, b_block = None, b_received = 0, b_mem = 1\<rparr>"]
  by (simp add: counts_example del: body_reads.simps body_counts.simps)

text \<open>
  C27: the block for a body stays with the exchange of a connection that is kept alive, with the length of the
  first body: a later body that is longer, and within every limit that is checked, is written past its end.
\<close>

theorem reused_body_block_overflows:
  assumes "rq_body y = Some block" "x = (http_exchange_reset y)\<lparr>xg := z\<rparr>" "user_body_cb d = None"
    and "state z = HTTP_STATE_BODY" "body_remain z = content_length z" "length block < unat (content_length z)"
    and "unat (content_length z) \<le> length cs" "unat (content_length z) \<le> YMO_HTTP_MAX_BODY"
  shows "http_parse_body d x cs s = Fault"
proof -
  let ?n = "unat (content_length z)"
  let ?b = "\<lparr>b_length = content_length z, b_block = Some block, b_received = 0, b_mem = hs_mem s\<rparr>"
  have x: "rq_body x = Some block" "body_received x = 0" "xg x = z" using assms(1,2) by (simp_all add: http_exchange_reset_def)
  have "buffer_body_cb (take ?n cs) ?b = None"
    using assms(6-8) by (simp add: buffer_body_cb_def Let_def YMO_HTTP_MAX_BODY_def min_absorb2)
  then have cb: "body_bridge d x (take ?n cs) (?b, s) = None" using assms(3) by (simp add: body_bridge_def)
  obtain f where f: "3 * length cs + 3 = Suc f" by simp
  have "content_length z \<noteq> 0" using assms(6) by auto
  then have "body_loop (Suc f) (body_bridge d x) z cs (length cs) (?b, s) = None"
    using assms(4,5,7) cb by (simp add: Let_def min_absorb2)
  then have "ymo_parse_http_body (body_bridge d x) z cs (?b, s) = None"
    unfolding ymo_parse_http_body_def f by simp
  with x show ?thesis by (simp add: http_parse_body_def)
qed

theorem reused_body_block_overflows_witness:
  "http_parse_body echo_proto
     ((http_exchange_reset (done_exchange\<lparr>rq_body := Some [7]\<rparr>))\<lparr>xg := fresh_exchange\<lparr>state := HTTP_STATE_BODY, body_remain := 2,
       content_length := 2\<rparr>\<rparr>) [1, 2] two_responses = Fault"
  by (rule reused_body_block_overflows [OF _ refl, where block = "[7]"])
    (simp_all add: echo_proto_def YMO_HTTP_MAX_BODY_def)

end
