(* ===== verification/Mqtt_Connect.thy ===== *)
theory Mqtt_Connect
  imports Mqtt
begin

text \<open>
  What the MQTT protocol guarantees: the parser keeps its buffer consistent and returns after at most four
  turns; lengths survive encoding and decoding; a well-formed CONNECT packet is accepted with every field and
  answered; and where lengths from the peer are trusted.
\<close>

section \<open>Consistency of the session\<close>

definition mqtt_ok :: "mqtt_session \<Rightarrow> bool" where
  "mqtt_ok s \<longleftrightarrow> length (client_id s) = 24 \<and>
     (case parse_state (msg_in s) of
        MQTT_PARSE_FIXED_CTRLPACK \<Rightarrow> mq_len (msg_in s) = 0 \<and> var_hdr (msg_in s) = None
      | MQTT_PARSE_FIXED_LENGTH \<Rightarrow> var_hdr (msg_in s) = None
      | MQTT_PARSE_VARHDR_PAYLOAD \<Rightarrow>
          (\<exists>b. var_hdr (msg_in s) = Some b \<and> length b = unat (mq_len (msg_in s)) \<and>
             payload (msg_in s) + unat (mult_remain (msg_in s)) = length b)
      | MQTT_PARSE_COMPLETE \<Rightarrow> (\<exists>b. var_hdr (msg_in s) = Some b \<and> length b = unat (mq_len (msg_in s))))"

definition mqtt_rank :: "mqtt_session \<Rightarrow> nat" where
  "mqtt_rank s = (case parse_state (msg_in s) of
     MQTT_PARSE_FIXED_CTRLPACK \<Rightarrow> 4 | MQTT_PARSE_FIXED_LENGTH \<Rightarrow> 3 | MQTT_PARSE_VARHDR_PAYLOAD \<Rightarrow> 2 | MQTT_PARSE_COMPLETE \<Rightarrow> 1)"

text \<open>What processing a message leaves alone.\<close>

definition same_msg :: "mqtt_session \<Rightarrow> mqtt_session \<Rightarrow> bool" where
  "same_msg s t \<longleftrightarrow> var_hdr (msg_in t) = var_hdr (msg_in s) \<and> mq_len (msg_in t) = mq_len (msg_in s) \<and>
     mq_type (msg_in t) = mq_type (msg_in s) \<and> parse_state (msg_in t) = parse_state (msg_in s) \<and>
     (length (client_id s) = 24 \<longrightarrow> length (client_id t) = 24) \<and> mq_state t = mq_state s \<and>
     mq_send t = mq_send s \<and> mq_lost t = mq_lost s \<and> mq_acts t = mq_acts s"

lemma same_msg_trans: "same_msg s t \<Longrightarrow> same_msg t u \<Longrightarrow> same_msg s u"
  by (simp add: same_msg_def)

lemma same_msg_refl [simp]: "same_msg s s"
  by (simp add: same_msg_def)

lemma varhdr_same: "mqtt_parse_varhdr s = Some (st, t) \<Longrightarrow> same_msg s t"
  by (auto simp: mqtt_parse_varhdr_def connect_varhdr_def bind_eq_Some_conv same_msg_def upd_msg_def
      split: option.splits if_splits)

lemma field_same:
  assumes "\<And>v s. same_msg s (set_dst v s)" "PARSE_CONNECT_FIELD b flag set_dst (i, s) = Some (j, t)"
  shows "same_msg s t"
proof -
  have "same_msg s (set_dst v (s\<lparr>mq_mem := m\<rparr>))" for v m
    by (rule same_msg_trans [OF _ assms(1)]) (simp add: same_msg_def)
  then show ?thesis
    using assms by (auto simp: PARSE_CONNECT_FIELD_def PARSE_STRDUP_def bind_eq_Some_conv split: if_splits)
qed

lemma payload_same: 
  assumes "mqtt_parse_payload s = Some (st, t)"
  shows "same_msg s t"
proof (cases "mq_type (msg_in s) = YMO_MQTT_CONNECT")
  case True
  with assms obtain b where b: "connect_payload b s = Some t" by (auto simp: mqtt_parse_payload_def split: option.splits)
  then obtain cid i i1 s1 i2 s2 i3 s3 i4 where c: "length cid \<le> 24"
    "PARSE_CONNECT_FIELD b CONNECT_WILL_FLAG (\<lambda>v s. s\<lparr>will_topic := v\<rparr>) (i, s\<lparr>client_id := cid @ drop (length cid) (client_id s)\<rparr>) =
      Some (i1, s1)"
    "PARSE_CONNECT_FIELD b CONNECT_WILL_FLAG (\<lambda>v s. s\<lparr>will_msg := v\<rparr>) (i1, s1) = Some (i2, s2)"
    "PARSE_CONNECT_FIELD b CONNECT_USERNAME (\<lambda>v s. s\<lparr>username := v\<rparr>) (i2, s2) = Some (i3, s3)"
    "PARSE_CONNECT_FIELD b CONNECT_PASSWORD (\<lambda>v s. s\<lparr>password := v\<rparr>) (i3, s3) = Some (i4, t)"
    unfolding connect_payload_def Let_def bind_eq_Some_conv map_option_eq_Some split_paired_Ex prod.case
    by (elim exE conjE) (rule that, auto simp: PARSE_CONSUME_STRVAL_def split: if_splits)
  have "same_msg s (s\<lparr>client_id := cid @ drop (length cid) (client_id s)\<rparr>)" using c(1) by (simp add: same_msg_def)
  moreover have "same_msg (s\<lparr>client_id := cid @ drop (length cid) (client_id s)\<rparr>) s1" by (rule field_same [OF _ c(2)]) (simp add: same_msg_def)
  moreover have "same_msg s1 s2" by (rule field_same [OF _ c(3)]) (simp add: same_msg_def)
  moreover have "same_msg s2 s3" by (rule field_same [OF _ c(4)]) (simp add: same_msg_def)
  moreover have "same_msg s3 t" by (rule field_same [OF _ c(5)]) (simp add: same_msg_def)
  ultimately show ?thesis by (meson same_msg_trans)
qed (use assms in \<open>auto simp: mqtt_parse_payload_def split: option.splits\<close>)

lemma process_ok:
  assumes "mqtt_ok s" "parse_state (msg_in s) = MQTT_PARSE_VARHDR_PAYLOAD" "mqtt_process s n = Ret (r, t)"
  shows "length (client_id t) = 24 \<and> (\<forall>k. r = Inr k \<longrightarrow> k = n \<and> mqtt_ok t \<and> mqtt_rank t = 1)"
proof -
  obtain st s1 where v: "mqtt_parse_varhdr s = Some (st, s1)"
    using assms(3) by (auto simp: mqtt_process_def split: option.splits)
  note 1 = varhdr_same [OF v]
  have c: "length (client_id s) = 24" using assms(1) by (simp add: mqtt_ok_def)
  show ?thesis
  proof (cases "st = YMO_OKAY")
    case True
    obtain st2 s2 where p: "mqtt_parse_payload s1 = Some (st2, s2)"
      using assms(3) v True by (auto simp: mqtt_process_def split: option.splits)
    have "same_msg s s2" by (rule same_msg_trans [OF 1 payload_same [OF p]])
    then show ?thesis
      using assms c v p True
      by (auto simp: mqtt_process_def mqtt_ok_def same_msg_def mqtt_parse_complete_def mqtt_rank_def upd_msg_def split: if_splits)
  next
    case False
    with 1 v assms(3) c show ?thesis by (auto simp: mqtt_process_def same_msg_def)
  qed
qed

lemma process_not_hang: "mqtt_process s n \<noteq> Hang"
  by (auto simp: mqtt_process_def split: option.splits)

lemma fixed_len_ok:
  "fixed_len_loop s cs n \<noteq> Hang \<and> (fixed_len_loop s cs n = Ret (r, t) \<longrightarrow> client_id t = client_id s \<and>
     (\<forall>k. r = Inr k \<longrightarrow> k \<le> n + length cs \<and> parse_state (msg_in t) = MQTT_PARSE_VARHDR_PAYLOAD \<and> (length (client_id s) = 24 \<longrightarrow> mqtt_ok t)))"
proof (induction cs arbitrary: s n)
  case Nil
  then show ?case by (subst (1 2) fixed_len_loop.simps) auto
next
  case (Cons c cs)
  show ?case
    using Cons [of "upd_msg (\<lambda>m. m\<lparr>mq_len := mq_len m + ucast (c AND LEN_VALUE) * mult_remain m, mult_remain := mult_remain m * 0x80\<rparr>) s" "n + 1"]
    by (subst (1 2) fixed_len_loop.simps) (auto simp: Let_def mqtt_parse_varhdr_init_def upd_msg_def mqtt_ok_def split: if_splits)
qed

lemma varhdr_payload_ok:
  assumes "mqtt_ok s" "parse_state (msg_in s) = MQTT_PARSE_VARHDR_PAYLOAD"
  shows "ymo_mqtt_parse_varhdr_payload s cs \<noteq> Hang \<and> (ymo_mqtt_parse_varhdr_payload s cs = Ret (r, t) \<longrightarrow>
    length (client_id t) = 24 \<and> (\<forall>k. r = Inr k \<longrightarrow> k \<le> length cs \<and> mqtt_ok t \<and> (k < length cs \<longrightarrow> mqtt_rank t = 1)))"
proof -
  let ?m = "msg_in s" and ?n = "min (length cs) (unat (mult_remain (msg_in s)))"
  obtain b where b: "var_hdr ?m = Some b" "length b = unat (mq_len ?m)" "payload ?m + unat (mult_remain ?m) = length b"
    using assms by (auto simp: mqtt_ok_def)
  define s1 where "s1 = upd_msg (\<lambda>m. m\<lparr>var_hdr := Some (take (payload m) b @ take ?n cs @ drop (payload m + ?n) b),
    mult_remain := mult_remain m - word_of_nat ?n, payload := payload m + ?n\<rparr>) s"
  have "unat (mult_remain ?m - word_of_nat ?n) = unat (mult_remain ?m) - ?n" by (rule unat_sub_word_of_nat) simp
  then have s1: "mqtt_ok s1" "parse_state (msg_in s1) = MQTT_PARSE_VARHDR_PAYLOAD" "unat (mult_remain (msg_in s1)) = unat (mult_remain ?m) - ?n"
    using assms b by (simp_all add: mqtt_ok_def s1_def upd_msg_def)
  have eq: "ymo_mqtt_parse_varhdr_payload s cs = (if mult_remain (msg_in s1) = 0 then mqtt_process s1 ?n else Ret (Inr ?n, s1))"
  proof -
    have "\<not> length b < payload ?m + ?n" using b(3) by simp
    then show ?thesis using b(1) by (simp add: ymo_mqtt_parse_varhdr_payload_def Let_def s1_def)
  qed
  show ?thesis
  proof (cases "mult_remain (msg_in s1) = 0")
    case True
    then show ?thesis using eq process_ok [OF s1(1,2), of ?n r t] process_not_hang by auto
  next
    case False
    then have "0 < unat (mult_remain ?m) - ?n" using s1(3) by (simp add: unat_gt_0 [symmetric])
    with False show ?thesis using eq s1(1) by (auto simp: mqtt_ok_def min_def split: if_splits)
  qed
qed

lemma mqtt_turn_ok:
  assumes "mqtt_ok s" "parse_state (msg_in s) \<noteq> MQTT_PARSE_COMPLETE" "cs \<noteq> []"
  shows "mqtt_turn err s cs \<noteq> Hang \<and> (mqtt_turn err s cs = Ret (r, t) \<longrightarrow> length (client_id t) = 24 \<and>
    (\<forall>k. r = Inr k \<longrightarrow> k \<le> length cs \<and> mqtt_ok t \<and> (drop k cs \<noteq> [] \<longrightarrow> mqtt_rank t < mqtt_rank s)))"
proof (cases "parse_state (msg_in s)")
  case MQTT_PARSE_FIXED_CTRLPACK
  then show ?thesis using assms
    by (auto simp: mqtt_turn_def ymo_mqtt_parse_fixed_ctrlpack_def Let_def mqtt_ok_def mqtt_parse_len_init_def upd_msg_def mqtt_rank_def
        split: list.splits)
next
  case MQTT_PARSE_FIXED_LENGTH
  then show ?thesis using assms fixed_len_ok [of s cs 0 r t]
    by (auto simp: mqtt_turn_def ymo_mqtt_parsed_fixed_len_def mqtt_rank_def) (auto simp: mqtt_ok_def)
next
  case MQTT_PARSE_VARHDR_PAYLOAD
  then show ?thesis using varhdr_payload_ok [OF assms(1) MQTT_PARSE_VARHDR_PAYLOAD, of cs r t]
    by (auto simp: mqtt_turn_def mqtt_rank_def)
qed (use assms in simp)

lemma complete_ok:
  assumes "length (client_id s) = 24" 
  shows "mqtt_complete n s \<noteq> Hang \<and> (mqtt_complete n s = Ret (r, t) \<longrightarrow> r = Inr n \<and> mqtt_ok t \<and> mqtt_rank t = 4)"
  using assms
  by (auto simp: mqtt_complete_def ymo_mqtt_session_send_def mqtt_push_def Let_def mqtt_parse_reset_def ymo_mqtt_session_msg_free_def
      upd_msg_def mqtt_ok_def mqtt_rank_def split: option.splits prod.splits if_splits)

lemma mqtt_loop_ok:
  "mqtt_ok s \<Longrightarrow> cs \<noteq> [] \<Longrightarrow> mqtt_rank s \<le> fuel \<Longrightarrow>
   mqtt_loop fuel err n cs s \<noteq> Hang \<and> (mqtt_loop fuel err n cs s = Ret (r, t) \<longrightarrow> length (client_id t) = 24 \<and>
     (\<forall>k. r = Inr k \<longrightarrow> k \<le> n + length cs \<and> mqtt_ok t \<and> parse_state (msg_in t) \<noteq> MQTT_PARSE_COMPLETE))"
proof (induction fuel arbitrary: n cs s)
  case 0
  then show ?case by (simp add: mqtt_rank_def split: mqtt_parse_state.splits)
next
  case (Suc fuel)
  have fin: "mqtt_complete k u \<noteq> Hang \<and> (mqtt_complete k u = Ret (r, t) \<longrightarrow> length (client_id t) = 24 \<and>
      (\<forall>j. r = Inr j \<longrightarrow> j \<le> n + length cs \<and> mqtt_ok t \<and> parse_state (msg_in t) \<noteq> MQTT_PARSE_COMPLETE))"
    if "mqtt_ok u" "k \<le> n + length cs" for k u
    using complete_ok [of u k r t] that by (auto simp: mqtt_ok_def mqtt_rank_def)
  show ?case
  proof (cases "parse_state (msg_in s) = MQTT_PARSE_COMPLETE")
    case True
    with fin [OF Suc.prems(1), of n] show ?thesis by simp
  next
    case False
    note turn = mqtt_turn_ok [OF Suc.prems(1) False Suc.prems(2), of err]
    show ?thesis
    proof (cases "mqtt_turn err s cs")
      case (Ret w)
      obtain v u where w: "w = (v, u)" by (cases w)
      show ?thesis
      proof (cases v)
        case (Inl st)
        with False Ret w turn show ?thesis by auto
      next
        case (Inr k)
        have u: "k \<le> length cs" "mqtt_ok u" "drop k cs \<noteq> [] \<Longrightarrow> mqtt_rank u < mqtt_rank s" "length (client_id u) = 24"
          using turn [of v u] Ret w Inr by auto
        show ?thesis
          using False Ret w Inr Suc.IH [of u "drop k cs" "n + k"] u Suc.prems(3) fin [OF u(2), of "n + k"] by auto
      qed
    qed (use False turn in auto)
  qed
qed

section \<open>The remaining length\<close>

lemma len_byte:
  assumes "k < 128"
  shows "(word_of_nat k :: byte) AND LEN_VALUE = word_of_nat k" "(word_of_nat k :: byte) AND LEN_CONTINUATION = 0"
    "(word_of_nat k OR 0x80 :: byte) AND LEN_VALUE = word_of_nat k" "(word_of_nat k OR 0x80 :: byte) AND LEN_CONTINUATION \<noteq> 0"
    "(ucast (word_of_nat k :: byte) :: u64) = word_of_nat k"
proof -
  have all: "c < 128 \<longrightarrow> c AND 0x7f = c \<and> c AND 0x80 = 0 \<and> (c OR 0x80) AND 0x7f = c \<and> (c OR 0x80) AND 0x80 \<noteq> 0" for c :: byte
    by (rule all_bytesI [of _ c]) (simp add: all_bytes_def byte_order)
  have u: "unat (word_of_nat k :: byte) = k" using assms by (simp add: unat_of_nat take_bit_nat_eq_self)
  then have "(word_of_nat k :: byte) < 128" using assms by (simp add: word_less_nat_alt)
  with all [of "word_of_nat k"] show "(word_of_nat k :: byte) AND LEN_VALUE = word_of_nat k" "(word_of_nat k :: byte) AND LEN_CONTINUATION = 0"
    "(word_of_nat k OR 0x80 :: byte) AND LEN_VALUE = word_of_nat k" "(word_of_nat k OR 0x80 :: byte) AND LEN_CONTINUATION \<noteq> 0"
    by (simp_all add: mqtt_consts)
  show "(ucast (word_of_nat k :: byte) :: u64) = word_of_nat k"
    using assms by (simp add: unsigned_of_nat take_bit_nat_eq_self)
qed

lemma encode_remain_nonempty [simp]: "encode_remain n \<noteq> []"
  by (subst encode_remain.simps) (simp add: Let_def)

lemma encode_length: "0 < j \<Longrightarrow> length (encode_remain n) \<le> j \<longleftrightarrow> n < 128 ^ j"
proof (induction n arbitrary: j rule: encode_remain.induct)
  case (1 n)
  show ?case
  proof (cases "n div 128 = 0")
    case True
    have "(128 :: nat) ^ 1 \<le> 128 ^ j" using 1(2) by (intro power_increasing) simp_all
    moreover have "n < 128 ^ 1" using True by (simp add: div_eq_0_iff)
    ultimately have "n < 128 ^ j" by linarith
    with True 1(2) show ?thesis by (simp add: encode_remain.simps [of n] Let_def)
  next
    case False
    obtain i where j: "j = Suc i" using 1(2) by (cases j) auto
    show ?thesis
    proof (cases i)
      case 0
      have "\<not> n < 128" using False by auto
      with 0 j False show ?thesis by (simp add: encode_remain.simps [of n] Let_def encode_remain.simps [of "n div 128"])
    next
      case (Suc k)
      with 1(1) [OF refl refl False, of i] have "length (encode_remain (n div 128)) \<le> i \<longleftrightarrow> n div 128 < 128 ^ i" by simp
      also have "\<dots> \<longleftrightarrow> n < 128 ^ j" by (simp add: j div_less_iff_less_mult mult.commute)
      finally show ?thesis using False by (simp add: encode_remain.simps [of n] Let_def j)
    qed
  qed
qed

lemma mult_in_range: "i < 4 \<Longrightarrow> \<not> LEN_MAX_MULT < word_of_nat (128 ^ i)"
proof -
  assume "i < 4"
  then consider "i = 0" | "i = 1" | "i = 2" | "i = 3" by linarith
  then show ?thesis by cases (simp_all add: mqtt_consts word_less_nat_alt)
qed

lemma fixed_len_decodes:
  "mult_remain (msg_in s) = word_of_nat (128 ^ i) \<Longrightarrow> i < 4 \<Longrightarrow> n < 128 ^ (4 - i) \<Longrightarrow> mq_mem s \<noteq> 0 \<Longrightarrow>
   fixed_len_loop s (encode_remain n @ rest) k = Ret (Inr (k + length (encode_remain n)),
     let l = mq_len (msg_in s) + word_of_nat (n * 128 ^ i) in
     upd_msg (\<lambda>m. m\<lparr>mq_len := l, mult_remain := l, var_hdr := Some (replicate (unat l) 0), payload := 0,
       parse_state := MQTT_PARSE_VARHDR_PAYLOAD\<rparr>) (s\<lparr>mq_mem := mq_mem s - 1\<rparr>))"
proof (induction n arbitrary: s i k rule: encode_remain.induct)
  case (1 n)
  let ?r = "n mod 128"
  let ?s = "upd_msg (\<lambda>m. m\<lparr>mq_len := mq_len m + word_of_nat (?r * 128 ^ i), mult_remain := word_of_nat (128 ^ Suc i)\<rparr>) s"
  have r: "?r < 128" by simp
  have upd: "upd_msg (\<lambda>m. m\<lparr>mq_len := mq_len m + ucast (c AND LEN_VALUE) * mult_remain m, mult_remain := mult_remain m * 0x80\<rparr>) s = ?s"
    if "c AND LEN_VALUE = word_of_nat ?r" for c :: byte
    using 1(2) that len_byte(5) [OF r] by (simp add: upd_msg_def mult.commute)
  have m: "\<not> LEN_MAX_MULT < mult_remain (msg_in s)" unfolding 1(2) by (rule mult_in_range [OF 1(3)])
  show ?case
  proof (cases "n div 128 = 0")
    case True
    then have n: "?r = n" by simp
    have e: "encode_remain n = [word_of_nat ?r]" using True by (simp add: encode_remain.simps [of n] Let_def)
    have "fixed_len_loop s (word_of_nat ?r # rest) k =
        (case mqtt_parse_varhdr_init ?s of (st, s) \<Rightarrow> if st = YMO_OKAY then Ret (Inr (k + 1), s) else Ret (Inl st, s))"
      using m len_byte(2) [OF r] upd [OF len_byte(1) [OF r]] by (subst fixed_len_loop.simps) (simp add: Let_def)
    then show ?thesis unfolding e n using 1(5) by (simp add: mqtt_parse_varhdr_init_def Let_def upd_msg_def)
  next
    case False
    have e: "encode_remain n = (word_of_nat ?r OR 0x80) # encode_remain (n div 128)"
      using False by (simp add: encode_remain.simps [of n] Let_def)
    have "128 ^ 1 \<le> n" using False by (simp add: div_eq_0_iff)
    then have i: "Suc i < 4" using 1(3,4) by (cases "i = 3") auto
    then have "4 - i = Suc (4 - Suc i)" by simp
    with 1(4) have nd: "n div 128 < 128 ^ (4 - Suc i)" by (simp add: div_less_iff_less_mult mult.commute)
    have "?r * 128 ^ i + n div 128 * 128 ^ Suc i = (?r + 128 * (n div 128)) * 128 ^ i"
      by (simp only: add_mult_distrib power_Suc mult.assoc mult.left_commute)
    then have l: "?r * 128 ^ i + n div 128 * 128 ^ Suc i = n * 128 ^ i" by (simp only: mod_mult_div_eq)
    have step: "fixed_len_loop s ((word_of_nat ?r OR 0x80) # encode_remain (n div 128) @ rest) k =
        fixed_len_loop ?s (encode_remain (n div 128) @ rest) (k + 1)"
      using m len_byte(4) [OF r] upd [OF len_byte(3) [OF r]] by (subst fixed_len_loop.simps) (simp add: Let_def)
    have sum: "mq_len (msg_in ?s) + word_of_nat (n div 128 * 128 ^ Suc i) = mq_len (msg_in s) + word_of_nat (n * 128 ^ i)"
      unfolding l [symmetric] by (simp add: upd_msg_def)
    have "mult_remain (msg_in ?s) = word_of_nat (128 ^ Suc i)" "mq_mem ?s \<noteq> 0" using 1(5) by (simp_all add: upd_msg_def)
    from 1(1) [OF refl refl False this(1) i nd this(2), of "k + 1"] show ?thesis
      unfolding e append_Cons step sum by (simp add: upd_msg_def Let_def)
  qed
qed

section \<open>Values in a packet\<close>

definition be16 :: "nat \<Rightarrow> bytes" where
  "be16 n = [word_of_nat (n div 256), word_of_nat (n mod 256)]"

text \<open>The numbers that are read as they were written: the low byte must not have its top bit set.\<close>

definition plain16 :: "nat \<Rightarrow> bool" where
  "plain16 n \<longleftrightarrow> n < 65536 \<and> n mod 256 < 128"

lemma widen_high: "push_bit 8 (scast (a :: byte) :: u16) = 256 * ucast a"
proof -
  have "push_bit 8 (scast (a :: byte) :: u16) = push_bit 8 (ucast a)"
  proof (rule bit_word_eqI)
    fix n assume "n < LENGTH(16)"
    then consider "n - 8 = 7" | "n - 8 < 7" by fastforce
    then show "bit (push_bit 8 (scast a :: u16)) n \<longleftrightarrow> bit (push_bit 8 (ucast a :: u16)) n"
      by cases (auto simp: bit_simps min_def)
  qed
  then show ?thesis by (simp add: push_bit_eq_mult mult.commute)
qed

lemma widen_low: "a < 128 \<Longrightarrow> (scast (a :: byte) :: u16) = ucast a"
proof -
  have "a < 128 \<longrightarrow> (scast (a :: byte) :: u16) = ucast a"
    by (rule all_bytesI [of _ a]) (simp add: all_bytes_def byte_order)
  then show "a < 128 \<Longrightarrow> (scast (a :: byte) :: u16) = ucast a" by simp
qed

lemma drop_prefix:
  assumes "drop i b = xs @ rest"
  shows "drop (i + length xs) b = rest" "k < length xs \<Longrightarrow> i + k < length b \<and> b ! (i + k) = xs ! k" "xs \<noteq> [] \<Longrightarrow> i + length xs \<le> length b"
proof -
  have "drop (i + length xs) b = drop (length xs) (drop i b)" by (simp add: add.commute)
  then show "drop (i + length xs) b = rest" by (simp add: assms)
  have l: "length b - i = length xs + length rest" using arg_cong [OF assms, of length] by simp
  then show "xs \<noteq> [] \<Longrightarrow> i + length xs \<le> length b" by (cases xs) auto
  assume k: "k < length xs"
  then have "i + k < length b" using l by simp
  moreover from this have "b ! (i + k) = drop i b ! k" by simp
  ultimately show "i + k < length b \<and> b ! (i + k) = xs ! k" using k by (simp add: assms nth_append)
qed

lemma consume8: "drop i b = c # rest \<Longrightarrow> PARSE_CONSUME_UINT8 b i = Some (c, i + 1) \<and> drop (i + 1) b = rest"
  using drop_prefix [of i b "[c]" rest] by (simp add: PARSE_CONSUME_UINT8_def)

lemma widen_low_neg: "128 \<le> a \<Longrightarrow> (scast (a :: byte) :: u16) = ucast a - 256"
proof -
  have "128 \<le> a \<longrightarrow> (scast (a :: byte) :: u16) = ucast a - 256"
    by (rule all_bytesI [of _ a]) (simp add: all_bytes_def byte_order)
  then show "128 \<le> a \<Longrightarrow> (scast (a :: byte) :: u16) = ucast a - 256" by simp
qed

text \<open>The number that is read where \<open>n\<close> was written: the sign of the low byte reaches the high one.\<close>

definition read16 :: "nat \<Rightarrow> u16" where
  "read16 n = (if n mod 256 < 128 then word_of_nat n else word_of_nat n - 256)"

lemma consume16_any:
  assumes "drop i b = be16 n @ rest" "n < 65536"
  shows "PARSE_CONSUME_UINT16 b i = Some (read16 n, i + 2) \<and> drop (i + 2) b = rest"
proof -
  let ?l = "word_of_nat (n mod 256) :: byte"
  have n: "n div 256 < 256" "n mod 256 < 256" using assms(2) by auto
  have at: "i + 1 < length b" "b ! i = word_of_nat (n div 256)" "b ! (i + 1) = ?l"
    using drop_prefix(2) [OF assms(1), of 0] drop_prefix(2) [OF assms(1), of 1] by (simp_all add: be16_def)
  have u: "(ucast (word_of_nat (n div 256) :: byte) :: u16) = word_of_nat (n div 256)" "(ucast ?l :: u16) = word_of_nat (n mod 256)"
    using n by (simp_all add: unsigned_of_nat take_bit_nat_eq_self)
  have sum: "256 * word_of_nat (n div 256) + word_of_nat (n mod 256) = (word_of_nat n :: u16)"
  proof -
    have "256 * word_of_nat (n div 256) + word_of_nat (n mod 256) = (word_of_nat (256 * (n div 256) + n mod 256) :: u16)"
      by (simp only: of_nat_add of_nat_mult of_nat_numeral)
    then show ?thesis by simp
  qed
  have low: "?l < 128 \<longleftrightarrow> n mod 256 < 128"
    using n(2) by (simp add: word_less_nat_alt unat_of_nat take_bit_nat_eq_self)
  have "push_bit 8 (scast (word_of_nat (n div 256) :: byte) :: u16) + scast ?l = read16 n"
  proof (cases "n mod 256 < 128")
    case True
    with low sum u show ?thesis unfolding widen_high by (subst widen_low) (simp_all add: read16_def)
  next
    case False
    with low sum u show ?thesis unfolding widen_high by (subst widen_low_neg) (simp_all add: read16_def)
  qed
  then have "PARSE_CONSUME_UINT16 b i = Some (read16 n, i + 2)" using at by (simp add: PARSE_CONSUME_UINT16_def)
  then show ?thesis using drop_prefix(1) [OF assms(1)] by (simp add: be16_def)
qed

lemma consume16:
  assumes "drop i b = be16 n @ rest" "plain16 n"
  shows "PARSE_CONSUME_UINT16 b i = Some (word_of_nat n, i + 2) \<and> drop (i + 2) b = rest \<and> unat (word_of_nat n :: u16) = n"
  using consume16_any [OF assms(1)] assms(2) by (simp add: plain16_def read16_def unat_of_nat take_bit_nat_eq_self)

lemma consume_str:
  assumes "drop i b = v @ rest" "length v \<le> cap" "i \<le> length b"
  shows "PARSE_CONSUME_STRVAL cap b i (length v) = Some (v, i + length v) \<and> drop (i + length v) b = rest \<and> i + length v \<le> length b"
proof -
  have "i + length v \<le> length b" using drop_prefix(3) [OF assms(1)] assms(3) by (cases v) auto
  with assms drop_prefix(1) [OF assms(1)] show ?thesis by (simp add: PARSE_CONSUME_STRVAL_def)
qed

section \<open>CONNECT packets\<close>

definition opt_field :: "bytes option \<Rightarrow> bytes" where
  "opt_field v = (case v of None \<Rightarrow> [] | Some v \<Rightarrow> be16 (length v) @ v)"

definition with_field :: "(bytes option \<Rightarrow> mqtt_session \<Rightarrow> mqtt_session) \<Rightarrow> bytes option \<Rightarrow> mqtt_session \<Rightarrow> mqtt_session" where
  "with_field set_dst v s = (case v of None \<Rightarrow> s | Some _ \<Rightarrow> set_dst v (s\<lparr>mq_mem := mq_mem s - 1\<rparr>))"

lemma connect_field:
  assumes "drop i b = opt_field v @ rest" "i \<le> length b" "v \<noteq> None \<longleftrightarrow> connect_flags s AND flag \<noteq> 0"
    and "\<forall>x \<in> set_option v. plain16 (length x)" "mq_mem s \<noteq> 0"
  shows "PARSE_CONNECT_FIELD b flag set_dst (i, s) = Some (i + length (opt_field v), with_field set_dst v s) \<and>
    drop (i + length (opt_field v)) b = rest \<and> i + length (opt_field v) \<le> length b"
proof (cases v)
  case None
  with assms show ?thesis by (simp add: PARSE_CONNECT_FIELD_def opt_field_def with_field_def)
next
  case (Some x)
  have d: "drop i b = be16 (length x) @ x @ rest" using assms(1) Some by (simp add: opt_field_def)
  have p: "plain16 (length x)" using assms(4) Some by simp
  note c = consume16 [OF d p]
  have i2: "i + 2 \<le> length b" using drop_prefix(3) [OF d] by (simp add: be16_def)
  note t = consume_str [OF _ order_refl i2, of x rest]
  have l: "length (opt_field (Some x)) = 2 + length x" by (simp add: opt_field_def be16_def)
  have "PARSE_STRDUP b (i, s) = Some (Some x, i + length (opt_field (Some x)), s\<lparr>mq_mem := mq_mem s - 1\<rparr>)"
    using c t assms(5) by (simp add: PARSE_STRDUP_def l add.assoc)
  with assms(3) Some c t show ?thesis by (simp add: PARSE_CONNECT_FIELD_def with_field_def l add.assoc)
qed

definition connect_body ::
  "bytes \<Rightarrow> byte \<Rightarrow> byte \<Rightarrow> nat \<Rightarrow> bytes \<Rightarrow> bytes option \<Rightarrow> bytes option \<Rightarrow> bytes option \<Rightarrow> bytes option \<Rightarrow> bytes" where
  "connect_body name level fl ka cid wt wm un pw =
     be16 (length name) @ name @ level # fl # be16 ka @ be16 (length cid) @ cid @
     opt_field wt @ opt_field wm @ opt_field un @ opt_field pw"

text \<open>A CONNECT message of version 3.1.0 or 3.1.1, with the fields its flags announce.\<close>

definition connect_ok ::
  "bytes \<Rightarrow> byte \<Rightarrow> byte \<Rightarrow> nat \<Rightarrow> bytes \<Rightarrow> bytes option \<Rightarrow> bytes option \<Rightarrow> bytes option \<Rightarrow> bytes option \<Rightarrow> bool" where
  "connect_ok name level fl ka cid wt wm un pw \<longleftrightarrow>
     (name, level) \<in> {(str ''MQTT'', 4), (str ''MQIsdp'', 3)} \<and> ka < 65536 \<and> length cid \<le> 24 \<and>
     (wt \<noteq> None \<longleftrightarrow> fl AND CONNECT_WILL_FLAG \<noteq> 0) \<and> (wm \<noteq> None \<longleftrightarrow> fl AND CONNECT_WILL_FLAG \<noteq> 0) \<and>
     (un \<noteq> None \<longleftrightarrow> fl AND CONNECT_USERNAME \<noteq> 0) \<and> (pw \<noteq> None \<longleftrightarrow> fl AND CONNECT_PASSWORD \<noteq> 0) \<and>
     (\<forall>v \<in> set_option wt \<union> set_option wm \<union> set_option un \<union> set_option pw. plain16 (length v))"

definition connect_view ::
  "mqtt_session \<Rightarrow> byte \<Rightarrow> byte \<Rightarrow> nat \<Rightarrow> bytes \<Rightarrow> bytes option \<Rightarrow> bytes option \<Rightarrow> bytes option \<Rightarrow> bytes option \<Rightarrow> bool" where
  "connect_view s level fl ka cid wt wm un pw \<longleftrightarrow>
     proto_id s = level \<and> connect_flags s = fl \<and> ka_timer s = read16 ka \<and> take (length cid) (client_id s) = cid \<and>
     will_topic s = wt \<and> will_msg s = wm \<and> username s = un \<and> password s = pw"

lemma connect_varhdr_ok:
  assumes "connect_ok name level fl ka cid wt wm un pw" "b = connect_body name level fl ka cid wt wm un pw"
  shows "connect_varhdr b s = Some (YMO_OKAY, upd_msg (\<lambda>m. m\<lparr>payload := length name + 6\<rparr>)
      (s\<lparr>proto_id := level, connect_flags := fl, ka_timer := read16 ka\<rparr>)) \<and>
    drop (length name + 6) b = be16 (length cid) @ cid @ opt_field wt @ opt_field wm @ opt_field un @ opt_field pw \<and>
    length name + 6 \<le> length b"
proof -
  let ?p = "be16 (length cid) @ cid @ opt_field wt @ opt_field wm @ opt_field un @ opt_field pw"
  have nm: "length name \<le> 12" "plain16 (length name)" "ka < 65536" "proto_known level (word_of_nat (length name)) name"
    using assms(1) by (auto simp: connect_ok_def plain16_def proto_known_def str_def)
  have d0: "drop 0 b = be16 (length name) @ name @ level # fl # be16 ka @ ?p" by (simp add: assms(2) connect_body_def)
  note c0 = consume16 [OF d0 nm(2)]
  then have c0': "drop 2 b = name @ level # fl # be16 ka @ ?p" by (simp add: numeral_2_eq_2)
  have l: "length b = length name + 6 + length ?p" by (simp add: assms(2) connect_body_def be16_def)
  note c1 = consume_str [OF c0' nm(1)]
  then have c1': "drop (2 + length name) b = level # fl # be16 ka @ ?p" using l by simp
  note c2 = consume8 [OF c1']
  then have c2': "drop (2 + length name + 1) b = fl # be16 ka @ ?p" by simp
  note c3 = consume8 [OF c2']
  then have c3': "drop (2 + length name + 1 + 1) b = be16 ka @ ?p" by simp
  note c4 = consume16_any [OF c3' nm(3)]
  show ?thesis
    using c0 c1 c2 c3 c4 l nm(4) by (simp add: connect_varhdr_def eval_nat_numeral)
qed

definition all_fields :: "bytes option \<Rightarrow> bytes option \<Rightarrow> bytes option \<Rightarrow> bytes option \<Rightarrow> mqtt_session \<Rightarrow> mqtt_session" where
  "all_fields wt wm un pw s =
     with_field (\<lambda>v s. s\<lparr>password := v\<rparr>) pw (with_field (\<lambda>v s. s\<lparr>username := v\<rparr>) un
       (with_field (\<lambda>v s. s\<lparr>will_msg := v\<rparr>) wm (with_field (\<lambda>v s. s\<lparr>will_topic := v\<rparr>) wt s)))"

lemma with_field_mem: "(\<And>v s. mq_mem (set_dst v s) = mq_mem s) \<Longrightarrow> mq_mem s - 1 \<le> mq_mem (with_field set_dst v s)"
  by (cases v) (simp_all add: with_field_def)

lemma with_field_flags: "(\<And>v s. connect_flags (set_dst v s) = connect_flags s) \<Longrightarrow> connect_flags (with_field set_dst v s) = connect_flags s"
  by (cases v) (simp_all add: with_field_def)

lemma connect_payload_ok:
  assumes ok: "connect_ok name level fl ka cid wt wm un pw" and s: "connect_flags s = fl" "3 < mq_mem s"
    and d: "drop (payload (msg_in s)) b = be16 (length cid) @ cid @ opt_field wt @ opt_field wm @ opt_field un @ opt_field pw"
  shows "connect_payload b s = Some (all_fields wt wm un pw (s\<lparr>client_id := cid @ drop (length cid) (client_id s)\<rparr>))"
proof -
  let ?i = "payload (msg_in s)"
  let ?s0 = "s\<lparr>client_id := cid @ drop (length cid) (client_id s)\<rparr>"
  let ?s1 = "with_field (\<lambda>v s. s\<lparr>will_topic := v\<rparr>) wt ?s0"
  let ?s2 = "with_field (\<lambda>v s. s\<lparr>will_msg := v\<rparr>) wm ?s1"
  let ?s3 = "with_field (\<lambda>v s. s\<lparr>username := v\<rparr>) un ?s2"
  have m: "mq_mem ?s0 - 1 \<le> mq_mem ?s1" "mq_mem ?s1 - 1 \<le> mq_mem ?s2" "mq_mem ?s2 - 1 \<le> mq_mem ?s3"
    by (rule with_field_mem; simp)+
  then have mem: "mq_mem ?s0 \<noteq> 0" "mq_mem ?s1 \<noteq> 0" "mq_mem ?s2 \<noteq> 0" "mq_mem ?s3 \<noteq> 0" using s(2) by simp_all
  have fl: "connect_flags ?s0 = fl" "connect_flags ?s1 = fl" "connect_flags ?s2 = fl" "connect_flags ?s3 = fl"
    using s(1) by (simp_all add: with_field_flags)
  have o: "length cid \<le> 24" "plain16 (length cid)"
      "wt \<noteq> None \<longleftrightarrow> fl AND CONNECT_WILL_FLAG \<noteq> 0" "wm \<noteq> None \<longleftrightarrow> fl AND CONNECT_WILL_FLAG \<noteq> 0"
      "un \<noteq> None \<longleftrightarrow> fl AND CONNECT_USERNAME \<noteq> 0" "pw \<noteq> None \<longleftrightarrow> fl AND CONNECT_PASSWORD \<noteq> 0"
      "\<forall>x \<in> set_option wt. plain16 (length x)" "\<forall>x \<in> set_option wm. plain16 (length x)"
      "\<forall>x \<in> set_option un. plain16 (length x)" "\<forall>x \<in> set_option pw. plain16 (length x)"
    using ok by (auto simp: connect_ok_def plain16_def)
  note c = consume16 [OF d o(2)]
  have i2: "?i + 2 \<le> length b" using drop_prefix(3) [OF d] by (simp add: be16_def)
  note t = consume_str [OF conjunct1 [OF conjunct2 [OF c]] o(1) i2]
  note f1 = connect_field [OF conjunct1 [OF conjunct2 [OF t]] conjunct2 [OF conjunct2 [OF t]] o(3) [folded fl(1)] o(7) mem(1),
      where set_dst = "\<lambda>v s. s\<lparr>will_topic := v\<rparr>"]
  note f2 = connect_field [OF conjunct1 [OF conjunct2 [OF f1]] conjunct2 [OF conjunct2 [OF f1]] o(4) [folded fl(2)] o(8) mem(2),
      where set_dst = "\<lambda>v s. s\<lparr>will_msg := v\<rparr>"]
  note f3 = connect_field [OF conjunct1 [OF conjunct2 [OF f2]] conjunct2 [OF conjunct2 [OF f2]] o(5) [folded fl(3)] o(9) mem(3),
      where set_dst = "\<lambda>v s. s\<lparr>username := v\<rparr>"]
  have d3: "drop (?i + 2 + length cid + length (opt_field wt) + length (opt_field wm) + length (opt_field un)) b = opt_field pw @ []"
    using f3 by simp
  note f4 = connect_field [OF d3 conjunct2 [OF conjunct2 [OF f3]] o(6) [folded fl(4)] o(10) mem(4),
      where set_dst = "\<lambda>v s. s\<lparr>password := v\<rparr>"]
  show ?thesis
    unfolding connect_payload_def all_fields_def
    using conjunct1 [OF c] conjunct2 [OF conjunct2 [OF c]] conjunct1 [OF t] conjunct1 [OF f1] conjunct1 [OF f2] conjunct1 [OF f3] conjunct1 [OF f4]
    by (simp add: Let_def)
qed

lemma all_fields_view:
  assumes "connect_ok name level fl ka cid wt wm un pw"
    and "username s = None" "password s = None" "will_topic s = None" "will_msg s = None"
    and "proto_id s = level" "connect_flags s = fl" "ka_timer s = read16 ka"
  shows "connect_view (all_fields wt wm un pw (s\<lparr>client_id := cid @ drop (length cid) (client_id s)\<rparr>)) level fl ka cid wt wm un pw"
    "mq_mem s - 4 \<le> mq_mem (all_fields wt wm un pw (s\<lparr>client_id := cid @ drop (length cid) (client_id s)\<rparr>))"
  using assms(2-) by (cases wt; cases wm; cases un; cases pw; simp add: all_fields_def with_field_def connect_view_def)+

lemma process_connect:
  assumes ok: "connect_ok name level fl ka cid wt wm un pw" "mq_type (msg_in s) = YMO_MQTT_CONNECT"
      "var_hdr (msg_in s) = Some (connect_body name level fl ka cid wt wm un pw)" "3 < mq_mem s"
    and n: "username s = None" "password s = None" "will_topic s = None" "will_msg s = None"
  shows "\<exists>t. mqtt_process s k = Ret (Inr k, t) \<and> connect_view t level fl ka cid wt wm un pw \<and> mq_mem s - 4 \<le> mq_mem t \<and>
    parse_state (msg_in t) = MQTT_PARSE_COMPLETE \<and> mq_type (msg_in t) = YMO_MQTT_CONNECT \<and> mq_send t = mq_send s \<and>
    mq_lost t = mq_lost s \<and> mq_acts t = mq_acts s"
proof -
  let ?b = "connect_body name level fl ka cid wt wm un pw"
  note v = connect_varhdr_ok [OF ok(1) refl, of s]
  define s1 where "s1 = upd_msg (\<lambda>m. m\<lparr>payload := length name + 6, payload_len := mq_len m - word_of_nat (length name + 6)\<rparr>)
    (s\<lparr>proto_id := level, connect_flags := fl, ka_timer := read16 ka\<rparr>)"
  have p1: "mqtt_parse_varhdr s = Some (YMO_OKAY, s1)"
    using v ok(2,3) by (simp add: mqtt_parse_varhdr_def s1_def upd_msg_def)
  define t where "t = all_fields wt wm un pw (s1\<lparr>client_id := cid @ drop (length cid) (client_id s1)\<rparr>)"
  have s1: "connect_flags s1 = fl" "3 < mq_mem s1" "payload (msg_in s1) = length name + 6" "mq_type (msg_in s1) = YMO_MQTT_CONNECT"
    "var_hdr (msg_in s1) = Some ?b" using ok(2-4) by (simp_all add: s1_def upd_msg_def)
  have "connect_payload ?b s1 = Some t"
    unfolding t_def by (rule connect_payload_ok [OF ok(1) s1(1,2)]) (use v s1(3) in simp)
  then have p2: "mqtt_parse_payload s1 = Some (YMO_OKAY, t)" using s1(4,5) by (simp add: mqtt_parse_payload_def)
  have view: "connect_view t level fl ka cid wt wm un pw" "mq_mem s1 - 4 \<le> mq_mem t"
    unfolding t_def using all_fields_view [OF ok(1), of s1] n by (simp_all add: s1_def upd_msg_def)
  have same: "same_msg s1 t" by (rule payload_same [OF p2])
  have "mqtt_process s k = Ret (Inr k, mqtt_parse_complete t)" using p1 p2 by (simp add: mqtt_process_def)
  then show ?thesis
    using view same s1(4) by (intro exI [of _ "mqtt_parse_complete t"])
      (simp add: mqtt_parse_complete_def upd_msg_def connect_view_def same_msg_def s1_def)
qed

definition connect_packet ::
  "bytes \<Rightarrow> byte \<Rightarrow> byte \<Rightarrow> nat \<Rightarrow> bytes \<Rightarrow> bytes option \<Rightarrow> bytes option \<Rightarrow> bytes option \<Rightarrow> bytes option \<Rightarrow> bytes" where
  "connect_packet name level fl ka cid wt wm un pw =
     0x10 # encode_remain (length (connect_body name level fl ka cid wt wm un pw)) @ connect_body name level fl ka cid wt wm un pw"

text \<open>The answer to a CONNECT packet, with an empty send chain and memory for its two buckets.\<close>

lemma complete_connect:
  assumes "mq_type (msg_in s) = YMO_MQTT_CONNECT" "mq_send s = []" "3 \<le> mq_mem s"
  shows "\<exists>t. (\<forall>n. mqtt_complete n s = Ret (Inr n, t)) \<and> mq_state t = YMO_MQTT_STATE_CONNECTED \<and> pending (mq_send t) = [0x20, 0x02, 0x00, 0x00] \<and>
    mq_acts t = mq_acts s @ [Tx_enable True] \<and> parse_state (msg_in t) = MQTT_PARSE_FIXED_CTRLPACK \<and>
    (\<forall>level fl ka cid wt wm un pw. connect_view t level fl ka cid wt wm un pw = connect_view s level fl ka cid wt wm un pw)"
proof -
  have e: "encode_remain 2 = [2]" by (subst encode_remain.simps) simp
  have l: "length connack_msg = 2" by (simp add: connack_msg_def)
  obtain m where "mq_mem s = 3 + m" using assms(3) le_Suc_ex by blast
  then have m: "mq_mem s = Suc (Suc (Suc m))" by simp
  show ?thesis
    using assms(1,2) m
    by (simp add: mqtt_complete_def ymo_mqtt_session_send_def mqtt_push_def Let_def l e ymo_bucket_create_cpy_def
        ymo_bucket_create_def bucket_link_def mqtt_parse_reset_def ymo_mqtt_session_msg_free_def upd_msg_def connect_view_def
        pending_def bucket_iov_def mqtt_consts) (simp add: connack_msg_def)
qed

section \<open>Properties\<close>

text \<open>
  C18: a new session with memory (nine allocations are enough) takes a CONNECT packet of version MQTT/4 or
  MQIsdp/3 in one read, whole and without the bytes that follow it.  The packet has the optional fields exactly as
  its flags say, a client identifier of at most 24 bytes, any keep-alive, and a body below 2^28 bytes; the length
  of every optional field has a low byte below 128, because the parser reads a length as two signed bytes (C21 has
  what longer identifiers do).  Then the version, the flags, the client identifier, the will, the user name and
  the password are stored as they were sent, the session is connected, the next byte starts a new packet, and
  exactly a CONNACK without error is queued and the connection told to send.  The keep-alive is stored as it was
  sent only when its low byte is below 128: any other is stored 256 too low, modulo 2^16 (200 becomes 65480).
\<close>

theorem mqtt_connect_accepted:
  assumes new: "ymo_mqtt_session_create m = Some s" "9 \<le> m"
    and ok: "connect_ok name level fl ka cid wt wm un pw" "length (connect_body name level fl ka cid wt wm un pw) < 2 ^ 28"
  shows "\<exists>t. ymo_proto_mqtt_read err (connect_packet name level fl ka cid wt wm un pw @ rest) s =
      Ret (Inr (length (connect_packet name level fl ka cid wt wm un pw)), t) \<and>
    connect_view t level fl ka cid wt wm un pw \<and> mq_state t = YMO_MQTT_STATE_CONNECTED \<and>
    parse_state (msg_in t) = MQTT_PARSE_FIXED_CTRLPACK \<and> pending (mq_send t) = [0x20, 0x02, 0x00, 0x00] \<and> mq_acts t = [Tx_enable True] \<and>
    ka_timer t = (if ka mod 256 < 128 then word_of_nat ka else word_of_nat ka - 256)"
proof -
  let ?b = "connect_body name level fl ka cid wt wm un pw"
  let ?n = "length ?b" and ?e = "encode_remain (length ?b)"
  define s1 where "s1 = mqtt_parse_len_init (upd_msg (\<lambda>m. m\<lparr>mq_type := YMO_MQTT_CONNECT\<rparr>) s)"
  define s2 where "s2 = upd_msg (\<lambda>m. m\<lparr>mq_len := word_of_nat ?n, mult_remain := word_of_nat ?n, var_hdr := Some (replicate ?n 0),
    payload := 0, parse_state := MQTT_PARSE_VARHDR_PAYLOAD\<rparr>) (s1\<lparr>mq_mem := mq_mem s1 - 1\<rparr>)"
  define s3 where "s3 = upd_msg (\<lambda>m. m\<lparr>var_hdr := Some ?b, mult_remain := 0, payload := ?n\<rparr>) s2"
  have s: "mq_state s = YMO_MQTT_STATE_CONNECTING" "parse_state (msg_in s) = MQTT_PARSE_FIXED_CTRLPACK" "mq_mem s = m - 1"
    "mq_send s = []" "mq_acts s = []" "mq_len (msg_in s) = 0"
    "username s = None" "password s = None" "will_topic s = None" "will_msg s = None"
    using new by (auto simp: ymo_mqtt_session_create_def)
  have u: "unat (word_of_nat ?n :: u64) = ?n" using ok(2) by (simp add: unat_of_nat take_bit_nat_eq_self)
  have body: "?b \<noteq> []" "?e \<noteq> []" by (simp_all add: connect_body_def be16_def)
  have t1: "mqtt_turn err s (0x10 # cs) = Ret (Inr 1, s1)" for cs
    using s(1,2) by (simp add: mqtt_turn_def ymo_mqtt_parse_fixed_ctrlpack_def ctrl_flags_ok_def mqtt_consts s1_def)
  have t2: "mqtt_turn err s1 (?e @ cs) = Ret (Inr (length ?e), s2)" for cs
    using fixed_len_decodes [of s1 0 ?n cs 0] ok(2) new(2) s(3,6) u
    by (simp add: mqtt_turn_def ymo_mqtt_parsed_fixed_len_def s1_def s2_def mqtt_parse_len_init_def upd_msg_def Let_def)
  have s3: "mq_mem s3 = m - 2" "mq_send s3 = []" "mq_acts s3 = []" "mq_type (msg_in s3) = YMO_MQTT_CONNECT" "var_hdr (msg_in s3) = Some ?b"
    "username s3 = None" "password s3 = None" "will_topic s3 = None" "will_msg s3 = None"
    using s by (simp_all add: s1_def s2_def s3_def mqtt_parse_len_init_def upd_msg_def)
  have "3 < mq_mem s3" using s3(1) new(2) by simp
  from process_connect [OF ok(1) s3(4,5) this s3(6-9), of ?n] obtain t where
    t: "mqtt_process s3 ?n = Ret (Inr ?n, t)" "connect_view t level fl ka cid wt wm un pw" "mq_mem s3 - 4 \<le> mq_mem t"
      "parse_state (msg_in t) = MQTT_PARSE_COMPLETE" "mq_type (msg_in t) = YMO_MQTT_CONNECT" "mq_send t = mq_send s3"
      "mq_acts t = mq_acts s3" by (elim exE conjE) (rule that)
  have t3: "mqtt_turn err s2 (?b @ rest) = Ret (Inr ?n, t)"
    using t(1) u by (simp add: mqtt_turn_def ymo_mqtt_parse_varhdr_payload_def s2_def s3_def upd_msg_def Let_def)
  have "3 \<le> mq_mem t" using t(3) s3(1) new(2) by simp
  from complete_connect [OF t(5) t(6) [unfolded s3(2)] this] obtain w where
    w: "\<forall>k. mqtt_complete k t = Ret (Inr k, w)" "mq_state w = YMO_MQTT_STATE_CONNECTED" "pending (mq_send w) = [0x20, 0x02, 0x00, 0x00]"
      "mq_acts w = mq_acts t @ [Tx_enable True]" "parse_state (msg_in w) = MQTT_PARSE_FIXED_CTRLPACK"
      and view: "\<forall>level fl ka cid wt wm un pw. connect_view w level fl ka cid wt wm un pw = connect_view t level fl ka cid wt wm un pw"
    by (elim exE conjE) (rule that)
  have ps: "parse_state (msg_in s1) = MQTT_PARSE_FIXED_LENGTH" "parse_state (msg_in s2) = MQTT_PARSE_VARHDR_PAYLOAD"
    by (simp_all add: s1_def s2_def mqtt_parse_len_init_def upd_msg_def)
  have "mqtt_loop (Suc (Suc (Suc (Suc 0)))) err 0 (0x10 # ?e @ ?b @ rest) s = Ret (Inr (1 + length ?e + ?n), w)"
    using s(2) ps t(4) t1 t2 t3 body w(1) by simp
  then have "ymo_proto_mqtt_read err (connect_packet name level fl ka cid wt wm un pw @ rest) s =
      Ret (Inr (length (connect_packet name level fl ka cid wt wm un pw)), w)"
    by (simp add: ymo_proto_mqtt_read_def connect_packet_def numeral_eq_Suc)
  moreover have v: "connect_view w level fl ka cid wt wm un pw" using view t(2) by simp
  moreover have "ka_timer w = read16 ka" using v by (simp add: connect_view_def)
  ultimately show ?thesis using w t(7) s3(3) by (intro exI [of _ w]) (simp add: read16_def)
qed

definition fresh_mqtt :: mqtt_session where
  "fresh_mqtt = the (ymo_mqtt_session_create 9)"

lemma fresh_mqtt_facts:
  "ymo_mqtt_session_create 9 = Some fresh_mqtt" "mqtt_ok fresh_mqtt" "mq_mem fresh_mqtt = 8"
  "mq_state fresh_mqtt = YMO_MQTT_STATE_CONNECTING" "parse_state (msg_in fresh_mqtt) = MQTT_PARSE_FIXED_CTRLPACK"
  by (simp_all add: fresh_mqtt_def ymo_mqtt_session_create_def mqtt_ok_def)

theorem mqtt_connect_accepted_witness:
  "\<exists>t. ymo_proto_mqtt_read YMO_OKAY (connect_packet (str ''MQTT'') 4 0x80 200 [0x61, 0x62] None None (Some [0x63]) None @ [0xC0]) fresh_mqtt =
      Ret (Inr (length (connect_packet (str ''MQTT'') 4 0x80 200 [0x61, 0x62] None None (Some [0x63]) None)), t) \<and>
     username t = Some [0x63] \<and> ka_timer t = 65480"
proof -
  have ok: "connect_ok (str ''MQTT'') 4 0x80 200 [0x61, 0x62] None None (Some [0x63]) None"
    by (simp add: connect_ok_def plain16_def mqtt_consts)
  have l: "length (connect_body (str ''MQTT'') 4 0x80 200 [0x61, 0x62] None None (Some [0x63]) None) < 2 ^ 28"
    by (simp add: connect_body_def be16_def opt_field_def str_def)
  show ?thesis
    using mqtt_connect_accepted [OF fresh_mqtt_facts(1) order_refl ok l, of YMO_OKAY "[0xC0]"]
    by (elim exE conjE) (intro exI conjI, assumption, simp_all add: connect_view_def)
qed

text \<open>
  C19: a read of any bytes by a well-formed MQTT session comes back (it may fail on an access out of bounds, C21).
  When the read succeeds, the session is well formed again (its message block has the length that was announced,
  the progress of the parser lies within it, its client identifier has its size), no more bytes are counted than
  were given, and no message is left complete but unhandled; so this holds for any pieces, one after the other.
  When it returns an error, upon which the server closes the connection, only the size of the client identifier
  is kept.
\<close>

theorem mqtt_session_well_formed:
  assumes "mqtt_ok s" "input \<noteq> []"
  shows "ymo_proto_mqtt_read err input s \<noteq> Hang \<and>
    (\<forall>r t. ymo_proto_mqtt_read err input s = Ret (r, t) \<longrightarrow> length (client_id t) = 24 \<and>
      (\<forall>k. r = Inr k \<longrightarrow> k \<le> length input \<and> mqtt_ok t \<and> parse_state (msg_in t) \<noteq> MQTT_PARSE_COMPLETE))"
proof -
  have "mqtt_rank s \<le> 4" by (simp add: mqtt_rank_def split: mqtt_parse_state.splits)
  from mqtt_loop_ok [OF assms this, of err 0] show ?thesis by (simp add: ymo_proto_mqtt_read_def)
qed

theorem mqtt_session_well_formed_witness:
  "\<exists>t. ymo_proto_mqtt_read YMO_OKAY [0xC0] fresh_mqtt = Ret (Inr 1, t) \<and> mqtt_ok t"
proof -
  have "ymo_proto_mqtt_read YMO_OKAY [0xC0] fresh_mqtt =
      Ret (Inr 1, mqtt_parse_len_init (upd_msg (\<lambda>m. m\<lparr>mq_type := 0xC0\<rparr>) fresh_mqtt))"
    using fresh_mqtt_facts(4,5)
    by (simp add: ymo_proto_mqtt_read_def numeral_eq_Suc mqtt_turn_def ymo_mqtt_parse_fixed_ctrlpack_def ctrl_flags_ok_def mqtt_consts
        mqtt_parse_len_init_def upd_msg_def)
  with mqtt_session_well_formed [OF fresh_mqtt_facts(2), of "[0xC0]" YMO_OKAY] show ?thesis by auto
qed

text \<open>
  C20: a remaining length below 2^28 is written in at most four bytes, from which the parser gets it back,
  whatever follows them; a longer message overflows the five bytes that the sender has for the fixed header.
\<close>

theorem mqtt_length_roundtrip:
  assumes "parse_state (msg_in s) = MQTT_PARSE_FIXED_LENGTH" "mult_remain (msg_in s) = 1" "mq_len (msg_in s) = 0" "mq_mem s \<noteq> 0"
  shows "(n < 2 ^ 28 \<longrightarrow> length (encode_remain n) \<le> 4 \<and>
      (\<exists>t. ymo_mqtt_parsed_fixed_len s (encode_remain n @ rest) = Ret (Inr (length (encode_remain n)), t) \<and>
        mq_len (msg_in t) = word_of_nat n \<and> parse_state (msg_in t) = MQTT_PARSE_VARHDR_PAYLOAD)) \<and>
    (2 ^ 28 \<le> length bs \<longrightarrow> ymo_mqtt_session_send ty fs bs s = None)"
proof -
  have e: "(2 :: nat) ^ 28 = 128 ^ 4" by simp
  have "ymo_mqtt_session_send ty fs bs s = None" if "2 ^ 28 \<le> length bs"
    using that encode_length [of 4 "length bs"] unfolding e by (simp add: ymo_mqtt_session_send_def Let_def)
  moreover have "length (encode_remain n) \<le> 4" if "n < 2 ^ 28"
    using that encode_length [of 4 n] unfolding e by simp
  moreover have "\<exists>t. ymo_mqtt_parsed_fixed_len s (encode_remain n @ rest) = Ret (Inr (length (encode_remain n)), t) \<and>
      mq_len (msg_in t) = word_of_nat n \<and> parse_state (msg_in t) = MQTT_PARSE_VARHDR_PAYLOAD" if "n < 2 ^ 28"
    using fixed_len_decodes [of s 0 n rest 0] assms(2-4) that
    by (simp add: ymo_mqtt_parsed_fixed_len_def upd_msg_def Let_def)
  ultimately show ?thesis by blast
qed

theorem mqtt_length_roundtrip_witness:
  "\<exists>t. ymo_mqtt_parsed_fixed_len (mqtt_parse_len_init fresh_mqtt) (encode_remain 321 @ [7]) = Ret (Inr (length (encode_remain 321)), t) \<and>
     mq_len (msg_in t) = 321"
proof -
  let ?s = "mqtt_parse_len_init fresh_mqtt"
  have "parse_state (msg_in ?s) = MQTT_PARSE_FIXED_LENGTH" "mult_remain (msg_in ?s) = 1" "mq_len (msg_in ?s) = 0" "mq_mem ?s \<noteq> 0"
    using fresh_mqtt_facts(2,3,5) by (simp_all add: mqtt_parse_len_init_def upd_msg_def mqtt_ok_def)
  from conjunct1 [OF mqtt_length_roundtrip [OF this, of 321 "[7]" "[]" 0 0]] show ?thesis by auto
qed

text \<open>
  C21: lengths that come from the peer are trusted.  A read that ends inside the remaining length makes the
  parser read past the input; a protocol name of more than 12 bytes is copied over the stack, and a client
  identifier of more than 24 over the session.
\<close>

theorem mqtt_lengths_unchecked:
  assumes "mqtt_ok s" "parse_state (msg_in s) = MQTT_PARSE_FIXED_CTRLPACK" "ctrl_flags_ok (c AND 0xF0) (c AND 0x0F) (mq_state s)"
  shows "(d AND 0x80 \<noteq> 0 \<longrightarrow> ymo_proto_mqtt_read err [c, d] s = Fault) \<and>
    (plain16 n \<and> 12 < n \<longrightarrow> connect_varhdr (be16 n @ rest) s = None) \<and>
    (plain16 n \<and> 24 < n \<and> drop (payload (msg_in s)) b = be16 n @ rest \<longrightarrow> connect_payload b s = None)"
proof (intro conjI impI)
  assume "d AND 0x80 \<noteq> 0"
  let ?s = "mqtt_parse_len_init (upd_msg (\<lambda>m. m\<lparr>mq_type := c AND 0xF0\<rparr>) s)"
  have turn: "mqtt_turn err s (c # cs) = Ret (Inr 1, ?s)" for cs
    using assms(2,3) by (simp add: mqtt_turn_def ymo_mqtt_parse_fixed_ctrlpack_def mqtt_consts)
  have "fixed_len_loop ?s [d] 0 = Fault"
    using \<open>d AND 0x80 \<noteq> 0\<close> by (subst fixed_len_loop.simps, simp add: mqtt_parse_len_init_def upd_msg_def mqtt_consts word_less_nat_alt)
      (subst fixed_len_loop.simps, simp add: mqtt_consts word_less_nat_alt)
  moreover have ps: "parse_state (msg_in ?s) = MQTT_PARSE_FIXED_LENGTH" by (simp add: mqtt_parse_len_init_def upd_msg_def)
  ultimately have "mqtt_turn err ?s [d] = Fault" unfolding mqtt_turn_def ymo_mqtt_parsed_fixed_len_def by simp
  with turn ps show "ymo_proto_mqtt_read err [c, d] s = Fault"
    using assms(2) by (simp add: ymo_proto_mqtt_read_def numeral_eq_Suc)
next
  assume n: "plain16 n \<and> 12 < n"
  have "drop 0 (be16 n @ rest) = be16 n @ rest" by simp
  from consume16 [OF this] n show "connect_varhdr (be16 n @ rest) s = None"
    by (simp add: connect_varhdr_def PARSE_CONSUME_STRVAL_def)
next
  assume n: "plain16 n \<and> 24 < n \<and> drop (payload (msg_in s)) b = be16 n @ rest"
  from consume16 [OF conjunct2 [OF conjunct2 [OF n]] conjunct1 [OF n]] n show "connect_payload b s = None"
    by (simp add: connect_payload_def PARSE_CONSUME_STRVAL_def)
qed

theorem mqtt_lengths_unchecked_witness: "ymo_proto_mqtt_read YMO_OKAY [0x10, 0x80] fresh_mqtt = Fault"
proof -
  have "ctrl_flags_ok (0x10 AND 0xF0) (0x10 AND 0x0F) (mq_state fresh_mqtt)"
    by (simp add: ctrl_flags_ok_def mqtt_consts fresh_mqtt_facts(4))
  from mp [OF conjunct1 [OF mqtt_lengths_unchecked [OF fresh_mqtt_facts(2,5) this, of "0x80"]]] show ?thesis by simp
qed

end
