(* ===== verification/Blalloc.thy ===== *)
theory Blalloc
  imports Prelude
begin

text \<open>
  The bump allocator that serves as a request's workspace (\<^verbatim>\<open>src/core/ymo_blalloc.c\<close>).  A pool is known
  by the addresses of its first free byte, of its end and of its storage; addresses are 64-bit words, so
  that pointer arithmetic wraps as it does on the machine.
\<close>

section \<open>The pool\<close>

record blalloc_pool =
  bl_current :: u64
  bl_end :: u64
  bl_remain :: u64
  bl_val :: u64
  bl_mem :: bytes

text \<open>
  Two macros of \<^verbatim>\<open>ymo_util.h\<close>.  The alignment a caller asks for is not used: the first one ignores its
  argument, and the second clears the bit \<open>sizeof(void*)\<close> instead of the bits below it.
\<close>

definition YMO_TYPE_ALIGN :: "u64 \<Rightarrow> u64" where
  "YMO_TYPE_ALIGN t = 8"

definition YMO_TYPE_CEIL :: "u64 \<Rightarrow> u64 \<Rightarrow> u64" where
  "YMO_TYPE_CEIL s p = (p + YMO_TYPE_ALIGN s) AND NOT (YMO_TYPE_ALIGN s)"

text \<open>The address of the new block's storage is up to the system; \<open>None\<close> when there is no memory.\<close>

definition ymo_blalloc_create :: "u64 option \<Rightarrow> nat \<Rightarrow> blalloc_pool option" where
  "ymo_blalloc_create addr n =
     map_option (\<lambda>v. \<lparr>bl_current = v, bl_end = v + word_of_nat n, bl_remain = word_of_nat n, bl_val = v,
       bl_mem = replicate n 0\<rparr>) addr"

definition ymo_blalloc :: "u64 \<Rightarrow> u64 \<Rightarrow> blalloc_pool \<Rightarrow> u64 option \<times> blalloc_pool" where
  "ymo_blalloc t_align t_size block =
     (let obj_start = YMO_TYPE_CEIL t_align (bl_current block);
          obj_end = obj_start + t_size
      in if obj_end < bl_end block
         then (Some obj_start, block\<lparr>bl_remain := bl_remain block - (obj_end - bl_current block), bl_current := obj_end\<rparr>)
         else (None, block))"

text \<open>Stores into the pool; \<open>None\<close> when they are not all inside it.\<close>

definition bl_write :: "u64 \<Rightarrow> bytes \<Rightarrow> blalloc_pool \<Rightarrow> blalloc_pool option" where
  "bl_write p d block =
     (let k = unat (p - bl_val block) in
      if k + length d \<le> length (bl_mem block)
      then Some (block\<lparr>bl_mem := take k (bl_mem block) @ d @ drop (k + length d) (bl_mem block)\<rparr>) else None)"

text \<open>The bytes at an address of the pool.\<close>

definition bl_read :: "u64 \<Rightarrow> nat \<Rightarrow> blalloc_pool \<Rightarrow> bytes" where
  "bl_read p n block = take n (drop (unat (p - bl_val block)) (bl_mem block))"

definition ymo_blalloc_strdup :: "bytes \<Rightarrow> blalloc_pool \<Rightarrow> (u64 option \<times> blalloc_pool) option" where
  "ymo_blalloc_strdup s block =
     (case ymo_blalloc 1 (word_of_nat (length s) + 1) block of
        (None, block) \<Rightarrow> Some (None, block)
      | (Some buffer, block) \<Rightarrow> map_option (\<lambda>block. (Some buffer, block)) (bl_write buffer (s @ [0]) block))"

definition ymo_blalloc_reset :: "blalloc_pool \<Rightarrow> blalloc_pool" where
  "ymo_blalloc_reset block = block\<lparr>bl_current := bl_val block, bl_remain := bl_end block - bl_val block\<rparr>"

section \<open>Rounding\<close>

text \<open>Rounding up moves an address by nothing or by eight bytes, whatever its alignment.\<close>

lemma and_eight: "(x :: u64) AND 8 = (if bit x 3 then 8 else 0)"
proof (rule bit_word_eqI)
  fix n assume "n < LENGTH(64)"
  have e: "(8 :: u64) = push_bit 3 1" by simp
  show "bit (x AND 8) n = bit (if bit x 3 then 8 else 0 :: u64) n"
    by (cases "n = 3") (auto simp: e bit_and_iff bit_push_bit_iff bit_1_iff simp del: push_bit_of_1)
qed

lemma and_not_minus: "(x :: u64) AND NOT m = x - (x AND m)"
proof -
  have "(x AND NOT m) + (x AND m) = (x AND NOT m) OR (x AND m)"
    by (rule disjunctive_add_eq_or) (rule bit_word_eqI, simp add: bit_simps)
  also have "\<dots> = x" by (rule bit_word_eqI) (auto simp: bit_simps)
  finally show ?thesis by (simp add: eq_diff_eq)
qed

lemma YMO_TYPE_CEIL_cases: "YMO_TYPE_CEIL s p = p \<or> YMO_TYPE_CEIL s p = p + 8"
  unfolding YMO_TYPE_CEIL_def YMO_TYPE_ALIGN_def and_not_minus and_eight by simp

section \<open>The invariant\<close>

text \<open>The storage lies in user space, which ends at \<open>2^47\<close>; a bound of \<open>2^62\<close> is all that is needed.\<close>

definition bl_ok :: "blalloc_pool \<Rightarrow> bool" where
  "bl_ok b \<longleftrightarrow> unat (bl_end b) = unat (bl_val b) + length (bl_mem b) \<and> unat (bl_end b) < 2 ^ 62 \<and>
     unat (bl_val b) \<le> unat (bl_current b) \<and> unat (bl_current b) \<le> unat (bl_end b) \<and>
     unat (bl_remain b) = unat (bl_end b) - unat (bl_current b)"

lemma unat_minus_le: "unat (y :: u64) \<le> unat x \<Longrightarrow> unat (x - y) = unat x - unat y"
  by (simp add: unat_sub word_le_nat_alt)

lemma bl_ok_create:
  assumes "ymo_blalloc_create (Some v) n = Some b" "unat v + n < 2 ^ 62"
  shows "bl_ok b" "bl_val b = v" "bl_current b = v" "length (bl_mem b) = n"
proof -
  have n: "unat (word_of_nat n :: u64) = n" using assms(2) by (simp add: unat_of_nat take_bit_nat_eq_self)
  have "unat (v + word_of_nat n) = unat v + n" using unat_plus_small [of v "word_of_nat n"] assms(2) n by simp
  then show "bl_ok b" "bl_val b = v" "bl_current b = v" "length (bl_mem b) = n"
    using assms n by (auto simp: ymo_blalloc_create_def bl_ok_def)
qed

lemma bl_ok_reset: "bl_ok b \<Longrightarrow> bl_ok (ymo_blalloc_reset b)"
  by (auto simp: bl_ok_def ymo_blalloc_reset_def unat_minus_le)

lemma ceil_range:
  assumes "bl_ok b"
  shows "unat (bl_current b) \<le> unat (YMO_TYPE_CEIL t (bl_current b))"
    "unat (YMO_TYPE_CEIL t (bl_current b)) \<le> unat (bl_current b) + 8"
  using YMO_TYPE_CEIL_cases [of t "bl_current b"] unat_plus_small [of "bl_current b" 8] assms
  by (auto simp: bl_ok_def)

lemma blalloc_SomeD:
  assumes ok: "bl_ok b" and n: "unat n < 2 ^ 62" and r: "ymo_blalloc t n b = (Some p, b')"
  shows "bl_ok b'" "unat (bl_current b) \<le> unat p" "unat (bl_current b') = unat p + unat n"
    "unat p + unat n < unat (bl_end b)" "bl_mem b' = bl_mem b" "bl_val b' = bl_val b" "bl_end b' = bl_end b"
proof -
  let ?p = "YMO_TYPE_CEIL t (bl_current b)"
  note c = ceil_range [OF ok, of t]
  have e: "unat (?p + n) = unat ?p + unat n"
    using c n ok by (intro unat_plus_small) (simp add: bl_ok_def)
  from r have p: "p = ?p" and l: "?p + n < bl_end b"
    and b': "b' = b\<lparr>bl_remain := bl_remain b - (?p + n - bl_current b), bl_current := ?p + n\<rparr>"
    by (auto simp: ymo_blalloc_def Let_def split: if_splits)
  have l': "unat ?p + unat n < unat (bl_end b)" using l e by (simp add: word_less_nat_alt)
  have d: "unat (?p + n - bl_current b) = unat ?p + unat n - unat (bl_current b)"
    using unat_minus_le [of "bl_current b" "?p + n"] c e by simp
  then have "unat (bl_remain b - (?p + n - bl_current b)) = unat (bl_end b) - (unat ?p + unat n)"
    using unat_minus_le [of "?p + n - bl_current b" "bl_remain b"] c l' ok by (simp add: bl_ok_def)
  then show "bl_ok b'" using ok c e l' by (simp add: bl_ok_def b')
  show "unat (bl_current b) \<le> unat p" "unat (bl_current b') = unat p + unat n"
    "unat p + unat n < unat (bl_end b)" "bl_mem b' = bl_mem b" "bl_val b' = bl_val b" "bl_end b' = bl_end b"
    using c e l' by (simp_all add: p b')
qed

lemma blalloc_NoneD:
  assumes ok: "bl_ok b" and n: "unat n < 2 ^ 62" and r: "ymo_blalloc t n b = (None, b')"
  shows "b' = b" "unat (bl_end b) \<le> unat (bl_current b) + 8 + unat n"
proof -
  let ?p = "YMO_TYPE_CEIL t (bl_current b)"
  note c = ceil_range [OF ok, of t]
  have e: "unat (?p + n) = unat ?p + unat n"
    using c n ok by (intro unat_plus_small) (simp add: bl_ok_def)
  from r show "b' = b" by (auto simp: ymo_blalloc_def Let_def split: if_splits)
  from r have "\<not> ?p + n < bl_end b" by (auto simp: ymo_blalloc_def Let_def split: if_splits)
  with c e show "unat (bl_end b) \<le> unat (bl_current b) + 8 + unat n" by (simp add: word_less_nat_alt)
qed

text \<open>A block can be filled, and reads back what was stored.\<close>

lemma bl_write_block:
  assumes ok: "bl_ok b" and n: "unat n < 2 ^ 62" and r: "ymo_blalloc t n b = (Some p, b')" and d: "length d \<le> unat n"
  obtains b'' where "bl_write p d b' = Some b''" "bl_ok b''" "bl_current b'' = bl_current b'"
    "bl_end b'' = bl_end b" "bl_val b'' = bl_val b" "bl_read p (length d) b'' = d"
proof -
  note s = blalloc_SomeD [OF ok n r]
  let ?k = "unat (p - bl_val b')"
  have k: "?k = unat p - unat (bl_val b)"
    using unat_minus_le [of "bl_val b'" p] s ok by (simp add: bl_ok_def)
  have fits: "?k + length d \<le> length (bl_mem b')" using s(2,4,5) k d ok by (simp add: bl_ok_def)
  let ?b = "b'\<lparr>bl_mem := take ?k (bl_mem b') @ d @ drop (?k + length d) (bl_mem b')\<rparr>"
  have "bl_write p d b' = Some ?b" using fits by (simp add: bl_write_def Let_def)
  moreover have "bl_ok ?b" using s(1) fits by (simp add: bl_ok_def)
  moreover have "bl_read p (length d) ?b = d" using fits by (simp add: bl_read_def)
  ultimately show thesis using s by (intro that [of ?b]) simp_all
qed

section \<open>Properties\<close>

text \<open>The blocks, as address and size, that a list of requests for an alignment and a size is granted.\<close>

fun blalloc_all :: "(u64 \<times> u64) list \<Rightarrow> blalloc_pool \<Rightarrow> (nat \<times> nat) list \<times> blalloc_pool" where
  "blalloc_all [] b = ([], b)"
| "blalloc_all ((t, n) # rs) b =
     (case ymo_blalloc t n b of
        (None, b) \<Rightarrow> blalloc_all rs b
      | (Some p, b) \<Rightarrow> (case blalloc_all rs b of (blocks, b) \<Rightarrow> ((unat p, unat n) # blocks, b)))"

lemma blalloc_all_ok:
  "bl_ok b \<Longrightarrow> \<forall>(t, n) \<in> set rs. unat n < 2 ^ 62 \<Longrightarrow> blalloc_all rs b = (blocks, b') \<Longrightarrow>
   bl_ok b' \<and> bl_mem b' = bl_mem b \<and> bl_val b' = bl_val b \<and> bl_end b' = bl_end b \<and>
   unat (bl_current b) \<le> unat (bl_current b') \<and>
   (\<forall>(p, n) \<in> set blocks. unat (bl_current b) \<le> p \<and> p + n \<le> unat (bl_current b') \<and> p + n < unat (bl_end b)) \<and>
   sorted_wrt (\<lambda>(p, n) (q, m). p + n \<le> q) blocks"
proof (induction rs arbitrary: b blocks)
  case (Cons r rs)
  obtain t n where r: "r = (t, n)" by (cases r)
  have n: "unat n < 2 ^ 62" using Cons.prems(2) r by simp
  show ?case
  proof (cases "ymo_blalloc t n b")
    case (Pair o1 b1)
    show ?thesis
    proof (cases o1)
      case None
      with Pair have "b1 = b" using blalloc_NoneD(1) [OF Cons.prems(1) n] by blast
      then show ?thesis using Cons.IH [of b blocks] Cons.prems None Pair r by simp
    next
      case (Some p)
      obtain bs b2 where bs: "blalloc_all rs b1 = (bs, b2)" by (cases "blalloc_all rs b1")
      note s = blalloc_SomeD [OF Cons.prems(1) n Pair [unfolded Some]]
      have e: "blocks = (unat p, unat n) # bs" "b2 = b'" using Cons.prems(3) by (simp_all add: r Pair Some bs)
      have "\<forall>(t, n) \<in> set rs. unat n < 2 ^ 62" using Cons.prems(2) by (simp add: r)
      note IH = Cons.IH [OF s(1) this bs [unfolded e(2)]]
      have "\<forall>(q, m) \<in> set bs. unat p + unat n \<le> q" using IH s(3) by fastforce
      moreover have "\<forall>(q, m) \<in> set bs. unat (bl_current b) \<le> q" using IH s(2,3) by fastforce
      ultimately show ?thesis using IH s by (simp add: e(1) case_prod_beta')
    qed
  qed
qed simp

text \<open>The end of a block is computed modulo \<open>2 ^ 64\<close>.\<close>

lemma blalloc_wraps:
  assumes "bl_ok b" "16 \<le> unat (bl_val b)"
  shows "fst (ymo_blalloc t (- 16) b) \<noteq> None"
proof -
  let ?p = "YMO_TYPE_CEIL t (bl_current b)"
  note c = ceil_range [OF assms(1), of t]
  have "16 \<le> unat ?p" using c assms by (simp add: bl_ok_def)
  then have "unat (?p - 16) = unat ?p - 16" by (simp add: unat_minus_le)
  moreover have "unat ?p \<le> unat (bl_end b) + 8" "16 \<le> unat ?p" using c assms by (auto simp: bl_ok_def)
  ultimately have "unat (?p - 16) < unat (bl_end b)" by linarith
  then have "?p - 16 < bl_end b" by (simp add: word_less_nat_alt)
  then show ?thesis by (simp add: ymo_blalloc_def Let_def)
qed

text \<open>C14: whatever is asked of a workspace, as long as no request is for \<open>2 ^ 62\<close> bytes or more, the blocks it hands
  out lie inside its storage (which lies below the address \<open>2 ^ 62\<close>), one behind the other without overlap; the pool
  stays consistent, still grants every request that leaves more than eight bytes free, and has all of its storage again
  after a reset.  The bound on the sizes is needed, since the end of a block is computed without a check for overflow: in
  every such state, for a pool that does not lie in the first 16 bytes of memory, a request for \<open>2 ^ 64 - 16\<close> bytes is granted.\<close>
theorem blalloc_disjoint:
  assumes "bl_ok b" "\<forall>(t, n) \<in> set rs. unat n < 2 ^ 62" "blalloc_all rs b = (blocks, b')"
  shows "(\<forall>(p, n) \<in> set blocks. unat (bl_val b) \<le> p \<and> p + n < unat (bl_val b) + length (bl_mem b)) \<and>
    sorted_wrt (\<lambda>(p, n) (q, m). p + n \<le> q) blocks \<and> bl_ok b' \<and>
    (unat (bl_current b') + unat n + 8 < unat (bl_end b') \<longrightarrow> fst (ymo_blalloc t n b') \<noteq> None) \<and>
    bl_ok (ymo_blalloc_reset b') \<and> bl_current (ymo_blalloc_reset b') = bl_val b \<and>
    (16 \<le> unat (bl_val b) \<longrightarrow> fst (ymo_blalloc t (- 16) b') \<noteq> None)"
proof (intro conjI)
  note a = blalloc_all_ok [OF assms]
  show "16 \<le> unat (bl_val b) \<longrightarrow> fst (ymo_blalloc t (- 16) b') \<noteq> None"
    using blalloc_wraps [of b' t] a by simp
  show "\<forall>(p, n) \<in> set blocks. unat (bl_val b) \<le> p \<and> p + n < unat (bl_val b) + length (bl_mem b)"
    using a assms(1) by (fastforce simp: bl_ok_def)
  show "sorted_wrt (\<lambda>(p, n) (q, m). p + n \<le> q) blocks" and ok: "bl_ok b'" using a by simp_all
  show "bl_ok (ymo_blalloc_reset b')" using ok by (rule bl_ok_reset)
  show "bl_current (ymo_blalloc_reset b') = bl_val b" using a by (simp add: ymo_blalloc_reset_def)
  show "unat (bl_current b') + unat n + 8 < unat (bl_end b') \<longrightarrow> fst (ymo_blalloc t n b') \<noteq> None"
  proof (intro impI notI)
    assume l: "unat (bl_current b') + unat n + 8 < unat (bl_end b')" and "fst (ymo_blalloc t n b') = None"
    then obtain b'' where r: "ymo_blalloc t n b' = (None, b'')" by (cases "ymo_blalloc t n b'") simp
    have "unat n < 2 ^ 62" using l ok by (simp add: bl_ok_def)
    from blalloc_NoneD(2) [OF ok this r] l show False by simp
  qed
qed

definition pool64 :: blalloc_pool where
  "pool64 = the (ymo_blalloc_create (Some 0x1000) 64)"

lemma pool64_ok: "bl_ok pool64"
  by (rule bl_ok_create(1) [of "0x1000" 64]) (simp_all add: pool64_def ymo_blalloc_create_def)

theorem blalloc_disjoint_witness:
  "fst (blalloc_all [(1, 10), (8, 4), (1, 64)] pool64) = [(0x1000, 10), (0x1012, 4)] \<and>
   0x1012 + 4 < unat (bl_val pool64) + length (bl_mem pool64)"
proof -
  have "blalloc_all [(1, 10), (8, 4), (1, 64)] pool64 =
      ([(0x1000, 10), (0x1012, 4)], pool64\<lparr>bl_current := 0x1016, bl_remain := 42\<rparr>)"
    by (simp add: pool64_def ymo_blalloc_create_def ymo_blalloc_def YMO_TYPE_CEIL_def YMO_TYPE_ALIGN_def Let_def)
  with blalloc_disjoint [OF pool64_ok _ this] show ?thesis by simp
qed

end
