(* ===== verification/Ws_Upgrade.thy ===== *)
theory Ws_Upgrade
  imports Blalloc Http_Queue
begin

text \<open>
  The switch from HTTP to WebSockets: the upgrade handler of \<^verbatim>\<open>src/protocol/ws/ymo_proto_ws.c\<close>, which the
  HTTP protocol asks about every request with an \<^verbatim>\<open>Upgrade\<close> header.  SHA-1 is the function \<open>sha\<close> the build
  takes from OpenSSL or libbsat.
\<close>

section \<open>The handler\<close>

definition WS_GUID :: bytes where
  "WS_GUID = str ''258EAFA5-E914-47DA-95CA-C5AB0DC85B11''"

definition YMO_HTTP_UPGRADE_REQUIRED :: u16 where "YMO_HTTP_UPGRADE_REQUIRED = 426"
definition YMO_HTTP_REQ_WS_SIZE :: nat where "YMO_HTTP_REQ_WS_SIZE = 1024"

text \<open>All the tokens that \<^verbatim>\<open>strtok_r\<close> finds in a string, one call after the other.\<close>

definition token_sep :: bytes where
  "token_sep = str '' ,'' @ [10, 9]"

fun splits :: "bytes \<Rightarrow> bytes list" where
  "splits [] = [[]]"
| "splits (c # s) =
     (if c \<in> set token_sep then [] # splits s else (c # hd (splits s)) # tl (splits s))"

definition strtok_all :: "bytes \<Rightarrow> bytes list" where
  "strtok_all s = filter (\<lambda>t. t \<noteq> []) (splits s)"

text \<open>
  The copy that is cut into tokens takes part of the workspace for good.  The handler's functions return
  the workspace with their result.
\<close>

definition check_connection_hdr :: "blalloc_pool \<Rightarrow> bytes option \<Rightarrow> (ymo_status \<times> blalloc_pool) run" where
  "check_connection_hdr w conn_hdr =
     (case conn_hdr of
        None \<Rightarrow> Ret (EBADMSG, w)
      | Some h \<Rightarrow>
          (case ymo_blalloc 1 (word_of_nat (length h) + 1) w of
             (None, w) \<Rightarrow> Ret (ENOMEM, w)
           | (Some conn_str, w) \<Rightarrow>
               (case bl_write conn_str (h @ [0]) w of
                  None \<Rightarrow> Fault
                | Some w \<Rightarrow>
                    Ret (if list_ex (\<lambda>hdr_val. strcaseeq hdr_val (str ''upgrade'')) (strtok_all h) then YMO_OKAY else EBADMSG,
                      w))))"

text \<open>
  The answer: the digest of key and GUID needs memory that is not checked, and the accept value is put
  into the workspace, from where the response's header points to it.
\<close>

definition set_101_headers :: "bytes \<Rightarrow> response \<Rightarrow> response \<times> conn_act list" where
  "set_101_headers accept_hdr r =
     ymo_http_response_finish
       (ymo_http_response_set_flags YMO_HTTP_FLAG_REQUEST_KEEPALIVE
         (ymo_http_response_insert_header (str ''Sec-WebSocket-Accept'') accept_hdr
           (ymo_http_response_insert_header (str ''Connection'') (str ''upgrade'')
             (ymo_http_response_insert_header (str ''Upgrade'') (str ''websocket'')
               (ymo_http_response_insert_header (str ''Server'') (str ''ymo_test_server'') r)))))"

definition issue_http_101 ::
  "(bytes \<Rightarrow> bytes) \<Rightarrow> blalloc_pool \<Rightarrow> nat \<Rightarrow> bytes \<Rightarrow> 'u http_session \<Rightarrow>
   ((ymo_status \<times> blalloc_pool) \<times> 'u http_session) run" where
  "issue_http_101 sha w a key s =
     (if hs_mem s = 0 then Fault
      else
        let s = s\<lparr>hs_mem := hs_mem s - 1\<rparr>; hashed_hdr = sha (key @ WS_GUID) in
        case ymo_blalloc 1 (word_of_nat (YMO_BASE64_LEN 20)) w of
          (None, w) \<Rightarrow> Ret ((ENOMEM, w), s)
        | (Some accept_hdr, w) \<Rightarrow>
            (case bl_write accept_hdr (ymo_base64_encode hashed_hdr) w of
               None \<Rightarrow> Fault
             | Some w \<Rightarrow>
                 run_bind (get_rsp a s) (\<lambda>obj.
                   case ymo_http_response_set_status 101 (rsp obj) of
                     None \<Rightarrow> Fault
                   | Some r \<Rightarrow>
                       (case set_101_headers (takeWhile (\<lambda>c. c \<noteq> 0) (bl_read accept_hdr (YMO_BASE64_LEN 20) w)) r of
                          (r, todo) \<Rightarrow> Ret ((YMO_OKAY, w), http_act todo (put_rsp a (obj\<lparr>rsp := r\<rparr>) s))))))"

definition request_header :: "http_exchange \<Rightarrow> string \<Rightarrow> bytes option run" where
  "request_header x name =
     (case ymo_http_hdr_table_get (headers (xg x)) (str name) of None \<Rightarrow> Fault | Some v \<Rightarrow> Ret v)"

text \<open>
  The conditions of RFC 6455, section 4.2.1, in the order in which they are tried.  The version is
  compared without a test whether the header is there.  The origin and the subprotocols, which are only
  logged, are left out.
\<close>

definition bad_upgrade_request :: "blalloc_pool \<Rightarrow> http_exchange \<Rightarrow> (bool \<times> blalloc_pool) run" where
  "bad_upgrade_request w x =
     run_bind (request_header x ''host'') (\<lambda>host.
     run_bind (request_header x ''connection'') (\<lambda>connection.
     run_bind (request_header x ''sec-websocket-key'') (\<lambda>sec_ws_key.
     run_bind (request_header x ''sec-websocket-version'') (\<lambda>sec_ws_version.
       if \<not> strcaseeq (str_at (xg x) 0) (str ''get'') \<or> host = None then Ret (True, w)
       else run_bind (check_connection_hdr w connection) (\<lambda>(st, w).
         if st \<noteq> YMO_OKAY \<or> sec_ws_key = None then Ret (True, w)
         else case sec_ws_version of
                None \<Rightarrow> Fault
              | Some v \<Rightarrow> Ret (v \<noteq> str ''13'', w))))))"

definition ymo_ws_upgrade_cb ::
  "(bytes \<Rightarrow> bytes) \<Rightarrow> blalloc_pool \<Rightarrow> bytes option \<Rightarrow> http_exchange \<Rightarrow> nat \<Rightarrow> 'u http_session \<Rightarrow>
   (((upgrade_status \<times> ymo_status) \<times> blalloc_pool) \<times> 'u http_session) run" where
  "ymo_ws_upgrade_cb sha w hdr_upgrade x a s =
     (case hdr_upgrade of
        None \<Rightarrow> Fault
      | Some h \<Rightarrow>
          if \<not> strcaseeq h (str ''websocket'') then Ret (((YMO_HTTP_UPGRADE_NOPROTO, YMO_OKAY), w), s)
          else run_bind (bad_upgrade_request w x) (\<lambda>(bad, w).
            if bad then run_bind (rsp_issue a YMO_HTTP_UPGRADE_REQUIRED s) (\<lambda>s.
              Ret (((YMO_HTTP_UPGRADE_ERROR, EPROTONOSUPPORT), w), s))
            else run_bind (request_header x ''sec-websocket-key'') (\<lambda>key.
              case key of
                None \<Rightarrow> Fault
              | Some key \<Rightarrow>
                  run_bind (issue_http_101 sha w a key s) (\<lambda>((resp_status, w), s).
                    Ret (if resp_status \<noteq> YMO_OKAY then ((YMO_HTTP_UPGRADE_ERROR, resp_status), w)
                         else ((YMO_HTTP_UPGRADE_HANDLED, YMO_OKAY), w), s)))))"

text \<open>
  The handler that is registered with the HTTP protocol.  It finds the workspace \<open>w\<close> that the reset of the
  exchange has emptied; what it leaves there is given up with the next reset.
\<close>

definition ymo_ws_http_upgrade_handler ::
  "(bytes \<Rightarrow> bytes) \<Rightarrow> blalloc_pool \<Rightarrow> bool \<Rightarrow> nat \<Rightarrow> ('u upgrade_cb \<times> nat) option" where
  "ymo_ws_http_upgrade_handler sha w ok proto =
     (if ok then Some (\<lambda>v x a s. run_bind (ymo_ws_upgrade_cb sha w v x a s) (\<lambda>((res, _), s). Ret (res, s)), proto)
      else None)"

section \<open>Tokens\<close>

lemma splits_not_Nil [simp]: "splits s \<noteq> []"
  by (cases s) simp_all

lemma splits_append_sep: "c \<in> set token_sep \<Longrightarrow> splits (xs @ c # ys) = splits xs @ splits ys"
  by (induction xs) simp_all

lemma splits_token: "set t \<inter> set token_sep = {} \<Longrightarrow> splits t = [t]"
  by (induction t) simp_all

lemma token_in_strtok_all:
  assumes "xs = [] \<or> last xs \<in> set token_sep" "ys = [] \<or> hd ys \<in> set token_sep"
    and "t \<noteq> []" "set t \<inter> set token_sep = {}"
  shows "t \<in> set (strtok_all (xs @ t @ ys))"
proof -
  have r: "t \<in> set (splits (t @ ys))"
    using assms(2) splits_append_sep [of "hd ys" t "tl ys"] splits_token [OF assms(4)] by (cases ys) auto
  have "t \<in> set (splits (xs @ t @ ys))"
  proof (cases xs rule: rev_cases)
    case (snoc xs' c)
    then have "splits (xs @ t @ ys) = splits xs' @ splits (t @ ys)"
      using splits_append_sep [of c xs' "t @ ys"] assms(1) by simp
    then show ?thesis using r by simp
  qed (use r in simp)
  then show ?thesis using assms(3) by (simp add: strtok_all_def)
qed

section \<open>The answer\<close>

text \<open>What a table holds after a list of insertions into an empty one.\<close>

definition name_hash :: "string \<Rightarrow> u16" where
  "name_hash n = fst (ymo_http_hdr_hash_283_5 (str n))"

definition insert_all :: "(string \<times> bytes) list \<Rightarrow> hdr_table \<Rightarrow> hdr_table" where
  "insert_all kvs = fold (\<lambda>(n, v) t. snd (ymo_http_hdr_table_insert t (str n) v)) kvs"

lemma insert_all_get:
  assumes "table_ok t" "no_buffers t" "length kvs \<le> pool t + mem t"
    and "map_of (rev (map (\<lambda>(n, v). (name_hash n, v)) kvs)) h = Some v"
  shows "ymo_http_hdr_table_get_id (insert_all kvs t) h = Some (Some v)"
proof -
  let ?kws = "map (\<lambda>(n, v). (name_hash n, str n, v)) kvs"
  have e: "insert_all kvs t = fold (\<lambda>(h, w). insert_named h w) ?kws t"
    by (simp add: insert_all_def fold_map comp_def case_prod_beta' insert_named_def [abs_def]
        ymo_http_hdr_table_insert_def name_hash_def)
  have "map_option snd (map_of (map (\<lambda>(n, v). (name_hash n, str n, v)) xs) h) = map_of (map (\<lambda>(n, v). (name_hash n, v)) xs) h"
    for xs :: "(string \<times> bytes) list"
    by (induction xs) auto
  from this [of "rev kvs"] assms(4) have m: "map_option snd (map_of (rev ?kws) h) = Some v" by (simp add: rev_map)
  have "length ?kws \<le> pool t + mem t" using assms(3) by simp
  from hs.get_fold_put [OF conjI [OF assms(1,2)] this, of h] m show ?thesis
    by (auto simp: e get_id_ok split: option.splits)
qed

text \<open>Four insertions into the response's headers.\<close>

definition accept_headers :: "bytes \<Rightarrow> (string \<times> bytes) list" where
  "accept_headers v =
     [(''Server'', str ''ymo_test_server''), (''Upgrade'', str ''websocket''), (''Connection'', str ''upgrade''),
      (''Sec-WebSocket-Accept'', v)]"

lemma set_101_headers_eq:
  "set_101_headers v r =
     (r\<lparr>r_headers := insert_all (accept_headers v) (r_headers r),
        r_flags := YMO_HTTP_FLAG_REQUEST_KEEPALIVE OR (YMO_HTTP_RESPONSE_READY OR YMO_HTTP_RESPONSE_COMPLETE)\<rparr>,
      [Tx_enable True])"
  by (simp add: set_101_headers_def accept_headers_def insert_all_def
      ymo_http_response_insert_header_def ymo_http_response_set_flags_def ymo_http_response_finish_def
      ymo_http_response_set_flag_def)

lemma name_hashes:
  "map name_hash [''Server'', ''Upgrade'', ''Connection'', ''Sec-WebSocket-Accept''] = [30792, 17987, 31919, 6435]"
  "map name_hash [''Host'', ''Sec-WebSocket-Key'', ''Sec-WebSocket-Version''] = [26265, 1788, 16357]"
  "map name_hash [''host'', ''connection'', ''sec-websocket-key'', ''sec-websocket-version''] = [26265, 31919, 1788, 16357]"
  by code_simp+

lemma accept_headers_get:
  assumes "table_ok t" "no_buffers t" "4 \<le> pool t + mem t"
  shows "ymo_http_hdr_table_get (insert_all (accept_headers v) t) (str ''Upgrade'') = Some (Some (str ''websocket''))"
    "ymo_http_hdr_table_get (insert_all (accept_headers v) t) (str ''Connection'') = Some (Some (str ''upgrade''))"
    "ymo_http_hdr_table_get (insert_all (accept_headers v) t) (str ''Sec-WebSocket-Accept'') = Some (Some v)"
proof -
  have "length (accept_headers v) \<le> pool t + mem t" using assms(3) by (simp add: accept_headers_def)
  note g = insert_all_get [OF assms(1,2) this]
  show "ymo_http_hdr_table_get (insert_all (accept_headers v) t) (str ''Upgrade'') = Some (Some (str ''websocket''))"
    "ymo_http_hdr_table_get (insert_all (accept_headers v) t) (str ''Connection'') = Some (Some (str ''upgrade''))"
    "ymo_http_hdr_table_get (insert_all (accept_headers v) t) (str ''Sec-WebSocket-Accept'') = Some (Some v)"
    by (simp_all add: ymo_http_hdr_table_get_def name_hash_def [symmetric])
      (rule g, use name_hashes in \<open>simp add: accept_headers_def\<close>)+
qed

lemma request_headerI:
  "ymo_http_hdr_table_get (headers (xg x)) (str name) = Some v \<Longrightarrow> request_header x name = Ret v"
  by (simp add: request_header_def)

lemma check_connection_ok:
  assumes w: "bl_ok w" and room: "unat (bl_current w) + length c + 9 < unat (bl_end w)"
    and tok: "t \<in> set (strtok_all c)" "strcaseeq t (str ''upgrade'')"
  obtains w' where "check_connection_hdr w (Some c) = Ret (YMO_OKAY, w')" "bl_ok w'"
    "unat (bl_current w') \<le> unat (bl_current w) + length c + 9" "bl_end w' = bl_end w"
proof -
  let ?n = "word_of_nat (length c) + 1 :: u64"
  have "length c + 1 < 2 ^ 62" using room w by (simp add: bl_ok_def)
  then have n: "unat ?n = length c + 1"
    using unat_plus_small [of "word_of_nat (length c)" 1] by (simp add: unat_of_nat take_bit_nat_eq_self)
  then have n': "unat ?n < 2 ^ 62" using \<open>length c + 1 < 2 ^ 62\<close> by simp
  obtain p w1 where r: "ymo_blalloc 1 ?n w = (Some p, w1)"
  proof (cases "ymo_blalloc 1 ?n w")
    case (Pair o1 w1)
    then show thesis using that blalloc_NoneD(2) [OF w n', of 1 w1] room n by (cases o1) auto
  qed
  have "length (c @ [0]) \<le> unat ?n" using n by simp
  from bl_write_block [OF w n' r this] obtain w2 where
    w2: "bl_write p (c @ [0]) w1 = Some w2" "bl_ok w2" "bl_current w2 = bl_current w1" "bl_end w2 = bl_end w" by metis
  have "p = YMO_TYPE_CEIL 1 (bl_current w)" using r by (simp add: ymo_blalloc_def Let_def split: if_splits)
  then have "unat p \<le> unat (bl_current w) + 8" using ceil_range(2) [OF w] by simp
  then have "unat (bl_current w2) \<le> unat (bl_current w) + length c + 9"
    using blalloc_SomeD(3) [OF w n' r] n w2(3) by simp
  moreover have "list_ex (\<lambda>v. strcaseeq v (str ''upgrade'')) (strtok_all c)" using tok by (auto simp: list_ex_iff)
  ultimately show thesis using that w2 r by (simp add: check_connection_hdr_def)
qed

lemma issue_101_ok:
  assumes w: "bl_ok w" and room: "unat (bl_current w) + 37 < unat (bl_end w)" and m: "hs_mem s \<noteq> 0"
    and obj: "hs_heap s a = Some obj" and dg: "length (sha (key @ WS_GUID)) = 20"
  obtains w' r where
    "issue_http_101 sha w a key s = Ret ((YMO_OKAY, w'),
       http_act [Tx_enable True] (put_rsp a (obj\<lparr>rsp := fst (set_101_headers (base64_groups (sha (key @ WS_GUID))) r)\<rparr>)
         (s\<lparr>hs_mem := hs_mem s - 1\<rparr>)))"
    "ymo_http_response_set_status 101 (rsp obj) = Some r"
proof -
  let ?n = "word_of_nat (YMO_BASE64_LEN 20) :: u64" and ?h = "sha (key @ WS_GUID)"
  have n: "unat ?n = 29" by (simp add: YMO_BASE64_LEN_def)
  then have n': "unat ?n < 2 ^ 62" by simp
  obtain p w1 where r: "ymo_blalloc 1 ?n w = (Some p, w1)"
  proof (cases "ymo_blalloc 1 ?n w")
    case (Pair o1 w1)
    then show thesis using that blalloc_NoneD(2) [OF w n', of 1 w1] room n by (cases o1) auto
  qed
  have l: "length (ymo_base64_encode ?h) = 29" using dg by (simp add: ymo_base64_encode_def length_base64_groups)
  then have "length (ymo_base64_encode ?h) \<le> unat ?n" using n by simp
  from bl_write_block [OF w n' r this] obtain w2 where
    w2: "bl_write p (ymo_base64_encode ?h) w1 = Some w2" "bl_read p 29 w2 = ymo_base64_encode ?h"
    using l by metis
  have "takeWhile (\<lambda>c. c \<noteq> 0) (bl_read p (YMO_BASE64_LEN 20) w2) = base64_groups ?h"
    using w2(2) base64_groups_nonzero [of ?h]
    by (simp add: YMO_BASE64_LEN_def ymo_base64_encode_def takeWhile_append takeWhile_eq_all_conv)
  moreover obtain r1 where r1: "ymo_http_response_set_status 101 (rsp obj) = Some r1"
    by (simp add: ymo_http_response_set_status_def status_text_def get_http_reason_def http_reasons_def)
  ultimately have "issue_http_101 sha w a key s = Ret ((YMO_OKAY, w2),
       http_act [Tx_enable True] (put_rsp a (obj\<lparr>rsp := fst (set_101_headers (base64_groups ?h) r1)\<rparr>)
         (s\<lparr>hs_mem := hs_mem s - 1\<rparr>)))"
    using m obj r w2(1) by (simp add: issue_http_101_def Let_def get_rsp_def set_101_headers_eq)
  with r1 that show thesis by blast
qed

text \<open>A request that asks for a WebSocket the way RFC 6455 has it.\<close>

definition handshake :: "http_exchange \<Rightarrow> bytes \<Rightarrow> bytes \<Rightarrow> bool" where
  "handshake x conn key \<longleftrightarrow>
     strcaseeq (str_at (xg x) 0) (str ''get'') \<and>
     (\<exists>host. ymo_http_hdr_table_get (headers (xg x)) (str ''host'') = Some (Some host)) \<and>
     ymo_http_hdr_table_get (headers (xg x)) (str ''connection'') = Some (Some conn) \<and>
     ymo_http_hdr_table_get (headers (xg x)) (str ''sec-websocket-key'') = Some (Some key) \<and>
     ymo_http_hdr_table_get (headers (xg x)) (str ''sec-websocket-version'') = Some (Some (str ''13''))"

lemma upgrade_cb_handshake:
  assumes x: "handshake x conn key" and up: "strcaseeq up (str ''websocket'')"
    and w: "bl_ok w" "unat (bl_current w) + length conn + 46 < unat (bl_end w)"
    and tok: "t \<in> set (strtok_all conn)" "strcaseeq t (str ''upgrade'')"
    and s: "hs_mem s \<noteq> 0" "hs_heap s a = Some obj" "length (sha (key @ WS_GUID)) = 20"
  obtains w' r where
    "ymo_ws_upgrade_cb sha w (Some up) x a s = Ret (((YMO_HTTP_UPGRADE_HANDLED, YMO_OKAY), w'),
       http_act [Tx_enable True] (put_rsp a (obj\<lparr>rsp := fst (set_101_headers (base64_groups (sha (key @ WS_GUID))) r)\<rparr>)
         (s\<lparr>hs_mem := hs_mem s - 1\<rparr>)))"
    "ymo_http_response_set_status 101 (rsp obj) = Some r"
proof -
  from w(2) have "unat (bl_current w) + length conn + 9 < unat (bl_end w)" by simp
  from check_connection_ok [OF w(1) this tok] obtain w1 where
    w1: "check_connection_hdr w (Some conn) = Ret (YMO_OKAY, w1)" "bl_ok w1"
      "unat (bl_current w1) \<le> unat (bl_current w) + length conn + 9" "bl_end w1 = bl_end w" by blast
  have room: "unat (bl_current w1) + 37 < unat (bl_end w1)" using w(2) w1(3,4) by simp
  have b: "bad_upgrade_request w x = Ret (False, w1)"
    using x w1(1) by (auto simp: handshake_def bad_upgrade_request_def dest!: request_headerI)
  have k: "request_header x ''sec-websocket-key'' = Ret (Some key)"
    using x by (auto simp: handshake_def intro: request_headerI)
  from issue_101_ok [where sha = sha and key = key, OF w1(2) room s] obtain w2 r where
    "issue_http_101 sha w1 a key s = Ret ((YMO_OKAY, w2),
       http_act [Tx_enable True] (put_rsp a (obj\<lparr>rsp := fst (set_101_headers (base64_groups (sha (key @ WS_GUID))) r)\<rparr>)
         (s\<lparr>hs_mem := hs_mem s - 1\<rparr>)))"
    "ymo_http_response_set_status 101 (rsp obj) = Some r" by blast
  with b k up that show thesis by (simp add: ymo_ws_upgrade_cb_def)
qed

text \<open>A handler that declines leaves the decision to the next one.\<close>

lemma declined_upgrade:
  assumes "\<forall>g \<in> set pre. \<exists>err. \<forall>s. fst g v x a s = Ret ((YMO_HTTP_UPGRADE_NOPROTO, err), s)"
  shows "ymo_http_check_upgrade (pre @ hs) v x a s = ymo_http_check_upgrade hs v x a s"
  using assms
proof (induction pre)
  case (Cons g pre)
  obtain cb p where g: "g = (cb, p)" by (cases g)
  obtain err where "cb v x a s = Ret ((YMO_HTTP_UPGRADE_NOPROTO, err), s)" using Cons.prems g by auto
  then show ?case using Cons g by simp
qed simp

section \<open>Properties\<close>

text \<open>C12: a WebSocket handshake that is well formed (a GET with a host, a key, version 13 and a token "upgrade" in its
  connection header, upgrading to "websocket") is answered by the HTTP protocol with 101 and the accept value
  of RFC 6455, the Base64 text of the digest of key and GUID; the response is finished and queued behind the responses
  that are due, the connection is told to write, and the protocol to go over to is set.  Given are: the handler is
  registered and those before it decline; the exchange has its response, with a well-formed table without
  appended values and room for four headers; the workspace has room for the connection header and 46 bytes more; the digest's
  memory is allocated, and a digest is 20 bytes.\<close>
theorem ws_handshake_answered:
  assumes x: "x_response x = Some a" "handshake x conn key"
      "token \<in> set (strtok_all conn)" "strcaseeq token (str ''upgrade'')"
    and up: "has_flag YMO_HTTP_FLAG_UPGRADE (flags (xg x))" "strcaseeq up (str ''websocket'')"
      "ymo_http_hdr_table_get_id (headers (xg x)) 17987 = Some (Some up)"
    and w: "bl_ok w" "unat (bl_current w) + length conn + 46 < unat (bl_end w)"
    and s: "hs_mem s \<noteq> 0" "hs_heap s a = Some obj" "queue_ok s as" "a \<notin> set as" "rsp_next obj = None"
    and t: "table_ok (r_headers (rsp obj))" "no_buffers (r_headers (rsp obj))"
      "4 \<le> pool (r_headers (rsp obj)) + mem (r_headers (rsp obj))"
    and dg: "length (sha (key @ WS_GUID)) = 20"
    and d: "ymo_ws_http_upgrade_handler sha w True proto = Some h" "upgrade_handler d = pre @ h # rest"
      "\<forall>g \<in> set pre. \<exists>err. \<forall>s. fst g (Some up) x a s = Ret ((YMO_HTTP_UPGRADE_NOPROTO, err), s)"
  shows "\<exists>s' obj'. ymo_http_handler d x s = Ret (YMO_OKAY, s') \<and> queue_ok s' (as @ [a]) \<and>
    hs_heap s' a = Some obj' \<and> proto_new (rsp obj') = Some proto \<and> r_status (rsp obj') = 101 \<and>
    ymo_http_response_get_header (rsp obj') (str ''Upgrade'') = Some (Some (str ''websocket'')) \<and>
    ymo_http_response_get_header (rsp obj') (str ''Connection'') = Some (Some (str ''upgrade'')) \<and>
    ymo_http_response_get_header (rsp obj') (str ''Sec-WebSocket-Accept'') =
      Some (Some (base64_groups (sha (key @ str ''258EAFA5-E914-47DA-95CA-C5AB0DC85B11'')))) \<and>
    ymo_http_response_is_ready (rsp obj') \<and> ymo_http_response_finished (rsp obj') \<and>
    hs_acts s' = hs_acts s @ [Tx_enable True]"
proof -
  from upgrade_cb_handshake [where sha = sha and key = key, OF x(2) up(2) w x(3,4) s(1,2) dg] obtain w' r where
    cb: "ymo_ws_upgrade_cb sha w (Some up) x a s = Ret (((YMO_HTTP_UPGRADE_HANDLED, YMO_OKAY), w'),
       http_act [Tx_enable True] (put_rsp a (obj\<lparr>rsp := fst (set_101_headers (base64_groups (sha (key @ WS_GUID))) r)\<rparr>)
         (s\<lparr>hs_mem := hs_mem s - 1\<rparr>)))"
    and r: "ymo_http_response_set_status 101 (rsp obj) = Some r" by blast
  have h: "r_headers r = r_headers (rsp obj)" "r_status r = 101"
    using r by (auto simp: ymo_http_response_set_status_def)
  let ?r = "(fst (set_101_headers (base64_groups (sha (key @ WS_GUID))) r))\<lparr>proto_new := Some proto\<rparr>"
  let ?s = "put_rsp a (obj\<lparr>rsp := ?r\<rparr>) (http_act [Tx_enable True] (put_rsp a (obj\<lparr>rsp := ?r\<lparr>proto_new := proto_new r\<rparr>\<rparr>)
         (s\<lparr>hs_mem := hs_mem s - 1\<rparr>)))"
  define s1 where "s1 = http_act [] ?s"
  have up': "try_upgrade d x a s = Ret (Inl YMO_OKAY, s1)"
    using cb d up by (auto simp: s1_def try_upgrade_def declined_upgrade ymo_ws_http_upgrade_handler_def on_rsp_def get_rsp_def
        put_rsp_def http_act_def set_101_headers_eq)
  have q: "queue_ok s1 as" "hs_heap s1 a = Some (obj\<lparr>rsp := ?r\<rparr>)"
    using s(2-4) by (auto simp: s1_def queue_ok_def http_act_def put_rsp_def queue_at_other)
  obtain s2 where s2: "ymo_http_session_add_response a s1 = Ret s2" "queue_ok s2 (as @ [a])"
      "\<forall>b. map_option rsp (hs_heap s2 b) = map_option rsp (hs_heap s1 b)"
      "s2 = s1\<lparr>hs_response := hs_response s2, hs_heap := hs_heap s2\<rparr>"
    using add_response_ok [OF q(1) s(4) q(2)] s(5) by auto
  obtain obj2 where obj2: "hs_heap s2 a = Some obj2" "rsp obj2 = ?r"
    using s2(3) [THEN spec, of a] q(2) by auto
  have "has_flag YMO_HTTP_FLAG_REQUEST_KEEPALIVE (r_flags ?r)"
    by (simp add: set_101_headers_eq has_flag_def http_flag_defs response_flag_defs)
  then have "ymo_http_handler d x s = Ret (YMO_OKAY, set_exchange (Some (http_exchange_reset x)) s2)"
    using x(1) up' s2(1) obj2 by (simp add: ymo_http_handler_def handle_callback_result_def get_rsp_def)
  moreover have "hs_acts s2 = hs_acts s @ [Tx_enable True]"
    by (subst s2(4)) (simp add: s1_def http_act_def put_rsp_def)
  moreover have "queue_ok (set_exchange (Some (http_exchange_reset x)) s2) (as @ [a])"
    using s2(2) by (simp add: queue_ok_def set_exchange_def)
  moreover note accept_headers_get [OF t, of "base64_groups (sha (key @ WS_GUID))"]
  ultimately show ?thesis
    using obj2
    by (intro exI [of _ "set_exchange (Some (http_exchange_reset x)) s2"] exI [of _ obj2])
      (simp add: set_exchange_def set_101_headers_eq h ymo_http_response_get_header_def
        ymo_http_response_is_ready_def ymo_http_response_finished_def has_flag_def http_flag_defs response_flag_defs
        WS_GUID_def [symmetric])
qed

definition upgrade_headers :: "(string \<times> bytes) list" where
  "upgrade_headers =
     [(''Host'', str ''example''), (''Upgrade'', str ''websocket''), (''Connection'', str ''keep-alive, Upgrade''),
      (''Sec-WebSocket-Key'', str ''dGhlIHNhbXBsZSBub25jZQ==''), (''Sec-WebSocket-Version'', str ''13'')]"

definition upgrade_exchange :: http_exchange where
  "upgrade_exchange =
     \<lparr>xg = (the (ymo_http_exchange_create 4 True))
        \<lparr>flags := YMO_HTTP_FLAG_UPGRADE,
         headers := insert_all upgrade_headers (ymo_http_hdr_table_init (ymo_http_hdr_table_create 4)),
         recv_buf := str ''GET'' @ [0]\<rparr>,
      x_response = Some 0, rq_body = None, body_received = 0\<rparr>"

definition upgrade_session :: "unit http_session" where
  "upgrade_session =
     \<lparr>hs_state = YMO_HTTP_SESSION_OPEN, hs_exchange = Some upgrade_exchange, hs_response = None, send_buffer = [],
      user_data = (), hs_heap = [0 \<mapsto> \<lparr>rsp = ymo_http_response_create 4, rsp_next = None, rsp_exchange = None\<rparr>],
      hs_next = 1, hs_mem = 1, hs_acts = [], hs_net = [], hs_wire = []\<rparr>"

definition upgrade_pool :: blalloc_pool where
  "upgrade_pool = the (ymo_blalloc_create (Some 0x1000) YMO_HTTP_REQ_WS_SIZE)"

lemma upgrade_pool_ok:
  "bl_ok upgrade_pool" "unat (bl_current upgrade_pool) + 19 + 46 < unat (bl_end upgrade_pool)"
  using bl_ok_create [of "0x1000" YMO_HTTP_REQ_WS_SIZE upgrade_pool]
  by (simp_all add: upgrade_pool_def ymo_blalloc_create_def YMO_HTTP_REQ_WS_SIZE_def)

lemma upgrade_exchange_ok:
  "handshake upgrade_exchange (str ''keep-alive, Upgrade'') (str ''dGhlIHNhbXBsZSBub25jZQ=='')"
  "has_flag YMO_HTTP_FLAG_UPGRADE (flags (xg upgrade_exchange))"
  "ymo_http_hdr_table_get_id (headers (xg upgrade_exchange)) 17987 = Some (Some (str ''websocket''))"
  "x_response upgrade_exchange = Some 0"
proof -
  let ?t = "ymo_http_hdr_table_init (ymo_http_hdr_table_create 4)"
  have t: "headers (xg upgrade_exchange) = insert_all upgrade_headers ?t" by (simp add: upgrade_exchange_def)
  have "no_buffers ?t" "length upgrade_headers \<le> pool ?t + mem ?t"
    by (simp_all add: no_buffers_def ymo_http_hdr_table_init_def ymo_http_hdr_table_create_def
        YMO_HDR_TABLE_POOL_SIZE_def upgrade_headers_def)
  note g = insert_all_get [OF table_ok_create this]
  have h: "ymo_http_hdr_table_get (headers (xg upgrade_exchange)) (str ''host'') = Some (Some (str ''example''))"
    "ymo_http_hdr_table_get (headers (xg upgrade_exchange)) (str ''connection'') = Some (Some (str ''keep-alive, Upgrade''))"
    "ymo_http_hdr_table_get (headers (xg upgrade_exchange)) (str ''sec-websocket-key'') =
       Some (Some (str ''dGhlIHNhbXBsZSBub25jZQ==''))"
    "ymo_http_hdr_table_get (headers (xg upgrade_exchange)) (str ''sec-websocket-version'') = Some (Some (str ''13''))"
    "ymo_http_hdr_table_get_id (headers (xg upgrade_exchange)) 17987 = Some (Some (str ''websocket''))"
    by (simp_all add: t ymo_http_hdr_table_get_def name_hash_def [symmetric])
      (rule g, use name_hashes in \<open>simp add: upgrade_headers_def\<close>)+
  have "strcaseeq (str_at (xg upgrade_exchange) 0) (str ''get'')"
    by (simp add: upgrade_exchange_def str_at_def str_def chr_def strcaseeq_def c_tolower_def)
  with h show "handshake upgrade_exchange (str ''keep-alive, Upgrade'') (str ''dGhlIHNhbXBsZSBub25jZQ=='')"
    by (simp add: handshake_def)
  show "has_flag YMO_HTTP_FLAG_UPGRADE (flags (xg upgrade_exchange))"
    "ymo_http_hdr_table_get_id (headers (xg upgrade_exchange)) 17987 = Some (Some (str ''websocket''))"
    "x_response upgrade_exchange = Some 0"
    using h(5) by (simp_all add: upgrade_exchange_def has_flag_def YMO_HTTP_FLAG_UPGRADE_def)
qed

theorem ws_handshake_answered_witness:
  "\<exists>h s' obj'. ymo_ws_http_upgrade_handler (\<lambda>_. replicate 20 0) upgrade_pool True 7 = Some h \<and>
     ymo_http_handler \<lparr>session_init = None, header_cb = None, user_body_cb = None, http_cb = \<lambda>x a s. (ENOSYS, s),
        session_cleanup = None, upgrade_handler = [h]\<rparr> upgrade_exchange upgrade_session = Ret (YMO_OKAY, s') \<and>
     hs_heap s' 0 = Some obj' \<and> proto_new (rsp obj') = Some 7 \<and> r_status (rsp obj') = 101"
proof -
  obtain h :: "unit upgrade_cb \<times> nat"
    where h: "ymo_ws_http_upgrade_handler (\<lambda>_. replicate 20 0) upgrade_pool True 7 = Some h"
    by (simp add: ymo_ws_http_upgrade_handler_def)
  let ?d = "\<lparr>session_init = None, header_cb = None, user_body_cb = None, http_cb = \<lambda>x a s. (ENOSYS, s),
        session_cleanup = None, upgrade_handler = [h]\<rparr>"
  let ?obj = "\<lparr>rsp = ymo_http_response_create 4, rsp_next = None, rsp_exchange = None\<rparr>"
  have tok: "str ''Upgrade'' \<in> set (strtok_all (str ''keep-alive, Upgrade''))"
    using token_in_strtok_all [of "str ''keep-alive, ''" "[]" "str ''Upgrade''"]
    by (simp add: str_def chr_def token_sep_def)
  have eq: "strcaseeq (str ''Upgrade'') (str ''upgrade'')" "strcaseeq (str ''websocket'') (str ''websocket'')"
    by (simp_all add: strcaseeq_def c_tolower_def str_def chr_def)
  have l: "length (str ''keep-alive, Upgrade'') = 19" by (simp add: str_def)
  have s: "hs_mem upgrade_session \<noteq> 0" "hs_heap upgrade_session 0 = Some ?obj" "hs_response upgrade_session = None"
    by (simp_all add: upgrade_session_def)
  have t: "table_ok (r_headers (rsp ?obj))" "no_buffers (r_headers (rsp ?obj))"
    "4 \<le> pool (r_headers (rsp ?obj)) + mem (r_headers (rsp ?obj))"
    by (simp_all add: ymo_http_response_create_def table_ok_create)
      (simp_all add: no_buffers_def ymo_http_hdr_table_init_def ymo_http_hdr_table_create_def YMO_HDR_TABLE_POOL_SIZE_def)
  note up = upgrade_exchange_ok
  have room: "unat (bl_current upgrade_pool) + length (str ''keep-alive, Upgrade'') + 46 < unat (bl_end upgrade_pool)"
    using upgrade_pool_ok(2) l by simp
  have q: "queue_ok upgrade_session []" "0 \<notin> set ([] :: nat list)" "rsp_next ?obj = None"
    using s(3) by (simp_all add: queue_ok_def upgrade_session_def)
  from ws_handshake_answered [OF up(4,1) tok eq(1) up(2) eq(2) up(3) upgrade_pool_ok(1) room s(1,2) q t _ h, of ?d "[]" "[]"]
  show ?thesis using h by auto
qed

text \<open>What is not such a handshake is not turned down: the status 426 has no reason text.\<close>

theorem ws_upgrade_refusal_faults:
  assumes "strcaseeq up (str ''websocket'')" "hs_heap s a = Some obj"
    and "\<nexists>w'. bad_upgrade_request w x = Ret (False, w')" "bad_upgrade_request w x \<noteq> Hang"
  shows "ymo_ws_upgrade_cb sha w (Some up) x a s = Fault"
proof -
  have "ymo_http_response_issue YMO_HTTP_UPGRADE_REQUIRED (rsp obj) = None"
    by (simp add: ymo_http_response_issue_def ymo_http_response_set_status_def status_text_def get_http_reason_def
        http_reasons_def YMO_HTTP_UPGRADE_REQUIRED_def Let_def)
  then have "rsp_issue a YMO_HTTP_UPGRADE_REQUIRED s = Fault" using assms(2) by (simp add: rsp_issue_def get_rsp_def)
  then show ?thesis using assms(1,3,4) by (cases "bad_upgrade_request w x") (auto simp: ymo_ws_upgrade_cb_def)
qed

end
