(* ===== verification/Server_Safe.thy ===== *)
theory Server_Safe
  imports Server
begin

text \<open>
  What a server promises when its protocol keeps a contract: no handler touches a connection that has
  been freed, the count of connections is exact, and a graceful stop ends the event loop when, and
  only when, the last connection is gone.
\<close>

section \<open>What a handler may change\<close>

definition same_server :: "'p ymo_server \<Rightarrow> 'p ymo_server \<Rightarrow> bool" where
  "same_server s s' \<longleftrightarrow> s_state s' = s_state s \<and> s_proto s' = s_proto s \<and> s_config s' = s_config s \<and>
     recv_buf s' = recv_buf s \<and> multiproc s' = multiproc s"

text \<open>The connection at \<open>a\<close> is still there, and at most has been half closed.\<close>

definition touched :: "nat \<Rightarrow> 'p ymo_server \<Rightarrow> 'p ymo_server \<Rightarrow> bool" where
  "touched a s s' \<longleftrightarrow> same_server s s' \<and> no_conn s' = no_conn s \<and> s_calls s' = s_calls s \<and> net s' = net s \<and>
     set (net_out s') \<subseteq> set (net_out s) \<and>
     (\<exists>c c'. conns s a = Some c \<and> conns s' = (conns s)(a \<mapsto> c') \<and> c_proto c' = c_proto c \<and> c_fd c' = c_fd c \<and>
        c_state c' \<in> {c_state c, YMO_CONN_SHUTDOWN})"

text \<open>The connection at \<open>a\<close> has been closed and freed.\<close>

definition dropped :: "nat \<Rightarrow> 'p ymo_server \<Rightarrow> 'p ymo_server \<Rightarrow> bool" where
  "dropped a s s' \<longleftrightarrow> same_server s s' \<and> conns s a \<noteq> None \<and> conns s' = (conns s)(a := None) \<and>
     no_conn s' = no_conn s - 1 \<and>
     (\<exists>calls. s_calls s' = s_calls s @ calls \<and>
        (Ev_break \<in> set calls \<longleftrightarrow> s_state s = YMO_SERVER_STOP_GRACEFUL \<and> no_conn s = 1))"

definition net_ok :: "'p ymo_server \<Rightarrow> bool" where
  "net_ok s \<longleftrightarrow> unat (recv_buf s) + YMO_SERVER_RECV_BUF_SIZE < 2 ^ 64 \<and>
     (\<forall>r \<in> set (net s). case r of Rcv dat \<Rightarrow> 0 < length dat \<and> length dat \<le> YMO_SERVER_RECV_BUF_SIZE | _ \<Rightarrow> True)"

text \<open>A transmission fails for another reason than that the socket blocks.\<close>

definition send_fails :: "'p ymo_server \<Rightarrow> bool" where
  "send_fails s \<longleftrightarrow> (\<exists>answers \<in> set (net_out s). \<exists>st. Inl st \<in> set answers \<and> st \<noteq> YMO_OKAY \<and> \<not> YMO_IS_BLOCKED st)"

text \<open>The peer sends more with every \<^verbatim>\<open>recv\<close>: none of them blocks, fails or reports the end.\<close>

definition only_data :: "recv_result list \<Rightarrow> bool" where
  "only_data answers \<longleftrightarrow> (\<forall>r \<in> set answers. \<exists>dat. r = Rcv dat)"

lemma send_fails_net [simp]: "send_fails (s\<lparr>net := rest\<rparr>) = send_fails s"
  by (simp add: send_fails_def)

lemma net_ok_answers: "net_ok s \<Longrightarrow> r \<in> set (net s) \<Longrightarrow> recv_answer_ok r"
  by (cases r) (force simp: net_ok_def recv_answer_ok_def YMO_SERVER_RECV_BUF_SIZE_def)+

lemma same_server_refl [simp]: "same_server s s"
  by (simp add: same_server_def)

lemma same_server_trans: "same_server s t \<Longrightarrow> same_server t u \<Longrightarrow> same_server s u"
  by (simp add: same_server_def)

lemma touched_refl: "conns s a = Some c \<Longrightarrow> touched a s s"
  by (auto simp: touched_def intro!: exI [of _ c])

lemma touched_trans:
  assumes "touched a s t" "touched a t u"
  shows "touched a s u"
proof -
  obtain c c' where c: "conns s a = Some c" "conns t = (conns s)(a \<mapsto> c')" "c_proto c' = c_proto c" "c_fd c' = c_fd c"
      "c_state c' \<in> {c_state c, YMO_CONN_SHUTDOWN}"
    using assms(1) by (auto simp: touched_def)
  obtain c'' where "conns u = (conns t)(a \<mapsto> c'')" "c_proto c'' = c_proto c'" "c_fd c'' = c_fd c'"
      "c_state c'' \<in> {c_state c', YMO_CONN_SHUTDOWN}"
    using assms(2) c(2) by (auto simp: touched_def)
  then show ?thesis
    using assms c by (auto simp: touched_def intro: same_server_trans)
qed

lemma touched_dropped: "touched a s t \<Longrightarrow> dropped a t u \<Longrightarrow> dropped a s u"
  by (auto simp: touched_def dropped_def same_server_def)

lemma touched_put:
  "conns s a = Some c \<Longrightarrow> c_proto c' = c_proto c \<Longrightarrow> c_fd c' = c_fd c \<Longrightarrow>
   c_state c' \<in> {c_state c, YMO_CONN_SHUTDOWN} \<Longrightarrow> touched a s (put_conn a c' s)"
  by (auto simp: touched_def put_conn_def same_server_def)

lemma touched_net_ok: "touched a s s' \<Longrightarrow> net_ok s \<Longrightarrow> net_ok s'"
  by (simp add: touched_def net_ok_def same_server_def)

lemma touched_fails: "touched a s t \<Longrightarrow> send_fails t \<Longrightarrow> send_fails s"
  by (auto simp: touched_def send_fails_def)

section \<open>Events\<close>

text \<open>
  What libev reports: the listening socket is ready (with what \<^verbatim>\<open>accept\<close> answers and where the new
  connection object is), a connection is readable or writable, its idle timeout has expired; or the
  application asks the server to stop.
\<close>

datatype event =
    Accept bool int "nat option" | Readable bool nat | Writable nat | Idle nat | Stop_server

text \<open>\<open>locked\<close>: whether the accept mutex is free, with several processes.\<close>

definition handle :: "'p protos \<Rightarrow> bool \<Rightarrow> event \<Rightarrow> 'p ymo_server \<Rightarrow> 'p ymo_server run" where
  "handle vt locked ev s =
     (case ev of
        Accept err fd mem \<Rightarrow>
          if multiproc s then ymo_multiproc_accept_cb vt locked err fd mem s else ymo_accept_cb vt err fd mem s
      | Readable err a \<Rightarrow> ymo_read_cb vt err a s
      | Writable a \<Rightarrow> ymo_write_cb vt a s
      | Idle a \<Rightarrow> idle_timeout_cb vt a s
      | Stop_server \<Rightarrow> Ret (snd (ymo_server_stop_graceful s)))"

text \<open>
  Which events can happen: the listening socket is watched until the server stops, an object gets an
  address that is not in use (below \<open>2 ^ 63\<close>), and only live connections have watchers and a timeout.
\<close>

definition enabled :: "event \<Rightarrow> 'p ymo_server \<Rightarrow> bool" where
  "enabled ev s \<longleftrightarrow>
     (case ev of
        Accept err fd mem \<Rightarrow> s_state s = YMO_SERVER_STARTED \<and> (\<forall>a. mem = Some a \<longrightarrow> a < 2 ^ 63 \<and> conns s a = None)
      | Readable err a \<Rightarrow> conns s a \<noteq> None
      | Writable a \<Rightarrow> conns s a \<noteq> None
      | Idle a \<Rightarrow> conns s a \<noteq> None
      | Stop_server \<Rightarrow> s_state s = YMO_SERVER_STARTED)"

text \<open>One turn of the event loop, with the answers the network gives during it.\<close>

definition with_net :: "recv_result list \<Rightarrow> (ymo_status + nat) list list \<Rightarrow> 'p ymo_server \<Rightarrow> 'p ymo_server" where
  "with_net answers rooms s = s\<lparr>net := answers, net_out := rooms\<rparr>"

inductive server_step :: "'p protos \<Rightarrow> 'p ymo_server \<Rightarrow> 'p ymo_server \<Rightarrow> bool" for vt where
  turn: "enabled ev s \<Longrightarrow> net_ok (with_net answers rooms s) \<Longrightarrow>
    handle vt locked ev (with_net answers rooms s) = Ret s' \<Longrightarrow> server_step vt s s'"

inductive_cases server_stepE: "server_step vt s s'"

text \<open>
  When a handler may be kept from returning: it closes a connection that has been idle, or that could not
  be written to, and the peer does not close its side; or the peer never stops sending.
\<close>

definition kept_waiting :: "event \<Rightarrow> 'p ymo_server \<Rightarrow> bool" where
  "kept_waiting ev s \<longleftrightarrow> Rcv_eof \<notin> set (net s) \<and>
     (case ev of
        Accept err fd mem \<Rightarrow> False
      | Readable err a \<Rightarrow> \<not> err \<and> (send_fails s \<or> only_data (net s))
      | Writable a \<Rightarrow> send_fails s
      | Idle a \<Rightarrow> True
      | Stop_server \<Rightarrow> False)"

section \<open>The contract of a protocol\<close>

locale protocol =
  fixes vt :: "'p protos" and pr :: nat and P :: "'p \<Rightarrow> bool"
  assumes init_law: "conns s a = Some c \<Longrightarrow>
      \<exists>pd errno s'. conn_init_cb (vt pr) a s = Ret (Some pd, errno, s') \<and> P pd \<and> touched a s s'"
    and ready_law: "conn_ready_cb (vt pr) = Some ready \<Longrightarrow> conns s a = Some c \<Longrightarrow> c_proto_data c = Some pd \<Longrightarrow> P pd \<Longrightarrow>
      \<exists>s' c' pd'. ready a s = Ret (YMO_OKAY, s') \<and> touched a s s' \<and> conns s' a = Some c' \<and>
        c_proto_data c' = Some pd' \<and> P pd'"
    and cleanup_law: "conn_cleanup_cb (vt pr) = Some clean \<Longrightarrow> conns s a = Some c \<Longrightarrow>
      \<exists>s'. clean a (c_proto_data c) s = Ret s' \<and> touched a s s'"
    and write_law: "conns s a = Some c \<Longrightarrow> c_proto_data c = Some pd \<Longrightarrow> P pd \<Longrightarrow>
      \<exists>st s' c' pd'. write_cb (vt pr) a s = Ret (st, s') \<and> (st = YMO_OKAY \<or> YMO_IS_BLOCKED st \<or> send_fails s) \<and> touched a s s' \<and> conns s' a = Some c' \<and>
        c_proto_data c' = Some pd' \<and> P pd'"
    and read_law: "conns s a = Some c \<Longrightarrow> c_state c \<noteq> YMO_CONN_CLOSED \<Longrightarrow> c_proto c = pr \<Longrightarrow>
      c_proto_data c = Some pd \<Longrightarrow> P pd \<Longrightarrow> net_ok s \<Longrightarrow> dat \<noteq> [] \<Longrightarrow> unat ptr + length dat < 2 ^ 64 \<Longrightarrow>
      case read_cb (vt pr) a ptr dat s of
        Ret (r, s') \<Rightarrow>
          touched a s s' \<and> (\<forall>k. r = Inr k \<longrightarrow> 0 < k \<and> k \<le> length dat) \<and>
            (\<exists>c' pd'. conns s' a = Some c' \<and> c_proto_data c' = Some pd' \<and> P pd') \<or>
          dropped a s s' \<and> (\<exists>st. r = Inl st \<and> (st = YMO_OKAY \<or> YMO_IS_BLOCKED st))
      | Hang \<Rightarrow> Rcv_eof \<notin> set (net s) \<and> send_fails s
      | Fault \<Rightarrow> False"
begin

text \<open>A connection the protocol serves.\<close>

definition live :: "'p ymo_conn \<Rightarrow> bool" where
  "live c \<longleftrightarrow> c_state c \<noteq> YMO_CONN_CLOSED \<and> c_proto c = pr \<and> (\<exists>pd. c_proto_data c = Some pd \<and> P pd)"

definition at :: "nat \<Rightarrow> 'p ymo_server \<Rightarrow> bool" where
  "at a s \<longleftrightarrow> (\<exists>c. conns s a = Some c \<and> live c)"

text \<open>What a handler of the connection \<open>a\<close> does; \<open>waits\<close> tells whether it may wait for the peer to close.\<close>

definition handled :: "nat \<Rightarrow> bool \<Rightarrow> 'p ymo_server \<Rightarrow> 'p ymo_server run \<Rightarrow> bool" where
  "handled a waits s res \<longleftrightarrow>
     (case res of
        Ret s' \<Rightarrow> touched a s s' \<and> at a s' \<or> dropped a s s'
      | Hang \<Rightarrow> Rcv_eof \<notin> set (net s) \<and> waits
      | Fault \<Rightarrow> False)"

lemma close_ok:
  assumes c: "conns s a = Some c" "c_proto c = pr" "c_state c \<noteq> YMO_CONN_CLOSED" and net: "net_ok s"
  shows "case close_and_free_connection vt a clean s of
      Ret s' \<Rightarrow> dropped a s s' | Hang \<Rightarrow> clean \<and> Rcv_eof \<notin> set (net s) | Fault \<Rightarrow> False"
proof (cases "close_waits (net s) clean c")
  case True
  then show ?thesis
    using c net net_ok_answers [OF net]
    by (simp add: close_and_free_connection_def get_conn_def conn_close_eq close_waits_def)
next
  case False
  define rest where "rest = (if clean \<and> c_state c \<noteq> YMO_CONN_CLOSING then tl (dropWhile (\<lambda>r. r \<noteq> Rcv_eof) (net s)) else net s)"
  define c' where "c' = c\<lparr>c_state := YMO_CONN_CLOSED, c_calls := c_calls c @ close_calls (shut_answer (s_config s)) clean c\<rparr>"
  define s1 where "s1 = (put_conn a c' s)\<lparr>net := rest\<rparr>"
  define s2 where "s2 = (if user_cleanup (s_config s1) then server_call (User_cleanup a (c_user c')) s1 else s1)"
  have e: "close_and_free_connection vt a clean s = run_bind (run_conn_cleanup vt a s2) (\<lambda>s. Ret (free_conn a s))"
    using c False net_ok_answers [OF net]
    unfolding s2_def s1_def
    by (simp add: close_and_free_connection_def get_conn_def conn_close_eq Let_def
        rest_def [symmetric] c'_def [symmetric])
  have s2: "conns s2 a = Some c'" "c_proto c' = pr" "same_server s s2" "no_conn s2 = no_conn s"
      "conns s2 = (conns s)(a \<mapsto> c')" "\<exists>calls. s_calls s2 = s_calls s @ calls \<and> Ev_break \<notin> set calls"
    using c(2) by (auto simp: s2_def s1_def c'_def put_conn_def server_call_def same_server_def)
  obtain s3 where s3: "run_conn_cleanup vt a s2 = Ret s3" "touched a s2 s3"
  proof (cases "conn_cleanup_cb (vt pr)")
    case None
    then show ?thesis using that [of s2] s2 touched_refl [of s2 a] by (simp add: run_conn_cleanup_def get_conn_def)
  next
    case (Some cb)
    then show ?thesis using that cleanup_law [OF Some s2(1)] s2 by (auto simp: run_conn_cleanup_def get_conn_def)
  qed
  have "dropped a s (free_conn a s3)"
    using s2 s3(2) c(1)
    by (auto simp: dropped_def touched_def free_conn_def Let_def server_call_def same_server_def)
  then show ?thesis by (simp add: e s3(1))
qed

lemma close_handled:
  "at a s \<Longrightarrow> net_ok s \<Longrightarrow> handled a clean s (close_and_free_connection vt a clean s)"
  using close_ok [of s a _ clean] by (fastforce simp: at_def live_def handled_def split: run.splits)

lemma touched_at:
  assumes "touched a s s'" "at a s" "conns s' a = Some c" "c_proto_data c = Some pd" "P pd"
  shows "at a s'"
  using assms by (auto simp: touched_def at_def live_def)

lemma on_conn_at:
  assumes "at a s" "\<And>c. c_state (f c) = c_state c" "\<And>c. c_proto (f c) = c_proto c" "\<And>c. c_fd (f c) = c_fd c"
    "\<And>c. c_proto_data (f c) = c_proto_data c"
  shows "\<exists>s'. on_conn a f s = Ret s' \<and> touched a s s' \<and> at a s'"
proof -
  obtain c where c: "conns s a = Some c" "live c" using assms(1) by (auto simp: at_def)
  have "on_conn a f s = Ret (put_conn a (f c) s)" using c(1) by (simp add: on_conn_def get_conn_def)
  moreover have "touched a s (put_conn a (f c) s)" using c(1) assms(2-4) by (intro touched_put) auto
  moreover have "at a (put_conn a (f c) s)" using c(2) assms(2-5) by (simp add: at_def live_def put_conn_def)
  ultimately show ?thesis by blast
qed

lemma reset_timeout_keeps:
  "c_state (ymo_conn_reset_idle_timeout c) = c_state c" "c_proto (ymo_conn_reset_idle_timeout c) = c_proto c"
  "c_fd (ymo_conn_reset_idle_timeout c) = c_fd c" "c_proto_data (ymo_conn_reset_idle_timeout c) = c_proto_data c"
  by (cases "c_state c"; simp add: ymo_conn_reset_idle_timeout_def)+

lemma handled_after:
  assumes t: "touched a s t" and h: "handled a waits t res"
  shows "handled a waits s res"
proof (cases res)
  case (Ret u)
  then show ?thesis using h touched_trans [OF t, of u] touched_dropped [OF t, of u] by (auto simp: handled_def)
next
  case Hang
  moreover have "net t = net s" using t by (simp add: touched_def)
  ultimately show ?thesis using h by (simp add: handled_def)
qed (use h in \<open>simp add: handled_def\<close>)

lemma write_handled:
  assumes "at a s" "net_ok s"
  shows "handled a (send_fails s) s (ymo_write_cb vt a s)"
proof -
  obtain c pd where c: "conns s a = Some c" "c_proto c = pr" "c_proto_data c = Some pd" "P pd"
    using assms(1) by (auto simp: at_def live_def)
  from write_law [OF c(1,3,4)] obtain st s1 where
    w: "write_cb (vt pr) a s = Ret (st, s1)" "touched a s s1" "at a s1" "st = YMO_OKAY \<or> YMO_IS_BLOCKED st \<or> send_fails s"
    using touched_at [OF _ assms(1)] by blast
  from on_conn_at [OF w(3) reset_timeout_keeps] obtain s2 where
    r: "on_conn a ymo_conn_reset_idle_timeout s1 = Ret s2" "touched a s1 s2" "at a s2" by blast
  have t2: "touched a s s2" using w(2) r(2) by (rule touched_trans)
  have e: "ymo_write_cb vt a s = (if st = YMO_OKAY then on_conn a (ymo_conn_tx_enable 0) s2
      else if \<not> YMO_IS_BLOCKED st then close_and_free_connection vt a True s2 else Ret s2)"
    using c w(1) r(1) by (simp add: ymo_write_cb_def get_conn_def)
  obtain s3 where "on_conn a (ymo_conn_tx_enable 0) s2 = Ret s3" "touched a s2 s3" "at a s3"
    using on_conn_at [OF r(3), of "ymo_conn_tx_enable 0"] by (auto simp: ymo_conn_tx_enable_def)
  moreover have "handled a True s2 (close_and_free_connection vt a True s2)"
    by (rule close_handled [OF r(3) touched_net_ok [OF t2 assms(2)]])
  ultimately have "handled a (send_fails s) s2 (ymo_write_cb vt a s)"
    using r(3) w(4) unfolding e by (auto simp: handled_def touched_refl at_def split: run.splits)
  then show ?thesis by (rule handled_after [OF t2])
qed

text \<open>
  The two loops of the read handler, with the fuel they need: every turn uses up an answer of the
  socket or part of the bytes of one.
\<close>

definition pending_input :: "'p ymo_server \<Rightarrow> (u64 \<times> bytes) option \<Rightarrow> nat" where
  "pending_input s dat = read_fuel (net s) + (case dat of None \<Rightarrow> 0 | Some (_, d) \<Rightarrow> length d)"

definition input_ok :: "(u64 \<times> bytes) option \<Rightarrow> bool" where
  "input_ok dat \<longleftrightarrow> (case dat of None \<Rightarrow> True | Some (ptr, d) \<Rightarrow> d \<noteq> [] \<and> unat ptr + length d < 2 ^ 64)"

lemma at_next_answer: "at a s \<Longrightarrow> at a (s\<lparr>net := rest\<rparr>)"
  by (simp add: at_def)

lemma net_ok_next: "net_ok s \<Longrightarrow> net s = r # rest \<Longrightarrow> net_ok (s\<lparr>net := rest\<rparr>)"
  by (simp add: net_ok_def)

text \<open>Reading uses up answers, so that what holds of the handler is said of the server without them.\<close>

definition read_done :: "nat \<Rightarrow> 'p ymo_server \<Rightarrow> 'p ymo_server run \<Rightarrow> bool" where
  "read_done a s res \<longleftrightarrow>
     (case res of
        Ret s' \<Rightarrow> (\<exists>rest. touched a (s\<lparr>net := rest\<rparr>) s' \<and> at a s') \<or> dropped a s s'
      | Hang \<Rightarrow> Rcv_eof \<notin> set (net s) \<and> (send_fails s \<or> only_data (net s))
      | Fault \<Rightarrow> False)"

lemma read_done_handled: "handled a False s res \<Longrightarrow> read_done a s res"
  by (cases res) (auto simp: handled_def read_done_def intro: exI [of _ "net s"])

lemma dropped_next: "dropped a (s\<lparr>net := rest\<rparr>) u \<Longrightarrow> dropped a s u"
  by (simp add: dropped_def same_server_def)

lemma read_done_next:
  assumes "read_done a (s\<lparr>net := rest\<rparr>) res" "Rcv_eof \<in> set (net s) \<Longrightarrow> Rcv_eof \<in> set rest"
    "only_data rest \<Longrightarrow> only_data (net s)"
  shows "read_done a s res"
  using assms by (cases res) (auto simp: read_done_def intro: dropped_next)

lemma read_done_after:
  assumes t: "touched a s t" and h: "read_done a t res"
  shows "read_done a s res"
proof (cases res)
  case (Ret u)
  have "touched a (s\<lparr>net := rest\<rparr>) (t\<lparr>net := rest\<rparr>)" for rest
    using t by (auto simp: touched_def same_server_def)
  then show ?thesis
    using h Ret touched_dropped [OF t] by (auto simp: read_done_def intro: touched_trans)
next
  case Hang
  moreover have "net t = net s" using t by (simp add: touched_def)
  ultimately show ?thesis using h touched_fails [OF t] by (auto simp: read_done_def)
qed (use h in \<open>simp add: read_done_def\<close>)

lemma read_loop_done:
  assumes "at a s" "net_ok s" "input_ok dat" "pending_input s dat < n + 1"
  shows "read_done a s (read_loop n vt a dat s)"
  using assms
proof (induction n arbitrary: dat s)
  case 0
  then show ?case by (simp add: pending_input_def read_fuel_def)
next
  case (Suc n)
  obtain c pd where c: "conns s a = Some c" "c_state c \<noteq> YMO_CONN_CLOSED" "c_proto c = pr" "c_proto_data c = Some pd" "P pd"
    using Suc.prems(1) by (auto simp: at_def live_def)
  show ?case
  proof (cases dat)
    case None
    show ?thesis
    proof (cases "net s")
      case Nil
      then show ?thesis using None by (simp add: read_done_def only_data_def)
    next
      case (Cons r rest)
      let ?s = "s\<lparr>net := rest\<rparr>"
      note at1 = at_next_answer [OF Suc.prems(1), of rest] and net1 = net_ok_next [OF Suc.prems(2) Cons]
      have stop: "read_done a s (close_and_free_connection vt a False ?s)"
      proof -
        have "case close_and_free_connection vt a False ?s of
            Ret s' \<Rightarrow> dropped a ?s s' | Hang \<Rightarrow> False \<and> Rcv_eof \<notin> set (net ?s) | Fault \<Rightarrow> False"
          by (rule close_ok [OF _ c(3,2) net1]) (simp add: c(1))
        then show ?thesis by (auto simp: read_done_def intro: dropped_next split: run.splits)
      qed
      show ?thesis
      proof (cases r)
        case (Rcv d)
        have d: "0 < length d" "length d \<le> YMO_SERVER_RECV_BUF_SIZE"
            "unat (recv_buf s) + YMO_SERVER_RECV_BUF_SIZE < 2 ^ 64"
          using Suc.prems(2) Cons Rcv by (simp_all add: net_ok_def)
        let ?t = "put_conn a (ymo_conn_reset_idle_timeout c) ?s"
        have t: "touched a ?s ?t" by (rule touched_put [of _ _ c]) (simp_all add: c(1) reset_timeout_keeps)
        have att: "at a ?t" using c by (simp add: at_def live_def put_conn_def reset_timeout_keeps)
        have "read_done a ?t (read_loop n vt a (Some (recv_buf s, d)) ?t)"
          by (rule Suc.IH [OF att touched_net_ok [OF t net1]])
            (use d Suc.prems(4) Cons Rcv None in \<open>auto simp: input_ok_def pending_input_def read_fuel_def put_conn_def\<close>)
        moreover have "read_done a ?s (read_loop n vt a None ?s)"
          by (rule Suc.IH [OF at1 net1])
            (use d Suc.prems(4) Cons Rcv None in \<open>auto simp: input_ok_def pending_input_def read_fuel_def\<close>)
        ultimately have "read_done a ?s (read_loop (Suc n) vt a dat s)"
          using None Cons Rcv c(1) read_done_after [OF t] by (simp add: get_conn_def Let_def)
        then show ?thesis by (rule read_done_next) (simp_all add: Cons Rcv only_data_def)
      next
        case Rcv_eof
        then show ?thesis using stop None Cons by (simp add: Let_def)
      next
        case (Rcv_err st)
        have "touched a ?s ?s" by (rule touched_refl) (simp add: c(1))
        then have "read_done a s (Ret ?s)" using at1 by (auto simp: read_done_def)
        then show ?thesis using stop None Cons Rcv_err by (simp add: Let_def)
      qed
    qed
  next
    case (Some x)
    then obtain ptr d where x: "dat = Some (ptr, d)" "d \<noteq> []" "unat ptr + length d < 2 ^ 64"
      using Suc.prems(3) by (cases x) (auto simp: input_ok_def)
    note law = read_law [OF c Suc.prems(2) x(2,3)]
    show ?thesis
    proof (cases "read_cb (vt pr) a ptr d s")
      case (Ret y)
      obtain r s1 where y: "read_cb (vt pr) a ptr d s = Ret (r, s1)" using Ret by (cases y) auto
      show ?thesis
      proof (cases "dropped a s s1 \<and> (\<exists>st. r = Inl st \<and> (st = YMO_OKAY \<or> YMO_IS_BLOCKED st))")
        case True
        then show ?thesis using x y c by (auto simp: get_conn_def read_done_def)
      next
        case False
        then have t: "touched a s s1" "\<forall>k. r = Inr k \<longrightarrow> 0 < k \<and> k \<le> length d"
            "\<exists>c' pd'. conns s1 a = Some c' \<and> c_proto_data c' = Some pd' \<and> P pd'"
          using law y by auto
        then have at1: "at a s1" using touched_at [OF t(1) Suc.prems(1)] by blast
        note net1 = touched_net_ok [OF t(1) Suc.prems(2)]
        have same: "net s1 = net s" using t(1) by (simp add: touched_def)
        obtain c1 where c1: "conns s1 a = Some c1" using at1 by (auto simp: at_def)
        have "read_done a s1 (read_loop (Suc n) vt a dat s)"
        proof (cases r)
          case (Inl st)
          have "read_done a s1 (close_and_free_connection vt a False s1)"
            by (rule read_done_handled [OF close_handled [OF at1 net1]])
          moreover have "read_done a s1 (Ret s1)"
            using read_done_handled [of a s1 "Ret s1"] at1 touched_refl [OF c1] by (simp add: handled_def)
          ultimately show ?thesis using Inl x(1) y c by (simp add: get_conn_def)
        next
          case (Inr k)
          then have k: "0 < k" "k \<le> length d" using t(2) by auto
          have "read_done a s1 (read_loop n vt a None s1)"
            by (rule Suc.IH [OF at1 net1]) (use Suc.prems(4) k x in \<open>auto simp: input_ok_def pending_input_def same\<close>)
          moreover have "read_done a s1 (read_loop n vt a (Some (ptr + word_of_nat k, drop k d)) s1)" if "drop k d \<noteq> []"
          proof (rule Suc.IH [OF at1 net1])
            have "unat (ptr + word_of_nat k) \<le> unat ptr + k"
              by (simp add: unat_word_ariths unat_of_nat take_bit_nat_def mod_add_right_eq)
            then show "input_ok (Some (ptr + word_of_nat k, drop k d))" using that x(3) k by (simp add: input_ok_def)
            show "pending_input s1 (Some (ptr + word_of_nat k, drop k d)) < n + 1"
              using Suc.prems(4) k x(1) by (simp add: pending_input_def same)
          qed
          moreover have "read_done a s1 (Ret s1)"
            using read_done_handled [of a s1 "Ret s1"] at1 touched_refl [OF c1] by (simp add: handled_def)
          ultimately show ?thesis using Inr x(1) y c c1 k(2) by (simp add: get_conn_def)
        qed
        then show ?thesis by (rule read_done_after [OF t(1)])
      qed
    next
      case Hang
      then show ?thesis using x law c by (simp add: get_conn_def read_done_def)
    next
      case Fault
      then show ?thesis using law by simp
    qed
  qed
qed

lemma read_cb_done: "at a s \<Longrightarrow> net_ok s \<Longrightarrow> read_done a s (ymo_read_cb vt ev_error a s)"
  using read_loop_done [of a s None "read_fuel (net s)"] read_done_handled [OF close_handled [of a s False]]
  by (simp add: ymo_read_cb_def input_ok_def pending_input_def)

definition accepted :: "nat \<Rightarrow> 'p ymo_server \<Rightarrow> 'p ymo_server \<Rightarrow> bool" where
  "accepted a s s' \<longleftrightarrow> same_server s s' \<and> conns s a = None \<and> no_conn s' = no_conn s + 1 \<and> s_calls s' = s_calls s \<and>
     (\<exists>c. conns s' = (conns s)(a \<mapsto> c) \<and> live c)"

lemma conn_proto_init_ok:
  assumes "conns s a = Some c" "c_proto c = pr" "c_state c = YMO_CONN_OPEN"
  shows "\<exists>s'. conn_proto_init vt pr a s = Ret (YMO_OKAY, s') \<and> touched a s s' \<and> at a s'"
proof -
  obtain pd errno s1 where i: "conn_init_cb (vt pr) a s = Ret (Some pd, errno, s1)" "P pd" "touched a s s1"
    using init_law [OF assms(1)] by blast
  obtain c1 where c1: "conns s1 a = Some c1" "c_proto c1 = pr" "c_state c1 \<noteq> YMO_CONN_CLOSED"
    using i(3) assms by (auto simp: touched_def)
  define s2 where "s2 = put_conn a (c1\<lparr>c_proto_data := Some pd\<rparr>) s1"
  have s2: "on_conn a (\<lambda>c. c\<lparr>c_proto_data := Some pd\<rparr>) s1 = Ret s2" "touched a s1 s2"
    using c1 touched_put [of s1 a c1 "c1\<lparr>c_proto_data := Some pd\<rparr>"] by (simp_all add: on_conn_def get_conn_def s2_def)
  have at2: "at a s2" using c1 i(2) by (simp add: at_def live_def s2_def put_conn_def)
  note t2 = touched_trans [OF i(3) s2(2)]
  show ?thesis
  proof (cases "conn_ready_cb (vt pr)")
    case None
    then show ?thesis using i(1) s2 at2 t2 by (simp add: conn_proto_init_def)
  next
    case (Some ready)
    have "conns s2 a = Some (c1\<lparr>c_proto_data := Some pd\<rparr>)" by (simp add: s2_def put_conn_def)
    from ready_law [OF Some this _ i(2)] obtain s3 c' pd' where
      r: "ready a s2 = Ret (YMO_OKAY, s3)" "touched a s2 s3" "conns s3 a = Some c'" "c_proto_data c' = Some pd'" "P pd'"
      by auto
    then show ?thesis
      using i(1) s2 Some touched_trans [OF t2 r(2)] touched_at [OF r(2) at2 r(3-5)] by (simp add: conn_proto_init_def)
  qed
qed

lemma accept_ok:
  assumes "conns s a = None" "s_proto s = pr"
  shows "ymo_conn_accept vt fd (Some a) s = Ret s \<or> (\<exists>s'. ymo_conn_accept vt fd (Some a) s = Ret s' \<and> accepted a s s')"
proof (cases "fd < 0")
  case False
  define s0 where "s0 = put_conn a (ymo_conn_create pr fd) s"
  have s0: "conns s0 a = Some (ymo_conn_create pr fd)" by (simp add: s0_def put_conn_def)
  obtain s1 where i: "conn_proto_init vt pr a s0 = Ret (YMO_OKAY, s1)" "touched a s0 s1" "at a s1"
    using conn_proto_init_ok [OF s0] by (auto simp: ymo_conn_create_def)
  define r2 where "r2 = (case user_init (s_config s1) of None \<Rightarrow> Ret s1 | Some f \<Rightarrow> on_conn a (\<lambda>c. c\<lparr>c_user := f a\<rparr>) s1)"
  obtain s2 where s2: "r2 = Ret s2" "touched a s1 s2" "at a s2"
  proof (cases "user_init (s_config s1)")
    case None
    have "touched a s1 s1" using i(3) touched_refl by (auto simp: at_def)
    with None i(3) that show ?thesis by (simp add: r2_def)
  next
    case (Some f)
    then show ?thesis using that on_conn_at [OF i(3), of "\<lambda>c. c\<lparr>c_user := f a\<rparr>"] by (auto simp: r2_def)
  qed
  define s3 where "s3 = s2\<lparr>no_conn := no_conn s2 + 1\<rparr>"
  have at3: "at a s3" using s2(3) by (simp add: at_def s3_def)
  obtain s4 where s4: "on_conn a (\<lambda>c. ymo_conn_rx_enable 1 (ymo_conn_start_idle_timeout c)) s3 = Ret s4"
      "touched a s3 s4" "at a s4"
    using on_conn_at [OF at3, of "\<lambda>c. ymo_conn_rx_enable 1 (ymo_conn_start_idle_timeout c)"]
    by (auto simp: ymo_conn_rx_enable_def ymo_conn_start_idle_timeout_def)
  have "ymo_conn_accept vt fd (Some a) s = Ret s4"
    using False assms(2) i(1) s2(1) s4(1) by (simp add: ymo_conn_accept_def s0_def r2_def s3_def)
  moreover have "accepted a s s4"
  proof -
    have t: "touched a s0 s2" using i(2) s2(2) by (rule touched_trans)
    then have "conns s3 = (conns s)(a := conns s3 a)" by (auto simp: touched_def s3_def s0_def put_conn_def)
    then have "conns s4 = (conns s)(a := conns s4 a)" using s4(2) by (auto simp: touched_def)
    moreover obtain c where "conns s4 a = Some c" "live c" using s4(3) by (auto simp: at_def)
    ultimately show ?thesis
      using t s4(2) assms(1) by (auto simp: accepted_def touched_def same_server_def s3_def s0_def put_conn_def)
  qed
  ultimately show ?thesis by blast
qed (simp add: ymo_conn_accept_def)

section \<open>The invariant of a running server\<close>

definition server_inv :: "'p ymo_server \<Rightarrow> bool" where
  "server_inv s \<longleftrightarrow> dom (conns s) \<subseteq> {..<2 ^ 63} \<and> no_conn s = word_of_nat (card (dom (conns s))) \<and>
     (\<forall>a c. conns s a = Some c \<longrightarrow> live c) \<and> s_proto s = pr \<and>
     (Ev_break \<in> set (s_calls s) \<longleftrightarrow> s_state s = YMO_SERVER_STOP_GRACEFUL \<and> conns s = Map.empty) \<and>
     (s_state s = YMO_SERVER_STARTED \<or> s_state s = YMO_SERVER_STOP_GRACEFUL)"

lemma server_inv_net: "server_inv (with_net answers rooms s) = server_inv s" "server_inv (s\<lparr>net := answers\<rparr>) = server_inv s"
  by (simp_all add: server_inv_def with_net_def)

lemma inv_card:
  assumes "server_inv s"
  shows "finite (dom (conns s))" "card (dom (conns s)) \<le> 2 ^ 63" "unat (no_conn s) = card (dom (conns s))"
proof -
  have d: "dom (conns s) \<subseteq> {..<2 ^ 63}" using assms by (simp add: server_inv_def)
  show f: "finite (dom (conns s))" using d by (rule finite_subset) simp
  show c: "card (dom (conns s)) \<le> 2 ^ 63" using card_mono [OF _ d] by simp
  then show "unat (no_conn s) = card (dom (conns s))"
    using assms by (simp add: server_inv_def unat_of_nat take_bit_nat_eq_self)
qed

lemma inv_at: "server_inv s \<Longrightarrow> conns s a \<noteq> None \<Longrightarrow> at a s"
  by (auto simp: server_inv_def at_def)

lemma inv_touched:
  assumes "server_inv s" "touched a s s'" "at a s'"
  shows "server_inv s'"
proof -
  obtain c c' where c: "conns s a = Some c" "conns s' = (conns s)(a \<mapsto> c')"
    using assms(2) by (auto simp: touched_def)
  have "dom (conns s') = dom (conns s)" using c by auto
  moreover have "live c'" using assms(3) c(2) by (simp add: at_def)
  ultimately show ?thesis
    using assms(1,2) c by (auto simp: server_inv_def touched_def same_server_def)
qed

lemma inv_dropped:
  assumes inv: "server_inv s" and d: "dropped a s s'"
  shows "server_inv s'"
proof -
  have a: "a \<in> dom (conns s)" and e: "conns s' = (conns s)(a := None)" and n: "no_conn s' = no_conn s - 1"
    using d by (auto simp: dropped_def)
  note card = inv_card [OF inv]
  have pos: "0 < card (dom (conns s))" using a card(1) by (auto simp: card_gt_0_iff)
  have "no_conn s' = word_of_nat (card (dom (conns s)) - 1)"
    using n inv pos by (simp add: server_inv_def of_nat_diff)
  then have c: "no_conn s' = word_of_nat (card (dom (conns s')))"
    using a card(1) by (simp add: e)
  have one: "no_conn s = 1 \<longleftrightarrow> conns s' = Map.empty"
  proof -
    have "no_conn s = 1 \<longleftrightarrow> card (dom (conns s)) = 1" by (simp add: word_unat_eq_iff card(3))
    also have "\<dots> \<longleftrightarrow> card (dom (conns s')) = 0" using a pos card(1) by (auto simp: e)
    also have "\<dots> \<longleftrightarrow> conns s' = Map.empty"
    proof -
      have "finite (dom (conns s'))" using card(1) by (simp add: e)
      then show ?thesis by (simp only: card_0_eq dom_eq_empty_conv)
    qed
    finally show ?thesis .
  qed
  have "Ev_break \<notin> set (s_calls s)" using inv a by (auto simp: server_inv_def)
  then have "Ev_break \<in> set (s_calls s') \<longleftrightarrow> s_state s' = YMO_SERVER_STOP_GRACEFUL \<and> conns s' = Map.empty"
    using d one by (auto simp: dropped_def same_server_def)
  moreover have "\<forall>b x. conns s' b = Some x \<longrightarrow> live x" "dom (conns s') \<subseteq> {..<2 ^ 63}"
    using inv by (auto simp: e server_inv_def split: if_splits)
  ultimately show ?thesis using inv d c by (auto simp: server_inv_def dropped_def same_server_def)
qed

lemma inv_accepted:
  assumes inv: "server_inv s" and a: "accepted a s s'" "a < 2 ^ 63" and st: "s_state s = YMO_SERVER_STARTED"
  shows "server_inv s'"
proof -
  obtain c where c: "conns s a = None" "conns s' = (conns s)(a \<mapsto> c)" "live c"
    using a(1) by (auto simp: accepted_def)
  have "card (dom (conns s')) = Suc (card (dom (conns s)))" using c inv_card(1) [OF inv] by (auto simp: domIff)
  moreover have "s_state s' = s_state s" "s_calls s' = s_calls s" "no_conn s' = no_conn s + 1" "s_proto s' = s_proto s"
    using a(1) by (simp_all add: accepted_def same_server_def)
  ultimately show ?thesis using inv c a(2) st by (auto simp: server_inv_def add.commute)
qed

lemma handled_inv: "server_inv s \<Longrightarrow> read_done a s res \<Longrightarrow> res = Ret s' \<Longrightarrow> server_inv s'"
  by (auto simp: read_done_def server_inv_net intro: inv_dropped inv_touched [of "s\<lparr>net := _\<rparr>"])

lemma handled_inv': "server_inv s \<Longrightarrow> handled a waits s (Ret s') \<Longrightarrow> server_inv s'"
  by (auto simp: handled_def intro: inv_dropped inv_touched)

lemma accept_cases:
  assumes "server_inv s" "enabled (Accept err fd mem) s"
  shows "\<exists>s'. handle vt locked (Accept err fd mem) s = Ret s' \<and> server_inv s'"
proof -
  have "\<exists>s'. ymo_conn_accept vt fd' mem s = Ret s' \<and> server_inv s'" for fd'
  proof (cases mem)
    case None
    then show ?thesis using assms(1) by (auto simp: ymo_conn_accept_def server_call_def server_inv_def)
  next
    case (Some a)
    have "conns s a = None" "s_proto s = pr" "a < 2 ^ 63" "s_state s = YMO_SERVER_STARTED"
      using assms Some by (auto simp: enabled_def server_inv_def)
    with accept_ok [of s a fd'] inv_accepted [OF assms(1), of a] assms(1) Some show ?thesis by blast
  qed
  then show ?thesis
    using assms(1) by (auto simp: handle_def ymo_accept_cb_def ymo_multiproc_accept_cb_def Let_def)
qed

text \<open>An event of a server in its invariant: no fault, the invariant again, and an end unless the peer keeps the handler.\<close>

lemma handle_safe:
  assumes inv: "server_inv s" and ev: "enabled ev s" and net: "net_ok s"
  shows "case handle vt locked ev s of Ret s' \<Rightarrow> server_inv s' | Hang \<Rightarrow> kept_waiting ev s | Fault \<Rightarrow> False"
proof -
  have h: ?thesis if "handled a waits s (handle vt locked ev s)" "waits \<Longrightarrow> Rcv_eof \<notin> set (net s) \<Longrightarrow> kept_waiting ev s" for a waits
    using that handled_inv' [OF inv] by (cases "handle vt locked ev s") (auto simp: handled_def)
  show ?thesis
  proof (cases ev)
    case (Accept err fd mem)
    then show ?thesis using accept_cases [OF inv, of err fd mem locked] ev by auto
  next
    case (Readable err a)
    have a: "at a s" using inv_at [OF inv] ev Readable by (simp add: enabled_def)
    show ?thesis
    proof (cases err)
      case True
      then show ?thesis
        using h [of a False] close_handled [OF a net, of False] Readable by (simp add: handle_def ymo_read_cb_def)
    next
      case False
      have "read_done a s (handle vt locked ev s)"
        using read_cb_done [OF a net] Readable by (simp add: handle_def)
      with handled_inv [OF inv this] False Readable show ?thesis
        by (auto simp: read_done_def kept_waiting_def split: run.splits)
    qed
  next
    case (Writable a)
    then show ?thesis
      using h [of a "send_fails s"] write_handled [OF inv_at [OF inv] net] ev by (simp add: enabled_def handle_def kept_waiting_def)
  next
    case (Idle a)
    then show ?thesis
      using h [of a True] close_handled [OF inv_at [OF inv] net, of a True] ev
      by (simp add: enabled_def handle_def idle_timeout_cb_def kept_waiting_def)
  next
    case Stop_server
    have "Ev_break \<notin> set (s_calls s)" using inv ev Stop_server by (auto simp: server_inv_def enabled_def)
    moreover have "no_conn s = 0 \<longleftrightarrow> conns s = Map.empty"
    proof -
      have "no_conn s = 0 \<longleftrightarrow> card (dom (conns s)) = 0" by (simp add: word_unat_eq_iff inv_card(3) [OF inv])
      then show ?thesis by (simp only: card_0_eq [OF inv_card(1) [OF inv]] dom_eq_empty_conv)
    qed
    ultimately show ?thesis
      using inv Stop_server by (auto simp: handle_def ymo_server_stop_graceful_def Let_def server_call_def server_inv_def)
  qed
qed

lemma step_inv: "server_step vt s s' \<Longrightarrow> server_inv s \<Longrightarrow> server_inv s'"
proof (elim server_stepE)
  fix ev answers rooms locked
  assume "server_inv s" "enabled ev s" "net_ok (with_net answers rooms s)"
    "handle vt locked ev (with_net answers rooms s) = Ret s'"
  moreover from this have "enabled ev (with_net answers rooms s)"
    by (cases ev) (simp_all add: enabled_def with_net_def)
  ultimately show "server_inv s'"
    using handle_safe [of "with_net answers rooms s" ev locked] by (simp add: server_inv_net)
qed

lemma steps_inv: "(server_step vt)\<^sup>*\<^sup>* s s' \<Longrightarrow> server_inv s \<Longrightarrow> server_inv s'"
  by (induction rule: rtranclp_induct) (auto intro: step_inv)

lemma started_inv:
  assumes "ymo_server_create vt config pr rb True = (Some s0, calls)" "ymo_server_init ans s0 = (YMO_OKAY, s1)"
    "ymo_server_start env s1 = (YMO_OKAY, s)" "env = None"
  shows "server_inv s"
  using assms
  by (auto simp: ymo_server_create_def ymo_server_init_def ymo_server_init_socket_def ymo_server_start_def server_new_def
      server_call_def server_inv_def Let_def split: if_splits sum.splits)

lemma started_safe:
  assumes "ymo_server_create vt config pr rb True = (Some s0, [])" "ymo_server_init ans s0 = (YMO_OKAY, s1)"
    and "ymo_server_start None s1 = (YMO_OKAY, s2)" "(server_step vt)\<^sup>*\<^sup>* s2 s"
  shows "finite (dom (conns s)) \<and> unat (no_conn s) = card (dom (conns s)) \<and>
    (Ev_break \<in> set (s_calls s) \<longleftrightarrow> s_state s = YMO_SERVER_STOP_GRACEFUL \<and> conns s = Map.empty) \<and>
    (\<forall>ev answers rooms locked. enabled ev s \<and> net_ok (with_net answers rooms s) \<longrightarrow>
       handle vt locked ev (with_net answers rooms s) \<noteq> Fault \<and>
       (handle vt locked ev (with_net answers rooms s) = Hang \<longrightarrow> kept_waiting ev (with_net answers rooms s)))"
proof -
  have inv: "server_inv s"
    by (rule steps_inv [OF assms(4) started_inv [OF assms(1-3) refl]])
  have "handle vt locked ev (with_net answers rooms s) \<noteq> Fault \<and>
       (handle vt locked ev (with_net answers rooms s) = Hang \<longrightarrow> kept_waiting ev (with_net answers rooms s))"
    if "enabled ev s" "net_ok (with_net answers rooms s)" for ev answers rooms locked
  proof -
    have "enabled ev (with_net answers rooms s)"
      using that(1) by (cases ev) (simp_all add: enabled_def with_net_def)
    moreover have "server_inv (with_net answers rooms s)" using inv by (simp add: server_inv_net)
    ultimately have "case handle vt locked ev (with_net answers rooms s) of
        Ret s' \<Rightarrow> server_inv s' | Hang \<Rightarrow> kept_waiting ev (with_net answers rooms s) | Fault \<Rightarrow> False"
      using that(2) by (intro handle_safe)
    then show ?thesis by (cases "handle vt locked ev (with_net answers rooms s)") simp_all
  qed
  then show ?thesis
    using inv inv_card [OF inv] by (simp add: server_inv_def)
qed

lemma started_live:
  assumes "ymo_server_create vt config pr rb True = (Some s0, [])" "ymo_server_init ans s0 = (YMO_OKAY, s1)"
    and "ymo_server_start None s1 = (YMO_OKAY, s2)" "(server_step vt)\<^sup>*\<^sup>* s2 s"
  shows "\<forall>a c. conns s a = Some c \<longrightarrow> (\<exists>pd. c_proto_data c = Some pd \<and> P pd)"
  using steps_inv [OF assms(4) started_inv [OF assms(1-3) refl]] by (auto simp: server_inv_def live_def)

end

section \<open>Properties\<close>

text \<open>
  C7: for a protocol that keeps the contract \<open>protocol\<close> (its callbacks touch only their own connection, stay
  in bounds, a read callback consumes input or reports an error, setting up a connection succeeds, and writing
  fails only when sending does): a server created, initialised and started never touches a connection that has
  been freed, whatever connects, sends, stays silent or disconnects, and in whatever order: no handler faults;
  the count of connections is exact; the event loop is told to end precisely when a stopping server has lost
  its last connection; and every handler returns, except in three cases, all without an end of the peer's
  stream: it closes a connection that was idle, or one it could not send to, or the peer sends without pause.
\<close>

theorem server_safe:
  assumes "protocol vt pr P"
    and "ymo_server_create vt config pr rb True = (Some s0, [])" "ymo_server_init ans s0 = (YMO_OKAY, s1)"
    and "ymo_server_start None s1 = (YMO_OKAY, s2)" "(server_step vt)\<^sup>*\<^sup>* s2 s"
  shows "finite (dom (conns s)) \<and> unat (no_conn s) = card (dom (conns s)) \<and>
    (Ev_break \<in> set (s_calls s) \<longleftrightarrow> s_state s = YMO_SERVER_STOP_GRACEFUL \<and> conns s = Map.empty) \<and>
    (\<forall>ev answers rooms locked. enabled ev s \<and> net_ok (with_net answers rooms s) \<longrightarrow>
       handle vt locked ev (with_net answers rooms s) \<noteq> Fault \<and>
       (handle vt locked ev (with_net answers rooms s) = Hang \<longrightarrow> kept_waiting ev (with_net answers rooms s)))"
  by (rule protocol.started_safe [OF assms])

definition quiet_vt :: "nat ymo_proto_vt" where
  "quiet_vt = \<lparr>init_cb = YMO_OKAY, cleanup_cb = False, conn_init_cb = (\<lambda>a s. Ret (Some 0, YMO_OKAY, s)), conn_ready_cb = None,
     conn_cleanup_cb = None, read_cb = (\<lambda>a ptr dat s. Ret (Inr (length dat), s)), write_cb = (\<lambda>a s. Ret (YMO_OKAY, s))\<rparr>"

lemma quiet_protocol: "protocol (\<lambda>_. quiet_vt) pr (\<lambda>_. True)"
  by unfold_locales (auto simp: quiet_vt_def intro: touched_refl)

text \<open>A server at work: created, initialised and started, with nothing connected yet.\<close>

definition plain_config :: ymo_server_config where
  "plain_config = \<lparr>user_init = None, user_cleanup = False, shut_answer = (\<lambda>_. YMO_OKAY)\<rparr>"

definition init_works :: init_answers where
  "init_works = \<lparr>a_socket = Inr 3, a_reuse = YMO_OKAY, a_nonblocking = YMO_OKAY, a_bind = YMO_OKAY, a_listen = YMO_OKAY\<rparr>"

lemma plain_started:
  assumes "init_cb (vt 0) = YMO_OKAY"
  shows "\<exists>s0 s1 s2. ymo_server_create vt plain_config 0 0x1000 True = (Some s0, []) \<and>
    ymo_server_init init_works s0 = (YMO_OKAY, s1) \<and> ymo_server_start None s1 = (YMO_OKAY, s2) \<and>
    s_state s2 = YMO_SERVER_STARTED \<and> conns s2 = Map.empty \<and> recv_buf s2 = 0x1000 \<and> s_proto s2 = 0 \<and>
    s_config s2 = plain_config \<and> \<not> multiproc s2"
  using assms
  by (simp add: ymo_server_create_def ymo_server_init_def ymo_server_init_socket_def ymo_server_start_def server_new_def
      init_works_def server_call_def)

lemma small_turn:
  assumes "enabled ev s" "recv_buf s = 0x1000" "handle vt locked ev (with_net [] [] s) = Ret s'"
  shows "(server_step vt)\<^sup>*\<^sup>* s s'"
  by (rule r_into_rtranclp, rule turn [OF assms(1) _ assms(3)])
    (simp add: net_ok_def with_net_def YMO_SERVER_RECV_BUF_SIZE_def assms(2))

lemma small_input: "recv_buf s = 0x1000 \<Longrightarrow> net_ok (with_net [Rcv [1, 2], Rcv_eof] [] s)"
  by (simp add: net_ok_def with_net_def YMO_SERVER_RECV_BUF_SIZE_def)

theorem server_safe_witness:
  "\<exists>s2 s :: nat ymo_server. (server_step (\<lambda>_. quiet_vt))\<^sup>*\<^sup>* s2 s \<and> conns s2 64 = None \<and> conns s 64 \<noteq> None \<and>
     unat (no_conn s) = card (dom (conns s)) \<and>
     handle (\<lambda>_. quiet_vt) False (Readable False 64) (with_net [Rcv [1, 2], Rcv_eof] [] s) \<noteq> Fault"
proof -
  obtain s0 s1 s2 where 1: "ymo_server_create (\<lambda>_. quiet_vt) plain_config 0 0x1000 True = (Some s0, [])"
      "ymo_server_init init_works s0 = (YMO_OKAY, s1)" "ymo_server_start None s1 = (YMO_OKAY, s2)"
      "s_state s2 = YMO_SERVER_STARTED" "conns s2 = Map.empty" "recv_buf s2 = 0x1000" "s_proto s2 = 0"
      "s_config s2 = plain_config" "\<not> multiproc s2"
    using plain_started [of "\<lambda>_. quiet_vt"] by (auto simp: quiet_vt_def)
  have "\<exists>s. handle (\<lambda>_. quiet_vt) False (Accept False 5 (Some 64)) (with_net [] [] s2) = Ret s \<and> conns s 64 \<noteq> None \<and>
      recv_buf s = 0x1000"
    using 1(4-)
    by (simp add: handle_def with_net_def ymo_accept_cb_def ymo_fd_accept_def ymo_conn_accept_def conn_proto_init_def
        quiet_vt_def on_conn_def get_conn_def put_conn_def plain_config_def)
  then obtain s where 2: "handle (\<lambda>_. quiet_vt) False (Accept False 5 (Some 64)) (with_net [] [] s2) = Ret s"
      "conns s 64 \<noteq> None" "recv_buf s = 0x1000"
    by (elim exE conjE)
  have 3: "(server_step (\<lambda>_. quiet_vt))\<^sup>*\<^sup>* s2 s"
    by (rule small_turn [OF _ 1(6) 2(1)]) (simp add: enabled_def 1)
  have "enabled (Readable False 64) s" using 2 by (simp add: enabled_def)
  with server_safe [OF quiet_protocol 1(1-3) 3] small_input [OF 2(3)]
  show ?thesis using 1(5) 2(2) 3 by (intro exI [of _ s2] exI [of _ s]) simp
qed

text \<open>
  C40: a connection whose protocol cannot be set up was never counted but is counted out when it is
  closed: on a server without connections the count wraps to \<open>2 ^ 64 - 1\<close>, and a graceful stop no longer
  ends the event loop.
\<close>

theorem failed_init_miscounts:
  assumes "conn_init_cb (vt (s_proto s)) = (\<lambda>a s. Ret (None, st, s))" "conn_cleanup_cb (vt (s_proto s)) = Some (\<lambda>a pd s. Ret s)"
    and "st \<noteq> YMO_OKAY" "conns s a = None" "0 < fd" "net_ok s" "Rcv_eof \<in> set (net s)" "s_state s = YMO_SERVER_STARTED"
  shows "\<exists>s'. ymo_accept_cb vt False fd (Some a) s = Ret s' \<and> conns s' = conns s \<and> no_conn s' = no_conn s - 1 \<and>
    (no_conn s = 0 \<longrightarrow> no_conn s' = - 1 \<and>
       (Ev_break \<in> set (s_calls (snd (ymo_server_stop_graceful s'))) \<longleftrightarrow> Ev_break \<in> set (s_calls s)))"
proof -
  define c where "c = (ymo_conn_create (s_proto s) fd :: 'a ymo_conn)"
  define s1 where "s1 = put_conn a c s"
  have i: "conn_proto_init vt (s_proto s) a s1 = Ret (st, put_conn a (c\<lparr>c_proto_data := None\<rparr>) s1)"
    using assms(1) by (simp add: conn_proto_init_def on_conn_def get_conn_def s1_def put_conn_def)
  have "ymo_accept_cb vt False fd (Some a) s = close_and_free_connection vt a True (put_conn a c s1)"
    using assms(3,5) i by (simp add: ymo_accept_cb_def ymo_fd_accept_def ymo_conn_accept_def s1_def c_def ymo_conn_create_def)
  moreover have "\<exists>s'. close_and_free_connection vt a True (put_conn a c s1) = Ret s' \<and> conns s' = conns s \<and>
      no_conn s' = no_conn s - 1 \<and> s_state s' = YMO_SERVER_STARTED \<and> (Ev_break \<in> set (s_calls s') \<longleftrightarrow> Ev_break \<in> set (s_calls s))"
    using assms(2,4,7,8) net_ok_answers [OF assms(6)]
    by (auto simp: close_and_free_connection_def get_conn_def put_conn_def s1_def c_def ymo_conn_create_def conn_close_eq
        close_waits_def Let_def run_conn_cleanup_def free_conn_def server_call_def fun_upd_idem)
  ultimately show ?thesis
    by (auto simp: ymo_server_stop_graceful_def Let_def server_call_def)
qed

definition failing_vt :: "nat ymo_proto_vt" where
  "failing_vt = \<lparr>init_cb = YMO_OKAY, cleanup_cb = False, conn_init_cb = (\<lambda>a s. Ret (None, ENOMEM, s)), conn_ready_cb = None,
     conn_cleanup_cb = Some (\<lambda>a pd s. Ret s), read_cb = (\<lambda>a ptr dat s. Fault), write_cb = (\<lambda>a s. Fault)\<rparr>"

theorem failed_init_miscounts_witness:
  "\<exists>s'. ymo_accept_cb (\<lambda>_. failing_vt) False 5 (Some 64)
      ((server_new plain_config 0 0x1000)
         \<lparr>s_state := YMO_SERVER_STARTED, net := [Rcv_eof]\<rparr>) = Ret s' \<and> no_conn s' = - 1"
  using failed_init_miscounts [of "\<lambda>_. failing_vt" "(server_new plain_config 0 0x1000)\<lparr>s_state := YMO_SERVER_STARTED, net := [Rcv_eof]\<rparr>" ENOMEM 64 5]
  by (auto simp: failing_vt_def server_new_def plain_config_def net_ok_def YMO_SERVER_RECV_BUF_SIZE_def)

end
