(* ===== verification/Ws_Frame.thy ===== *)
theory Ws_Frame
  imports Util Net
begin

text \<open>
  WebSocket frames: the session state of \<^verbatim>\<open>src/protocol/ws/ymo_ws_session.h\<close>, the frame buffer and the
  transmit side of \<^verbatim>\<open>ymo_ws_session.c\<close>, and the frame parser of \<^verbatim>\<open>ymo_ws_parse.c\<close>.  The parser functions
  return \<open>None\<close> for an access outside the memory they own, and otherwise the error number or the
  count of bytes consumed, with the session afterwards.
\<close>

section \<open>Constants and state\<close>

definition YMO_WS_FLAG_FIN :: byte where "YMO_WS_FLAG_FIN = 0x80"
definition YMO_WS_FLAG_RSV1 :: byte where "YMO_WS_FLAG_RSV1 = 0x40"
definition YMO_WS_FLAG_RSV2 :: byte where "YMO_WS_FLAG_RSV2 = 0x20"
definition YMO_WS_FLAG_RSV3 :: byte where "YMO_WS_FLAG_RSV3 = 0x10"
definition YMO_WS_MASK_OP :: byte where "YMO_WS_MASK_OP = 0x0f"
definition YMO_WS_OP_CONTINUATION :: byte where "YMO_WS_OP_CONTINUATION = 0x00"
definition YMO_WS_OP_TEXT :: byte where "YMO_WS_OP_TEXT = 0x01"
definition YMO_WS_OP_BINARY :: byte where "YMO_WS_OP_BINARY = 0x02"
definition YMO_WS_OP_CLOSE :: byte where "YMO_WS_OP_CLOSE = 0x08"
definition YMO_WS_OP_PING :: byte where "YMO_WS_OP_PING = 0x09"
definition YMO_WS_OP_PONG :: byte where "YMO_WS_OP_PONG = 0x0a"
definition YMO_WS_FLAG_MASKED :: byte where "YMO_WS_FLAG_MASKED = 0x80"
definition YMO_WS_MASK_LEN :: byte where "YMO_WS_MASK_LEN = 0x7f"
definition YMO_WS_FRAME_MAX :: nat where "YMO_WS_FRAME_MAX = 4096"
definition YMO_WS_FRAME_MIN :: nat where "YMO_WS_FRAME_MIN = 256"

lemmas ws_consts = YMO_WS_FLAG_FIN_def YMO_WS_FLAG_RSV1_def YMO_WS_FLAG_RSV2_def
  YMO_WS_FLAG_RSV3_def YMO_WS_MASK_OP_def YMO_WS_OP_CONTINUATION_def YMO_WS_OP_TEXT_def
  YMO_WS_OP_BINARY_def YMO_WS_OP_CLOSE_def YMO_WS_OP_PING_def YMO_WS_OP_PONG_def
  YMO_WS_FLAG_MASKED_def YMO_WS_MASK_LEN_def

datatype ws_session_state =
    WS_SESSION_CONNECTED | WS_SESSION_CLOSE_RECEIVED | WS_SESSION_EXPECT_CLOSE
  | WS_SESSION_CLOSED | WS_SESSION_ERROR

datatype ws_parse_state =
    WS_PARSE_OP | WS_PARSE_LEN | WS_PARSE_LEN_EXTENDED | WS_PARSE_MASKING_KEY
  | WS_PARSE_PAYLOAD | WS_PARSE_COMPLETE

text \<open>
  The frame being received.  \<open>f_idx\<close> is the byte that \<^verbatim>\<open>mask_mod\<close> and \<^verbatim>\<open>len_idx\<close> share; \<open>f_buffer\<close> is
  the block at \<^verbatim>\<open>buffer\<close> (\<open>None\<close>: \<open>NULL\<close>).
\<close>

record ymo_ws_frame =
  f_len :: u64
  f_parsed :: nat
  masking_key :: bytes
  parse_state :: ws_parse_state
  masked :: byte
  f_flags :: byte
  f_buffer :: "bytes option"
  f_buf_len :: nat
  f_idx :: byte

text \<open>A received bucket points at the frame buffer, with a length, or has no data at all.\<close>

datatype recv_bucket = Recv_empty | Recv_frame nat

text \<open>
  The chains are the buckets reachable from \<^verbatim>\<open>recv_head\<close> and \<^verbatim>\<open>send_head\<close>.  The tail pointer is the last
  bucket of its chain unless an allocation failed while the chain was not empty: then it is \<open>NULL\<close> or
  points into a detached chain, and \<open>recv_lost\<close> or \<open>send_lost\<close> holds.  \<open>'u\<close> is the application's
  \<^verbatim>\<open>user_data\<close>.
\<close>

record 'u ws_session =
  frame_in :: ymo_ws_frame
  recv_head :: "recv_bucket list"
  recv_lost :: bool
  send_head :: chain
  send_lost :: bool
  ws_state :: ws_session_state
  msg_type :: byte
  ws_utf8 :: utf8_state
  ws_msg :: "bytes option"
  msg_end :: nat
  msg_len :: nat
  user_data :: 'u
  acts :: "conn_act list"

text \<open>
  The memory the session can get: \<open>ws_alloc n\<close> is a block of \<open>n\<close> bytes with arbitrary contents, or \<open>NULL\<close>;
  \<open>ws_bucket\<close> tells whether bucket structures can be allocated.
\<close>

record ws_env =
  ws_alloc :: "nat \<Rightarrow> bytes option"
  ws_bucket :: bool

definition upd_frame :: "(ymo_ws_frame \<Rightarrow> ymo_ws_frame) \<Rightarrow> 'u ws_session \<Rightarrow> 'u ws_session" where
  "upd_frame f s = s\<lparr>frame_in := f (frame_in s)\<rparr>"

definition frame_zero :: ymo_ws_frame where
  "frame_zero = \<lparr>f_len = 0, f_parsed = 0, masking_key = replicate 4 0, parse_state = WS_PARSE_OP,
     masked = 0, f_flags = 0, f_buffer = None, f_buf_len = 0, f_idx = 0\<rparr>"

definition ymo_ws_session_create :: "'u \<Rightarrow> 'u ws_session" where
  "ymo_ws_session_create u = \<lparr>frame_in = frame_zero, recv_head = [], recv_lost = False,
     send_head = [], send_lost = False, ws_state = WS_SESSION_CONNECTED, msg_type = 0,
     ws_utf8 = utf8_state_reset, ws_msg = None, msg_end = 0, msg_len = 0, user_data = u, acts = []\<rparr>"

definition f_op :: "byte \<Rightarrow> byte" where "f_op packed = packed AND YMO_WS_MASK_OP"
definition f_fin :: "byte \<Rightarrow> bool" where "f_fin packed \<longleftrightarrow> packed AND YMO_WS_FLAG_FIN \<noteq> 0"

definition YMO_WS_FLAGS_RESERVED :: "byte \<Rightarrow> byte" where
  "YMO_WS_FLAGS_RESERVED f = f AND (YMO_WS_FLAG_RSV1 OR YMO_WS_FLAG_RSV2 OR YMO_WS_FLAG_RSV3)"

definition ymo_ws_session_alloc_frame ::
  "ws_env \<Rightarrow> nat \<Rightarrow> 'u ws_session \<Rightarrow> ymo_status \<times> 'u ws_session" where
  "ymo_ws_session_alloc_frame e len s =
     (if YMO_WS_FRAME_MAX < len then (ENOBUFS, s)
      else if f_buffer (frame_in s) \<noteq> None \<and> len \<le> f_buf_len (frame_in s) then (YMO_OKAY, s)
      else let len = max YMO_WS_FRAME_MIN len in
        case ws_alloc e len of
          None \<Rightarrow>
            (ENOMEM,
             if f_buffer (frame_in s) = None then s
             else upd_frame (\<lambda>f. f\<lparr>f_buffer := None, f_buf_len := 0\<rparr>) s)
        | Some b \<Rightarrow> (YMO_OKAY, upd_frame (\<lambda>f. f\<lparr>f_buffer := Some b, f_buf_len := len\<rparr>) s))"

section \<open>The header of a frame\<close>

type_synonym 'u ws_result = "((ymo_status + nat) \<times> 'u ws_session) option"

definition ymo_ws_parse_op :: "'u ws_session \<Rightarrow> bytes \<Rightarrow> 'u ws_result" where
  "ymo_ws_parse_op s input =
     (case input of
        [] \<Rightarrow> None
      | packed # _ \<Rightarrow>
          let s = upd_frame (\<lambda>f. f\<lparr>f_flags := packed\<rparr>) s;
              op_code = f_op packed;
              fin_required = op_code \<in> {YMO_WS_OP_CLOSE, YMO_WS_OP_PING, YMO_WS_OP_PONG}
          in Some (
            if YMO_WS_FLAGS_RESERVED packed \<noteq> 0 then (Inl EBADMSG, s)
            else if op_code \<notin> {YMO_WS_OP_CLOSE, YMO_WS_OP_CONTINUATION, YMO_WS_OP_TEXT,
                YMO_WS_OP_BINARY, YMO_WS_OP_PING, YMO_WS_OP_PONG} then (Inl EBADMSG, s)
            else if op_code = YMO_WS_OP_CONTINUATION \<and> msg_type s = 0 then (Inl EINVAL, s)
            else if op_code \<in> {YMO_WS_OP_TEXT, YMO_WS_OP_BINARY} \<and> msg_type s \<noteq> 0 then (Inl EINVAL, s)
            else
              let s = (if op_code \<in> {YMO_WS_OP_TEXT, YMO_WS_OP_BINARY} \<and> \<not> f_fin packed
                       then s\<lparr>msg_type := op_code\<rparr> else s)
              in if fin_required \<and> \<not> f_fin packed then (Inl EBADMSG, s)
                 else (Inr 1, upd_frame (\<lambda>f. f\<lparr>parse_state := WS_PARSE_LEN\<rparr>) s)))"

definition ymo_ws_parse_len :: "ws_env \<Rightarrow> 'u ws_session \<Rightarrow> bytes \<Rightarrow> 'u ws_result" where
  "ymo_ws_parse_len e s input =
     (case input of
        [] \<Rightarrow> None
      | ch # _ \<Rightarrow>
          let s = upd_frame (\<lambda>f. f\<lparr>masked := ch AND YMO_WS_FLAG_MASKED\<rparr>) s;
              mlen = ch AND YMO_WS_MASK_LEN
          in Some (
            if masked (frame_in s) = 0 then (Inl EBADMSG, s)
            else if mlen \<le> 125 then
              (case ymo_ws_session_alloc_frame e (unat mlen)
                  (upd_frame (\<lambda>f. f\<lparr>f_len := ucast mlen, parse_state := WS_PARSE_MASKING_KEY\<rparr>) s) of
                 (st, s) \<Rightarrow> (if st \<noteq> YMO_OKAY then Inl st else Inr 1, s))
            else
              let s = upd_frame (\<lambda>f. f\<lparr>f_idx := (if mlen = 126 then 2 else 8),
                        parse_state := WS_PARSE_LEN_EXTENDED\<rparr>) s
              in (if f_flags (frame_in s) AND 0x08 \<noteq> 0 then Inl EBADMSG else Inr 1, s)))"

fun len_ext_loop :: "ymo_ws_frame \<Rightarrow> bytes \<Rightarrow> nat \<Rightarrow> ymo_ws_frame \<times> nat" where
  "len_ext_loop f [] n = (f, n)"
| "len_ext_loop f (c # cs) n =
     (if f_idx f = 0 then (f, n)
      else let i = f_idx f - 1 in
        len_ext_loop (f\<lparr>f_idx := i, f_len := f_len f + push_bit (8 * unat i) (ucast c)\<rparr>) cs (n + 1))"

definition ymo_ws_parse_len_ext :: "ws_env \<Rightarrow> 'u ws_session \<Rightarrow> bytes \<Rightarrow> 'u ws_result" where
  "ymo_ws_parse_len_ext e s input =
     (case len_ext_loop (frame_in s) input 0 of
        (f, n) \<Rightarrow>
          let s = upd_frame (\<lambda>_. f) s in Some (
          if f_idx f = 0 then
            if f_len f AND 0x8000000000000000 \<noteq> 0 then (Inl EBADMSG, s)
            else (case ymo_ws_session_alloc_frame e (unat (f_len f)) s of
                    (st, s) \<Rightarrow>
                      if st \<noteq> YMO_OKAY then (Inl st, s)
                      else (Inr n, upd_frame (\<lambda>f. f\<lparr>parse_state := WS_PARSE_MASKING_KEY\<rparr>) s))
          else (Inr n, s)))"

text \<open>A bucket for the receive callback, linked behind the last one.\<close>

definition push_recv :: "ws_env \<Rightarrow> recv_bucket \<Rightarrow> 'u ws_session \<Rightarrow> 'u ws_session" where
  "push_recv e b s =
     (if ws_bucket e then
        if recv_head s = [] then s\<lparr>recv_head := [b], recv_lost := False\<rparr>
        else if recv_lost s then s
        else s\<lparr>recv_head := recv_head s @ [b]\<rparr>
      else if recv_head s = [] then s else s\<lparr>recv_lost := True\<rparr>)"

fun masking_key_loop :: "ws_env \<Rightarrow> 'u ws_session \<Rightarrow> bytes \<Rightarrow> nat \<Rightarrow> 'u ws_result" where
  "masking_key_loop e s [] n = None"
| "masking_key_loop e s (c # cs) n =
     (let f = frame_in s in
      if 4 \<le> unat (f_idx f) then None
      else
        let s = upd_frame (\<lambda>f. f\<lparr>masking_key := (masking_key f)[unat (f_idx f) := c], f_idx := f_idx f + 1\<rparr>) s
        in if f_idx (frame_in s) = 4 then
             Some (Inr (n + 1),
               if f_len (frame_in s) \<noteq> 0
               then upd_frame (\<lambda>f. f\<lparr>parse_state := WS_PARSE_PAYLOAD\<rparr>) s
               else upd_frame (\<lambda>f. f\<lparr>parse_state := WS_PARSE_COMPLETE\<rparr>) (push_recv e Recv_empty s))
           else if cs = [] then Some (Inr (n + 1), s)
           else masking_key_loop e s cs (n + 1))"

definition ymo_ws_parse_masking_key :: "ws_env \<Rightarrow> 'u ws_session \<Rightarrow> bytes \<Rightarrow> 'u ws_result" where
  "ymo_ws_parse_masking_key e s input =
     (if masked (frame_in s) = 0 then Some (Inr 0, upd_frame (\<lambda>f. f\<lparr>parse_state := WS_PARSE_PAYLOAD\<rparr>) s)
      else masking_key_loop e s input 0)"

section \<open>Unmasking\<close>

definition YMO_PTR32_ALIGN_MASK :: u64 where "YMO_PTR32_ALIGN_MASK = 3"
definition YMO_PTR32_FLOOR :: "u64 \<Rightarrow> u64" where "YMO_PTR32_FLOOR p = p AND NOT YMO_PTR32_ALIGN_MASK"
definition YMO_PTR32_CEIL :: "u64 \<Rightarrow> u64" where
  "YMO_PTR32_CEIL p = (p + YMO_PTR32_ALIGN_MASK) AND NOT YMO_PTR32_ALIGN_MASK"

text \<open>A \<^verbatim>\<open>uint32_t\<close> load and store on a little-endian machine.\<close>

definition load32 :: "byte \<Rightarrow> byte \<Rightarrow> byte \<Rightarrow> byte \<Rightarrow> u32" where
  "load32 a b c d = ucast a OR push_bit 8 (ucast b) OR push_bit 16 (ucast c) OR push_bit 24 (ucast d)"

definition store32 :: "u32 \<Rightarrow> bytes" where
  "store32 w = [ucast w, ucast (drop_bit 8 w), ucast (drop_bit 16 w), ucast (drop_bit 24 w)]"

definition mask_byte :: "bytes \<Rightarrow> byte \<Rightarrow> byte" where
  "mask_byte key m = key ! unat (m mod 4)"

definition get_mask32 :: "bytes \<Rightarrow> byte \<Rightarrow> u32 \<times> byte" where
  "get_mask32 key m =
     (load32 (mask_byte key m) (mask_byte key (m + 1)) (mask_byte key (m + 2)) (mask_byte key (m + 3)), m + 4)"

text \<open>
  The loops of \<^verbatim>\<open>unmask_payload\<close>; they return what was written, what is left of the input, the space
  count \<^verbatim>\<open>parse_remain\<close> and \<^verbatim>\<open>mask_mod\<close>.  The input holds exactly the \<^verbatim>\<open>parse_len\<close> readable bytes.
\<close>

fun unmask_chars :: "bytes \<Rightarrow> u64 \<Rightarrow> u64 \<Rightarrow> byte \<Rightarrow> bytes \<Rightarrow> (bytes \<times> bytes \<times> u64 \<times> byte) option" where
  "unmask_chars key end remain m [] =
     (if end = 0 then Some ([], [], remain, m)
      else if remain = 0 then Some ([], [], remain - 1, m) else None)"
| "unmask_chars key end remain m (c # cs) =
     (if end = 0 then Some ([], c # cs, remain, m)
      else if remain = 0 then Some ([], c # cs, remain - 1, m)
      else case unmask_chars key (end - 1) (remain - 1) (m + 1) cs of
        None \<Rightarrow> None
      | Some (out, rest, remain', m') \<Rightarrow> Some ((c XOR mask_byte key m) # out, rest, remain', m'))"

fun unmask_words :: "u32 \<Rightarrow> u64 \<Rightarrow> u64 \<Rightarrow> bytes \<Rightarrow> (bytes \<times> bytes \<times> u64) option" where
  "unmask_words msk end remain input =
     (if end > 0 \<and> remain > 0 then
        (case input of
           a # b # c # d # rest \<Rightarrow>
             (case unmask_words msk (end - 4) (remain - 4) rest of
                None \<Rightarrow> None
              | Some (out, rest', remain') \<Rightarrow> Some (store32 (load32 a b c d XOR msk) @ out, rest', remain'))
         | _ \<Rightarrow> None)
      else Some ([], input, remain))"

declare unmask_words.simps [simp del]

text \<open>The unmasking of \<open>input\<close>, read at address \<open>rd\<close>.\<close>

definition unmask_bytes :: "bytes \<Rightarrow> byte \<Rightarrow> u64 \<Rightarrow> bytes \<Rightarrow> (bytes \<times> byte) option" where
  "unmask_bytes key m rd input =
     (let parse_len = word_of_nat (length input) :: u64;
          parse_end = rd + parse_len;
          end1 = min parse_len (YMO_PTR32_CEIL rd - rd)
      in case unmask_chars key end1 parse_len m input of
           None \<Rightarrow> None
         | Some (out1, in2, remain2, m2) \<Rightarrow>
             (let c_in = rd + word_of_nat (length out1);
                  (msk, m3) = get_mask32 key m2
              in case unmask_words msk (YMO_PTR32_FLOOR parse_end - c_in) remain2 in2 of
                   None \<Rightarrow> None
                 | Some (out2, in3, remain3) \<Rightarrow>
                     (let c_in = c_in + word_of_nat (length out2)
                      in case unmask_chars key (parse_end - c_in) remain3 m3 in3 of
                           None \<Rightarrow> None
                         | Some (out3, _, _, m4) \<Rightarrow> Some (out1 @ out2 @ out3, m4))))"

text \<open>
  \<^verbatim>\<open>unmask_payload\<close>: nothing is written for a pong; otherwise the bytes go to the frame buffer at the
  offset \<^verbatim>\<open>parsed\<close>.
\<close>

definition put_at :: "nat \<Rightarrow> bytes \<Rightarrow> bytes \<Rightarrow> bytes option" where
  "put_at pos bs blk =
     (if pos + length bs \<le> length blk then Some (take pos blk @ bs @ drop (pos + length bs) blk) else None)"

definition unmask_payload :: "u64 \<Rightarrow> bytes \<Rightarrow> ymo_ws_frame \<Rightarrow> ymo_ws_frame option" where
  "unmask_payload rd input f =
     (if f_op (f_flags f) = YMO_WS_OP_PONG then Some f
      else case unmask_bytes (masking_key f) (f_idx f) rd input of
        None \<Rightarrow> None
      | Some (out, m) \<Rightarrow>
          (case f_buffer f of
             None \<Rightarrow> if out = [] then Some (f\<lparr>f_idx := m\<rparr>) else None
           | Some blk \<Rightarrow>
               (case put_at (f_parsed f) out blk of
                  None \<Rightarrow> None
                | Some blk' \<Rightarrow> Some (f\<lparr>f_buffer := Some blk', f_idx := m\<rparr>))))"

text \<open>The UTF-8 check of \<^verbatim>\<open>ymo_ws_parse_payload\<close> reads \<open>n\<close> bytes of the frame buffer.\<close>

definition payload_utf8 :: "nat \<Rightarrow> nat \<Rightarrow> bool \<Rightarrow> 'u ws_session \<Rightarrow> (ymo_status + 'u ws_session) option" where
  "payload_utf8 pos n frame_done s =
     (let f = frame_in s;
          pos = (if f_op (f_flags f) = YMO_WS_OP_CLOSE \<and> pos = 0 then pos + 2 else pos)
      in case f_buffer f of
           None \<Rightarrow> None
         | Some blk \<Rightarrow>
             if length blk < pos + n then None
             else Some (case ymo_check_utf8 (ws_utf8 s) (take n (drop pos blk)) (frame_done \<and> f_fin (f_flags f)) of
                          Inl st \<Rightarrow> Inl st
                        | Inr u \<Rightarrow> Inr (s\<lparr>ws_utf8 := u\<rparr>)))"

definition payload_done :: "ws_env \<Rightarrow> 'u ws_session \<Rightarrow> 'u ws_session" where
  "payload_done e s =
     (let s = upd_frame (\<lambda>f. f\<lparr>parse_state := WS_PARSE_COMPLETE\<rparr>) s;
          packed = f_flags (frame_in s);
          op_code = f_op packed;
          s = (if op_code \<in> {YMO_WS_OP_CONTINUATION, YMO_WS_OP_TEXT, YMO_WS_OP_BINARY} \<and> f_fin packed
               then s\<lparr>msg_type := 0\<rparr> else s)
      in if op_code \<in> {YMO_WS_OP_CONTINUATION, YMO_WS_OP_TEXT, YMO_WS_OP_BINARY, YMO_WS_OP_CLOSE, YMO_WS_OP_PING}
         then push_recv e (Recv_frame (unat (f_len (frame_in s)))) s else s)"

definition ymo_ws_parse_payload :: "ws_env \<Rightarrow> 'u ws_session \<Rightarrow> u64 \<Rightarrow> bytes \<Rightarrow> 'u ws_result" where
  "ymo_ws_parse_payload e s rd input =
     (let f = frame_in s;
          pos = f_parsed f;
          parse_len = min (length input) (unat (f_len f - word_of_nat pos))
      in case unmask_payload rd (take parse_len input) f of
           None \<Rightarrow> None
         | Some f \<Rightarrow>
             (let f = f\<lparr>f_parsed := f_parsed f + parse_len\<rparr>;
                  s = upd_frame (\<lambda>_. f) s;
                  frame_done = (word_of_nat (f_parsed f) = f_len f)
              in case (if (f_op (f_flags f) = YMO_WS_OP_TEXT \<or> msg_type s = YMO_WS_OP_TEXT) \<and> f_len f \<noteq> 0
                       then payload_utf8 pos parse_len frame_done s else Some (Inr s)) of
                   None \<Rightarrow> None
                 | Some (Inl st) \<Rightarrow> Some (Inl st, s)
                 | Some (Inr s) \<Rightarrow> Some (Inr parse_len, if frame_done then payload_done e s else s)))"

section \<open>Sending\<close>

text \<open>\<^verbatim>\<open>gen_ws_msg_hdr\<close>: the block is allocated with the size of the header.\<close>

definition ws_hdr_bytes :: "byte \<Rightarrow> u64 \<Rightarrow> bytes" where
  "ws_hdr_bytes flag len =
     (if len \<le> 125 then [flag, ucast len]
      else if len \<le> 0xffff then [flag, 126, ucast (drop_bit 8 len AND 0xFF), ucast (len AND 0xFF)]
      else [flag, 127,
        ucast (drop_bit (8*7) len AND 0xFF), ucast (drop_bit (8*6) len AND 0xFF),
        ucast (drop_bit (8*5) len AND 0xFF), ucast (drop_bit (8*4) len AND 0xFF),
        ucast (drop_bit (8*3) len AND 0xFF), ucast (drop_bit (8*2) len AND 0xFF),
        ucast (drop_bit 8 len AND 0xFF), ucast (len AND 0xFF)])"

definition gen_ws_msg_hdr :: "ws_env \<Rightarrow> byte \<Rightarrow> u64 \<Rightarrow> bytes option" where
  "gen_ws_msg_hdr e flag len =
     (let hdr = ws_hdr_bytes flag len in
      case ws_alloc e (length hdr) of None \<Rightarrow> None | Some _ \<Rightarrow> Some hdr)"

definition push_send :: "ws_env \<Rightarrow> bytes \<Rightarrow> chain \<Rightarrow> 'u ws_session \<Rightarrow> 'u ws_session" where
  "push_send e hdr payload s =
     (if ws_bucket e then
        let chain = snd (ymo_bucket_create 1 [] payload (Some hdr) hdr) in
        if send_head s = [] then s\<lparr>send_head := chain, send_lost := (payload = [])\<rparr>
        else if send_lost s then s
        else s\<lparr>send_head := send_head s @ chain, send_lost := (payload = [])\<rparr>
      else if send_head s = [] then s else s\<lparr>send_lost := True\<rparr>)"

definition ymo_ws_session_send_no_check ::
  "ws_env \<Rightarrow> 'u ws_session \<Rightarrow> byte \<Rightarrow> chain \<Rightarrow> ymo_status \<times> 'u ws_session" where
  "ymo_ws_session_send_no_check e s flgs payload =
     (case gen_ws_msg_hdr e flgs (word_of_nat (ymo_bucket_len_all payload)) of
        None \<Rightarrow> (ENOMEM, s)
      | Some hdr \<Rightarrow>
          (let s = push_send e hdr payload s in (YMO_OKAY, s\<lparr>acts := acts s @ [Tx_enable True]\<rparr>)))"

definition ymo_ws_session_send ::
  "ws_env \<Rightarrow> 'u ws_session \<Rightarrow> byte \<Rightarrow> chain \<Rightarrow> ymo_status \<times> 'u ws_session" where
  "ymo_ws_session_send e s flgs payload =
     (if f_op flgs \<notin> {YMO_WS_OP_TEXT, YMO_WS_OP_BINARY, YMO_WS_OP_CONTINUATION, YMO_WS_OP_CLOSE,
          YMO_WS_OP_PING, YMO_WS_OP_PONG} then (EINVAL, s)
      else case ws_state s of
          WS_SESSION_CONNECTED \<Rightarrow> ymo_ws_session_send_no_check e s flgs payload
        | WS_SESSION_CLOSE_RECEIVED \<Rightarrow> (EADDRNOTAVAIL, s)
        | WS_SESSION_EXPECT_CLOSE \<Rightarrow> (EADDRNOTAVAIL, s)
        | WS_SESSION_CLOSED \<Rightarrow> (EPIPE, s)
        | WS_SESSION_ERROR \<Rightarrow> (ECONNABORTED, s))"

text \<open>\<^verbatim>\<open>ymo_ws_session_free\<close>: the buckets still queued, the message buffer and the frame buffer.\<close>

datatype ws_release = Ws_bucket release | Ws_free bytes | Ws_session

definition ymo_ws_session_free :: "'u ws_session option \<Rightarrow> ws_release list" where
  "ymo_ws_session_free session =
     (case session of
        None \<Rightarrow> []
      | Some s \<Rightarrow>
          map Ws_bucket (ymo_bucket_free_all (send_head s)) @
          (case ws_msg s of None \<Rightarrow> [] | Some m \<Rightarrow> [Ws_free m]) @
          (case f_buffer (frame_in s) of None \<Rightarrow> [] | Some b \<Rightarrow> [Ws_free b]) @ [Ws_session])"

section \<open>Unmasking is the byte-wise exclusive or\<close>

definition keystream :: "bytes \<Rightarrow> nat \<Rightarrow> bytes \<Rightarrow> bytes" where
  "keystream key i bs = map (\<lambda>j. bs ! j XOR key ! ((i + j) mod 4)) [0..<length bs]"

lemma keystream_Nil [simp]: "keystream key i [] = []"
  by (simp add: keystream_def)

lemma keystream_Cons [simp]:
  "keystream key i (c # cs) = (c XOR key ! (i mod 4)) # keystream key (Suc i) cs"
  by (simp add: keystream_def map_upt_Suc del: upt_Suc)

lemma length_keystream [simp]: "length (keystream key i bs) = length bs"
  by (simp add: keystream_def)

lemma keystream_append: "keystream key i (xs @ ys) = keystream key i xs @ keystream key (i + length xs) ys"
  by (induction xs arbitrary: i) auto

lemma keystream_mod4: "i mod 4 = j mod 4 \<Longrightarrow> keystream key i bs = keystream key j bs"
proof -
  assume "i mod 4 = j mod 4"
  then have "(i + k) mod 4 = (j + k) mod 4" for k by (metis mod_add_left_eq)
  then show ?thesis by (simp add: keystream_def)
qed

lemma keystream_invol: "keystream key i (keystream key i bs) = bs"
  by (rule nth_equalityI) (simp_all add: keystream_def xor.assoc)

lemma mask_byte_nat: "mask_byte key m = key ! (unat m mod 4)"
  by (simp add: mask_byte_def unat_mod)

lemma unat_byte_add_mod4: "unat (m + word_of_nat k :: byte) mod 4 = (unat m + k) mod 4"
proof -
  have "unat (m + word_of_nat k :: byte) = (unat m + k) mod 256"
    by (simp add: unat_word_ariths unat_of_nat take_bit_eq_mod mod_add_right_eq)
  then show ?thesis by (simp add: mod_mod_cancel)
qed

lemma unmask_chars_eq:
  assumes "unat end \<le> length cs" and "unat end \<le> unat remain"
  shows "unmask_chars key end remain m cs =
    Some (keystream key (unat m) (take (unat end) cs), drop (unat end) cs,
      remain - end, m + word_of_nat (unat end))"
  using assms
proof (induction cs arbitrary: "end" remain m)
  case Nil
  then have "end = 0" by (simp add: unat_eq_0)
  then show ?case by simp
next
  case (Cons c cs)
  show ?case
  proof (cases "end = 0")
    case False
    then have e: "unat end = Suc (unat (end - 1))" by (simp add: unat_minus_one unat_gt_0)
    with Cons.prems(2) have r: "remain \<noteq> 0" by auto
    then have r1: "unat (remain - 1) = unat remain - 1" by (simp add: unat_minus_one)
    have IH: "unmask_chars key (end - 1) (remain - 1) (m + 1) cs =
        Some (keystream key (unat (m + 1)) (take (unat (end - 1)) cs), drop (unat (end - 1)) cs,
          remain - end, m + 1 + word_of_nat (unat (end - 1)))"
      using Cons.IH [of "end - 1" "remain - 1" "m + 1"] Cons.prems e r1 by simp
    have k: "keystream key (unat (m + 1)) xs = keystream key (Suc (unat m)) xs" for xs
      using unat_byte_add_mod4 [of m 1] by (intro keystream_mod4) simp
    have "take (unat end) (c # cs) = c # take (unat (end - 1)) cs"
      "drop (unat end) (c # cs) = drop (unat (end - 1)) cs" using e by simp_all
    then show ?thesis using False r IH e by (simp add: k mask_byte_nat)
  qed simp
qed

lemma store_load_xor:
  "store32 (load32 a b c d XOR load32 k l m n) = [a XOR k, b XOR l, c XOR m, d XOR n]"
  by (auto simp: store32_def load32_def intro!: bit_eqI)
    (auto simp: bit_simps)

lemma get_mask32_keystream:
  "get_mask32 key m = (load32 (key ! (unat m mod 4)) (key ! (Suc (unat m) mod 4))
     (key ! (Suc (Suc (unat m)) mod 4)) (key ! (Suc (Suc (Suc (unat m))) mod 4)), m + 4)"
proof -
  have "unat (m + 1) mod 4 = Suc (unat m) mod 4" using unat_byte_add_mod4 [of m 1] by simp
  moreover have "unat (m + 2) mod 4 = Suc (Suc (unat m)) mod 4" using unat_byte_add_mod4 [of m 2] by simp
  moreover have "unat (m + 3) mod 4 = Suc (Suc (Suc (unat m))) mod 4"
  proof -
    have "unat m + 3 = Suc (Suc (Suc (unat m)))" by simp
    then show ?thesis using unat_byte_add_mod4 [of m 3] by (simp only: of_nat_numeral)
  qed
  ultimately show ?thesis by (simp only: get_mask32_def mask_byte_nat)
qed

lemma unmask_words_eq:
  assumes "4 dvd unat end" "unat end \<le> length cs" "unat end \<le> unat remain"
    and "msk = load32 (key ! (i mod 4)) (key ! (Suc i mod 4)) (key ! (Suc (Suc i) mod 4)) (key ! (Suc (Suc (Suc i)) mod 4))"
  shows "unmask_words msk end remain cs =
    Some (keystream key i (take (unat end) cs), drop (unat end) cs, remain - end)"
  using assms(1-3)
proof (induction "unat end div 4" arbitrary: "end" remain cs)
  case 0
  then have "end = 0" by (metis dvd_div_eq_0_iff unat_eq_0)
  then show ?case by (simp add: unmask_words.simps)
next
  case (Suc k)
  then have ge: "4 \<le> unat end" by presburger
  then have e: "unat (end - 4) = unat end - 4" "unat (remain - 4) = unat remain - 4"
    using Suc.prems(3) by (simp_all add: unat_sub word_le_nat_alt)
  have pos: "end > 0" "remain > 0" using ge Suc.prems(3) by (auto simp: word_less_nat_alt)
  obtain a b c d rest where cs: "cs = a # b # c # d # rest"
    using ge Suc.prems(2) by (cases cs; cases "tl cs"; cases "tl (tl cs)"; cases "tl (tl (tl cs))") auto
  have IH: "unmask_words msk (end - 4) (remain - 4) rest =
      Some (keystream key i (take (unat (end - 4)) rest), drop (unat (end - 4)) rest, remain - end)"
    using Suc.hyps(1) [of "end - 4" rest "remain - 4"] Suc.hyps(2) Suc.prems ge cs e by auto
  have td: "take (unat end) cs = a # b # c # d # take (unat (end - 4)) rest"
      "drop (unat end) cs = drop (unat (end - 4)) rest"
    using ge cs e(1) by (simp_all add: take_Cons' drop_Cons' eval_nat_numeral)
  have "keystream key (Suc (Suc (Suc (Suc i)))) xs = keystream key i xs" for xs
    by (rule keystream_mod4) presburger
  note k4 = this
  have ks: "keystream key i (a # b # c # d # xs) =
      store32 (load32 a b c d XOR msk) @ keystream key i xs" for xs
    unfolding assms(4) store_load_xor keystream_Cons k4 by simp
  show ?case
    unfolding td ks by (subst unmask_words.simps) (simp only: cs list.case IH option.case prod.case pos conj_ac simp_thms if_True)
qed

lemma ptr32_floor: "unat (YMO_PTR32_FLOOR p) = unat p - unat p mod 4"
proof -
  have m: "p AND 3 = p mod 4" using take_bit_eq_mask [of 2 p] by (simp add: take_bit_eq_mod mask_eq_exp_minus_1)
  have "YMO_PTR32_FLOOR p + (p AND 3) = p"
    unfolding YMO_PTR32_FLOOR_def YMO_PTR32_ALIGN_MASK_def
    by (subst disjunctive_add) (auto simp: bit_simps intro!: bit_eqI)
  then have "YMO_PTR32_FLOOR p = p - p mod 4" by (simp add: m algebra_simps)
  moreover have "p mod 4 \<le> p" by (simp add: word_le_nat_alt unat_mod)
  ultimately show ?thesis by (simp add: unat_sub unat_mod)
qed

lemma ptr32_ceil: "unat (YMO_PTR32_CEIL p - p) = (4 - unat p mod 4) mod 4"
proof -
  define q where "q = p + 3"
  have m: "q AND 3 = q mod 4" using take_bit_eq_mask [of 2 q] by (simp add: take_bit_eq_mod mask_eq_exp_minus_1)
  have "YMO_PTR32_CEIL p + (q AND 3) = q"
    unfolding YMO_PTR32_CEIL_def YMO_PTR32_ALIGN_MASK_def q_def
    by (subst disjunctive_add) (auto simp: bit_simps intro!: bit_eqI)
  then have "YMO_PTR32_CEIL p + q mod 4 = p + 3" unfolding m by (simp add: q_def)
  then have "YMO_PTR32_CEIL p = p + 3 - q mod 4" by (simp only: eq_diff_eq)
  then have d: "YMO_PTR32_CEIL p - p = 3 - q mod 4" by simp
  have u: "unat (q mod 4) = (unat p + 3) mod 4"
  proof -
    have "unat q = (unat p + 3) mod 2 ^ 64" by (simp add: q_def unat_word_ariths)
    moreover have "(4::nat) dvd 2 ^ 64" by simp
    ultimately have "unat q mod 4 = (unat p + 3) mod 4" by (simp only: mod_mod_cancel)
    then show ?thesis by (simp add: unat_mod)
  qed
  then have "q mod 4 \<le> 3" unfolding word_le_nat_alt by simp
  then have "unat (YMO_PTR32_CEIL p - p) = 3 - (unat p + 3) mod 4"
    unfolding d by (simp only: unat_sub u) simp
  moreover have "3 - (n + 3) mod 4 = (4 - n mod 4) mod 4" for n :: nat
  proof -
    define r where "r = n mod 4"
    have "(n + 3) mod 4 = (r + 3) mod 4" unfolding r_def by (simp only: mod_add_left_eq)
    moreover have "r = 0 \<or> r = 1 \<or> r = 2 \<or> r = 3" unfolding r_def by linarith
    ultimately show ?thesis unfolding r_def [symmetric] by (elim disjE) simp_all
  qed
  ultimately show ?thesis by simp
qed

lemma keystream_at: "unat m' mod 4 = (unat (m :: byte) + k) mod 4 \<Longrightarrow>
    keystream key (unat (m' :: byte)) bs = keystream key (unat m + k) bs"
  by (rule keystream_mod4)

lemma align4: "(r + (4 - r mod 4) mod 4) mod 4 = (0 :: nat)"
proof -
  have "r mod 4 = 0 \<or> r mod 4 = 1 \<or> r mod 4 = 2 \<or> r mod 4 = 3" by linarith
  moreover have "(r + (4 - r mod 4) mod 4) mod 4 = (r mod 4 + (4 - r mod 4) mod 4) mod 4"
    by (simp only: mod_add_left_eq)
  ultimately show ?thesis by (elim disjE) simp_all
qed

lemma words_span:
  assumes "A mod 4 = 0" "A \<le> (e :: nat)"
  shows "A \<le> e - e mod 4" "4 dvd (e - e mod 4 - A)"
proof -
  have e: "e - e mod 4 = 4 * (e div 4)" by (simp add: minus_mod_eq_mult_div)
  have A: "A = 4 * (A div 4)" using assms(1) by presburger
  have "A div 4 \<le> e div 4" using assms(2) by (rule div_le_mono)
  then show "A \<le> e - e mod 4" using e A by linarith
  show "4 dvd (e - e mod 4 - A)"
    unfolding e by (subst A) (simp only: diff_mult_distrib2 [symmetric] dvd_triv_left)
qed

text \<open>The first round, up to the alignment boundary.\<close>

lemma unmask_first:
  assumes n: "length input < 2 ^ 64" and a: "a = min (length input) ((4 - unat rd mod 4) mod 4)"
  shows "unmask_chars key (min (word_of_nat (length input)) (YMO_PTR32_CEIL rd - rd))
      (word_of_nat (length input)) m input =
    Some (keystream key (unat m) (take a input), drop a input, word_of_nat (length input - a), m + word_of_nat a)"
proof -
  let ?n = "length input" and ?w = "word_of_nat :: nat \<Rightarrow> u64"
  have le: "a \<le> ?n" by (simp add: a)
  have u: "unat (?w ?n) = ?n" "unat (?w a) = a"
    using n le by (simp_all add: unat_of_nat take_bit_nat_eq_self_iff)
  have "unat (min (?w ?n) (YMO_PTR32_CEIL rd - rd)) = min ?n ((4 - unat rd mod 4) mod 4)"
    unfolding min_def word_le_nat_alt by (simp only: if_distrib [of unat] u ptr32_ceil)
  then have e: "min (?w ?n) (YMO_PTR32_CEIL rd - rd) = ?w a"
    using u(2) a by (simp only: word_unat_eq_iff)
  have "?w ?n - ?w a = ?w (?n - a)" using le by (rule of_nat_diff [symmetric])
  then show ?thesis
    using unmask_chars_eq [of "?w a" input "?w ?n" key m] le unfolding e u by simp
qed

lemma unat_w64: "k < 2 ^ 64 \<Longrightarrow> unat (word_of_nat k :: u64) = k"
  by (simp add: unat_of_nat take_bit_nat_eq_self_iff)

lemma unat_add_small: "unat (p :: u64) + k < 2 ^ 64 \<Longrightarrow> unat (p + word_of_nat k) = unat p + k"
  by (simp add: unat_word_ariths unat_of_nat take_bit_nat_eq_self_iff)

text \<open>The three rounds together, whatever the alignment of the input.\<close>

lemma unmask_bytes_eq:
  assumes "unat rd + length input < 2 ^ 64"
  shows "\<exists>m'. unmask_bytes key m rd input = Some (keystream key (unat m) input, m') \<and>
     unat m' mod 4 = (unat m + length input) mod 4"
proof -
  let ?n = "length input" and ?w = "word_of_nat :: nat \<Rightarrow> u64"
  define a where "a = min ?n ((4 - unat rd mod 4) mod 4)"
  define pe where "pe = unat rd + ?n"
  define b where "b = (if a < ?n then pe - pe mod 4 - (unat rd + a) else 0)"
  define c where "c = ?n - a - b"
  define E where "E = YMO_PTR32_FLOOR (rd + ?w ?n) - (rd + ?w a)"
  have n: "?n < 2 ^ 64" using assms by simp
  have a: "a \<le> ?n" by (simp add: a_def)
  have A: "(unat rd + a) mod 4 = 0" if "a < ?n"
    using that align4 [of "unat rd"] by (simp add: a_def min_def split: if_splits)
  have b: "b \<le> ?n - a" "4 dvd b"
    using words_span [of "unat rd + a" pe] A by (auto simp: b_def pe_def)
  have u: "unat (rd + ?w ?n) = pe" "unat (rd + ?w a) = unat rd + a" "unat (?w (?n - a)) = ?n - a"
      "unat (?w c) = c"
    unfolding pe_def c_def using assms a by (intro unat_add_small unat_w64; simp)+
  have E: "unat E = b" if "a < ?n"
  proof -
    have "rd + ?w a \<le> YMO_PTR32_FLOOR (rd + ?w ?n)"
      using words_span(1) [of "unat rd + a" pe] A [OF that] a
      unfolding word_le_nat_alt ptr32_floor u by (simp add: pe_def)
    then show ?thesis using that unfolding E_def b_def by (simp only: unat_sub ptr32_floor u if_True)
  qed
  have w: "unmask_words (fst (get_mask32 key (m + word_of_nat a))) E (?w (?n - a)) (drop a input) =
      Some (keystream key (unat m + a) (take b (drop a input)), drop b (drop a input), ?w c)"
  proof (cases "a < ?n")
    case True
    have "?w c = ?w (?n - a) - ?w b" unfolding c_def using b(1) by (rule of_nat_diff)
    also have "?w b = E" by (simp flip: E [OF True])
    finally show ?thesis
      using unmask_words_eq [of E "drop a input" "?w (?n - a)" _ key "unat (m + word_of_nat a)"]
        E [OF True] b u(3) keystream_at [OF unat_byte_add_mod4]
      by (simp add: get_mask32_keystream)
  next
    case False
    then show ?thesis using a by (simp add: b_def c_def unmask_words.simps)
  qed
  define m3 where "m3 = snd (get_mask32 key (m + word_of_nat a))"
  have m3: "m3 = m + word_of_nat (a + 4)" by (simp add: m3_def get_mask32_def)
  have cin: "rd + ?w ?n - (rd + ?w a + ?w b) = ?w c"
    using a b(1) by (simp add: c_def of_nat_diff)
  have l: "unmask_chars key (?w c) (?w c) m3 (drop b (drop a input)) =
      Some (keystream key (unat m3) (drop b (drop a input)), [], 0, m3 + word_of_nat c)"
    using unmask_chars_eq [of "?w c" "drop b (drop a input)" "?w c" key m3] unfolding u
    by (simp add: c_def)
  have k3: "keystream key (unat m3) xs = keystream key (unat m + a + b) xs" for xs
  proof (rule keystream_mod4)
    obtain q where "b = 4 * q" using b(2) by (rule dvdE)
    then have "(unat m + a + b) mod 4 = (unat m + a) mod 4" by simp
    moreover have "unat m3 mod 4 = (unat m + a + 4) mod 4"
      unfolding m3 unat_byte_add_mod4 by (simp only: add.assoc)
    ultimately show "unat m3 mod 4 = (unat m + a + b) mod 4" by simp
  qed
  have "unmask_bytes key m rd input =
      Some (keystream key (unat m) (take a input) @ keystream key (unat m + a) (take b (drop a input)) @
        keystream key (unat m + a + b) (drop b (drop a input)), m3 + word_of_nat c)"
  proof -
    have len: "length (keystream key (unat m) (take a input)) = a"
        "length (keystream key (unat m + a) (take b (drop a input))) = b"
      using a b(1) by simp_all
    have g: "get_mask32 key (m + word_of_nat a) = (fst (get_mask32 key (m + word_of_nat a)), m3)"
      by (simp add: m3_def)
    show ?thesis
      unfolding unmask_bytes_def Let_def unmask_first [OF n a_def] option.case prod.case len
      by (subst g) (simp only: prod.case E_def [symmetric] w option.case len cin l k3)
  qed
  also have "keystream key (unat m) (take a input) @ keystream key (unat m + a) (take b (drop a input)) @
        keystream key (unat m + a + b) (drop b (drop a input)) = keystream key (unat m) input"
  proof -
    have "keystream key (unat m) input =
        keystream key (unat m) (take a input @ take b (drop a input) @ drop b (drop a input))"
      by (simp only: append_take_drop_id)
    moreover have "length (take a input) = a" "length (take b (drop a input)) = b" using a b(1) by simp_all
    ultimately show ?thesis by (simp only: keystream_append)
  qed
  finally have "unmask_bytes key m rd input = Some (keystream key (unat m) input, m3 + word_of_nat c)" .
  moreover have "m3 + word_of_nat c = m + word_of_nat (a + 4 + c)" by (simp add: m3)
  moreover have "(unat m + (a + 4 + c)) mod 4 = (unat m + ?n) mod 4"
  proof -
    obtain q where "b = 4 * q" using b(2) by (rule dvdE)
    then have "unat m + ?n = unat m + a + c + 4 * q" using a b(1) by (simp add: c_def)
    moreover have "unat m + (a + 4 + c) = unat m + a + c + 4" by simp
    ultimately show ?thesis by (simp only: mod_mult_self2 mod_add_self2)
  qed
  ultimately show ?thesis by (metis unat_byte_add_mod4)
qed

end
