(* ===== verification/Ws_Proto.thy ===== *)
theory Ws_Proto
  imports Ws_Frame
begin

text \<open>
  The WebSocket protocol of \<^verbatim>\<open>src/protocol/ws/ymo_proto_ws.c\<close>: the read and write callbacks the connection
  layer invokes, the delivery of frames to the application, the reassembly of fragmented messages,
  pings and the closing handshake.
\<close>

section \<open>Callbacks\<close>

text \<open>
  A receive callback gets the session (with its \<^verbatim>\<open>user_data\<close>), the first byte of the frame and the data;
  \<open>None\<close> is an access outside its memory.
\<close>

type_synonym 'u ws_recv_cb = "'u ws_session \<Rightarrow> byte \<Rightarrow> bytes \<Rightarrow> (ymo_status \<times> 'u ws_session) option"

definition recv_data :: "recv_bucket \<Rightarrow> ymo_ws_frame \<Rightarrow> bytes option" where
  "recv_data b f =
     (case b of
        Recv_empty \<Rightarrow> Some []
      | Recv_frame n \<Rightarrow>
          (case f_buffer f of
             None \<Rightarrow> if n = 0 then Some [] else None
           | Some blk \<Rightarrow> if n \<le> length blk then Some (take n blk) else None))"

fun recv_loop ::
  "'u ws_recv_cb \<Rightarrow> ymo_status \<Rightarrow> recv_bucket list \<Rightarrow> 'u ws_session \<Rightarrow> (ymo_status \<times> 'u ws_session) option" where
  "recv_loop cb st [] s = Some (st, s)"
| "recv_loop cb st (b # bs) s =
     (case recv_data b (frame_in s) of
        None \<Rightarrow> None
      | Some d \<Rightarrow>
          (case cb s (f_flags (frame_in s)) d of
             None \<Rightarrow> None
           | Some (st, s) \<Rightarrow> if st \<noteq> YMO_OKAY then Some (st, s) else recv_loop cb st bs s))"

definition invoke_recv_callback ::
  "'u ws_recv_cb \<Rightarrow> 'u ws_session \<Rightarrow> (ymo_status \<times> 'u ws_session) option" where
  "invoke_recv_callback cb s =
     (case recv_loop cb ENOENT (recv_head s) s of
        None \<Rightarrow> None
      | Some (st, s) \<Rightarrow> Some (st, s\<lparr>recv_head := [], recv_lost := False\<rparr>))"

text \<open>\<^verbatim>\<open>YMO_BUCKET_FROM_CPY\<close> in the memory the session can get.\<close>

definition bucket_from_cpy :: "ws_env \<Rightarrow> bytes \<Rightarrow> chain option" where
  "bucket_from_cpy e dat =
     map_option snd (ymo_bucket_create_cpy
       (if \<not> ws_bucket e then 0 else if ws_alloc e (length dat) = None then 1 else 2) [] [] dat)"

definition ws_echo_cb :: "ws_env \<Rightarrow> 'u ws_recv_cb" where
  "ws_echo_cb e s flgs dat =
     (let flgs = (if f_op flgs = YMO_WS_OP_PING then (flgs AND NOT YMO_WS_MASK_OP) OR YMO_WS_OP_PONG else flgs)
      in case bucket_from_cpy e dat of
           None \<Rightarrow> None
         | Some payload \<Rightarrow> Some (ymo_ws_session_send_no_check e s flgs payload))"

text \<open>\<^verbatim>\<open>ws_buffer_msg\<close>: fragments are collected in a block of \<^verbatim>\<open>YMO_WS_MSG_LEN_MAX\<close> bytes.\<close>

definition YMO_WS_MSG_LEN_MAX :: nat where "YMO_WS_MSG_LEN_MAX = 4096"

definition ws_buffer_msg :: "ws_env \<Rightarrow> 'u ws_recv_cb \<Rightarrow> 'u ws_recv_cb" where
  "ws_buffer_msg e msg_cb s flgs dat =
     (if dat = [] then Some (YMO_OKAY, s)
      else
        let s = (if ws_msg s = None \<and> ws_alloc e YMO_WS_MSG_LEN_MAX \<noteq> None
                 then s\<lparr>ws_msg := ws_alloc e YMO_WS_MSG_LEN_MAX, msg_end := 0, msg_len := 0\<rparr> else s)
        in case ws_msg s of
             None \<Rightarrow> Some (ENOMEM, s)
           | Some blk \<Rightarrow>
               if YMO_WS_MSG_LEN_MAX - msg_len s < length dat then Some (EFBIG, s)
               else case put_at (msg_end s) dat blk of
                 None \<Rightarrow> None
               | Some blk \<Rightarrow>
                   (let s = s\<lparr>ws_msg := Some blk, msg_end := msg_end s + length dat\<rparr> in
                    if f_fin flgs
                    then map_option (\<lambda>(st, s). (st, s\<lparr>msg_end := 0, msg_len := 0\<rparr>))
                           (msg_cb s flgs (take (msg_len s) blk))
                    else Some (YMO_OKAY, s)))"

section \<open>Closing\<close>

definition reason_bytes :: "u16 \<Rightarrow> bytes" where
  "reason_bytes reason = [ucast (drop_bit 8 reason), ucast (reason AND 0xff)]"

definition send_ws_close :: "ws_env \<Rightarrow> 'u ws_session \<Rightarrow> u16 \<Rightarrow> (ymo_status \<times> 'u ws_session) option" where
  "send_ws_close e s reason =
     (case bucket_from_cpy e (reason_bytes reason) of
        None \<Rightarrow> None
      | Some payload \<Rightarrow>
          Some (ymo_ws_session_send_no_check e s (YMO_WS_OP_CLOSE OR YMO_WS_FLAG_FIN) payload))"

definition ws_err_close :: "ws_env \<Rightarrow> 'u ws_session \<Rightarrow> u16 \<Rightarrow> 'u ws_session option" where
  "ws_err_close e s reason =
     (if ws_state s \<noteq> WS_SESSION_ERROR
      then map_option snd (send_ws_close e (s\<lparr>ws_state := WS_SESSION_ERROR\<rparr>) reason)
      else Some s)"

fun close_vals :: "ymo_ws_frame \<Rightarrow> recv_bucket list \<Rightarrow> bytes \<Rightarrow> bytes option" where
  "close_vals f [] vals = Some vals"
| "close_vals f (b # bs) vals =
     (if 2 \<le> length vals then Some vals
      else case recv_data b f of
        None \<Rightarrow> None
      | Some d \<Rightarrow> close_vals f bs (vals @ take (2 - length vals) d))"

definition get_close_reason :: "'u ws_session \<Rightarrow> u16 option option" where
  "get_close_reason s =
     map_option (\<lambda>vals. case vals of [a, b] \<Rightarrow> Some (push_bit 8 (ucast a) OR ucast b) | _ \<Rightarrow> None)
       (close_vals (frame_in s) (recv_head s) [])"

definition is_reason_valid :: "u16 \<Rightarrow> bool" where
  "is_reason_valid reason =
     (if 1000 \<le> reason \<and> reason < 3000
      then reason \<in> {1000, 1001, 1002, 1003, 1007, 1008, 1009, 1010, 1011}
      else 3000 \<le> reason)"

definition handle_client_close :: "ws_env \<Rightarrow> 'u ws_session \<Rightarrow> nat \<Rightarrow> 'u ws_result" where
  "handle_client_close e s len =
     (let expected_close = (ws_state s = WS_SESSION_EXPECT_CLOSE);
          s = s\<lparr>ws_state := WS_SESSION_CLOSE_RECEIVED\<rparr>
      in if \<not> expected_close then
           case get_close_reason s of
             None \<Rightarrow> None
           | Some r \<Rightarrow>
               if (case r of None \<Rightarrow> False | Some reason \<Rightarrow> \<not> is_reason_valid reason)
               then map_option (\<lambda>s. (Inr len, s)) (ws_err_close e s 1002)
               else (case invoke_recv_callback (ws_echo_cb e) s of
                       None \<Rightarrow> None
                     | Some (st, s) \<Rightarrow> Some (Inl EAGAIN, s\<lparr>acts := acts s @ [Tx_now]\<rparr>))
         else Some (Inr len, s\<lparr>acts := acts s @ [Conn_shutdown]\<rparr>))"

definition reason_from_errno :: "ymo_status \<Rightarrow> u16" where
  "reason_from_errno err_rc =
     (case err_rc of
        YMO_OKAY \<Rightarrow> 1000
      | EPIPE \<Rightarrow> 1001 | EADDRNOTAVAIL \<Rightarrow> 1001 | ENOPROTOOPT \<Rightarrow> 1001
      | EPROTOTYPE \<Rightarrow> 1002 | EINVAL \<Rightarrow> 1002 | EBADMSG \<Rightarrow> 1002
      | ENOSYS \<Rightarrow> 1003 | EPROTONOSUPPORT \<Rightarrow> 1003 | ENOTSUP \<Rightarrow> 1003
      | EILSEQ \<Rightarrow> 1007
      | ECONNREFUSED \<Rightarrow> 1008 | EACCES \<Rightarrow> 1008
      | EFBIG \<Rightarrow> 1009 | EMSGSIZE \<Rightarrow> 1009 | EOVERFLOW \<Rightarrow> 1009
      | _ \<Rightarrow> 1011)"

section \<open>Reading\<close>

definition ws_parse_step :: "ws_env \<Rightarrow> 'u ws_session \<Rightarrow> u64 \<Rightarrow> bytes \<Rightarrow> 'u ws_result" where
  "ws_parse_step e s rd input =
     (case parse_state (frame_in s) of
        WS_PARSE_OP \<Rightarrow> ymo_ws_parse_op s input
      | WS_PARSE_LEN \<Rightarrow> ymo_ws_parse_len e s input
      | WS_PARSE_LEN_EXTENDED \<Rightarrow> ymo_ws_parse_len_ext e s input
      | WS_PARSE_MASKING_KEY \<Rightarrow> ymo_ws_parse_masking_key e s input
      | WS_PARSE_PAYLOAD \<Rightarrow> ymo_ws_parse_payload e s rd input
      | WS_PARSE_COMPLETE \<Rightarrow> Some (Inr 0, s))"

text \<open>
  The parse loop of \<^verbatim>\<open>ymo_proto_ws_read\<close>, left on an error, when the frame is complete or at the end of the
  input.  Every turn but one per frame consumes input, so twice the input length is enough fuel.
\<close>

fun ws_parse_loop :: "nat \<Rightarrow> ws_env \<Rightarrow> 'u ws_session \<Rightarrow> u64 \<Rightarrow> bytes \<Rightarrow> nat \<Rightarrow> 'u ws_result" where
  "ws_parse_loop 0 e s rd input n = None"
| "ws_parse_loop (Suc fuel) e s rd input n =
     (if parse_state (frame_in s) = WS_PARSE_COMPLETE then Some (Inr n, s)
      else case ws_parse_step e s rd input of
        None \<Rightarrow> None
      | Some (Inl st, s) \<Rightarrow> Some (Inl st, s)
      | Some (Inr k, s) \<Rightarrow>
          if drop k input \<noteq> [] then ws_parse_loop fuel e s (rd + word_of_nat k) (drop k input) (n + k)
          else Some (Inr (n + k), s))"

text \<open>The reset of \<^verbatim>\<open>frame_in\<close> after a frame, keeping its buffer.\<close>

definition frame_reset :: "ymo_ws_frame \<Rightarrow> ymo_ws_frame" where
  "frame_reset f = frame_zero\<lparr>f_buffer := f_buffer f, f_buf_len := f_buf_len f\<rparr>"

definition ws_frame_complete ::
  "ws_env \<Rightarrow> 'u ws_recv_cb \<Rightarrow> 'u ws_session \<Rightarrow> nat \<Rightarrow> nat \<Rightarrow> 'u ws_result" where
  "ws_frame_complete e recv_cb s len_in n =
     (let op_code = f_op (f_flags (frame_in s));
          finish = (\<lambda>r. case r of
              None \<Rightarrow> None
            | Some (cb_status, s) \<Rightarrow>
                if cb_status = YMO_OKAY then Some (Inr n, upd_frame frame_reset s)
                else map_option (\<lambda>s. (Inr len_in, s)) (ws_err_close e s 1002))
      in if op_code \<in> {YMO_WS_OP_CONTINUATION, YMO_WS_OP_TEXT, YMO_WS_OP_BINARY} then
           (if ws_state s = WS_SESSION_CONNECTED then finish (invoke_recv_callback recv_cb s)
            else Some (Inr len_in, s))
         else if op_code = YMO_WS_OP_CLOSE then handle_client_close e s len_in
         else if op_code = YMO_WS_OP_PING then finish (invoke_recv_callback (ws_echo_cb e) s)
         else if op_code = YMO_WS_OP_PONG then finish (Some (YMO_OKAY, s))
         else map_option (\<lambda>s. (Inr len_in, s)) (ws_err_close e s 1002))"

definition ymo_proto_ws_read ::
  "ws_env \<Rightarrow> 'u ws_recv_cb \<Rightarrow> 'u ws_session \<Rightarrow> u64 \<Rightarrow> bytes \<Rightarrow> 'u ws_result" where
  "ymo_proto_ws_read e recv_cb s rd input =
     (if ws_state s = WS_SESSION_CLOSE_RECEIVED \<or> ws_state s = WS_SESSION_ERROR
      then Some (Inr (length input), s)
      else case ws_parse_loop (Suc (2 * length input)) e s rd input 0 of
        None \<Rightarrow> None
      | Some (Inl st, s) \<Rightarrow> map_option (\<lambda>s. (Inr (length input), s)) (ws_err_close e s (reason_from_errno st))
      | Some (Inr n, s) \<Rightarrow>
          if parse_state (frame_in s) = WS_PARSE_COMPLETE
          then ws_frame_complete e recv_cb s (length input) n
          else Some (Inr n, s))"

section \<open>Writing and the other callbacks\<close>

definition YMO_WS_SHOULD_CLOSE_ON_WRITE :: "ws_session_state \<Rightarrow> bool" where
  "YMO_WS_SHOULD_CLOSE_ON_WRITE st \<longleftrightarrow>
     st = WS_SESSION_CLOSED \<or> st = WS_SESSION_CLOSE_RECEIVED \<or> st = WS_SESSION_ERROR"

text \<open>\<open>sender\<close> is the transmission of a chain (plain or TLS): status, bytes on the wire, remaining chain.\<close>

definition ymo_proto_ws_write ::
  "(chain \<Rightarrow> (ymo_status \<times> bytes \<times> chain) option) \<Rightarrow> 'u ws_session \<Rightarrow>
   (ymo_status \<times> bytes \<times> 'u ws_session) option" where
  "ymo_proto_ws_write sender s =
     (if send_head s = [] then Some (YMO_OKAY, [], s\<lparr>acts := acts s @ [Tx_enable False]\<rparr>)
      else case sender (send_head s) of
        None \<Rightarrow> None
      | Some (st, wire, rest) \<Rightarrow>
          Some (st, wire,
            if st = YMO_OKAY then
              (let s = s\<lparr>send_head := [], send_lost := False\<rparr> in
               if YMO_WS_SHOULD_CLOSE_ON_WRITE (ws_state s) then s\<lparr>acts := acts s @ [Conn_shutdown]\<rparr> else s)
            else s\<lparr>send_head := rest\<rparr>))"

definition YMO_WS_SERVER_BUFFERED :: byte where "YMO_WS_SERVER_BUFFERED = 0x01"

text \<open>\<^verbatim>\<open>ymo_proto_ws_create\<close>: the receive callback the protocol will use.\<close>

definition ymo_proto_ws_create :: "ws_env \<Rightarrow> byte \<Rightarrow> 'u ws_recv_cb \<Rightarrow> 'u ws_recv_cb" where
  "ymo_proto_ws_create e flgs recv_cb =
     (if flgs AND YMO_WS_SERVER_BUFFERED \<noteq> 0 then ws_buffer_msg e recv_cb else recv_cb)"

definition ymo_proto_ws_conn_init :: "bool \<Rightarrow> 'u \<Rightarrow> 'u ws_session option" where
  "ymo_proto_ws_conn_init got u = (if got then Some (ymo_ws_session_create u) else None)"

definition ymo_proto_ws_conn_ready ::
  "('u ws_session \<Rightarrow> ymo_status \<times> 'u ws_session) option \<Rightarrow> 'u ws_session \<Rightarrow> ymo_status \<times> 'u ws_session" where
  "ymo_proto_ws_conn_ready connect_cb s =
     (case connect_cb of
        None \<Rightarrow> (YMO_OKAY, s)
      | Some cb \<Rightarrow> cb (s\<lparr>acts := acts s @ [Tx_enable True, Rx_enable True]\<rparr>))"

definition ymo_proto_ws_conn_cleanup ::
  "('u ws_session \<Rightarrow> 'u ws_session) \<Rightarrow> 'u ws_session option \<Rightarrow> ws_release list" where
  "ymo_proto_ws_conn_cleanup close_cb conn_data =
     (case conn_data of None \<Rightarrow> [] | Some s \<Rightarrow> ymo_ws_session_free (Some (close_cb s)))"

end
