(* ===== verification/Ws_Client.thy ===== *)
theory Ws_Client
  imports Ws_Proto
begin

text \<open>
  A client's side of the WebSocket framing (RFC 6455, section 5.2) as the reference for the parser:
  the bytes of a masked data frame, and the state of the session after any number of them.  The
  lemmas follow the parser through the frame, one call of a parse function at a time, whatever part
  of the frame each read delivers.
\<close>

section \<open>Lengths on the wire\<close>

text \<open>The \<open>k\<close> low bytes of \<open>n\<close>, most significant first.\<close>

fun be_bytes :: "nat \<Rightarrow> nat \<Rightarrow> bytes" where
  "be_bytes 0 n = []"
| "be_bytes (Suc k) n = word_of_nat (n div 256 ^ k) # be_bytes k n"

lemma length_be_bytes [simp]: "length (be_bytes k n) = k"
  by (induction k) auto

lemma high_part_step:
  fixes n i :: nat
  shows "n div 256 ^ Suc i * 256 ^ Suc i + (n div 256 ^ i mod 256) * 256 ^ i = n div 256 ^ i * 256 ^ i"
proof -
  define p where "p = (256::nat) ^ i"
  define q where "q = n div p"
  have "n div 256 ^ Suc i = q div 256"
    unfolding p_def q_def by (simp only: power_Suc mult.commute [of 256] div_mult2_eq)
  moreover have "256 ^ Suc i = 256 * p" by (simp add: p_def)
  ultimately have "n div 256 ^ Suc i * 256 ^ Suc i + q mod 256 * p = q div 256 * (256 * p) + q mod 256 * p"
    by (simp only:)
  also have "\<dots> = (q div 256 * 256 + q mod 256) * p" by (simp only: add_mult_distrib mult.assoc)
  finally show ?thesis by (simp only: p_def q_def div_mult_mod_eq)
qed

lemma push_bit_byte:
  "i < 8 \<Longrightarrow> push_bit (8 * i) (ucast (word_of_nat k :: byte) :: u64) = word_of_nat (k mod 256 * 256 ^ i)"
proof -
  have "(ucast (word_of_nat k :: byte) :: u64) = word_of_nat (k mod 256)"
    by (simp add: word_unat_eq_iff unsigned_ucast_eq unat_of_nat take_bit_eq_mod)
  moreover have "(2::nat) ^ (8 * i) = 256 ^ i" by (simp add: power_mult)
  ultimately show ?thesis by (simp add: push_bit_eq_mult power_mult)
qed

lemma unat_byte_small: "k < 256 \<Longrightarrow> unat (word_of_nat k :: byte) = k"
  by (simp add: unat_of_nat take_bit_nat_eq_self_iff)

lemma len_ext_be:
  assumes "i \<le> 8" "f_idx f = word_of_nat i" "f_len f = word_of_nat (n div 256 ^ i * 256 ^ i)"
    and "take i xs = take (length xs) (be_bytes i n)" "j = min i (length xs)"
  shows "len_ext_loop f xs m =
    (f\<lparr>f_idx := word_of_nat (i - j), f_len := word_of_nat (n div 256 ^ (i - j) * 256 ^ (i - j))\<rparr>, m + j)"
  using assms
proof (induction xs arbitrary: f i j m)
  case Nil
  then show ?case by (cases f) simp
next
  case (Cons x xs)
  show ?case
  proof (cases i)
    case 0
    with Cons.prems show ?thesis by (cases f) simp
  next
    case (Suc k)
    then have k: "k < 8" "unat (word_of_nat k :: byte) = k"
      using Cons.prems(1) by (auto intro: unat_byte_small)
    have x: "x = word_of_nat (n div 256 ^ k)" "take k xs = take (length xs) (be_bytes k n)"
      using Cons.prems(4) Suc by simp_all
    have nz: "f_idx f \<noteq> 0" "f_idx f - 1 = word_of_nat k"
    proof -
      have "unat (word_of_nat (Suc k) :: byte) = Suc k" using k(1) by (intro unat_byte_small) simp
      then show "f_idx f \<noteq> 0" using Cons.prems(2) Suc by (metis nat.distinct(1) unat_0)
      show "f_idx f - 1 = word_of_nat k" using Cons.prems(2) Suc by simp
    qed
    let ?f = "f\<lparr>f_idx := word_of_nat k, f_len := f_len f + push_bit (8 * k) (ucast x)\<rparr>"
    have "f_len ?f = word_of_nat (n div 256 ^ k * 256 ^ k)"
      unfolding x(1) using Cons.prems(3) Suc high_part_step [of n k]
      by (simp add: push_bit_byte k(1) del: of_nat_mult power_Suc flip: of_nat_add)
    then have "len_ext_loop ?f xs (m + 1) =
        (?f\<lparr>f_idx := word_of_nat (k - min k (length xs)),
           f_len := word_of_nat (n div 256 ^ (k - min k (length xs)) * 256 ^ (k - min k (length xs)))\<rparr>,
         m + 1 + min k (length xs))"
      using Cons.IH [of k ?f "min k (length xs)"] k(1) x(2) by simp
    then show ?thesis using nz k(2) Suc Cons.prems(5) by simp
  qed
qed

section \<open>A client's frame\<close>

text \<open>
  RFC 6455, section 5.2: the first byte, the length in one of its three encodings (\<open>ext\<close> extra
  bytes), the masking key, and the masked payload.
\<close>

definition ws_ext_ok :: "nat \<Rightarrow> nat \<Rightarrow> bool" where
  "ws_ext_ok ext n \<longleftrightarrow> ext = 0 \<and> n \<le> 125 \<or> ext = 2 \<or> ext = 8"

definition ws_len_field :: "nat \<Rightarrow> nat \<Rightarrow> bytes" where
  "ws_len_field ext n =
     (if ext = 0 then [0x80 OR word_of_nat n] else (if ext = 2 then 0xFE else 0xFF) # be_bytes ext n)"

definition ws_client_frame :: "byte \<Rightarrow> nat \<Rightarrow> bytes \<Rightarrow> bytes \<Rightarrow> bytes" where
  "ws_client_frame packed ext key payload =
     packed # ws_len_field ext (length payload) @ key @ keystream key 0 payload"

text \<open>What RFC 6455 allows as the first byte of a data frame when a message of type \<open>mt\<close> is open.\<close>

definition ws_data_op_ok :: "byte \<Rightarrow> byte \<Rightarrow> bool" where
  "ws_data_op_ok mt packed \<longleftrightarrow> YMO_WS_FLAGS_RESERVED packed = 0 \<and>
     (if mt = 0 then f_op packed \<in> {YMO_WS_OP_TEXT, YMO_WS_OP_BINARY} else f_op packed = YMO_WS_OP_CONTINUATION)"

definition ws_next_type :: "byte \<Rightarrow> byte \<Rightarrow> byte" where
  "ws_next_type mt packed =
     (if f_op packed \<in> {YMO_WS_OP_TEXT, YMO_WS_OP_BINARY} \<and> \<not> f_fin packed then f_op packed else mt)"

definition ws_is_text :: "byte \<Rightarrow> byte \<Rightarrow> bool" where
  "ws_is_text mt packed \<longleftrightarrow> f_op packed = YMO_WS_OP_TEXT \<or> ws_next_type mt packed = YMO_WS_OP_TEXT"

text \<open>The frame record after \<open>k\<close> bytes of such a frame.\<close>

definition ws_phase :: "byte \<Rightarrow> nat \<Rightarrow> bytes \<Rightarrow> bytes \<Rightarrow> nat \<Rightarrow> ymo_ws_frame \<Rightarrow> bool" where
  "ws_phase packed ext key payload k f \<longleftrightarrow>
     length (masking_key f) = 4 \<and> (\<forall>b. f_buffer f = Some b \<longrightarrow> length b = f_buf_len f) \<and>
     f_parsed f = k - (ext + 6) \<and>
     (if k = 0 then parse_state f = WS_PARSE_OP \<and> f_len f = 0 \<and> f_idx f = 0
      else f_flags f = packed \<and>
        (if k = 1 then parse_state f = WS_PARSE_LEN \<and> f_len f = 0 \<and> f_idx f = 0
         else masked f \<noteq> 0 \<and>
           (if k < ext + 2 then parse_state f = WS_PARSE_LEN_EXTENDED \<and> f_idx f = word_of_nat (ext + 2 - k) \<and>
              f_len f = word_of_nat (length payload div 256 ^ (ext + 2 - k) * 256 ^ (ext + 2 - k))
            else f_len f = word_of_nat (length payload) \<and>
              (\<exists>b. f_buffer f = Some b \<and> length payload \<le> length b \<and>
                 take (k - (ext + 6)) b = take (k - (ext + 6)) payload) \<and>
              (if k < ext + 6 then parse_state f = WS_PARSE_MASKING_KEY \<and> f_idx f = word_of_nat (k - (ext + 2)) \<and>
                 take (k - (ext + 2)) (masking_key f) = take (k - (ext + 2)) key
               else parse_state f = WS_PARSE_PAYLOAD \<and> masking_key f = key \<and>
                 unat (f_idx f) mod 4 = (k - (ext + 6)) mod 4))))"

text \<open>The session \<open>s0\<close> with the three fields that change while a frame is read.\<close>

definition ws_sess :: "'u ws_session \<Rightarrow> ymo_ws_frame \<Rightarrow> utf8_state \<Rightarrow> byte \<Rightarrow> 'u ws_session" where
  "ws_sess s0 f u m = s0\<lparr>frame_in := f, ws_utf8 := u, msg_type := m\<rparr>"

definition ws_at :: "'u ws_session \<Rightarrow> byte \<Rightarrow> nat \<Rightarrow> bytes \<Rightarrow> bytes \<Rightarrow> nat \<Rightarrow> 'u ws_session \<Rightarrow> bool" where
  "ws_at s0 packed ext key payload k s \<longleftrightarrow>
     (\<exists>f u. s = ws_sess s0 f u (if k = 0 then msg_type s0 else ws_next_type (msg_type s0) packed) \<and>
      ws_phase packed ext key payload k f \<and>
      (ws_is_text (msg_type s0) packed \<longrightarrow>
         (\<exists>u'. ymo_check_utf8 u (drop (k - (ext + 6)) payload) (f_fin packed) = Inr u')))"

definition ws_done :: "'u ws_session \<Rightarrow> byte \<Rightarrow> bytes \<Rightarrow> 'u ws_session \<Rightarrow> bool" where
  "ws_done s0 packed payload s \<longleftrightarrow>
     (\<exists>f u b. s = (ws_sess s0 f u (if f_fin packed then 0 else ws_next_type (msg_type s0) packed))
        \<lparr>recv_head := [Recv_frame (length payload)], recv_lost := False\<rparr> \<and>
      parse_state f = WS_PARSE_COMPLETE \<and> f_flags f = packed \<and> f_buffer f = Some b \<and>
      length b = f_buf_len f \<and> length payload \<le> length b \<and> take (length payload) b = payload)"

text \<open>The memory the parser needs is there.\<close>

definition ws_memory :: "ws_env \<Rightarrow> bool" where
  "ws_memory e \<longleftrightarrow> ws_bucket e \<and> (\<forall>n. \<exists>b. ws_alloc e n = Some b \<and> length b = n)"

lemma alloc_frame_ok:
  assumes "ws_memory e" "n \<le> YMO_WS_FRAME_MAX"
    and "\<forall>b. f_buffer (frame_in s) = Some b \<longrightarrow> length b = f_buf_len (frame_in s)"
  shows "\<exists>b. ymo_ws_session_alloc_frame e n s =
      (YMO_OKAY, upd_frame (\<lambda>f. f\<lparr>f_buffer := Some b, f_buf_len := length b\<rparr>) s) \<and> n \<le> length b"
proof (cases "f_buffer (frame_in s) \<noteq> None \<and> n \<le> f_buf_len (frame_in s)")
  case True
  then obtain b where b: "f_buffer (frame_in s) = Some b" "length b = f_buf_len (frame_in s)"
    using assms(3) by auto
  then have "upd_frame (\<lambda>f. f\<lparr>f_buffer := Some b, f_buf_len := length b\<rparr>) s = s"
    by (cases s; cases "frame_in s") (simp add: upd_frame_def)
  then have "ymo_ws_session_alloc_frame e n s =
      (YMO_OKAY, upd_frame (\<lambda>f. f\<lparr>f_buffer := Some b, f_buf_len := length b\<rparr>) s)"
    using True b assms(2) by (simp add: ymo_ws_session_alloc_frame_def)
  then show ?thesis using True b(2) by (intro exI [of _ b]) auto
next
  case False
  obtain b where "ws_alloc e (max YMO_WS_FRAME_MIN n) = Some b" "length b = max YMO_WS_FRAME_MIN n"
    using assms(1) by (auto simp: ws_memory_def)
  with False assms(2) show ?thesis
    by (intro exI [of _ b]) (auto simp: ymo_ws_session_alloc_frame_def Let_def)
qed

lemma upd_frame_simps [simp]:
  "frame_in (upd_frame g s) = g (frame_in s)" "upd_frame g (upd_frame h s) = upd_frame (g \<circ> h) s"
  "msg_type (upd_frame g s) = msg_type s" "ws_utf8 (upd_frame g s) = ws_utf8 s"
  "recv_head (upd_frame g s) = recv_head s" "recv_lost (upd_frame g s) = recv_lost s"
  "ws_state (upd_frame g s) = ws_state s"
  by (simp_all add: upd_frame_def)

lemma ws_sess_simps [simp]:
  "frame_in (ws_sess s0 f u m) = f" "ws_utf8 (ws_sess s0 f u m) = u" "msg_type (ws_sess s0 f u m) = m"
  "upd_frame g (ws_sess s0 f u m) = ws_sess s0 (g f) u m"
  "(ws_sess s0 f u m)\<lparr>msg_type := m'\<rparr> = ws_sess s0 f u m'"
  "(ws_sess s0 f u m)\<lparr>ws_utf8 := u'\<rparr> = ws_sess s0 f u' m"
  "recv_head (ws_sess s0 f u m) = recv_head s0" "ws_state (ws_sess s0 f u m) = ws_state s0"
  by (cases s0; simp add: ws_sess_def upd_frame_def)+

lemma ws_atI:
  "0 < k \<Longrightarrow> ws_phase packed ext key payload k f \<Longrightarrow>
   (ws_is_text (msg_type s0) packed \<longrightarrow>
      (\<exists>u'. ymo_check_utf8 u (drop (k - (ext + 6)) payload) (f_fin packed) = Inr u')) \<Longrightarrow>
   ws_at s0 packed ext key payload k (ws_sess s0 f u (ws_next_type (msg_type s0) packed))"
  unfolding ws_at_def by auto

lemma step_op:
  assumes at: "ws_at s0 packed ext key payload 0 s" and ok: "ws_data_op_ok (msg_type s0) packed"
  shows "\<exists>s'. ws_parse_step e s rd (packed # cs) = Some (Inr 1, s') \<and> ws_at s0 packed ext key payload 1 s'"
proof -
  obtain f u where s: "s = ws_sess s0 f u (msg_type s0)"
    and ph: "ws_phase packed ext key payload 0 f"
    and t: "ws_is_text (msg_type s0) packed \<longrightarrow> (\<exists>u'. ymo_check_utf8 u payload (f_fin packed) = Inr u')"
    using at by (auto simp: ws_at_def)
  let ?f = "f\<lparr>f_flags := packed, parse_state := WS_PARSE_LEN\<rparr>"
  let ?s = "ws_sess s0 ?f u (ws_next_type (msg_type s0) packed)"
  have "ws_parse_step e s rd (packed # cs) = Some (Inr 1, ?s)"
    using ph ok unfolding s
    by (cases "f_op packed = YMO_WS_OP_CONTINUATION")
      (auto simp: ws_parse_step_def ymo_ws_parse_op_def Let_def ws_data_op_ok_def ws_next_type_def
        ws_phase_def ws_consts split: if_splits)
  moreover have "ws_phase packed ext key payload 1 ?f"
    using ph by (simp add: ws_phase_def)
  ultimately show ?thesis using t by (auto simp: ws_at_def)
qed

lemma data_op_bit:
  "packed AND 0x0f = 0 \<or> packed AND 0x0f = 1 \<or> packed AND 0x0f = 2 \<longrightarrow> (packed :: byte) AND 8 = 0"
  by (rule all_bytesI [of _ packed]) (simp add: all_bytes_def)

lemma len_byte_bits: "(x :: byte) \<le> 125 \<longrightarrow> (0x80 OR x) AND 0x7f = x \<and> (0x80 OR x) AND 0x80 = 0x80"
  by (rule all_bytesI [of _ x]) (simp add: all_bytes_def)

lemma u64_of_byte: "n < 256 \<Longrightarrow> (ucast (word_of_nat n :: byte) :: u64) = word_of_nat n"
  by (simp add: word_unat_eq_iff unsigned_ucast_eq unat_of_nat take_bit_eq_mod)

lemma data_op_control: "ws_data_op_ok mt packed \<Longrightarrow> packed AND 8 = 0"
  by (rule data_op_bit [THEN mp]) (auto simp: ws_data_op_ok_def f_op_def ws_consts split: if_splits)

lemma step_len:
  assumes at: "ws_at s0 packed ext key payload 1 s" and ok: "ws_data_op_ok (msg_type s0) packed"
    and ext: "ws_ext_ok ext (length payload)" and max: "length payload \<le> YMO_WS_FRAME_MAX"
    and mem: "ws_memory e"
  shows "\<exists>s'. ws_parse_step e s rd (hd (ws_len_field ext (length payload)) # cs) = Some (Inr 1, s') \<and>
     ws_at s0 packed ext key payload 2 s'"
proof -
  obtain f u where s: "s = ws_sess s0 f u (ws_next_type (msg_type s0) packed)"
    and ph: "ws_phase packed ext key payload 1 f"
    and t: "ws_is_text (msg_type s0) packed \<longrightarrow> (\<exists>u'. ymo_check_utf8 u payload (f_fin packed) = Inr u')"
    using at by (auto simp: ws_at_def)
  let ?n = "length payload"
  show ?thesis
  proof (cases "ext = 0")
    case True
    then have n: "?n \<le> 125" using ext by (simp add: ws_ext_ok_def)
    then have w: "(word_of_nat ?n :: byte) \<le> 125" "unat (word_of_nat ?n :: byte) = ?n"
      by (simp_all add: word_le_nat_alt unat_byte_small)
    let ?f = "f\<lparr>masked := 0x80, f_len := word_of_nat ?n, parse_state := WS_PARSE_MASKING_KEY\<rparr>"
    let ?s = "ws_sess s0 ?f u (ws_next_type (msg_type s0) packed)"
    obtain b where b: "ymo_ws_session_alloc_frame e ?n ?s =
        (YMO_OKAY, upd_frame (\<lambda>f. f\<lparr>f_buffer := Some b, f_buf_len := length b\<rparr>) ?s)" "?n \<le> length b"
      using alloc_frame_ok [OF mem max, of ?s] ph by (auto simp: ws_phase_def)
    have "ws_parse_step e s rd (hd (ws_len_field ext ?n) # cs) =
        Some (Inr 1, upd_frame (\<lambda>f. f\<lparr>f_buffer := Some b, f_buf_len := length b\<rparr>) ?s)"
      using ph b(1) True n unfolding s
      by (simp add: ws_parse_step_def ws_phase_def ymo_ws_parse_len_def Let_def ws_consts ws_len_field_def
          len_byte_bits w u64_of_byte)
    moreover have "ws_phase packed ext key payload 2 (?f\<lparr>f_buffer := Some b, f_buf_len := length b\<rparr>)"
      using ph b(2) True by (simp add: ws_phase_def)
    ultimately show ?thesis using t by (auto simp: ws_at_def)
  next
    case False
    then have ext2: "ext = 2 \<or> ext = 8" using ext by (simp add: ws_ext_ok_def)
    let ?f = "f\<lparr>masked := 0x80, f_idx := word_of_nat ext, parse_state := WS_PARSE_LEN_EXTENDED\<rparr>"
    let ?s = "ws_sess s0 ?f u (ws_next_type (msg_type s0) packed)"
    have c: "f_flags f AND 8 = 0" using ph data_op_control [OF ok] by (simp add: ws_phase_def)
    have "ws_parse_step e s rd (hd (ws_len_field ext ?n) # cs) = Some (Inr 1, ?s)"
    proof -
      have p: "parse_state f = WS_PARSE_LEN" using ph by (simp add: ws_phase_def)
      have h: "hd (ws_len_field ext ?n) = (if ext = 2 then 0xFE else 0xFF)"
        using False by (simp add: ws_len_field_def)
      from ext2 show ?thesis unfolding s h
        by (elim disjE; simp add: p c ws_parse_step_def ymo_ws_parse_len_def Let_def ws_consts)
    qed
    moreover have "?n div 256 ^ ext = 0"
    proof (rule div_less)
      have "(256::nat) ^ 2 \<le> 256 ^ ext" using ext2 by (intro power_increasing) auto
      then show "?n < 256 ^ ext" using max by (simp add: YMO_WS_FRAME_MAX_def)
    qed
    then have "ws_phase packed ext key payload 2 ?f"
      using ph ext2 by (auto simp: ws_phase_def)
    ultimately show ?thesis using t by (auto simp: ws_at_def)
  qed
qed

lemma drop_be_bytes: "j \<le> k \<Longrightarrow> drop j (be_bytes k n) = be_bytes (k - j) n"
  by (induction k arbitrary: j) (auto simp: drop_Cons' le_Suc_eq Suc_diff_le)

lemma prefix_take:
  assumes "xs = take (length xs) (ys @ zs)"
  shows "take (length ys) xs = take (length xs) ys"
proof -
  have "take (length ys) xs = take (length ys) (take (length xs) (ys @ zs))" using assms by simp
  also have "\<dots> = take (length xs) (take (length ys) (ys @ zs))" by (simp only: take_take min.commute)
  finally show ?thesis by simp
qed

lemma top_bit_clear: "unat (w :: u64) < 2 ^ 63 \<Longrightarrow> w AND 0x8000000000000000 = 0"
proof -
  assume "unat w < 2 ^ 63"
  then have "\<not> bit (unat w) 63" by (simp add: bit_iff_odd)
  then have "\<not> bit w 63" by (simp add: bit_unsigned_iff)
  then have "w AND 2 ^ 63 = 0" unfolding and_exp_eq_0_iff_not_bit .
  then show ?thesis by simp
qed

lemma step_ext:
  assumes at: "ws_at s0 packed ext key payload k s" and k: "2 \<le> k" "k < ext + 2" and ext: "ws_ext_ok ext (length payload)"
    and max: "length payload \<le> YMO_WS_FRAME_MAX" and mem: "ws_memory e"
    and xs: "xs = take (length xs) (be_bytes (ext + 2 - k) (length payload) @ zs)" "xs \<noteq> []"
  shows "\<exists>s' n. ws_parse_step e s rd xs = Some (Inr n, s') \<and> 0 < n \<and> n \<le> length xs \<and>
     n \<le> ext + 2 - k \<and> ws_at s0 packed ext key payload (k + n) s'"
proof -
  let ?n = "length payload" and ?m = "ws_next_type (msg_type s0) packed" and ?i = "ext + 2 - k"
  obtain f u where s: "s = ws_sess s0 f u ?m"
    and ph: "ws_phase packed ext key payload k f"
    and t: "ws_is_text (msg_type s0) packed \<longrightarrow> (\<exists>u'. ymo_check_utf8 u payload (f_fin packed) = Inr u')"
    using at k by (auto simp: ws_at_def)
  have f: "length (masking_key f) = 4" "\<forall>b. f_buffer f = Some b \<longrightarrow> length b = f_buf_len f" "f_parsed f = 0"
      "f_flags f = packed" "masked f \<noteq> 0" "parse_state f = WS_PARSE_LEN_EXTENDED"
      "f_idx f = word_of_nat ?i" "f_len f = word_of_nat (?n div 256 ^ ?i * 256 ^ ?i)"
    using ph k by (simp_all add: ws_phase_def)
  define j where "j = min ?i (length xs)"
  have i: "?i \<le> 8" "0 < ?i" using k ext by (auto simp: ws_ext_ok_def)
  have j: "0 < j" "j \<le> length xs" "j \<le> ?i" using i xs(2) by (auto simp: j_def)
  define g where "g = f\<lparr>f_idx := word_of_nat (?i - j), f_len := word_of_nat (?n div 256 ^ (?i - j) * 256 ^ (?i - j))\<rparr>"
  have loop: "len_ext_loop f xs 0 = (g, j)"
    using len_ext_be [OF i(1) f(7,8) _ j_def, of 0] prefix_take [OF xs(1)] by (simp add: g_def)
  have idx: "unat (word_of_nat (?i - j) :: byte) = ?i - j" using i by (intro unat_byte_small) simp
  show ?thesis
  proof (cases "j = ?i")
    case False
    then have "(word_of_nat (?i - j) :: byte) \<noteq> 0" using idx j by (metis diff_is_0_eq le_antisym unat_0)
    then have "f_idx g \<noteq> 0" by (simp add: g_def)
    then have "ws_parse_step e s rd xs = Some (Inr j, ws_sess s0 g u ?m)"
      by (simp add: s f(6) ws_parse_step_def ymo_ws_parse_len_ext_def loop Let_def)
    moreover have "ws_phase packed ext key payload (k + j) g"
    proof -
      have "k + j < ext + 2" "ext + 2 - (k + j) = ?i - j" using k j False by auto
      then show ?thesis using f k j by (simp add: ws_phase_def g_def)
    qed
    ultimately show ?thesis using j t k False by (auto simp: ws_at_def)
  next
    case True
    have len: "f_len g = word_of_nat ?n" "f_idx g = 0" using True by (simp_all add: g_def)
    have un: "unat (word_of_nat ?n :: u64) = ?n" using max by (intro unat_w64) (simp add: YMO_WS_FRAME_MAX_def)
    then have "unat (word_of_nat ?n :: u64) < 2 ^ 63" using max by (simp add: YMO_WS_FRAME_MAX_def)
    then have top: "(word_of_nat ?n :: u64) AND 0x8000000000000000 = 0" by (rule top_bit_clear)
    let ?s = "ws_sess s0 g u ?m"
    obtain b where b: "ymo_ws_session_alloc_frame e ?n ?s =
        (YMO_OKAY, upd_frame (\<lambda>f. f\<lparr>f_buffer := Some b, f_buf_len := length b\<rparr>) ?s)" "?n \<le> length b"
      using alloc_frame_ok [OF mem max, of ?s] f(2) by (auto simp: g_def)
    let ?g = "g\<lparr>f_buffer := Some b, f_buf_len := length b, parse_state := WS_PARSE_MASKING_KEY\<rparr>"
    have "ws_parse_step e s rd xs = Some (Inr j, ws_sess s0 ?g u ?m)"
      unfolding s ws_parse_step_def ymo_ws_parse_len_ext_def
      by (simp add: f(6) loop len top un b(1) Let_def)
    moreover have "ws_phase packed ext key payload (k + j) ?g"
    proof -
      have "k + j = ext + 2" using k j True by auto
      then show ?thesis using f len b(2) by (simp add: ws_phase_def g_def)
    qed
    ultimately show ?thesis using j t k True by (auto simp: ws_at_def)
  qed
qed

lemma masking_loop:
  assumes "xs \<noteq> []" "f_idx f = word_of_nat j" "j < 4" "length (masking_key f) = 4" "length key = 4"
    "take j (masking_key f) = take j key" "xs = take (length xs) (drop j key @ zs)"
    "n = min (4 - j) (length xs)" "f_len f \<noteq> 0"
  shows "\<exists>mk. length mk = 4 \<and> take (j + n) mk = take (j + n) key \<and>
     masking_key_loop e (ws_sess s0 f u m) xs c = Some (Inr (c + n), ws_sess s0 (f\<lparr>masking_key := mk,
       f_idx := word_of_nat (j + n),
       parse_state := (if j + n = 4 then WS_PARSE_PAYLOAD else parse_state f)\<rparr>) u m)"
  using assms
proof (induction xs arbitrary: f j n c)
  case (Cons x xs)
  have j: "unat (word_of_nat j :: byte) = j" using Cons.prems(3) by (intro unat_byte_small) simp
  have "drop j key = key ! j # drop (Suc j) key" using Cons.prems(3,5) by (simp add: Cons_nth_drop_Suc)
  then have x: "x = key ! j" and xs: "xs = take (length xs) (drop (Suc j) key @ zs)" using Cons.prems(7) by simp_all
  let ?mk = "(masking_key f)[j := x]"
  let ?f = "f\<lparr>masking_key := ?mk, f_idx := word_of_nat (Suc j)\<rparr>"
  have mk: "length ?mk = 4" "take (Suc j) ?mk = take (Suc j) key"
    using Cons.prems(3-6) x by (simp_all add: take_Suc_conv_app_nth)
  have s: "unat (word_of_nat (Suc j) :: byte) = Suc j" using Cons.prems(3) by (intro unat_byte_small) simp
  then have four: "(word_of_nat (Suc j) :: byte) = 4 \<longleftrightarrow> Suc j = 4" by (simp add: word_unat_eq_iff)
  have step: "masking_key_loop e (ws_sess s0 f u m) (x # xs) c =
      (if Suc j = 4 then Some (Inr (c + 1), ws_sess s0 (?f\<lparr>parse_state := WS_PARSE_PAYLOAD\<rparr>) u m)
       else if xs = [] then Some (Inr (c + 1), ws_sess s0 ?f u m)
       else masking_key_loop e (ws_sess s0 ?f u m) xs (c + 1))"
    using Cons.prems(2,3,9) four j by (simp add: Let_def add.commute [of _ 1])
  show ?case
  proof (cases "Suc j = 4 \<or> xs = []")
    case True
    then have "n = 1" using Cons.prems(3,8) by auto
    then show ?thesis using True mk by (intro exI [of _ ?mk]) (auto simp: step simp del: masking_key_loop.simps)
  next
    case False
    then have n: "Suc j < 4" "n = Suc (min (4 - Suc j) (length xs))" using Cons.prems(3,8) by auto
    define q where "q = min (4 - Suc j) (length xs)"
    obtain mk' where mk': "length mk' = 4" "take (Suc j + q) mk' = take (Suc j + q) key"
      "masking_key_loop e (ws_sess s0 ?f u m) xs (c + 1) = Some (Inr (c + 1 + q), ws_sess s0 (?f\<lparr>masking_key := mk',
         f_idx := word_of_nat (Suc j + q),
         parse_state := (if Suc j + q = 4 then WS_PARSE_PAYLOAD else parse_state ?f)\<rparr>) u m)"
      using Cons.IH [of ?f "Suc j" q "c + 1"] False n(1) mk Cons.prems(5,9) xs q_def by auto
    have e: "j + n = Suc j + q" "c + n = c + 1 + q" using n(2) by (simp_all add: q_def)
    have ns: "Suc j \<noteq> 4" "xs \<noteq> []" using False by auto
    show ?thesis
      by (rule exI [of _ mk']) (simp only: e mk' step ns if_False simp_thms ymo_ws_frame.update_convs
          ymo_ws_frame.select_convs, cases f, simp)
  qed
qed simp

lemma step_mask:
  assumes at: "ws_at s0 packed ext key payload k s" and k: "ext + 2 \<le> k" "k < ext + 6" and key: "length key = 4"
    and max: "length payload \<le> YMO_WS_FRAME_MAX" "payload \<noteq> []" and ext: "ws_ext_ok ext (length payload)"
    and xs: "xs = take (length xs) (drop (k - (ext + 2)) key @ zs)" "xs \<noteq> []"
  shows "\<exists>s' n. ws_parse_step e s rd xs = Some (Inr n, s') \<and> 0 < n \<and> n \<le> length xs \<and>
     n \<le> ext + 6 - k \<and> ws_at s0 packed ext key payload (k + n) s'"
proof -
  let ?m = "ws_next_type (msg_type s0) packed"
  define j where "j = k - (ext + 2)"
  then have kj: "k - (ext + 2) = j" by simp
  have k': "k = ext + 2 + j" "j < 4" using k by (simp_all add: j_def)
  obtain f u where s: "s = ws_sess s0 f u ?m" and ph: "ws_phase packed ext key payload k f"
    and t: "ws_is_text (msg_type s0) packed \<longrightarrow> (\<exists>u'. ymo_check_utf8 u payload (f_fin packed) = Inr u')"
    using at k by (auto simp: ws_at_def)
  note xs = xs [unfolded kj]
  have k2: "\<not> k = 0" "\<not> k = 1" "\<not> k < ext + 2" "k - (ext + 6) = 0" using k by auto
  obtain b where f: "length (masking_key f) = 4" "\<forall>b. f_buffer f = Some b \<longrightarrow> length b = f_buf_len f" "f_parsed f = 0"
      "f_flags f = packed" "masked f \<noteq> 0" "parse_state f = WS_PARSE_MASKING_KEY"
      "f_idx f = word_of_nat j" "f_len f = word_of_nat (length payload)"
      "f_buffer f = Some b" "length payload \<le> length b" "take j (masking_key f) = take j key"
    using ph k unfolding ws_phase_def k2 kj by (simp only: if_False if_True) auto
  define n where "n = min (4 - j) (length xs)"
  have n: "0 < n" "n \<le> length xs" "n \<le> ext + 6 - k" using k' xs(2) by (auto simp: n_def)
  have "unat (word_of_nat (length payload) :: u64) = length payload"
    using max(1) by (intro unat_w64) (simp add: YMO_WS_FRAME_MAX_def)
  then have "f_len f \<noteq> 0" using max(2) f(8) by (metis length_0_conv unat_0)
  obtain mk where mk: "length mk = 4" "take (j + n) mk = take (j + n) key"
      "masking_key_loop e s xs 0 = Some (Inr (0 + n), ws_sess s0 (f\<lparr>masking_key := mk, f_idx := word_of_nat (j + n),
         parse_state := (if j + n = 4 then WS_PARSE_PAYLOAD else parse_state f)\<rparr>) u ?m)"
    using masking_loop [OF xs(2) f(7) k'(2) f(1) key f(11) xs(1) n_def, of e s0 u ?m 0] \<open>f_len f \<noteq> 0\<close>
    unfolding s by blast
  let ?g = "f\<lparr>masking_key := mk, f_idx := word_of_nat (j + n),
         parse_state := (if j + n = 4 then WS_PARSE_PAYLOAD else parse_state f)\<rparr>"
  have st: "ws_parse_step e s rd xs = Some (Inr n, ws_sess s0 ?g u ?m)"
    using mk(3) f(5,6) by (simp add: s ws_parse_step_def ymo_ws_parse_masking_key_def)
  have "ws_phase packed ext key payload (k + n) ?g"
  proof (cases "j + n = 4")
    case True
    then have "k + n = ext + 6" "mk = key" using k' mk key by auto
    then show ?thesis using f key True by (simp add: ws_phase_def)
  next
    case False
    then have "k + n < ext + 6" "\<not> k + n < ext + 2" "k + n - (ext + 2) = j + n" using k' n(3) False by auto
    then show ?thesis using f mk k False by (simp add: ws_phase_def)
  qed
  moreover have "k + n - (ext + 6) = 0" using n k by auto
  ultimately have "ws_at s0 packed ext key payload (k + n) (ws_sess s0 ?g u ?m)"
    using n t by (intro ws_atI) simp_all
  then show ?thesis using st n by blast
qed

lemma keystream_slice: "take n (drop p (keystream key i bs)) = keystream key (i + p) (take n (drop p bs))"
  by (rule nth_equalityI) (auto simp: keystream_def add.assoc)

lemma utf8_part:
  assumes "ymo_check_utf8 u (xs @ ys) fin = Inr u'"
  shows "\<exists>u1. ymo_check_utf8 u xs False = Inr u1 \<and> (\<exists>u'. ymo_check_utf8 u1 ys fin = Inr u')"
  using assms check_utf8_split [of u xs ys fin] by auto

lemma put_at_take:
  "p + length xs \<le> length b \<Longrightarrow> \<exists>b'. put_at p xs b = Some b' \<and> length b' = length b \<and>
     take (p + length xs) b' = take p b @ xs"
  by (auto simp: put_at_def)

lemma data_op_not_control:
  "ws_data_op_ok mt packed \<Longrightarrow> f_op packed \<in> {YMO_WS_OP_CONTINUATION, YMO_WS_OP_TEXT, YMO_WS_OP_BINARY} \<and>
     f_op packed \<noteq> YMO_WS_OP_CLOSE \<and> f_op packed \<noteq> YMO_WS_OP_PING \<and> f_op packed \<noteq> YMO_WS_OP_PONG"
  by (auto simp: ws_data_op_ok_def ws_consts split: if_splits)

lemma unmask_payload_data:
  assumes "f_op (f_flags f) \<noteq> YMO_WS_OP_PONG" "f_buffer f = Some b" "f_parsed f + length xs \<le> length b"
    and "unat rd + length xs < 2 ^ 64"
  shows "\<exists>b' m. unmask_payload rd xs f = Some (f\<lparr>f_buffer := Some b', f_idx := m\<rparr>) \<and> length b' = length b \<and>
     take (f_parsed f + length xs) b' = take (f_parsed f) b @ keystream (masking_key f) (unat (f_idx f)) xs \<and>
     unat m mod 4 = (unat (f_idx f) + length xs) mod 4"
proof -
  obtain m where m: "unmask_bytes (masking_key f) (f_idx f) rd xs =
      Some (keystream (masking_key f) (unat (f_idx f)) xs, m)" "unat m mod 4 = (unat (f_idx f) + length xs) mod 4"
    using unmask_bytes_eq [OF assms(4)] by blast
  let ?out = "keystream (masking_key f) (unat (f_idx f)) xs"
  obtain b' where "put_at (f_parsed f) ?out b = Some b'" "length b' = length b"
      "take (f_parsed f + length xs) b' = take (f_parsed f) b @ ?out"
    using put_at_take [of "f_parsed f" ?out b] assms(3) by auto
  with assms(1,2) m show ?thesis by (intro exI [of _ b'] exI [of _ m]) (simp add: unmask_payload_def)
qed

text \<open>The UTF-8 check of the part of a data frame that has just been stored.\<close>

lemma payload_utf8_data:
  assumes "f_op (f_flags f) \<noteq> YMO_WS_OP_CLOSE" "f_buffer f = Some b" "pos + n \<le> length b"
    "take n (drop pos b) = take n (drop pos payload)" "pos + n \<le> length payload"
    "ymo_check_utf8 u (drop pos payload) (f_fin (f_flags f)) = Inr u'" "done = (pos + n = length payload)"
  shows "\<exists>v. payload_utf8 pos n done (ws_sess s0 f u m) = Some (Inr (ws_sess s0 f v m)) \<and>
     (\<exists>u'. ymo_check_utf8 v (drop (pos + n) payload) (f_fin (f_flags f)) = Inr u' \<or> done)"
proof (cases "done")
  case True
  then have "take n (drop pos payload) = drop pos payload" using assms(5,7) by simp
  then show ?thesis using assms True by (intro exI [of _ u']) (simp add: payload_utf8_def Let_def)
next
  case False
  have "drop pos payload = take n (drop pos payload) @ drop (pos + n) payload" by (simp add: add.commute flip: drop_drop)
  then obtain v where "ymo_check_utf8 u (take n (drop pos payload)) False = Inr v"
      "\<exists>u'. ymo_check_utf8 v (drop (pos + n) payload) (f_fin (f_flags f)) = Inr u'"
    using utf8_part assms(6) by metis
  then show ?thesis using assms False by (auto simp: payload_utf8_def Let_def)
qed

lemma parse_payload_eq:
  assumes "frame_in s = f" "min (length xs) (unat (f_len f - word_of_nat (f_parsed f))) = n"
    "unmask_payload rd (take n xs) f = Some f1" "f1\<lparr>f_parsed := f_parsed f1 + n\<rparr> = g" "upd_frame (\<lambda>_. g) s = s1"
    "(word_of_nat (f_parsed g) = f_len g) = dn"
    "((f_op (f_flags g) = YMO_WS_OP_TEXT \<or> msg_type s1 = YMO_WS_OP_TEXT) \<and> f_len g \<noteq> 0) = tx"
    "(if tx then payload_utf8 (f_parsed f) n dn s1 else Some (Inr s1)) = Some (Inr s2)"
  shows "ymo_ws_parse_payload e s rd xs = Some (Inr n, if dn then payload_done e s2 else s2)"
  unfolding ymo_ws_parse_payload_def Let_def assms(1) assms(2) assms(3) option.case assms(4) assms(5) assms(6)
    assms(7) assms(8) sum.case ..

lemma step_payload:
  assumes at: "ws_at s0 packed ext key payload k s" and k: "ext + 6 \<le> k" "k < ext + 6 + length payload"
    and ok: "ws_data_op_ok (msg_type s0) packed" and max: "length payload \<le> YMO_WS_FRAME_MAX"
    and mem: "ws_memory e" and recv: "recv_head s0 = []"
    and xs: "xs = take (length xs) (drop (k - (ext + 6)) (keystream key 0 payload))" "xs \<noteq> []"
    and rd: "unat rd + length xs < 2 ^ 64"
  shows "\<exists>s'. ws_parse_step e s rd xs = Some (Inr (length xs), s') \<and> 
     k + length xs \<le> ext + 6 + length payload \<and>
     (if k + length xs = ext + 6 + length payload then ws_done s0 packed payload s'
      else ws_at s0 packed ext key payload (k + length xs) s')"
proof -
  let ?m = "ws_next_type (msg_type s0) packed" and ?N = "length payload"
  define p where "p = k - (ext + 6)"
  define n where "n = length xs"
  have k': "k = ext + 6 + p" "p < ?N" using k by (simp_all add: p_def)
  obtain f u where s: "s = ws_sess s0 f u ?m" and ph: "ws_phase packed ext key payload k f"
    and t: "ws_is_text (msg_type s0) packed \<longrightarrow> (\<exists>u'. ymo_check_utf8 u (drop p payload) (f_fin packed) = Inr u')"
    using at k by (auto simp: ws_at_def p_def)
  obtain b where f: "length (masking_key f) = 4" "\<forall>b. f_buffer f = Some b \<longrightarrow> length b = f_buf_len f" "f_parsed f = p"
      "f_flags f = packed" "masked f \<noteq> 0" "parse_state f = WS_PARSE_PAYLOAD"
      "f_len f = word_of_nat ?N" "f_buffer f = Some b" "?N \<le> length b" "take p b = take p payload"
      "masking_key f = key" "unat (f_idx f) mod 4 = p mod 4"
    using ph k' by (auto simp: ws_phase_def)
  have n: "p + n \<le> ?N" "0 < n"
    using xs by (auto simp: n_def p_def) (metis length_keystream length_drop length_take min.cobounded1 
        le_diff_conv2 k(1) k'(2) p_def less_imp_le add.commute)
  have N: "?N < 2 ^ 64" using max by (simp add: YMO_WS_FRAME_MAX_def)
  have "f_len f - word_of_nat p = word_of_nat (?N - p)" using k'(2) f(7) by (simp add: of_nat_diff)
  moreover have "unat (word_of_nat (?N - p) :: u64) = ?N - p" using N by (intro unat_w64) simp
  ultimately have pl: "min (length xs) (unat (f_len f - word_of_nat (f_parsed f))) = n"
    using n f(3) by (simp add: n_def)
  have xs_key: "xs = keystream key p (take n (drop p payload))"
    using xs(1) keystream_slice [of n p key 0 payload] by (simp add: p_def n_def)
  have ln: "length (take n (drop p payload)) = n" using n by simp
  have op: "f_op packed \<in> {YMO_WS_OP_CONTINUATION, YMO_WS_OP_TEXT, YMO_WS_OP_BINARY}" "f_op packed \<noteq> YMO_WS_OP_CLOSE"
      "f_op packed \<noteq> YMO_WS_OP_PING" "f_op packed \<noteq> YMO_WS_OP_PONG"
    using data_op_not_control [OF ok] by auto
  obtain b' i where un: "unmask_payload rd xs f = Some (f\<lparr>f_buffer := Some b', f_idx := i\<rparr>)" "length b' = length b"
      "take (p + n) b' = take p b @ keystream key (unat (f_idx f)) xs" "unat i mod 4 = (unat (f_idx f) + n) mod 4"
    using unmask_payload_data [of f b xs rd] op(4) f n rd by (auto simp: n_def)
  have "keystream key (unat (f_idx f)) xs = keystream key p xs" using f(12) by (rule keystream_mod4)
  then have "keystream key (unat (f_idx f)) xs = take n (drop p payload)"
    by (simp add: keystream_invol xs_key)
  then have b': "take (p + n) b' = take (p + n) payload" using un(3) f(10) by (simp add: take_add)
  have i: "unat i mod 4 = (p + n) mod 4" unfolding un(4) using f(12) by (metis mod_add_left_eq)
  define g where "g = f\<lparr>f_buffer := Some b', f_idx := i, f_parsed := p + n\<rparr>"
  define fin where "fin \<longleftrightarrow> p + n = ?N"
  have fin: "(word_of_nat (p + n) = f_len f) = fin"
    unfolding f(7) fin_def using n N by (metis order.strict_trans1 unat_w64)
  have g: "f_flags g = packed" "f_buffer g = Some b'" "p + n \<le> length b'" "f_len g = word_of_nat ?N" "f_parsed g = p + n"
    using f un(2) n by (simp_all add: g_def)
  have nz: "f_len f \<noteq> 0" unfolding f(7) using N k'(2) by (metis gr_implies_not0 unat_0 unat_w64)
  have dr: "take n (drop p b') = take n (drop p payload)" using b' by (metis add_diff_cancel_left' drop_take)
  obtain v where v: "(if ws_is_text (msg_type s0) packed then payload_utf8 p n fin (ws_sess s0 g u ?m) else Some (Inr (ws_sess s0 g u ?m)))
       = Some (Inr (ws_sess s0 g v ?m))"
    "ws_is_text (msg_type s0) packed \<longrightarrow> (\<exists>u'. ymo_check_utf8 v (drop (p + n) payload) (f_fin packed) = Inr u') \<or> fin"
  proof (cases "ws_is_text (msg_type s0) packed")
    case True
    then obtain u' where "ymo_check_utf8 u (drop p payload) (f_fin packed) = Inr u'" using t by blast
    then show thesis
      using payload_utf8_data [of g b' p n payload u u' "fin" s0 ?m] g op(2) dr n(1) fin_def True that by auto
  qed (use that in auto)
  have tc: "((f_op packed = YMO_WS_OP_TEXT \<or> ?m = YMO_WS_OP_TEXT) \<and> f_len g \<noteq> 0) = ws_is_text (msg_type s0) packed"
    using nz by (auto simp: ws_is_text_def g_def)
  have st: "ws_parse_step e s rd xs =
      Some (Inr n, if fin then payload_done e (ws_sess s0 g v ?m) else ws_sess s0 g v ?m)"
  proof -
    have "frame_in s = f" "unmask_payload rd (take n xs) f = Some (f\<lparr>f_buffer := Some b', f_idx := i\<rparr>)"
        "(f\<lparr>f_buffer := Some b', f_idx := i\<rparr>)\<lparr>f_parsed := f_parsed (f\<lparr>f_buffer := Some b', f_idx := i\<rparr>) + n\<rparr> = g"
        "upd_frame (\<lambda>_. g) s = ws_sess s0 g u ?m" "(word_of_nat (f_parsed g) = f_len g) = fin"
        "((f_op (f_flags g) = YMO_WS_OP_TEXT \<or> msg_type (ws_sess s0 g u ?m) = YMO_WS_OP_TEXT) \<and> f_len g \<noteq> 0)
           = ws_is_text (msg_type s0) packed"
      using un(1) tc fin g f(7) by (simp_all add: s n_def g_def f(3))
    then have "ymo_ws_parse_payload e s rd xs = Some (Inr n,
        if fin then payload_done e (ws_sess s0 g v ?m) else ws_sess s0 g v ?m)"
      by (rule parse_payload_eq [OF _ pl]) (subst f(3), rule v(1))
    then show ?thesis by (simp add: s ws_parse_step_def f(6))
  qed
  show ?thesis
  proof (cases "fin")
    case True
    let ?s = "(ws_sess s0 (g\<lparr>parse_state := WS_PARSE_COMPLETE\<rparr>) v (if f_fin packed then 0 else ?m))
        \<lparr>recv_head := [Recv_frame ?N], recv_lost := False\<rparr>"
    have u64: "unat (word_of_nat ?N :: u64) = ?N" using N by (rule unat_w64)
    have "payload_done e (ws_sess s0 g v ?m) = ?s"
      using op mem recv g u64 by (auto simp: payload_done_def push_recv_def ws_memory_def Let_def)
    moreover have "ws_done s0 packed payload ?s"
      unfolding ws_done_def using g(1,2) un(2) f(2,8,9) b' True[unfolded fin_def]
      by (intro exI [of _ "g\<lparr>parse_state := WS_PARSE_COMPLETE\<rparr>"] exI [of _ v] exI [of _ b']) (auto simp: g_def)
    ultimately show ?thesis using st True n(1) k'(1) by (simp add: fin_def n_def)
  next
    case False
    have "ws_phase packed ext key payload (k + n) g"
      using f n un(2) b' i k' False by (simp add: ws_phase_def g_def fin_def)
    then have "ws_at s0 packed ext key payload (k + n) (ws_sess s0 g v ?m)"
      using v(2) False k' by (intro ws_atI) auto
    then show ?thesis using st False n k'(1) by (simp add: fin_def n_def)
  qed
qed

section \<open>Reading a whole frame, in pieces\<close>

lemma length_ws_len_field: "ws_ext_ok ext n \<Longrightarrow> length (ws_len_field ext n) = ext + 1"
  by (auto simp: ws_len_field_def ws_ext_ok_def)

lemma drop_client_frame:
  assumes "ws_ext_ok ext (length payload)" "length key = 4"
  shows "drop 0 (ws_client_frame packed ext key payload) = packed # drop 1 (ws_client_frame packed ext key payload)"
    and "drop 1 (ws_client_frame packed ext key payload) = hd (ws_len_field ext (length payload)) # drop 2 (ws_client_frame packed ext key payload)"
    and "2 \<le> k \<Longrightarrow> k < ext + 2 \<Longrightarrow> drop k (ws_client_frame packed ext key payload) =
      be_bytes (ext + 2 - k) (length payload) @ key @ keystream key 0 payload"
    and "ext + 2 \<le> k \<Longrightarrow> k < ext + 6 \<Longrightarrow> drop k (ws_client_frame packed ext key payload) =
      drop (k - (ext + 2)) key @ keystream key 0 payload"
    and "ext + 6 \<le> k \<Longrightarrow> drop k (ws_client_frame packed ext key payload) = drop (k - (ext + 6)) (keystream key 0 payload)"
    and "length (ws_client_frame packed ext key payload) = ext + 6 + length payload"
proof -
  note len = length_ws_len_field [OF assms(1)]
  show "drop 0 (ws_client_frame packed ext key payload) = packed # drop 1 (ws_client_frame packed ext key payload)"
    by (simp add: ws_client_frame_def)
  show "drop 1 (ws_client_frame packed ext key payload) = hd (ws_len_field ext (length payload)) # drop 2 (ws_client_frame packed ext key payload)"
    using len by (cases "ws_len_field ext (length payload)") (simp_all add: ws_client_frame_def numeral_2_eq_2)
  show "length (ws_client_frame packed ext key payload) = ext + 6 + length payload"
    using len assms(2) by (simp add: ws_client_frame_def)
  show "drop k (ws_client_frame packed ext key payload) = drop (k - (ext + 2)) key @ keystream key 0 payload"
    if "ext + 2 \<le> k" "k < ext + 6" 
    using that len assms(2) by (cases k) (simp_all add: ws_client_frame_def)
  show "drop k (ws_client_frame packed ext key payload) = drop (k - (ext + 6)) (keystream key 0 payload)" if "ext + 6 \<le> k"
    using that len assms(2) by (cases k) (simp_all add: ws_client_frame_def)
  show "drop k (ws_client_frame packed ext key payload) =
      be_bytes (ext + 2 - k) (length payload) @ key @ keystream key 0 payload" if k: "2 \<le> k" "k < ext + 2"
  proof -
    define j where "j = k - 2"
    have j: "k = Suc (Suc j)" "j < ext" "ext + 2 - k = ext - j" using k by (simp_all add: j_def)
    then obtain x where "ws_len_field ext (length payload) = x # be_bytes ext (length payload)"
      by (auto simp: ws_len_field_def)
    then show ?thesis using j by (simp add: ws_client_frame_def drop_be_bytes)
  qed
qed

definition ws_after :: "'u ws_session \<Rightarrow> byte \<Rightarrow> nat \<Rightarrow> bytes \<Rightarrow> bytes \<Rightarrow> nat \<Rightarrow> 'u ws_session \<Rightarrow> bool" where
  "ws_after s0 packed ext key payload k s \<longleftrightarrow>
     (if k = ext + 6 + length payload then ws_done s0 packed payload s else ws_at s0 packed ext key payload k s)"

text \<open>What is assumed of a data frame: its first byte is allowed, it fits, and text is UTF-8.\<close>

definition ws_frame_ok :: "'u ws_session \<Rightarrow> byte \<Rightarrow> nat \<Rightarrow> bytes \<Rightarrow> bytes \<Rightarrow> bool" where
  "ws_frame_ok s0 packed ext key payload \<longleftrightarrow>
     ws_data_op_ok (msg_type s0) packed \<and> ws_ext_ok ext (length payload) \<and> length key = 4 \<and>
     payload \<noteq> [] \<and> length payload \<le> YMO_WS_FRAME_MAX \<and>
     (ws_is_text (msg_type s0) packed \<longrightarrow> (\<exists>u. ymo_check_utf8 (ws_utf8 s0) payload (f_fin packed) = Inr u))"

lemma take_prefix_Cons: "xs = take (length xs) (y # ys) \<Longrightarrow> xs \<noteq> [] \<Longrightarrow> \<exists>cs. xs = y # cs"
  by (cases xs) auto

lemma ws_step:
  assumes at: "ws_at s0 packed ext key payload k s" and k: "k < ext + 6 + length payload"
    and ok: "ws_frame_ok s0 packed ext key payload" and mem: "ws_memory e" and recv: "recv_head s0 = []"
    and xs: "xs = take (length xs) (drop k (ws_client_frame packed ext key payload))" "xs \<noteq> []"
    and rd: "unat rd + length xs < 2 ^ 64"
  shows "\<exists>s' n. ws_parse_step e s rd xs = Some (Inr n, s') \<and> 0 < n \<and> n \<le> length xs \<and>
     ws_after s0 packed ext key payload (k + n) s'"
proof -
  have o: "ws_data_op_ok (msg_type s0) packed" "ws_ext_ok ext (length payload)" "length key = 4"
      "payload \<noteq> []" "length payload \<le> YMO_WS_FRAME_MAX"
    using ok by (simp_all add: ws_frame_ok_def)
  have len: "0 < length payload" using o(4) by simp
  have mid: "ws_after s0 packed ext key payload j s' = ws_at s0 packed ext key payload j s'" if "j \<le> ext + 6" for j s'
  proof -
    have "j \<noteq> ext + 6 + length payload" using that len by linarith
    then show ?thesis by (simp add: ws_after_def)
  qed
  note d = drop_client_frame [OF o(2,3), where packed = packed]
  consider "k = 0" | "k = 1" | "2 \<le> k" "k < ext + 2" | "ext + 2 \<le> k" "k < ext + 6" | "ext + 6 \<le> k" by linarith
  then show ?thesis
  proof cases
    case 1
    obtain cs where "xs = packed # cs"
      using take_prefix_Cons [OF xs(1) [unfolded 1, unfolded d(1)] xs(2)] by (elim exE)
    with step_op [OF _ o(1), of ext key payload s e rd cs] at 1 show ?thesis by (auto simp: mid)
  next
    case 2
    obtain cs where "xs = hd (ws_len_field ext (length payload)) # cs"
      using take_prefix_Cons [OF xs(1) [unfolded 2, unfolded d(2)] xs(2)] by (elim exE)
    moreover obtain s' where "ws_parse_step e s rd (hd (ws_len_field ext (length payload)) # cs) = Some (Inr 1, s')"
        "ws_at s0 packed ext key payload 2 s'"
      using step_len [OF at [unfolded 2] o(1,2,5) mem, of rd cs] by blast
    ultimately show ?thesis using 2 mid [of 2 s']
      by (intro exI [of _ s'] exI [of _ "1::nat"]) (simp add: numeral_2_eq_2)
  next
    case 3
    obtain s' n where "ws_parse_step e s rd xs = Some (Inr n, s')" "0 < n" "n \<le> length xs"
      "n \<le> ext + 2 - k" "ws_at s0 packed ext key payload (k + n) s'"
      using step_ext [OF at 3 o(2,5) mem _ xs(2), of "key @ keystream key 0 payload" rd] xs(1) d(3) [OF 3] by auto
    then show ?thesis using 3 mid [of "k + n"] by auto
  next
    case 4
    obtain s' n where "ws_parse_step e s rd xs = Some (Inr n, s')" "0 < n" "n \<le> length xs"
      "n \<le> ext + 6 - k" "ws_at s0 packed ext key payload (k + n) s'"
      using step_mask [OF at 4 o(3,5,4,2) _ xs(2), of "keystream key 0 payload" e rd] xs(1) d(4) [OF 4] by auto
    then show ?thesis using 4 mid [of "k + n"] by auto
  next
    case 5
    obtain s' where "ws_parse_step e s rd xs = Some (Inr (length xs), s')"
        "ws_after s0 packed ext key payload (k + length xs) s'"
      using step_payload [OF at 5 k o(1,5) mem recv xs(1) [unfolded d(5) [OF 5]] xs(2) rd]
      unfolding ws_after_def by blast
    then show ?thesis using xs(2) by (intro exI [of _ s'] exI [of _ "length xs"]) simp
  qed
qed

lemma ws_loop:
  assumes "ws_at s0 packed ext key payload k s" "k < ext + 6 + length payload"
    and "ws_frame_ok s0 packed ext key payload" "ws_memory e" "recv_head s0 = []"
    and "xs = take (length xs) (drop k (ws_client_frame packed ext key payload))" "xs \<noteq> []"
    and "unat rd + length xs < 2 ^ 64" "length xs < fuel"
  shows "\<exists>s'. ws_parse_loop fuel e s rd xs c = Some (Inr (c + length xs), s') \<and>
     ws_after s0 packed ext key payload (k + length xs) s'"
  using assms
proof (induction fuel arbitrary: k s rd xs c)
  case (Suc fuel)
  obtain s' n where st: "ws_parse_step e s rd xs = Some (Inr n, s')" "0 < n" "n \<le> length xs"
      "ws_after s0 packed ext key payload (k + n) s'"
    using ws_step [OF Suc.prems(1-8)] by blast
  have nc: "parse_state (frame_in s) \<noteq> WS_PARSE_COMPLETE"
    using Suc.prems(1) by (auto simp: ws_at_def ws_phase_def split: if_splits)
  show ?case
  proof (cases "n = length xs")
    case True
    then show ?thesis using st nc by simp
  next
    case False
    then have ne: "drop n xs \<noteq> []" using st(3) by simp
    have "length xs \<le> length (drop k (ws_client_frame packed ext key payload))"
      using Suc.prems(6) by (metis length_take min.cobounded1 min.commute)
    then have tot: "k + length xs \<le> ext + 6 + length payload"
      using drop_client_frame(6) [of ext payload key packed] Suc.prems(2,3) by (auto simp: ws_frame_ok_def)
    then have kn: "k + n < ext + 6 + length payload" using False st(3) by simp
    then have at: "ws_at s0 packed ext key payload (k + n) s'" using st(4) by (simp add: ws_after_def)
    have A: "drop n xs = take (length (drop n xs)) (drop (k + n) (ws_client_frame packed ext key payload))"
      by (subst Suc.prems(6)) (simp add: drop_take add.commute)
    have "unat (rd + word_of_nat n) = unat rd + n"
      using Suc.prems(8) st(3) by (intro unat_add_small) simp
    then have B: "unat (rd + word_of_nat n) + length (drop n xs) < 2 ^ 64" "length (drop n xs) < fuel"
      using Suc.prems(8,9) st(2,3) by simp_all
    obtain s'' where "ws_parse_loop fuel e s' (rd + word_of_nat n) (drop n xs) (c + n) =
          Some (Inr (c + n + length (drop n xs)), s'')"
        "ws_after s0 packed ext key payload (k + n + length (drop n xs)) s''"
      using Suc.IH [OF at kn Suc.prems(3-5) A ne B, of "c + n"] by blast
    then show ?thesis using st(1,3) nc ne by simp
  qed
qed simp

end
