(* ===== verification/Ws_Delivery.thy ===== *)
theory Ws_Delivery
  imports Ws_Client
begin

text \<open>
  What the WebSocket protocol does with whole frames: delivery to the application however the bytes
  arrive, the headers it sends, the rules for opening bytes, the end of a session, and two defects
  in the treatment of fragmented messages.
\<close>

section \<open>Delivery\<close>

text \<open>A session between two frames.\<close>

definition ws_ready :: "'u ws_session \<Rightarrow> bool" where
  "ws_ready s \<longleftrightarrow> ws_state s = WS_SESSION_CONNECTED \<and> recv_head s = [] \<and>
     ws_phase 0 0 [] [] 0 (frame_in s)"

text \<open>Successive reads, each of which the protocol consumes completely.\<close>

fun ws_reads :: "ws_env \<Rightarrow> 'u ws_recv_cb \<Rightarrow> 'u ws_session \<Rightarrow> (u64 \<times> bytes) list \<Rightarrow> 'u ws_session option" where
  "ws_reads e cb s [] = Some s"
| "ws_reads e cb s ((rd, xs) # rest) =
     (case ymo_proto_ws_read e cb s rd xs of
        None \<Rightarrow> None
      | Some (Inl st, s) \<Rightarrow> None
      | Some (Inr n, s) \<Rightarrow> if n = length xs then ws_reads e cb s rest else None)"

text \<open>An application that keeps what it is given in its \<^verbatim>\<open>user_data\<close>.\<close>

definition app_cb :: "('u \<Rightarrow> byte \<Rightarrow> bytes \<Rightarrow> 'u) \<Rightarrow> 'u ws_recv_cb" where
  "app_cb app s flgs dat = Some (YMO_OKAY, s\<lparr>user_data := app (user_data s) flgs dat\<rparr>)"

definition ws_delivered :: "('u \<Rightarrow> byte \<Rightarrow> bytes \<Rightarrow> 'u) \<Rightarrow> 'u ws_session \<Rightarrow> byte \<Rightarrow> bytes \<Rightarrow> 'u ws_session \<Rightarrow> bool" where
  "ws_delivered app s0 packed payload s \<longleftrightarrow> ws_ready s \<and> user_data s = app (user_data s0) packed payload \<and>
     msg_type s = (if f_fin packed then 0 else ws_next_type (msg_type s0) packed) \<and>
     send_head s = send_head s0 \<and> acts s = acts s0"

lemma ws_phase_0: "ws_phase packed ext key payload 0 f = ws_phase 0 0 [] [] 0 f"
  by (simp add: ws_phase_def)

lemma ws_ready_at:
  assumes "ws_ready s" "ws_frame_ok s packed ext key payload"
  shows "ws_at s packed ext key payload 0 s"
proof -
  have "s = ws_sess s (frame_in s) (ws_utf8 s) (msg_type s)" by (simp add: ws_sess_def)
  then show ?thesis
    using assms unfolding ws_at_def ws_ready_def ws_frame_ok_def ws_phase_0 [of packed ext key payload] by auto
qed

lemma ws_done_complete:
  assumes "ws_done s0 packed payload s" "ws_state s0 = WS_SESSION_CONNECTED" "ws_data_op_ok (msg_type s0) packed"
  shows "\<exists>s'. ws_frame_complete e (app_cb app) s m n = Some (Inr n, s') \<and> ws_delivered app s0 packed payload s'"
proof -
  obtain f u b mt where s: "s = (ws_sess s0 f u mt)\<lparr>recv_head := [Recv_frame (length payload)], recv_lost := False\<rparr>"
    and mt: "mt = (if f_fin packed then 0 else ws_next_type (msg_type s0) packed)"
    and f: "f_flags f = packed" "f_buffer f = Some b" "length b = f_buf_len f"
      "length payload \<le> length b" "take (length payload) b = payload"
    using assms(1) unfolding ws_done_def by blast
  have op: "f_op packed \<in> {YMO_WS_OP_CONTINUATION, YMO_WS_OP_TEXT, YMO_WS_OP_BINARY}"
    using data_op_not_control [OF assms(3)] by blast
  have d: "recv_data (Recv_frame (length payload)) f = Some payload" using f by (simp add: recv_data_def)
  let ?s = "(ws_sess s0 (frame_reset f) u mt)\<lparr>recv_head := [], recv_lost := False,
      user_data := app (user_data s0) packed payload\<rparr>"
  have "invoke_recv_callback (app_cb app) s =
      Some (YMO_OKAY, (ws_sess s0 f u mt)\<lparr>recv_head := [], recv_lost := False,
        user_data := app (user_data s0) packed payload\<rparr>)"
    unfolding s using d f(1) by (cases s0) (simp add: invoke_recv_callback_def app_cb_def ws_sess_def)
  then have "ws_frame_complete e (app_cb app) s m n = Some (Inr n, ?s)"
    unfolding ws_frame_complete_def Let_def using op assms(2) f(1)
    by (cases s0) (simp add: s ws_sess_def upd_frame_def)
  moreover have "ws_delivered app s0 packed payload ?s"
    using assms(2) f mt
    by (cases s0) (simp add: ws_delivered_def ws_ready_def ws_sess_def ws_phase_def frame_reset_def frame_zero_def)
  ultimately show ?thesis by blast
qed

lemma ws_read_part:
  assumes at: "ws_at s0 packed ext key payload k s" and k: "k < ext + 6 + length payload"
    and ok: "ws_frame_ok s0 packed ext key payload" and mem: "ws_memory e" and r: "ws_ready s0"
    and xs: "xs = take (length xs) (drop k (ws_client_frame packed ext key payload))" "xs \<noteq> []"
    and rd: "unat rd + length xs < 2 ^ 64"
  shows "\<exists>s'. ymo_proto_ws_read e (app_cb app) s rd xs = Some (Inr (length xs), s') \<and>
     (if k + length xs = ext + 6 + length payload then ws_delivered app s0 packed payload s'
      else ws_at s0 packed ext key payload (k + length xs) s')"
proof -
  have st: "ws_state s = WS_SESSION_CONNECTED" using at r by (auto simp: ws_at_def ws_ready_def)
  obtain s' where l: "ws_parse_loop (Suc (2 * length xs)) e s rd xs 0 = Some (Inr (0 + length xs), s')"
      "ws_after s0 packed ext key payload (k + length xs) s'"
    using ws_loop [OF at k ok mem _ xs rd, of "Suc (2 * length xs)" 0] r by (auto simp: ws_ready_def)
  show ?thesis
  proof (cases "k + length xs = ext + 6 + length payload")
    case True
    then have d: "ws_done s0 packed payload s'" using l(2) by (simp add: ws_after_def)
    then have p: "parse_state (frame_in s') = WS_PARSE_COMPLETE" by (auto simp: ws_done_def ws_sess_def)
    have w: "ws_state s0 = WS_SESSION_CONNECTED" "ws_data_op_ok (msg_type s0) packed"
      using r ok by (simp_all add: ws_ready_def ws_frame_ok_def)
    obtain s'' where c: "ws_frame_complete e (app_cb app) s' (length xs) (length xs) = Some (Inr (length xs), s'')"
        "ws_delivered app s0 packed payload s''"
      using ws_done_complete [OF d w] by blast
    then show ?thesis using p l(1) st True by (simp add: ymo_proto_ws_read_def)
  next
    case False
    then have d: "ws_at s0 packed ext key payload (k + length xs) s'" using l(2) by (simp add: ws_after_def)
    then have "parse_state (frame_in s') \<noteq> WS_PARSE_COMPLETE"
      by (auto simp: ws_at_def ws_phase_def split: if_splits)
    then show ?thesis using l(1) st False d by (simp add: ymo_proto_ws_read_def)
  qed
qed

lemma ws_reads_part:
  assumes "ws_at s0 packed ext key payload k s" "k < ext + 6 + length payload"
    and "ws_frame_ok s0 packed ext key payload" "ws_memory e" "ws_ready s0"
    and "concat (map snd reads) = drop k (ws_client_frame packed ext key payload)"
    and "\<forall>(rd, xs) \<in> set reads. xs \<noteq> [] \<and> unat rd + length xs < 2 ^ 64"
  shows "\<exists>s'. ws_reads e (app_cb app) s reads = Some s' \<and> ws_delivered app s0 packed payload s'"
  using assms
proof (induction reads arbitrary: k s)
  case Nil
  then show ?case
    using drop_client_frame(6) [of ext payload key packed] by (auto simp: ws_frame_ok_def)
next
  case (Cons r reads)
  obtain rd xs where r: "r = (rd, xs)" by (cases r)
  have c: "xs @ concat (map snd reads) = drop k (ws_client_frame packed ext key payload)" using Cons.prems(6) r by simp
  then have xs: "xs = take (length xs) (drop k (ws_client_frame packed ext key payload))"
      "concat (map snd reads) = drop (k + length xs) (ws_client_frame packed ext key payload)"
    by (metis append_eq_conv_conj, metis add.commute append_eq_conv_conj drop_drop)
  have ne: "xs \<noteq> []" "unat rd + length xs < 2 ^ 64" using Cons.prems(7) r by auto
  have len: "length (ws_client_frame packed ext key payload) = ext + 6 + length payload"
    using drop_client_frame(6) Cons.prems(3) by (auto simp: ws_frame_ok_def)
  obtain s' where s': "ymo_proto_ws_read e (app_cb app) s rd xs = Some (Inr (length xs), s')"
      "if k + length xs = ext + 6 + length payload then ws_delivered app s0 packed payload s'
       else ws_at s0 packed ext key payload (k + length xs) s'"
    using ws_read_part [OF Cons.prems(1-5) xs(1) ne] by blast
  show ?case
  proof (cases "k + length xs = ext + 6 + length payload")
    case True
    then have "concat (map snd reads) = []" using xs(2) len by simp
    then have "reads = []" using Cons.prems(7) by (cases reads) auto
    then show ?thesis using s' True r by simp
  next
    case False
    have "length xs + length (concat (map snd reads)) = ext + 6 + length payload - k"
      using arg_cong [OF c, of length] len by simp
    then have "k + length xs < ext + 6 + length payload" using False Cons.prems(2) by linarith
    then show ?thesis
      using Cons.IH [OF _ _ Cons.prems(3-5) xs(2)] s' False Cons.prems(7) r by auto
  qed
qed

text \<open>
  C36: a client's data frame with a payload of 1 to 4096 bytes, opened by a byte that the session allows (no
  reserved bit; a new message only outside a fragmented one, a continuation only inside one), in any length
  encoding that can hold its length, masked with any key, and with payload that is UTF-8 so far when the
  message is text, is delivered to an application that accepts what it is given exactly once, unmasked and
  complete, however its bytes are cut into reads and wherever the reads put them in memory; the session is
  then ready for the next frame and knows whether a fragmented message is open.  The session is connected,
  between two frames, with nothing left over for the application, and no allocation fails.
\<close>

theorem ws_frame_delivered:
  assumes "ws_ready s" "ws_memory e" "ws_frame_ok s packed ext key payload"
    and "concat (map snd reads) = ws_client_frame packed ext key payload"
    and "\<forall>(rd, xs) \<in> set reads. xs \<noteq> [] \<and> unat rd + length xs < 2 ^ 64"
  shows "\<exists>s'. ws_reads e (app_cb app) s reads = Some s' \<and> ws_delivered app s packed payload s'"
  using ws_reads_part [OF ws_ready_at [OF assms(1,3)] _ assms(3,2,1) _ assms(5)] assms(4) by simp

definition ws_env0 :: ws_env where
  "ws_env0 = \<lparr>ws_alloc = (\<lambda>n. Some (replicate n 0)), ws_bucket = True\<rparr>"

lemma ws_env0_memory: "ws_memory ws_env0"
  by (simp add: ws_memory_def ws_env0_def)

lemma ws_create_ready: "ws_ready (ymo_ws_session_create u)"
  by (simp add: ws_ready_def ymo_ws_session_create_def ws_phase_def frame_zero_def)

theorem ws_frame_delivered_witness:
  "\<exists>s'. ws_reads ws_env0 (app_cb (\<lambda>u f d. u @ [(f, d)])) (ymo_ws_session_create [])
      [(0x1000, [0x82, 0x83, 1]), (0x1003, [2, 3, 4, 0x60]), (0x2002, [0x60, 0x60])] = Some s' \<and>
     user_data s' = [(0x82, [0x61, 0x62, 0x63])]"
proof -
  let ?s = "ymo_ws_session_create [] :: (byte \<times> bytes) list ws_session"
  let ?reads = "[(0x1000 :: u64, [0x82, 0x83, 1]), (0x1003, [2, 3, 4, 0x60]), (0x2002, [0x60, 0x60])]"
  have A: "ws_frame_ok ?s 0x82 0 [1, 2, 3, 4] [0x61, 0x62, 0x63]"
    by (simp add: ws_frame_ok_def ymo_ws_session_create_def ws_data_op_ok_def YMO_WS_FLAGS_RESERVED_def f_op_def
        ws_consts ws_ext_ok_def YMO_WS_FRAME_MAX_def ws_is_text_def ws_next_type_def f_fin_def)
  have B: "concat (map snd ?reads) = ws_client_frame 0x82 0 [1, 2, 3, 4] [0x61, 0x62, 0x63]"
    by code_simp
  have C: "\<forall>(rd, xs) \<in> set ?reads. xs \<noteq> [] \<and> unat rd + length xs < 2 ^ 64" by simp
  obtain s' where "ws_reads ws_env0 (app_cb (\<lambda>u f d. u @ [(f, d)])) ?s ?reads = Some s'"
      "ws_delivered (\<lambda>u f d. u @ [(f, d)]) ?s 0x82 [0x61, 0x62, 0x63] s'"
    using ws_frame_delivered [OF ws_create_ready ws_env0_memory A B C, of "\<lambda>u f d. u @ [(f, d)]"]
    by (elim exE conjE)
  then show ?thesis by (auto simp: ws_delivered_def ymo_ws_session_create_def)
qed

section \<open>What is sent\<close>

lemma and_ff: "ucast (x AND 0xFF :: u64) = (ucast x :: byte)"
proof -
  have "x AND 0xFF = take_bit 8 x" by (simp add: take_bit_eq_mask mask_eq_exp_minus_1)
  then show ?thesis by (simp add: bit_eq_iff bit_simps)
qed

lemma ucast_drop_byte: "(ucast (drop_bit (8 * k) (x :: u64)) :: byte) = word_of_nat (unat x div 256 ^ k)"
proof -
  have p: "(2::nat) ^ (8 * k) = 256 ^ k" by (simp add: power_mult)
  have "unat (drop_bit (8 * k) x) = drop_bit (8 * k) (unat x)"
    by (rule bit_eqI) (auto simp: bit_unsigned_iff bit_drop_bit_eq dest: bit_imp_le_length)
  also have "\<dots> = unat x div 256 ^ k" by (simp only: drop_bit_eq_div p)
  finally have u: "unat (drop_bit (8 * k) x) = unat x div 256 ^ k" .
  have "(ucast (drop_bit (8 * k) x) :: byte) = word_of_nat (unat (drop_bit (8 * k) x))"
    by (simp only: word_unat_eq_iff unsigned_ucast_eq unat_of_nat take_bit_eq_mod)
  then show ?thesis by (simp only: u)
qed

lemma be_bytes_numeral [simp]:
  "be_bytes (numeral k) n = word_of_nat (n div 256 ^ pred_numeral k) # be_bytes (pred_numeral k) n"
  by (simp add: numeral_eq_Suc)

lemma ws_hdr_be:
  "ws_hdr_bytes flag len = (if len \<le> 125 then [flag, ucast len]
     else if len \<le> 0xffff then [flag, 126] @ be_bytes 2 (unat len) else [flag, 127] @ be_bytes 8 (unat len))"
proof -
  have d: "ucast (drop_bit (8 * k) len AND 0xFF) = (word_of_nat (unat len div 256 ^ k) :: byte)" for k
    by (simp only: and_ff ucast_drop_byte)
  have d0: "ucast (len AND 0xFF) = (word_of_nat (unat len) :: byte)" using d [of 0] by simp
  have d1: "ucast (drop_bit 8 len AND 0xFF) = (word_of_nat (unat len div 256) :: byte)" using d [of 1] by simp
  have b2: "be_bytes 2 (unat len) = [ucast (drop_bit 8 len AND 0xFF), ucast (len AND 0xFF)]"
    unfolding d0 d1 by simp
  have b8: "be_bytes 8 (unat len) = [ucast (drop_bit (8*7) len AND 0xFF), ucast (drop_bit (8*6) len AND 0xFF),
        ucast (drop_bit (8*5) len AND 0xFF), ucast (drop_bit (8*4) len AND 0xFF),
        ucast (drop_bit (8*3) len AND 0xFF), ucast (drop_bit (8*2) len AND 0xFF),
        ucast (drop_bit 8 len AND 0xFF), ucast (len AND 0xFF)]"
    unfolding d d0 d1 by simp
  show ?thesis unfolding ws_hdr_bytes_def b2 b8 by (simp only: append.simps)
qed

lemma small_top: "unat (len :: u64) \<le> 4096 \<Longrightarrow> len AND 0x8000000000000000 = 0"
  by (rule top_bit_clear) simp

text \<open>
  The length field of a header, read by the receiving side: the second byte, and what it announces.
\<close>

definition ws_read_length :: "ws_env \<Rightarrow> 'u ws_session \<Rightarrow> bytes \<Rightarrow> 'u ws_result" where
  "ws_read_length e s input =
     (case ymo_ws_parse_len e s input of
        Some (Inr n, s) \<Rightarrow>
          if parse_state (frame_in s) = WS_PARSE_LEN_EXTENDED
          then map_option (map_prod (map_sum id ((+) n)) id) (ymo_ws_parse_len_ext e s (drop n input))
          else Some (Inr n, s)
      | res \<Rightarrow> res)"

text \<open>A header as a client sends it, with the mask bit, which a server leaves out.\<close>

definition ws_masked :: "bytes \<Rightarrow> bytes" where
  "ws_masked hdr = hdr[1 := 0x80 OR hdr ! 1]"

lemma small_len_byte:
  assumes "(len :: u64) \<le> 125"
  shows "(ucast len :: byte) \<le> 125" "ucast (ucast len :: byte) = len" "unat (ucast len :: byte) = unat len"
proof -
  have n: "unat len \<le> 125" using assms by (simp add: word_le_nat_alt)
  then show u: "unat (ucast len :: byte) = unat len" by (simp add: unsigned_ucast_eq take_bit_eq_mod)
  show "ucast (ucast len :: byte) = len" using n by (simp add: word_unat_eq_iff unsigned_ucast_eq take_bit_eq_mod unat_mod)
  show "(ucast len :: byte) \<le> 125" using n u by (simp add: word_le_nat_alt)
qed

lemma len_ext_whole:
  assumes "f_idx f = word_of_nat i" "f_len f = 0" "i \<le> 8" "n < 256 ^ i"
  shows "len_ext_loop f (be_bytes i n @ rest) 0 = (f\<lparr>f_idx := 0, f_len := word_of_nat n\<rparr>, i)"
proof -
  have l: "length (be_bytes i n) = i" by simp
  show ?thesis
    using len_ext_be [OF assms(3,1), of n "be_bytes i n @ rest" i 0] assms(2,4) by simp
qed

lemma read_length_ext:
  assumes "ws_memory e" "f_len (frame_in s) = 0" "\<forall>b. f_buffer (frame_in s) = Some b \<longrightarrow> length b = f_buf_len (frame_in s)"
    and "f_flags (frame_in s) AND 8 = 0" "(l, i) \<in> {(0xFE, 2), (0xFF, 8)}" "unat len < 256 ^ i"
  shows "\<exists>r s'. ws_read_length e s (l # be_bytes i (unat len) @ rest) = Some (r, s') \<and>
     r = (if len AND 0x8000000000000000 \<noteq> 0 then Inl EBADMSG else if unat len \<le> 4096 then Inr (Suc i) else Inl ENOBUFS) \<and>
     f_len (frame_in s') = len \<and> (r = Inr (Suc i) \<longrightarrow> parse_state (frame_in s') = WS_PARSE_MASKING_KEY)"
proof -
  define t where "t = upd_frame (\<lambda>f. f\<lparr>masked := 0x80, f_idx := word_of_nat i, parse_state := WS_PARSE_LEN_EXTENDED\<rparr>) s"
  have p: "ymo_ws_parse_len e s (l # be_bytes i (unat len) @ rest) = Some (Inr 1, t)"
    using assms(4,5) by (auto simp: t_def ymo_ws_parse_len_def ws_consts Let_def comp_def word_le_nat_alt)
  have t: "f_idx (frame_in t) = word_of_nat i" "f_len (frame_in t) = 0" "parse_state (frame_in t) = WS_PARSE_LEN_EXTENDED"
      "\<forall>b. f_buffer (frame_in t) = Some b \<longrightarrow> length b = f_buf_len (frame_in t)"
    using assms(2,3) by (simp_all add: t_def)
  define u where "u = upd_frame (\<lambda>_. (frame_in t)\<lparr>f_idx := 0, f_len := len\<rparr>) t"
  have loop: "len_ext_loop (frame_in t) (be_bytes i (unat len) @ rest) 0 = ((frame_in t)\<lparr>f_idx := 0, f_len := len\<rparr>, i)"
    using len_ext_whole [OF t(1,2) _ assms(6), of rest] assms(5) by auto
  have u: "f_len (frame_in u) = len" "\<forall>b. f_buffer (frame_in u) = Some b \<longrightarrow> length b = f_buf_len (frame_in u)"
    using t(4) by (simp_all add: u_def)
  have e: "ymo_ws_parse_len_ext e t (be_bytes i (unat len) @ rest) = Some
      (if len AND 0x8000000000000000 \<noteq> 0 then (Inl EBADMSG, u)
       else case ymo_ws_session_alloc_frame e (unat len) u of
         (st, s) \<Rightarrow> if st \<noteq> YMO_OKAY then (Inl st, s)
           else (Inr i, upd_frame (\<lambda>f. f\<lparr>parse_state := WS_PARSE_MASKING_KEY\<rparr>) s))"
    by (simp add: ymo_ws_parse_len_ext_def loop u_def [symmetric] Let_def)
  show ?thesis
  proof (cases "unat len \<le> 4096")
    case True
    then obtain b where "ymo_ws_session_alloc_frame e (unat len) u =
        (YMO_OKAY, upd_frame (\<lambda>f. f\<lparr>f_buffer := Some b, f_buf_len := length b\<rparr>) u)"
      using alloc_frame_ok [OF assms(1) _ u(2), of "unat len"] by (auto simp: YMO_WS_FRAME_MAX_def)
    with True u(1) show ?thesis by (simp add: ws_read_length_def p t(3) e)
  next
    case False
    then have "ymo_ws_session_alloc_frame e (unat len) u = (ENOBUFS, u)"
      by (simp add: ymo_ws_session_alloc_frame_def YMO_WS_FRAME_MAX_def)
    with False u(1) show ?thesis by (simp add: ws_read_length_def p t(3) e)
  qed
qed

text \<open>
  C38: the header the library puts before an outgoing message is its opening byte and the length, in 2, 4
  or 10 bytes, whichever is the shortest form that holds it.  The library's own length parser, given the
  header with the mask bit that it demands of a client (a server's header does not have it), reads back exactly this
  length and consumes exactly the header, whatever follows it, when the length is at most 4096, the most it accepts;
  longer ones it reads and refuses, with EBADMSG when the top bit is set and ENOBUFS otherwise.  The
  parser is between the first byte of a frame and its second, an extended length is not that of a control frame, and
  the allocation of the frame buffer succeeds.
\<close>

theorem ws_header_roundtrip:
  assumes "ws_memory e" "f_len (frame_in s) = 0" "\<forall>b. f_buffer (frame_in s) = Some b \<longrightarrow> length b = f_buf_len (frame_in s)"
    and "len \<le> 125 \<or> f_flags (frame_in s) AND 8 = 0" "hdr = ws_hdr_bytes flag len"
  shows "hdr ! 0 = flag \<and> length hdr = (if len \<le> 125 then 2 else if len \<le> 0xffff then 4 else 10) \<and>
    (\<exists>r s'. ws_read_length e s (drop 1 (ws_masked hdr) @ rest) = Some (r, s') \<and> f_len (frame_in s') = len \<and>
       r = (if len AND 0x8000000000000000 \<noteq> 0 then Inl EBADMSG
            else if unat len \<le> 4096 then Inr (length hdr - 1) else Inl ENOBUFS) \<and>
       (unat len \<le> 4096 \<longrightarrow> parse_state (frame_in s') = WS_PARSE_MASKING_KEY))"
proof (cases "len \<le> 125")
  case True
  note l = small_len_byte [OF True]
  have n: "unat len \<le> 4096" using True by (simp add: word_le_nat_alt)
  have top: "len AND 0x8000000000000000 = 0" by (rule small_top [OF n])
  have m: "(0x80 OR ucast len :: byte) AND 0x7f = ucast len" "(0x80 OR ucast len :: byte) AND 0x80 = 0x80"
    using len_byte_bits l(1) by auto
  let ?t = "upd_frame (\<lambda>f. f\<lparr>masked := 0x80, f_len := len, parse_state := WS_PARSE_MASKING_KEY\<rparr>) s"
  obtain b where "ymo_ws_session_alloc_frame e (unat len) ?t =
      (YMO_OKAY, upd_frame (\<lambda>f. f\<lparr>f_buffer := Some b, f_buf_len := length b\<rparr>) ?t)"
    using alloc_frame_ok [OF assms(1), of "unat len" ?t] assms(3) n by (auto simp: YMO_WS_FRAME_MAX_def)
  then have "ws_read_length e s ((0x80 OR ucast len) # rest) =
      Some (Inr 1, upd_frame (\<lambda>f. f\<lparr>f_buffer := Some b, f_buf_len := length b\<rparr>) ?t)"
    using m l by (simp add: ws_read_length_def ymo_ws_parse_len_def ws_consts Let_def comp_def)
  then show ?thesis using True n top by (simp add: assms(5) ws_hdr_bytes_def ws_masked_def)
next
  case False
  then have fl: "f_flags (frame_in s) AND 8 = 0" using assms(4) by simp
  note ext = read_length_ext [OF assms(1-3) fl]
  have top: "len AND 0x8000000000000000 = 0" if "unat len \<le> 4096" by (rule small_top [OF that])
  show ?thesis
  proof (cases "len \<le> 0xffff")
    case True
    then have "unat len < 256 ^ 2" by (simp add: word_le_nat_alt)
    from ext [of "0xFE" 2, OF _ this, of rest] True False top show ?thesis
      by (auto simp: assms(5) ws_hdr_be ws_masked_def simp del: be_bytes_numeral)
  next
    case big: False
    have "unat len < 256 ^ 8" using unsigned_less [of len] by simp
    from ext [of "0xFF" 8, OF _ this, of rest] big False top show ?thesis
      by (auto simp: assms(5) ws_hdr_be ws_masked_def simp del: be_bytes_numeral)
  qed
qed

theorem ws_header_roundtrip_witness:
  "\<exists>s'. ws_read_length ws_env0 (ymo_ws_session_create ()) (drop 1 (ws_masked (ws_hdr_bytes 0x82 300)) @ [7, 7]) =
     Some (Inr 3, s') \<and> f_len (frame_in s') = 300"
  using ws_header_roundtrip [OF ws_env0_memory, of "ymo_ws_session_create ()" 300 "ws_hdr_bytes 0x82 300" "0x82" "[7, 7]"]
  by (auto simp: ymo_ws_session_create_def frame_zero_def word_le_nat_alt)

section \<open>Opening bytes\<close>

text \<open>
  The first byte of a frame is accepted exactly when RFC 6455 allows it: no reserved bit, a known
  opcode, control frames not fragmented, a continuation only inside a fragmented message and a new
  message only outside one; an accepted unfinished text or binary frame opens a fragmented message,
  and nothing else does.
\<close>

theorem ws_op_rules:
  "\<exists>r s'. ymo_ws_parse_op s (packed # rest) = Some (r, s') \<and>
     (r = Inr 1 \<longleftrightarrow> packed AND 0x70 = 0 \<and>
        (packed AND 0x0f = 0 \<and> msg_type s \<noteq> 0 \<or> packed AND 0x0f \<in> {1, 2} \<and> msg_type s = 0 \<or>
         packed AND 0x0f \<in> {8, 9, 10} \<and> packed AND 0x80 \<noteq> 0)) \<and>
     (r = Inr 1 \<longrightarrow> parse_state (frame_in s') = WS_PARSE_LEN \<and> f_flags (frame_in s') = packed \<and>
        msg_type s' = (if packed AND 0x0f \<in> {1, 2} \<and> packed AND 0x80 = 0 then packed AND 0x0f else msg_type s)) \<and>
     (r \<noteq> Inr 1 \<longrightarrow> r = Inl EBADMSG \<or> r = Inl EINVAL)"
  unfolding ymo_ws_parse_op_def list.case Let_def YMO_WS_FLAGS_RESERVED_def f_op_def f_fin_def ws_consts
  by (auto simp: upd_frame_def)

theorem ws_op_rules_witness:
  "\<exists>s'. ymo_ws_parse_op (ymo_ws_session_create ()) [0x01] = Some (Inr 1, s') \<and> msg_type s' = 1"
  using ws_op_rules [of "ymo_ws_session_create ()" "0x01" "[]"]
  by (auto simp: ymo_ws_session_create_def)

section \<open>Closing\<close>

text \<open>The two buckets of a frame with a small payload that is copied.\<close>

definition ws_frame_buckets :: "byte \<Rightarrow> bytes \<Rightarrow> chain" where
  "ws_frame_buckets flag dat = (let hdr = ws_hdr_bytes flag (word_of_nat (length dat)) in
     [\<lparr>data = hdr, blen = length hdr, buf = Some hdr, bytes_sent = 0, has_cleanup = False\<rparr>,
      \<lparr>data = dat, blen = length dat, buf = (if dat = [] then None else Some dat), bytes_sent = 0, has_cleanup = False\<rparr>])"

lemma bucket_from_cpy_ok:
  "ws_memory e \<Longrightarrow> bucket_from_cpy e dat =
     Some [\<lparr>data = dat, blen = length dat, buf = (if dat = [] then None else Some dat), bytes_sent = 0, has_cleanup = False\<rparr>]"
  by (auto simp: ws_memory_def bucket_from_cpy_def ymo_bucket_create_cpy_def bucket_link_def)

lemma send_frame_ok:
  assumes "ws_memory e" "\<not> send_lost s" "bucket_from_cpy e dat = Some payload"
  shows "ymo_ws_session_send_no_check e s flag payload =
    (YMO_OKAY, s\<lparr>send_head := send_head s @ ws_frame_buckets flag dat, acts := acts s @ [Tx_enable True]\<rparr>)"
  using assms bucket_from_cpy_ok [OF assms(1), of dat]
  by (cases s) (auto simp: ws_memory_def ymo_ws_session_send_no_check_def gen_ws_msg_hdr_def Let_def push_send_def
      ymo_bucket_create_def bucket_link_def ws_frame_buckets_def split: option.splits)

text \<open>A session that has seen a close, or an error, takes no more input and sends nothing more.\<close>

definition ws_finished :: "'u ws_session \<Rightarrow> bool" where
  "ws_finished s \<longleftrightarrow> (\<forall>e e' cb rd input flgs payload.
     ymo_proto_ws_read e cb s rd input = Some (Inr (length input), s) \<and>
     (\<exists>st. st \<noteq> YMO_OKAY \<and> ymo_ws_session_send e' s flgs payload = (st, s)))"

lemma ws_finishedI: "ws_state s \<in> {WS_SESSION_CLOSE_RECEIVED, WS_SESSION_ERROR} \<Longrightarrow> ws_finished s"
  unfolding ws_finished_def
  by (intro allI conjI; elim insertE emptyE; simp add: ymo_proto_ws_read_def ymo_ws_session_send_def)

text \<open>The reason is in the first bucket that has data; an empty pong leaves an empty bucket before it.\<close>

lemma close_vals_empty: "close_vals f (replicate k Recv_empty @ bs) [] = close_vals f bs []"
  by (induction k) (simp_all add: recv_data_def)

lemma close_reason_one:
  assumes "recv_head s = replicate k Recv_empty @ [b]" "recv_data b (frame_in s) = Some d"
  shows "get_close_reason s = Some (case d of x # y # _ \<Rightarrow> Some (push_bit 8 (ucast x) OR ucast y) | _ \<Rightarrow> None)"
proof -
  have "close_vals (frame_in s) (recv_head s) [] = Some (take 2 d)" using assms by (simp add: close_vals_empty)
  then show ?thesis by (cases d; cases "tl d") (simp_all add: get_close_reason_def)
qed

text \<open>The echo callback sends every bucket it is given as a frame of its own.\<close>

lemma echo_loop:
  assumes "ws_memory e" "\<not> send_lost s" "f_op (f_flags (frame_in s)) = YMO_WS_OP_CLOSE"
    and "map (\<lambda>b. recv_data b (frame_in s)) bs = map Some ds"
  shows "recv_loop (ws_echo_cb e) st bs s = Some (if bs = [] then st else YMO_OKAY,
    s\<lparr>send_head := send_head s @ concat (map (ws_frame_buckets (f_flags (frame_in s))) ds),
      acts := acts s @ replicate (length bs) (Tx_enable True)\<rparr>)"
  using assms
proof (induction bs arbitrary: ds st s)
  case (Cons b bs)
  obtain d ds' where d: "ds = d # ds'" "recv_data b (frame_in s) = Some d" "map (\<lambda>b. recv_data b (frame_in s)) bs = map Some ds'"
    using Cons.prems(4) by (cases ds) auto
  let ?s = "s\<lparr>send_head := send_head s @ ws_frame_buckets (f_flags (frame_in s)) d, acts := acts s @ [Tx_enable True]\<rparr>"
  have cb: "ws_echo_cb e s (f_flags (frame_in s)) d = Some (YMO_OKAY, ?s)"
    using Cons.prems(3) bucket_from_cpy_ok [OF assms(1), of d]
      send_frame_ok [OF assms(1) Cons.prems(2), of d _ "f_flags (frame_in s)"]
    by (simp add: ws_echo_cb_def Let_def ws_consts)
  then show ?case
    using Cons.IH [of ?s ds' YMO_OKAY] Cons.prems(1-3) d by simp
qed (cases s, simp)

text \<open>
  C37: the answer to a close frame on a connected session.  When it has no status code or a valid one, it is
  an echo of the frame, exactly one if nothing else waits in the queue for the application, and before it one empty
  close frame for each empty pong that came earlier and left its bucket in the queue (the code sends a
  frame per bucket).  When its code is not valid, it is exactly one close frame of status 1002.  In both cases the session
  accepts no further input and refuses to send anything after it.  The frame is complete, its allocations succeed,
  and the chain to be sent has not been lost by a failed one before.
\<close>

theorem ws_close_handshake:
  assumes "ws_memory e" "\<not> send_lost s" "ws_state s = WS_SESSION_CONNECTED"
    and "f_op (f_flags (frame_in s)) = YMO_WS_OP_CLOSE"
    and "recv_head s = replicate pongs Recv_empty @ [b]" "recv_data b (frame_in s) = Some d"
  defines "bad \<equiv> (case d of x # y # _ \<Rightarrow> \<not> is_reason_valid (push_bit 8 (ucast x) OR ucast y) | _ \<Rightarrow> False)"
  shows "\<exists>r s'. ws_frame_complete e cb s len n = Some (r, s') \<and> r = (if bad then Inr len else Inl EAGAIN) \<and>
     send_head s' = send_head s @
       (if bad then ws_frame_buckets 0x88 [0x03, 0xEA]
        else concat (replicate pongs (ws_frame_buckets (f_flags (frame_in s)) [])) @ ws_frame_buckets (f_flags (frame_in s)) d) \<and>
     ws_finished s'"
proof -
  let ?s = "s\<lparr>ws_state := WS_SESSION_CLOSE_RECEIVED\<rparr>"
  have h: "ws_frame_complete e cb s len n = handle_client_close e s len"
    using assms(4) by (simp add: ws_frame_complete_def Let_def ws_consts)
  have r: "get_close_reason ?s = Some (case d of x # y # _ \<Rightarrow> Some (push_bit 8 (ucast x) OR ucast y) | _ \<Rightarrow> None)"
    using close_reason_one [of ?s pongs b d] assms(5,6) by simp
  have b: "(case (case d of x # y # _ \<Rightarrow> Some (push_bit 8 (ucast x) OR ucast y) | _ \<Rightarrow> None) of
      None \<Rightarrow> False | Some reason \<Rightarrow> \<not> is_reason_valid reason) = bad"
    by (auto simp: bad_def split: list.splits)
  show ?thesis
  proof (cases "bad")
    case True
    have "reason_bytes 1002 = [0x03, 0xEA]" by (simp add: reason_bytes_def)
    then have "handle_client_close e s len = Some (Inr len, ?s\<lparr>ws_state := WS_SESSION_ERROR,
        send_head := send_head s @ ws_frame_buckets 0x88 [0x03, 0xEA], acts := acts s @ [Tx_enable True]\<rparr>)"
      using assms(1-3) r b True bucket_from_cpy_ok [OF assms(1)]
        send_frame_ok [OF assms(1), of "?s\<lparr>ws_state := WS_SESSION_ERROR\<rparr>" "[0x03, 0xEA]" _ "0x88"]
      by (cases s) (simp add: handle_client_close_def ws_err_close_def send_ws_close_def Let_def ws_consts)
    then show ?thesis using h True by (auto intro!: ws_finishedI)
  next
    case False
    have ds: "map (\<lambda>b. recv_data b (frame_in ?s)) (recv_head ?s) = map Some (replicate pongs [] @ [d])"
      using assms(5,6) by (simp add: recv_data_def)
    obtain s' where "invoke_recv_callback (ws_echo_cb e) ?s = Some (YMO_OKAY, s')" "ws_state s' = WS_SESSION_CLOSE_RECEIVED"
        "send_head s' = send_head s @ concat (replicate pongs (ws_frame_buckets (f_flags (frame_in s)) [])) @
           ws_frame_buckets (f_flags (frame_in s)) d"
      using echo_loop [OF assms(1) _ _ ds, of ENOENT] assms(2,4,5) by (simp add: invoke_recv_callback_def)
    then have "handle_client_close e s len = Some (Inl EAGAIN, s'\<lparr>acts := acts s' @ [Tx_now]\<rparr>)"
      using assms(3) r b False by (simp add: handle_client_close_def Let_def)
    then show ?thesis
      using h False \<open>ws_state s' = _\<close> \<open>send_head s' = _\<close> by (auto intro!: ws_finishedI)
  qed
qed

text \<open>A close frame without a body that follows an empty pong is answered twice.\<close>

theorem ws_close_handshake_witness:
  "\<exists>r s'. ws_frame_complete ws_env0 (app_cb (\<lambda>u f d. u)) ((ymo_ws_session_create ())\<lparr>
        frame_in := frame_zero\<lparr>f_flags := 0x88, parse_state := WS_PARSE_COMPLETE\<rparr>,
        recv_head := [Recv_empty, Recv_empty]\<rparr>) 8 8 = Some (r, s') \<and>
     r = Inl EAGAIN \<and> send_head s' = ws_frame_buckets 0x88 [] @ ws_frame_buckets 0x88 [] \<and> ws_finished s'"
proof -
  let ?s = "(ymo_ws_session_create ())\<lparr>frame_in := frame_zero\<lparr>f_flags := 0x88, parse_state := WS_PARSE_COMPLETE\<rparr>,
      recv_head := [Recv_empty, Recv_empty]\<rparr>"
  show ?thesis
    using ws_close_handshake [OF ws_env0_memory, of ?s 1 Recv_empty "[]" "app_cb (\<lambda>u f d. u)" 8 8]
    by (simp add: ymo_ws_session_create_def f_op_def ws_consts recv_data_def)
qed

section \<open>Two defects of fragmented messages\<close>

text \<open>
  A fragmented text message that ends with an empty fragment is never recognised as ended: its
  last character is not checked to be complete (a lone lead byte is accepted), the message stays
  open, and the client's next text message is refused and the session closed with an error.
\<close>

theorem ws_empty_final_fragment:
  "map_option (\<lambda>s. (ws_state s, user_data s, msg_type s))
     (ws_reads ws_env0 (app_cb (\<lambda>u f d. u @ [(f, d)])) (ymo_ws_session_create [])
       [(0, [0x01, 0x81, 0, 0, 0, 0, 0xC3]), (0, [0x80, 0x80, 0, 0, 0, 0])]) =
     Some (WS_SESSION_CONNECTED, [(0x01, [0xC3]), (0x80, [])], YMO_WS_OP_TEXT) \<and>
   map_option (\<lambda>s. (ws_state s, user_data s))
     (ws_reads ws_env0 (app_cb (\<lambda>u f d. u @ [(f, d)])) (ymo_ws_session_create [])
       [(0, [0x01, 0x81, 0, 0, 0, 0, 0xC3]), (0, [0x80, 0x80, 0, 0, 0, 0]), (0, [0x81, 0x81, 0, 0, 0, 0, 0x41])]) =
     Some (WS_SESSION_ERROR, [(0x01, [0xC3]), (0x80, [])])"
  by (rule conjI; code_simp)

text \<open>
  C39: in the buffered mode the length of the collected message is never counted: the application is
  given an empty message in place of every message, fragments beyond the 4096 bytes of the buffer
  are written past its end although each of them passes the size check, and an empty last fragment
  delivers nothing at all.
\<close>

theorem ws_buffered_messages_lost:
  assumes "ws_msg s = Some blk" "length blk = YMO_WS_MSG_LEN_MAX" "msg_len s = 0"
    and "dat \<noteq> []" "length dat \<le> YMO_WS_MSG_LEN_MAX"
  shows "if YMO_WS_MSG_LEN_MAX < msg_end s + length dat then ws_buffer_msg e cb s flgs dat = None
     else \<exists>blk'. let s' = s\<lparr>ws_msg := Some blk', msg_end := msg_end s + length dat\<rparr> in
       ws_buffer_msg e cb s flgs dat =
         (if f_fin flgs then map_option (\<lambda>(st, s). (st, s\<lparr>msg_end := 0, msg_len := 0\<rparr>)) (cb s' flgs [])
          else Some (YMO_OKAY, s')) \<and>
       ws_buffer_msg e cb s' flgs [] = Some (YMO_OKAY, s')"
  using assms
  by (auto simp: ws_buffer_msg_def Let_def put_at_def
      intro!: exI [of _ "take (msg_end s) blk @ dat @ drop (msg_end s + length dat) blk"])

theorem ws_buffered_messages_lost_witness:
  "\<exists>s'. ws_buffer_msg ws_env0 (app_cb (\<lambda>u f d. u @ [(f, d)])) ((ymo_ws_session_create [])\<lparr>ws_msg := Some (replicate 4096 0)\<rparr>)
       0x82 [1, 2, 3] = Some (YMO_OKAY, s') \<and> user_data s' = [(0x82, [])]"
  using ws_buffered_messages_lost [of "(ymo_ws_session_create [])\<lparr>ws_msg := Some (replicate 4096 0)\<rparr>" "replicate 4096 0"
      "[1, 2, 3]" ws_env0 "app_cb (\<lambda>u f d. u @ [(f, d)])" "0x82"]
  by (auto simp: YMO_WS_MSG_LEN_MAX_def ymo_ws_session_create_def app_cb_def f_fin_def ws_consts Let_def)

end
