(* ===== verification/Ws_Safe.thy ===== *)
theory Ws_Safe
  imports Ws_Delivery
begin

text \<open>
  What any client can do to a WebSocket session: whatever bytes arrive, in whatever pieces, the
  read callback stays inside its memory, makes progress, and keeps the session's invariant.
\<close>

section \<open>The invariant of a session\<close>

definition ws_sized :: "ymo_ws_frame \<Rightarrow> bool" where
  "ws_sized f \<longleftrightarrow> f_buffer f \<noteq> None \<and> unat (f_len f) \<le> f_buf_len f \<and>
     (f_op (f_flags f) = YMO_WS_OP_CLOSE \<longrightarrow> unat (f_len f) \<le> 125)"

definition ws_frame_inv :: "ymo_ws_frame \<Rightarrow> bool" where
  "ws_frame_inv f \<longleftrightarrow> length (masking_key f) = 4 \<and>
     (\<forall>b. f_buffer f = Some b \<longrightarrow> length b = f_buf_len f \<and> YMO_WS_FRAME_MIN \<le> f_buf_len f) \<and>
     (case parse_state f of
        WS_PARSE_OP \<Rightarrow> f_len f = 0 \<and> f_parsed f = 0 \<and> f_idx f = 0
      | WS_PARSE_LEN \<Rightarrow> f_len f = 0 \<and> f_parsed f = 0 \<and> f_idx f = 0
      | WS_PARSE_LEN_EXTENDED \<Rightarrow> f_parsed f = 0 \<and> masked f \<noteq> 0 \<and> f_idx f \<noteq> 0 \<and> f_flags f AND 8 = 0
      | WS_PARSE_MASKING_KEY \<Rightarrow> f_parsed f = 0 \<and> masked f \<noteq> 0 \<and> unat (f_idx f) < 4 \<and> ws_sized f
      | WS_PARSE_PAYLOAD \<Rightarrow> f_parsed f < unat (f_len f) \<and> ws_sized f
      | WS_PARSE_COMPLETE \<Rightarrow> ws_sized f)"

text \<open>The buckets waiting for the application; an empty pong leaves its bucket behind.\<close>

definition ws_core :: "'u ws_session \<Rightarrow> bool" where
  "ws_core s \<longleftrightarrow> ws_frame_inv (frame_in s) \<and> \<not> recv_lost s \<and>
     set (recv_head s) \<subseteq> insert Recv_empty
       (if parse_state (frame_in s) = WS_PARSE_COMPLETE \<and> f_op (f_flags (frame_in s)) \<noteq> YMO_WS_OP_PONG then {Recv_frame (unat (f_len (frame_in s)))} else {})"

text \<open>What waits to be sent can always be sent, if the socket takes it.\<close>

definition ws_inv :: "'u ws_session \<Rightarrow> bool" where
  "ws_inv s \<longleftrightarrow> sendable (send_head s) \<and> (ws_state s \<in> {WS_SESSION_CLOSE_RECEIVED, WS_SESSION_ERROR} \<or>
     ws_state s = WS_SESSION_CONNECTED \<and> ws_core s \<and> parse_state (frame_in s) \<noteq> WS_PARSE_COMPLETE)"

lemma ws_create_inv: "ws_inv (ymo_ws_session_create u)"
  by (simp add: ws_inv_def ws_core_def ws_frame_inv_def ymo_ws_session_create_def frame_zero_def)

section \<open>One turn of the parse loop\<close>

text \<open>A turn consumes part of the input and keeps the invariant, or ends in an error.\<close>

definition ws_turn :: "'u ws_session \<Rightarrow> nat \<Rightarrow> 'u ws_result \<Rightarrow> bool" where
  "ws_turn s len res \<longleftrightarrow> (\<exists>r s'. res = Some (r, s') \<and> ws_state s' = ws_state s \<and> acts s' = acts s \<and>
     (case r of Inl st \<Rightarrow> True | Inr k \<Rightarrow> 0 < k \<and> k \<le> len \<and> ws_core s'))"

lemma upd_frame_acts [simp]: "acts (upd_frame g s) = acts s"
  by (simp add: upd_frame_def)

lemma ws_turn_simps [simp]:
  "ws_turn s len (Some (Inl st, s')) \<longleftrightarrow> ws_state s' = ws_state s \<and> acts s' = acts s"
  "ws_turn s len (Some (Inr k, s')) \<longleftrightarrow>
     ws_state s' = ws_state s \<and> acts s' = acts s \<and> 0 < k \<and> k \<le> len \<and> ws_core s'"
  by (auto simp: ws_turn_def)

lemma ws_turn_if:
  "ws_turn s len (Some (if c then x else y)) \<longleftrightarrow> (if c then ws_turn s len (Some x) else ws_turn s len (Some y))"
  by simp

lemma turn_op:
  assumes "ws_core s" "parse_state (frame_in s) = WS_PARSE_OP" "input \<noteq> []"
  shows "ws_turn s (length input) (ymo_ws_parse_op s input)"
proof -
  obtain c cs where i: "input = c # cs" using assms(3) by (cases input) auto
  have "ws_core (upd_frame (\<lambda>f. f\<lparr>parse_state := WS_PARSE_LEN\<rparr>) (upd_frame (\<lambda>f. f\<lparr>f_flags := c\<rparr>) s))"
      "ws_core (upd_frame (\<lambda>f. f\<lparr>parse_state := WS_PARSE_LEN\<rparr>) ((upd_frame (\<lambda>f. f\<lparr>f_flags := c\<rparr>) s)\<lparr>msg_type := t\<rparr>))" for t
    using assms(1,2) by (simp_all add: ws_core_def ws_frame_inv_def upd_frame_def)
  then show ?thesis
    unfolding i ymo_ws_parse_op_def list.case Let_def ws_turn_if
    by (simp del: upd_frame_simps(2))
qed

lemma alloc_frame_space:
  assumes "ws_memory e"
    and "\<forall>b. f_buffer (frame_in s) = Some b \<longrightarrow> length b = f_buf_len (frame_in s) \<and> YMO_WS_FRAME_MIN \<le> f_buf_len (frame_in s)"
  shows "(\<exists>st. st \<noteq> YMO_OKAY \<and> ymo_ws_session_alloc_frame e n s = (st, s)) \<or>
     (\<exists>b. ymo_ws_session_alloc_frame e n s =
        (YMO_OKAY, upd_frame (\<lambda>f. f\<lparr>f_buffer := Some b, f_buf_len := length b\<rparr>) s) \<and>
        n \<le> length b \<and> YMO_WS_FRAME_MIN \<le> length b)"
proof (cases "n \<le> YMO_WS_FRAME_MAX")
  case True
  show ?thesis
  proof (cases "f_buffer (frame_in s) \<noteq> None \<and> n \<le> f_buf_len (frame_in s)")
    case True
    then obtain b where b: "f_buffer (frame_in s) = Some b" "length b = f_buf_len (frame_in s)"
        "YMO_WS_FRAME_MIN \<le> length b"
      using assms(2) by auto
    then have "upd_frame (\<lambda>f. f\<lparr>f_buffer := Some b, f_buf_len := length b\<rparr>) s = s"
      by (cases s; cases "frame_in s") (simp add: upd_frame_def)
    then show ?thesis
      using True b \<open>n \<le> YMO_WS_FRAME_MAX\<close>
      by (intro disjI2 exI [of _ b]) (simp add: ymo_ws_session_alloc_frame_def)
  next
    case False
    obtain b where "ws_alloc e (max YMO_WS_FRAME_MIN n) = Some b" "length b = max YMO_WS_FRAME_MIN n"
      using assms(1) by (auto simp: ws_memory_def)
    with False \<open>n \<le> YMO_WS_FRAME_MAX\<close> show ?thesis
      by (intro disjI2 exI [of _ b]) (auto simp: ymo_ws_session_alloc_frame_def Let_def)
  qed
next
  case False
  then show ?thesis by (simp add: ymo_ws_session_alloc_frame_def)
qed

lemma turn_len:
  assumes "ws_core s" "parse_state (frame_in s) = WS_PARSE_LEN" "input \<noteq> []" "ws_memory e"
  shows "ws_turn s (length input) (ymo_ws_parse_len e s input)"
proof -
  obtain c cs where i: "input = c # cs" using assms(3) by (cases input) auto
  define m where "m = c AND YMO_WS_MASK_LEN"
  define s1 where "s1 = upd_frame (\<lambda>f. f\<lparr>masked := c AND YMO_WS_FLAG_MASKED\<rparr>) s"
  define s2 where "s2 = upd_frame (\<lambda>f. f\<lparr>f_len := ucast m, parse_state := WS_PARSE_MASKING_KEY\<rparr>) s1"
  have e: "ymo_ws_parse_len e s input = Some (
      if c AND YMO_WS_FLAG_MASKED = 0 then (Inl EBADMSG, s1)
      else if m \<le> 125 then
        (case ymo_ws_session_alloc_frame e (unat m) s2 of
           (st, s) \<Rightarrow> (if st \<noteq> YMO_OKAY then Inl st else Inr 1, s))
      else
        let s = upd_frame (\<lambda>f. f\<lparr>f_idx := (if m = 126 then 2 else 8), parse_state := WS_PARSE_LEN_EXTENDED\<rparr>) s1
        in (if f_flags (frame_in s) AND 0x08 \<noteq> 0 then Inl EBADMSG else Inr 1, s))"
    unfolding i ymo_ws_parse_len_def s1_def s2_def m_def by (simp add: Let_def)
  show ?thesis
  proof (cases "c AND YMO_WS_FLAG_MASKED = 0")
    case True
    then show ?thesis unfolding e by (simp add: ws_turn_def s1_def)
  next
    case masked: False
    show ?thesis
    proof (cases "m \<le> 125")
      case True
      then have m: "unat m \<le> 125" "unat (ucast m :: u64) = unat m"
        by (simp_all add: word_le_nat_alt unsigned_ucast_eq take_bit_nat_eq_self)
      have "(\<exists>st. st \<noteq> YMO_OKAY \<and> ymo_ws_session_alloc_frame e (unat m) s2 = (st, s2)) \<or>
         (\<exists>b. ymo_ws_session_alloc_frame e (unat m) s2 =
            (YMO_OKAY, upd_frame (\<lambda>f. f\<lparr>f_buffer := Some b, f_buf_len := length b\<rparr>) s2) \<and>
            unat m \<le> length b \<and> YMO_WS_FRAME_MIN \<le> length b)"
        by (rule alloc_frame_space [OF assms(4)])
          (use assms(1) in \<open>simp add: s2_def s1_def ws_core_def ws_frame_inv_def\<close>)
      then show ?thesis
        using assms(1,2) True masked m unfolding e
        by (elim disjE exE conjE)
          (auto simp: ws_turn_def s2_def s1_def ws_core_def ws_frame_inv_def ws_sized_def i)
    next
      case False
      then show ?thesis
        using assms(1,2) masked unfolding e
        by (auto simp: ws_turn_def s1_def ws_core_def ws_frame_inv_def Let_def i)
    qed
  qed
qed

lemma len_ext_steps:
  "\<exists>i l k. len_ext_loop f xs m = (f\<lparr>f_idx := i, f_len := l\<rparr>, m + k) \<and> k \<le> length xs \<and>
     (xs \<noteq> [] \<longrightarrow> f_idx f \<noteq> 0 \<longrightarrow> 0 < k)"
proof (induction f xs m rule: len_ext_loop.induct)
  case (1 f n)
  show ?case by (intro exI [of _ "f_idx f"] exI [of _ "f_len f"] exI [of _ 0]) simp
next
  case (2 f c cs n)
  show ?case
  proof (cases "f_idx f = 0")
    case True
    then show ?thesis by (intro exI [of _ "f_idx f"] exI [of _ "f_len f"] exI [of _ 0]) simp
  next
    case False
    with 2 obtain i l k where
      "len_ext_loop (f\<lparr>f_idx := f_idx f - 1, f_len := f_len f + push_bit (8 * unat (f_idx f - 1)) (ucast c)\<rparr>) cs (n + 1) =
         (f\<lparr>f_idx := i, f_len := l\<rparr>, n + 1 + k)" "k \<le> length cs"
      by fastforce
    with False show ?thesis
      by (intro exI [of _ i] exI [of _ l] exI [of _ "Suc k"]) (simp add: Let_def)
  qed
qed

lemma control_bit: "f_op p = YMO_WS_OP_CLOSE \<longrightarrow> p AND 8 \<noteq> 0"
  by (rule all_bytesI [of _ p]) (simp add: all_bytes_def f_op_def ws_consts)

lemma turn_ext:
  assumes "ws_core s" "parse_state (frame_in s) = WS_PARSE_LEN_EXTENDED" "input \<noteq> []" "ws_memory e"
  shows "ws_turn s (length input) (ymo_ws_parse_len_ext e s input)"
proof -
  let ?f = "frame_in s"
  obtain i l k where l: "len_ext_loop ?f input 0 = (?f\<lparr>f_idx := i, f_len := l\<rparr>, k)" "k \<le> length input"
      "input \<noteq> [] \<longrightarrow> f_idx ?f \<noteq> 0 \<longrightarrow> 0 < k"
    using len_ext_steps [of ?f input 0] by auto
  then have k: "0 < k" using assms(1-3) by (simp add: ws_core_def ws_frame_inv_def)
  define s1 where "s1 = upd_frame (\<lambda>_. ?f\<lparr>f_idx := i, f_len := l\<rparr>) s"
  have c: "f_op (f_flags ?f) \<noteq> YMO_WS_OP_CLOSE"
    using control_bit [of "f_flags ?f"] assms(1,2) by (auto simp: ws_core_def ws_frame_inv_def)
  have "(\<exists>st. st \<noteq> YMO_OKAY \<and> ymo_ws_session_alloc_frame e (unat l) s1 = (st, s1)) \<or>
     (\<exists>b. ymo_ws_session_alloc_frame e (unat l) s1 =
        (YMO_OKAY, upd_frame (\<lambda>f. f\<lparr>f_buffer := Some b, f_buf_len := length b\<rparr>) s1) \<and>
        unat l \<le> length b \<and> YMO_WS_FRAME_MIN \<le> length b)"
    by (rule alloc_frame_space [OF assms(4)]) (use assms(1) in \<open>simp add: s1_def ws_core_def ws_frame_inv_def\<close>)
  moreover have "ymo_ws_parse_len_ext e s input = Some (
      if i = 0 then
        if l AND 0x8000000000000000 \<noteq> 0 then (Inl EBADMSG, s1)
        else (case ymo_ws_session_alloc_frame e (unat l) s1 of
                (st, s) \<Rightarrow> if st \<noteq> YMO_OKAY then (Inl st, s)
                           else (Inr k, upd_frame (\<lambda>f. f\<lparr>parse_state := WS_PARSE_MASKING_KEY\<rparr>) s))
      else (Inr k, s1))"
    using l(1) by (simp add: ymo_ws_parse_len_ext_def s1_def Let_def)
  moreover have "i \<noteq> 0 \<Longrightarrow> ws_core s1"
    using assms(1,2) by (simp add: s1_def ws_core_def ws_frame_inv_def)
  moreover have "ws_core (upd_frame (\<lambda>f. f\<lparr>parse_state := WS_PARSE_MASKING_KEY\<rparr>)
      (upd_frame (\<lambda>f. f\<lparr>f_buffer := Some b, f_buf_len := length b\<rparr>) s1))"
    if "i = 0" "unat l \<le> length b" "YMO_WS_FRAME_MIN \<le> length b" for b
    using that assms(1,2) c by (simp add: s1_def ws_core_def ws_frame_inv_def ws_sized_def)
  ultimately show ?thesis
    using l(2) k by (elim disjE exE conjE) (simp_all add: s1_def [THEN arg_cong, of ws_state]
        s1_def [THEN arg_cong, of acts] del: upd_frame_simps(2))
qed

lemma push_recv_ok: "ws_memory e \<Longrightarrow> \<not> recv_lost s \<Longrightarrow> push_recv e b s = s\<lparr>recv_head := recv_head s @ [b]\<rparr>"
  by (cases s) (simp add: push_recv_def ws_memory_def)

lemma word_suc_4:
  assumes "unat (i :: byte) < 4" shows "i + 1 = 4 \<or> unat (i + 1) < 4 \<and> i + 1 \<noteq> 4"
proof -
  have "unat (i + 1) = unat i + 1" using assms by (simp add: unat_word_ariths)
  then show ?thesis using assms by (cases "unat i = 3") (auto simp: word_unat_eq_iff)
qed

lemma masking_key_turn:
  assumes "ws_memory e" "ws_core s" "parse_state (frame_in s) = WS_PARSE_MASKING_KEY" "cs \<noteq> []"
  shows "\<exists>k s'. masking_key_loop e s cs n = Some (Inr (n + k), s') \<and> ws_state s' = ws_state s \<and> acts s' = acts s \<and>
     0 < k \<and> k \<le> length cs \<and> ws_core s'"
  using assms(2-4)
proof (induction cs arbitrary: s n)
  case (Cons c cs)
  define s1 where "s1 = upd_frame (\<lambda>f. f\<lparr>masking_key := (masking_key f)[unat (f_idx f) := c], f_idx := f_idx f + 1\<rparr>) s"
  have idx: "unat (f_idx (frame_in s)) < 4" using Cons.prems by (simp add: ws_core_def ws_frame_inv_def)
  have loop: "masking_key_loop e s (c # cs) n =
      (if f_idx (frame_in s1) = 4 then
         Some (Inr (n + 1),
           if f_len (frame_in s1) \<noteq> 0
           then upd_frame (\<lambda>f. f\<lparr>parse_state := WS_PARSE_PAYLOAD\<rparr>) s1
           else upd_frame (\<lambda>f. f\<lparr>parse_state := WS_PARSE_COMPLETE\<rparr>) (push_recv e Recv_empty s1))
       else if cs = [] then Some (Inr (n + 1), s1)
       else masking_key_loop e s1 cs (n + 1))"
    using idx by (simp add: s1_def Let_def)
  have base: "ws_state s1 = ws_state s" "acts s1 = acts s" "\<not> recv_lost s1" "recv_head s1 = recv_head s"
    using Cons.prems(1) by (simp_all add: s1_def ws_core_def)
  show ?case
  proof (cases "f_idx (frame_in s1) = 4")
    case True
    show ?thesis
    proof (cases "f_len (frame_in s1) = 0")
      case len: True
      show ?thesis
        using True len Cons.prems base push_recv_ok [OF assms(1) base(3)] unfolding loop
        by (intro exI [of _ 1] exI [of _ "upd_frame (\<lambda>f. f\<lparr>parse_state := WS_PARSE_COMPLETE\<rparr>) (push_recv e Recv_empty s1)"])
          (auto simp: ws_core_def ws_frame_inv_def ws_sized_def s1_def)
    next
      case len: False
      then have "0 < unat (f_len (frame_in s1))" by (simp add: unat_gt_0)
      with True len Cons.prems base show ?thesis unfolding loop
        by (intro exI [of _ 1] exI [of _ "upd_frame (\<lambda>f. f\<lparr>parse_state := WS_PARSE_PAYLOAD\<rparr>) s1"])
          (auto simp: ws_core_def ws_frame_inv_def ws_sized_def s1_def)
    qed
  next
    case False
    have c1: "ws_core s1" "parse_state (frame_in s1) = WS_PARSE_MASKING_KEY"
      using Cons.prems(1,2) False word_suc_4 [OF idx]
      by (auto simp: ws_core_def ws_frame_inv_def ws_sized_def s1_def)
    show ?thesis
    proof (cases "cs = []")
      case True
      with False c1 base show ?thesis unfolding loop by (intro exI [of _ 1] exI [of _ s1]) simp
    next
      case more: False
      from Cons.IH [OF c1 more, of "n + 1"] obtain k s' where
        "masking_key_loop e s1 cs (n + 1) = Some (Inr (n + 1 + k), s')" "ws_state s' = ws_state s1" "acts s' = acts s1"
        "0 < k" "k \<le> length cs" "ws_core s'"
        by (elim exE conjE)
      with False more base show ?thesis unfolding loop
        by (intro exI [of _ "Suc k"] exI [of _ s']) simp
    qed
  qed
qed simp

lemma turn_mask:
  assumes "ws_core s" "parse_state (frame_in s) = WS_PARSE_MASKING_KEY" "input \<noteq> []" "ws_memory e"
  shows "ws_turn s (length input) (ymo_ws_parse_masking_key e s input)"
proof -
  have "masked (frame_in s) \<noteq> 0" using assms(1,2) by (simp add: ws_core_def ws_frame_inv_def)
  then show ?thesis
    using masking_key_turn [OF assms(4,1-3), of 0]
    by (elim exE conjE) (simp add: ymo_ws_parse_masking_key_def)
qed

lemma unmask_payload_fits:
  assumes "f_buffer f = Some b" "f_parsed f + length xs \<le> length b" "unat rd + length xs < 2 ^ 64"
  shows "\<exists>b' m. unmask_payload rd xs f = Some (f\<lparr>f_buffer := Some b', f_idx := m\<rparr>) \<and> length b' = length b"
proof (cases "f_op (f_flags f) = YMO_WS_OP_PONG")
  case True
  then show ?thesis
    using assms(1) by (intro exI [of _ b] exI [of _ "f_idx f"]) (cases f; simp add: unmask_payload_def)
next
  case False
  then show ?thesis using unmask_payload_data [OF False assms] by blast
qed

lemma payload_utf8_fits:
  assumes "f_buffer (frame_in s) = Some b" "pos + n \<le> length b"
    and "f_op (f_flags (frame_in s)) = YMO_WS_OP_CLOSE \<Longrightarrow> pos = 0 \<Longrightarrow> 2 + n \<le> length b"
  shows "(\<exists>st. payload_utf8 pos n dn s = Some (Inl st)) \<or> (\<exists>u. payload_utf8 pos n dn s = Some (Inr (s\<lparr>ws_utf8 := u\<rparr>)))"
  using assms by (auto simp: payload_utf8_def Let_def split: sum.split)

lemma payload_done_core:
  assumes "ws_memory e" "\<not> recv_lost s" "set (recv_head s) \<subseteq> {Recv_empty}"
    and "ws_frame_inv ((frame_in s)\<lparr>parse_state := WS_PARSE_COMPLETE\<rparr>)"
  shows "ws_core (payload_done e s) \<and> ws_state (payload_done e s) = ws_state s \<and> acts (payload_done e s) = acts s"
  using assms by (auto simp: payload_done_def Let_def ws_core_def push_recv_ok ws_consts)

lemma parse_payload_cases:
  assumes "frame_in s = f" "min (length xs) (unat (f_len f - word_of_nat (f_parsed f))) = n"
    "unmask_payload rd (take n xs) f = Some f1" "f1\<lparr>f_parsed := f_parsed f1 + n\<rparr> = g" "upd_frame (\<lambda>_. g) s = s1"
    "(word_of_nat (f_parsed g) = f_len g) = dn"
    "((f_op (f_flags g) = YMO_WS_OP_TEXT \<or> msg_type s1 = YMO_WS_OP_TEXT) \<and> f_len g \<noteq> 0) = tx"
    "(if tx then payload_utf8 (f_parsed f) n dn s1 else Some (Inr s1)) = ut"
  shows "ymo_ws_parse_payload e s rd xs =
      (case ut of None \<Rightarrow> None
       | Some (Inl st) \<Rightarrow> Some (Inl st, s1)
       | Some (Inr s) \<Rightarrow> Some (Inr n, if dn then payload_done e s else s))"
  unfolding ymo_ws_parse_payload_def Let_def assms(1) assms(2) assms(3) option.case assms(4) assms(5) assms(6)
    assms(7) assms(8) ..

lemma turn_payload:
  assumes "ws_core s" "parse_state (frame_in s) = WS_PARSE_PAYLOAD" "input \<noteq> []" "ws_memory e"
    and rd: "unat rd + length input < 2 ^ 64"
  shows "ws_turn s (length input) (ymo_ws_parse_payload e s rd input)"
proof -
  let ?f = "frame_in s"
  obtain b where b: "f_buffer ?f = Some b" "length b = f_buf_len ?f" "YMO_WS_FRAME_MIN \<le> length b"
    using assms(1,2) by (auto simp: ws_core_def ws_frame_inv_def ws_sized_def)
  have f: "f_parsed ?f < unat (f_len ?f)" "unat (f_len ?f) \<le> length b" "length (masking_key ?f) = 4"
      "f_op (f_flags ?f) = YMO_WS_OP_CLOSE \<longrightarrow> unat (f_len ?f) \<le> 125"
      "\<not> recv_lost s" "set (recv_head s) \<subseteq> {Recv_empty}"
    using assms(1,2) b by (simp_all add: ws_core_def ws_frame_inv_def ws_sized_def)
  have small: "f_parsed ?f < 2 ^ 64" using f(1) unsigned_less [of "f_len ?f", where 'a = nat] by simp
  define n where "n = min (length input) (unat (f_len ?f - word_of_nat (f_parsed ?f)))"
  have rem: "unat (f_len ?f - word_of_nat (f_parsed ?f)) = unat (f_len ?f) - f_parsed ?f"
    using f(1) unat_w64 [OF small] by (simp add: unat_sub word_le_nat_alt)
  have n: "0 < n" "n \<le> length input" "f_parsed ?f + n \<le> unat (f_len ?f)"
    using assms(3) f(1) unfolding n_def rem by (auto simp: min_def)
  obtain b' m where u: "unmask_payload rd (take n input) ?f = Some (?f\<lparr>f_buffer := Some b', f_idx := m\<rparr>)"
      "length b' = length b"
    using unmask_payload_fits [OF b(1), of "take n input" rd] n f(2) rd by auto
  define g where "g = ?f\<lparr>f_buffer := Some b', f_idx := m, f_parsed := f_parsed ?f + n\<rparr>"
  define s1 where "s1 = upd_frame (\<lambda>_. g) s"
  define dn where "dn \<longleftrightarrow> word_of_nat (f_parsed g) = f_len g"
  have dn: "dn \<longleftrightarrow> f_parsed ?f + n = unat (f_len ?f)"
  proof -
    have "f_parsed ?f + n < 2 ^ 64" using n(3) unsigned_less [of "f_len ?f", where 'a = nat] by simp
    from unat_w64 [OF this] show ?thesis by (auto simp: dn_def g_def word_unat_eq_iff)
  qed
  have g: "f_buffer g = Some b'" "f_flags g = f_flags ?f" by (simp_all add: g_def)
  define okt where "okt t \<longleftrightarrow> t = s1 \<or> (\<exists>u. t = s1\<lparr>ws_utf8 := u\<rparr>)" for t
  have s1s: "ws_state s1 = ws_state s" "acts s1 = acts s" by (simp_all add: s1_def)
  have done_core: "ws_core (payload_done e t) \<and> ws_state (payload_done e t) = ws_state s \<and> acts (payload_done e t) = acts s"
    if "okt t" for t
  proof -
    have t: "frame_in t = g" "recv_lost t = recv_lost s" "recv_head t = recv_head s" "ws_state t = ws_state s" "acts t = acts s"
      using that by (auto simp: okt_def s1_def)
    have "ws_frame_inv (g\<lparr>parse_state := WS_PARSE_COMPLETE\<rparr>)"
      using f b u(2) by (simp add: g_def ws_frame_inv_def ws_sized_def)
    then show ?thesis using payload_done_core [OF assms(4), of t] f t by simp
  qed
  have core: "ws_core t" "ws_state t = ws_state s" "acts t = acts s" if "\<not> dn" "okt t" for t
  proof -
    have t: "frame_in t = g" "recv_lost t = recv_lost s" "recv_head t = recv_head s" "ws_state t = ws_state s" "acts t = acts s"
      using that(2) by (auto simp: okt_def s1_def)
    have "ws_frame_inv g"
      using f b u(2) n(3) that(1) assms(2) by (simp add: dn g_def ws_frame_inv_def ws_sized_def)
    then show "ws_core t" "ws_state t = ws_state s" "acts t = acts s"
      using f t assms(2) by (simp_all add: ws_core_def g_def)
  qed
  define chk where "chk \<longleftrightarrow> (f_op (f_flags g) = YMO_WS_OP_TEXT \<or> msg_type s1 = YMO_WS_OP_TEXT) \<and> f_len g \<noteq> 0"
  define ut where "ut = (if chk then payload_utf8 (f_parsed ?f) n dn s1 else Some (Inr s1))"
  have e: "ymo_ws_parse_payload e s rd input =
      (case ut of None \<Rightarrow> None
       | Some (Inl st) \<Rightarrow> Some (Inl st, s1)
       | Some (Inr s) \<Rightarrow> Some (Inr n, if dn then payload_done e s else s))"
    by (rule parse_payload_cases [OF refl n_def [symmetric] u(1) _ s1_def [symmetric] dn_def [symmetric]
          chk_def [symmetric] ut_def [symmetric]]) (simp add: g_def)
  have "(\<exists>st. ut = Some (Inl st)) \<or> (\<exists>t. ut = Some (Inr t) \<and> okt t)"
  proof (cases chk)
    case True
    have b1: "f_buffer (frame_in s1) = Some b'" "f_flags (frame_in s1) = f_flags ?f" using g by (simp_all add: s1_def)
    have "2 + n \<le> length b'" if "f_op (f_flags ?f) = YMO_WS_OP_CLOSE"
      using that f(4) n(3) u(2) b(3) by (simp add: YMO_WS_FRAME_MIN_def)
    then have "(\<exists>st. payload_utf8 (f_parsed ?f) n dn s1 = Some (Inl st)) \<or>
        (\<exists>u. payload_utf8 (f_parsed ?f) n dn s1 = Some (Inr (s1\<lparr>ws_utf8 := u\<rparr>)))"
      using n(3) f(2) u(2) b1(2) by (intro payload_utf8_fits [OF b1(1)]) auto
    then show ?thesis unfolding ut_def if_P [OF True] okt_def
      by (elim disjE) (erule disjI1, elim exE, intro disjI2 exI conjI, assumption, rule refl)
  qed (simp add: ut_def okt_def)
  then show ?thesis
    using n(1,2) s1s done_core core unfolding e
    by (elim disjE exE conjE) (simp_all del: upd_frame_simps)
qed

lemma turn_any:
  assumes "ws_core s" "parse_state (frame_in s) \<noteq> WS_PARSE_COMPLETE" "input \<noteq> []" "ws_memory e"
    and "unat rd + length input < 2 ^ 64"
  shows "ws_turn s (length input) (ws_parse_step e s rd input)"
  using assms turn_op turn_len turn_ext turn_mask turn_payload
  by (cases "parse_state (frame_in s)") (simp_all add: ws_parse_step_def)

lemma parse_loop_safe:
  assumes "ws_core s" "input \<noteq> []" "ws_memory e" "unat rd + length input < 2 ^ 64" "length input < fuel"
    and "parse_state (frame_in s) = WS_PARSE_COMPLETE \<longrightarrow> 0 < n"
  shows "\<exists>r s'. ws_parse_loop fuel e s rd input n = Some (r, s') \<and> ws_state s' = ws_state s \<and> acts s' = acts s \<and>
     (case r of Inl st \<Rightarrow> True | Inr k \<Rightarrow> 0 < k \<and> k \<le> n + length input \<and> ws_core s')"
  using assms
proof (induction fuel arbitrary: s rd input n)
  case (Suc fuel)
  show ?case
  proof (cases "parse_state (frame_in s) = WS_PARSE_COMPLETE")
    case True
    with Suc.prems show ?thesis by (intro exI [of _ "Inr n"] exI [of _ s]) simp
  next
    case False
    from turn_any [OF Suc.prems(1) False Suc.prems(2-4)] obtain r s' where
      t: "ws_parse_step e s rd input = Some (r, s')" "ws_state s' = ws_state s" "acts s' = acts s"
        "case r of Inl st \<Rightarrow> True | Inr k \<Rightarrow> 0 < k \<and> k \<le> length input \<and> ws_core s'"
      unfolding ws_turn_def by (elim exE conjE)
    show ?thesis
    proof (cases r)
      case (Inl st)
      with t False show ?thesis by (intro exI [of _ "Inl st"] exI [of _ s']) simp
    next
      case (Inr k)
      with t have k: "0 < k" "k \<le> length input" "ws_core s'" by simp_all
      show ?thesis
      proof (cases "drop k input = []")
        case True
        with t Inr k False show ?thesis by (intro exI [of _ "Inr (n + k)"] exI [of _ s']) simp
      next
        case more: False
        have "unat (rd + word_of_nat k) + length (drop k input) < 2 ^ 64"
          using Suc.prems(4) k(2) unat_add_small [of rd k] by simp
        moreover have "length (drop k input) < fuel" "0 < n + k" using k Suc.prems(2,5) by auto
        ultimately obtain r s'' where
          "ws_parse_loop fuel e s' (rd + word_of_nat k) (drop k input) (n + k) = Some (r, s'')"
          "ws_state s'' = ws_state s'" "acts s'' = acts s'"
          "case r of Inl st \<Rightarrow> True | Inr j \<Rightarrow> 0 < j \<and> j \<le> n + k + length (drop k input) \<and> ws_core s''"
          using Suc.IH [OF k(3) more Suc.prems(3), of "rd + word_of_nat k" "n + k"] by blast
        with t Inr False more k(2) show ?thesis
          by (intro exI [of _ r] exI [of _ s'']) (simp split: sum.splits)
      qed
    qed
  qed
qed simp

text \<open>Parsing leaves what is to be sent alone.\<close>

lemma upd_frame_send [simp]: "send_head (upd_frame g s) = send_head s"
  by (simp add: upd_frame_def)

lemma push_recv_send [simp]: "send_head (push_recv e b s) = send_head s"
  by (simp add: push_recv_def)

lemma alloc_frame_send: "ymo_ws_session_alloc_frame e n s = (st, s') \<Longrightarrow> send_head s' = send_head s"
  by (auto simp: ymo_ws_session_alloc_frame_def Let_def split: if_splits option.splits)

lemma payload_done_send [simp]: "send_head (payload_done e s) = send_head s"
  by (simp add: payload_done_def Let_def)

lemma parse_op_send: "ymo_ws_parse_op s input = Some (r, s') \<Longrightarrow> send_head s' = send_head s"
  by (auto simp: ymo_ws_parse_op_def Let_def simp del: upd_frame_simps split: list.splits if_splits)

lemma parse_len_send: "ymo_ws_parse_len e s input = Some (r, s') \<Longrightarrow> send_head s' = send_head s"
  by (auto simp: ymo_ws_parse_len_def Let_def simp del: upd_frame_simps split: list.splits if_splits prod.splits dest!: alloc_frame_send)

lemma parse_ext_send: "ymo_ws_parse_len_ext e s input = Some (r, s') \<Longrightarrow> send_head s' = send_head s"
  by (auto simp: ymo_ws_parse_len_ext_def Let_def simp del: upd_frame_simps split: if_splits prod.splits dest!: alloc_frame_send)

lemma mask_loop_send: "masking_key_loop e s input n = Some (r, s') \<Longrightarrow> send_head s' = send_head s"
  by (induction e s input n rule: masking_key_loop.induct)
    (auto simp: Let_def simp del: upd_frame_simps split: if_splits)

lemma payload_utf8_send: "payload_utf8 pos n dn s = Some (Inr s') \<Longrightarrow> send_head s' = send_head s"
  by (auto simp: payload_utf8_def Let_def split: option.splits if_splits sum.splits)

lemma parse_payload_send: "ymo_ws_parse_payload e s rd input = Some (r, s') \<Longrightarrow> send_head s' = send_head s"
  by (auto simp: ymo_ws_parse_payload_def Let_def simp del: upd_frame_simps split: option.splits sum.splits if_splits
      dest!: payload_utf8_send)

lemma parse_step_send: "ws_parse_step e s rd input = Some (r, s') \<Longrightarrow> send_head s' = send_head s"
  by (auto simp: ws_parse_step_def ymo_ws_parse_masking_key_def split: ws_parse_state.splits if_splits
      dest: parse_op_send parse_len_send parse_ext_send mask_loop_send parse_payload_send)

lemma parse_loop_send: "ws_parse_loop fuel e s rd input n = Some (r, s') \<Longrightarrow> send_head s' = send_head s"
proof (induction fuel arbitrary: s rd input n)
  case (Suc fuel)
  show ?case
  proof (cases "ws_parse_step e s rd input")
    case (Some y)
    obtain r1 s1 where "ws_parse_step e s rd input = Some (r1, s1)" using Some by (cases y) simp
    with parse_step_send [OF this] Suc show ?thesis by (auto split: if_splits sum.splits)
  qed (use Suc.prems in \<open>simp split: if_splits\<close>)
qed simp

section \<open>What a receive callback must keep\<close>

text \<open>
  An application's receive callback may do what it wants with its own data and may send, with payloads whose
  buckets hold what they say; it does not touch the receiving half of the session and stays in bounds.
\<close>

definition ws_sends :: "'u ws_session \<Rightarrow> 'u ws_session \<Rightarrow> bool" where
  "ws_sends s s' \<longleftrightarrow> frame_in s' = frame_in s \<and> recv_head s' = recv_head s \<and> recv_lost s' = recv_lost s \<and>
     ws_state s' = ws_state s \<and> (sendable (send_head s) \<longrightarrow> sendable (send_head s')) \<and>
     (\<exists>n. acts s' = acts s @ replicate n (Tx_enable True))"

lemma ws_sends_refl: "ws_sends s s"
  by (auto simp: ws_sends_def intro: exI [of _ 0])

lemma ws_sends_trans: "ws_sends s t \<Longrightarrow> ws_sends t u \<Longrightarrow> ws_sends s u"
  by (auto simp: ws_sends_def simp flip: replicate_add)

lemma send_no_check_sends:
  assumes "\<forall>b \<in> set payload. blen b \<noteq> 0 \<longrightarrow> bytes_sent b < blen b \<and> blen b \<le> length (data b)"
  shows "ws_sends s (snd (ymo_ws_session_send_no_check e s flgs payload))"
proof -
  let ?hdr = "ws_hdr_bytes flgs (word_of_nat (ymo_bucket_len_all payload))"
  let ?chain = "snd (ymo_bucket_create 1 [] payload (Some ?hdr) ?hdr)"
  have "?hdr \<noteq> []" by (simp add: ws_hdr_bytes_def)
  then have c: "sendable ?chain" using assms by (auto simp: sendable_def ymo_bucket_create_def bucket_link_def)
  then show ?thesis
    using sendable_append [OF _ c]
    by (auto simp: ymo_ws_session_send_no_check_def gen_ws_msg_hdr_def ws_sends_def push_send_def Let_def
        split: option.splits intro: exI [of _ 0] exI [of _ 1])
qed

lemma from_cpy_sendable:
  "bucket_from_cpy e dat = Some payload \<Longrightarrow> \<forall>b \<in> set payload. blen b \<noteq> 0 \<longrightarrow> bytes_sent b < blen b \<and> blen b \<le> length (data b)"
  by (auto simp: bucket_from_cpy_def ymo_bucket_create_cpy_def bucket_link_def split: if_splits)

locale ws_app =
  fixes cb :: "'u ws_recv_cb"
  assumes cb_sends: "\<exists>st s'. cb s flgs dat = Some (st, s') \<and> ws_sends s s'"
begin

lemma recv_loop_safe:
  assumes "\<forall>b \<in> set bs. recv_data b (frame_in s) \<noteq> None"
  shows "\<exists>st' s'. recv_loop cb st bs s = Some (st', s') \<and> ws_sends s s'"
  using assms
proof (induction bs arbitrary: st s)
  case (Cons b bs)
  obtain d where d: "recv_data b (frame_in s) = Some d" using Cons.prems by auto
  obtain st' s' where c: "cb s (f_flags (frame_in s)) d = Some (st', s')" "ws_sends s s'"
    using cb_sends [of s "f_flags (frame_in s)" d] by (elim exE conjE)
  have "\<forall>b \<in> set bs. recv_data b (frame_in s') \<noteq> None" using Cons.prems c(2) by (simp add: ws_sends_def)
  then obtain st'' s'' where "recv_loop cb st' bs s' = Some (st'', s'')" "ws_sends s' s''"
    using Cons.IH [of s' st'] by blast
  with c d ws_sends_trans [OF c(2)] show ?case by (cases "st' = YMO_OKAY") auto
qed (simp add: ws_sends_refl)

lemma invoke_safe:
  assumes "\<forall>b \<in> set (recv_head s). recv_data b (frame_in s) \<noteq> None"
  shows "\<exists>st s'. invoke_recv_callback cb s = Some (st, s'\<lparr>recv_head := [], recv_lost := False\<rparr>) \<and> ws_sends s s'"
  using recv_loop_safe [OF assms, of ENOENT] by (auto simp: invoke_recv_callback_def)

end

lemma ws_app_echo:
  assumes "ws_memory e"
  shows "ws_app (ws_echo_cb e)"
proof
  fix s :: "'u ws_session" and flgs dat
  obtain payload where p: "bucket_from_cpy e dat = Some payload"
    using bucket_from_cpy_ok [OF assms, of dat] by blast
  define flgs' where "flgs' =
    (if f_op flgs = YMO_WS_OP_PING then (flgs AND NOT YMO_WS_MASK_OP) OR YMO_WS_OP_PONG else flgs)"
  have "ws_echo_cb e s flgs dat = Some (ymo_ws_session_send_no_check e s flgs' payload)"
    using p by (simp add: ws_echo_cb_def flgs'_def)
  with send_no_check_sends [OF from_cpy_sendable [OF p], of s e flgs']
  show "\<exists>st s'. ws_echo_cb e s flgs dat = Some (st, s') \<and> ws_sends s s'"
    by (intro exI) (auto simp: prod_eq_iff)
qed

interpretation echo: ws_app "ws_echo_cb ws_env0"
  by (rule ws_app_echo [OF ws_env0_memory])

interpretation app: ws_app "app_cb f"
  by unfold_locales (auto simp: app_cb_def ws_sends_def intro: exI [of _ 0])

section \<open>The read callback\<close>

text \<open>
  The outcome of a read: input consumed, or the server is asked to come back because the closing
  handshake was answered.  The connection is only asked to enable transmission, and to transmit at
  once as the last thing after a close.
\<close>

definition ws_read_ok :: "'u ws_session \<Rightarrow> nat \<Rightarrow> ymo_status + nat \<Rightarrow> 'u ws_session \<Rightarrow> bool" where
  "ws_read_ok s len r s' \<longleftrightarrow> ws_inv s' \<and>
     (\<exists>k. case r of
        Inr n \<Rightarrow> 0 < n \<and> n \<le> len \<and> acts s' = acts s @ replicate k (Tx_enable True)
      | Inl st \<Rightarrow> st = EAGAIN \<and> ws_state s' = WS_SESSION_CLOSE_RECEIVED \<and>
          acts s' = acts s @ replicate k (Tx_enable True) @ [Tx_now])"

lemma ws_read_ok_Inr:
  "ws_inv s' \<Longrightarrow> 0 < n \<Longrightarrow> n \<le> len \<Longrightarrow> acts s' = acts s @ replicate k (Tx_enable True) \<Longrightarrow> ws_read_ok s len (Inr n) s'"
  by (auto simp: ws_read_ok_def)

lemma err_close_safe:
  assumes "ws_memory e"
  shows "\<exists>s'. ws_err_close e s reason = Some s' \<and> ws_state s' = WS_SESSION_ERROR \<and>
     (sendable (send_head s) \<longrightarrow> sendable (send_head s')) \<and>
     (\<exists>k. acts s' = acts s @ replicate k (Tx_enable True))"
proof (cases "ws_state s = WS_SESSION_ERROR")
  case True
  then show ?thesis by (auto simp: ws_err_close_def intro: exI [of _ 0])
next
  case False
  obtain payload where p: "bucket_from_cpy e (reason_bytes reason) = Some payload"
    using bucket_from_cpy_ok [OF assms] by blast
  have "ws_sends (s\<lparr>ws_state := WS_SESSION_ERROR\<rparr>) (snd (ymo_ws_session_send_no_check e
      (s\<lparr>ws_state := WS_SESSION_ERROR\<rparr>) (YMO_WS_OP_CLOSE OR YMO_WS_FLAG_FIN) payload))"
    by (rule send_no_check_sends [OF from_cpy_sendable [OF p]])
  with False p show ?thesis by (auto simp: ws_err_close_def send_ws_close_def ws_sends_def)
qed

lemma err_close_read:
  assumes "ws_memory e" "acts s1 = acts s @ replicate j (Tx_enable True)" "0 < len" "sendable (send_head s1)"
  shows "\<exists>s'. map_option (\<lambda>s. (Inr len, s)) (ws_err_close e s1 reason) = Some (Inr len, s') \<and> ws_read_ok s len (Inr len) s'"
proof -
  obtain s' k where "ws_err_close e s1 reason = Some s'" "ws_state s' = WS_SESSION_ERROR"
      "acts s' = acts s1 @ replicate k (Tx_enable True)" "sendable (send_head s')"
    using err_close_safe [OF assms(1), of s1 reason] assms(4) by (elim exE conjE) simp
  then show ?thesis using assms(2,3)
    by (intro exI [of _ s'] conjI ws_read_ok_Inr [of _ _ _ _ "j + k"]) (simp_all add: ws_inv_def replicate_add)
qed

lemma recv_data_core:
  assumes "ws_core s" "parse_state (frame_in s) = WS_PARSE_COMPLETE"
  shows "\<forall>b \<in> set (recv_head s). recv_data b (frame_in s) \<noteq> None"
proof
  fix b assume "b \<in> set (recv_head s)"
  then have "b = Recv_empty \<or> b = Recv_frame (unat (f_len (frame_in s)))"
    using assms(1) by (auto simp: ws_core_def split: if_splits)
  then show "recv_data b (frame_in s) \<noteq> None"
    using assms by (auto simp: ws_core_def ws_frame_inv_def ws_sized_def recv_data_def)
qed

lemma frame_reset_inv:
  assumes "ws_frame_inv f"
  shows "ws_frame_inv (frame_reset f) \<and> parse_state (frame_reset f) = WS_PARSE_OP"
  using assms by (simp add: ws_frame_inv_def frame_reset_def frame_zero_def)

lemma close_vals_safe:
  "\<forall>b \<in> set bs. recv_data b f \<noteq> None \<Longrightarrow> close_vals f bs vals \<noteq> None"
  by (induction f bs vals rule: close_vals.induct) (auto split: option.splits)

lemma client_close_safe:
  assumes "ws_memory e" "ws_state s = WS_SESSION_CONNECTED" "0 < len" "sendable (send_head s)"
    and "\<forall>b \<in> set (recv_head s). recv_data b (frame_in s) \<noteq> None"
  shows "\<exists>r s'. handle_client_close e s len = Some (r, s') \<and> ws_read_ok s len r s'"
proof -
  let ?s = "s\<lparr>ws_state := WS_SESSION_CLOSE_RECEIVED\<rparr>"
  obtain r where r: "get_close_reason ?s = Some r"
    using close_vals_safe [of "recv_head ?s" "frame_in ?s" "[]"] assms(5) by (auto simp: get_close_reason_def)
  define bad where "bad \<longleftrightarrow> (case r of None \<Rightarrow> False | Some reason \<Rightarrow> \<not> is_reason_valid reason)"
  show ?thesis
  proof (cases bad)
    case True
    have "\<exists>s'. map_option (\<lambda>s. (Inr len, s)) (ws_err_close e ?s 1002) = Some (Inr len, s') \<and> ws_read_ok s len (Inr len) s'"
      by (rule err_close_read [OF assms(1) _ assms(3), of _ _ 0]) (simp_all add: assms(4))
    moreover have "handle_client_close e s len = map_option (\<lambda>s. (Inr len, s)) (ws_err_close e ?s 1002)"
      using True assms(2) r by (simp add: handle_client_close_def bad_def)
    ultimately show ?thesis by (elim exE conjE) (intro exI conjI, simp_all)
  next
    case False
    obtain st s1 where i: "invoke_recv_callback (ws_echo_cb e) ?s = Some (st, s1\<lparr>recv_head := [], recv_lost := False\<rparr>)"
        "ws_sends ?s s1"
      using ws_app.invoke_safe [OF ws_app_echo [OF assms(1)], of ?s] assms(5) by auto
    define s2 where "s2 = s1\<lparr>recv_head := [], recv_lost := False, acts := acts s1 @ [Tx_now]\<rparr>"
    have "handle_client_close e s len = Some (Inl EAGAIN, s2)"
      using False assms(2) r i(1) by (simp add: handle_client_close_def bad_def s2_def)
    moreover have "ws_read_ok s len (Inl EAGAIN) s2"
      using i(2) assms(4) by (auto simp: ws_read_ok_def ws_inv_def ws_sends_def s2_def)
    ultimately show ?thesis by blast
  qed
qed

lemma complete_safe:
  fixes s :: "'u ws_session"
  assumes "ws_memory e" "ws_app cb" "ws_state s = WS_SESSION_CONNECTED" "0 < n" "n \<le> len" "sendable (send_head s)"
    and core: "ws_core s" "parse_state (frame_in s) = WS_PARSE_COMPLETE"
  shows "\<exists>r s'. ws_frame_complete e cb s len n = Some (r, s') \<and> ws_read_ok s len r s'"
proof -
  have len: "0 < len" using assms(4,5) by simp
  define finish :: "(ymo_status \<times> 'u ws_session) option \<Rightarrow> 'u ws_result" where "finish = (\<lambda>r. case r of
      None \<Rightarrow> None
    | Some (cb_status, s) \<Rightarrow>
        if cb_status = YMO_OKAY then Some (Inr n, upd_frame frame_reset s)
        else map_option (\<lambda>s. (Inr len, s)) (ws_err_close e s 1002))"
  have fin: "\<exists>r s'. finish (Some (st, s1)) = Some (r, s') \<and> ws_read_ok s len r s'"
    if s1: "ws_state s1 = WS_SESSION_CONNECTED" "frame_in s1 = frame_in s" "\<not> recv_lost s1"
      "set (recv_head s1) \<subseteq> {Recv_empty}" "acts s1 = acts s @ replicate k (Tx_enable True)" "sendable (send_head s1)" for st k s1
  proof (cases "st = YMO_OKAY")
    case True
    have "ws_inv (upd_frame frame_reset s1)"
      using s1 core frame_reset_inv [of "frame_in s"] by (simp add: ws_inv_def ws_core_def)
    with True s1 assms(4,5) show ?thesis
      by (intro exI [of _ "Inr n"] exI [of _ "upd_frame frame_reset s1"] conjI ws_read_ok_Inr [of _ _ _ _ k])
        (simp_all add: finish_def)
  next
    case False
    have "finish (Some (st, s1)) = map_option (\<lambda>s. (Inr len, s)) (ws_err_close e s1 1002)"
      using False by (simp add: finish_def)
    with err_close_read [OF assms(1) s1(5) len s1(6), of 1002] show ?thesis by auto
  qed
  have invoke: "\<exists>r s'. finish (invoke_recv_callback c s) = Some (r, s') \<and> ws_read_ok s len r s'"
    if c: "ws_app c" for c
  proof -
    obtain st s1 where i: "invoke_recv_callback c s = Some (st, s1\<lparr>recv_head := [], recv_lost := False\<rparr>)" "ws_sends s s1"
      using ws_app.invoke_safe [OF c recv_data_core [OF core]] by (elim exE conjE)
    then obtain k where "acts s1 = acts s @ replicate k (Tx_enable True)" by (auto simp: ws_sends_def)
    with i fin [of "s1\<lparr>recv_head := [], recv_lost := False\<rparr>" k st] assms(3,6) show ?thesis by (simp add: ws_sends_def)
  qed
  let ?op = "f_op (f_flags (frame_in s))"
  have e: "ws_frame_complete e cb s len n =
     (if ?op \<in> {YMO_WS_OP_CONTINUATION, YMO_WS_OP_TEXT, YMO_WS_OP_BINARY} then
        (if ws_state s = WS_SESSION_CONNECTED then finish (invoke_recv_callback cb s) else Some (Inr len, s))
      else if ?op = YMO_WS_OP_CLOSE then handle_client_close e s len
      else if ?op = YMO_WS_OP_PING then finish (invoke_recv_callback (ws_echo_cb e) s)
      else if ?op = YMO_WS_OP_PONG then finish (Some (YMO_OKAY, s))
      else map_option (\<lambda>s. (Inr len, s)) (ws_err_close e s 1002))"
    unfolding ws_frame_complete_def Let_def finish_def ..
  have pong: "\<exists>r s'. finish (Some (YMO_OKAY, s)) = Some (r, s') \<and> ws_read_ok s len r s'" if "?op = YMO_WS_OP_PONG"
    using fin [of s 0 YMO_OKAY] assms(3,6) core that by (simp add: ws_core_def)
  have close: "\<exists>r s'. map_option (\<lambda>s. (Inr len, s)) (ws_err_close e s 1002) = Some (r, s') \<and> ws_read_ok s len r s'"
    using err_close_read [OF assms(1), of s s 0 len 1002] len assms(6) by auto
  show ?thesis
    unfolding e if_P [OF assms(3)]
    using invoke [OF assms(2)] invoke [OF ws_app_echo [OF assms(1)]] pong close
      client_close_safe [OF assms(1,3) len assms(6) recv_data_core [OF core]]
    by (simp only: split: if_split) blast
qed

context ws_app
begin

lemma read_safe:
  assumes "ws_inv s" "ws_memory e" "input \<noteq> []" "unat rd + length input < 2 ^ 64"
  shows "\<exists>r s'. ymo_proto_ws_read e cb s rd input = Some (r, s') \<and> ws_read_ok s (length input) r s'"
proof (cases "ws_state s \<in> {WS_SESSION_CLOSE_RECEIVED, WS_SESSION_ERROR}")
  case True
  then show ?thesis
    using assms(1,3) by (intro exI [of _ "Inr (length input)"] exI [of _ s] conjI ws_read_ok_Inr [of _ _ _ _ 0])
      (auto simp: ymo_proto_ws_read_def)
next
  case False
  then have s: "ws_state s = WS_SESSION_CONNECTED" "ws_core s" "parse_state (frame_in s) \<noteq> WS_PARSE_COMPLETE"
      "sendable (send_head s)"
    using assms(1) by (auto simp: ws_inv_def)
  have "length input < Suc (2 * length input)" by simp
  from parse_loop_safe [OF s(2) assms(3,2,4) this, of 0] s(3) obtain r s1 where
    l: "ws_parse_loop (Suc (2 * length input)) e s rd input 0 = Some (r, s1)" "ws_state s1 = ws_state s" "acts s1 = acts s"
      "case r of Inl st \<Rightarrow> True | Inr k \<Rightarrow> 0 < k \<and> k \<le> 0 + length input \<and> ws_core s1"
    by blast
  have send: "sendable (send_head s1)" using s(4) parse_loop_send [OF l(1)] by simp
  show ?thesis
  proof (cases r)
    case (Inl st)
    with l False show ?thesis
      using err_close_read [OF assms(2), of s1 s 0 "length input" "reason_from_errno st"] assms(3) send
      by (auto simp: ymo_proto_ws_read_def simp del: ws_parse_loop.simps)
  next
    case (Inr n)
    then have n: "0 < n" "n \<le> length input" "ws_core s1" using l(4) by simp_all
    show ?thesis
    proof (cases "parse_state (frame_in s1) = WS_PARSE_COMPLETE")
      case True
      from complete_safe [OF assms(2) ws_app_axioms _ n(1,2) send n(3) True] l(2) s(1) obtain r s' where
        "ws_frame_complete e cb s1 (length input) n = Some (r, s')" "ws_read_ok s1 (length input) r s'"
        by auto
      moreover have "ws_read_ok s1 (length input) r s' = ws_read_ok s (length input) r s'"
        unfolding ws_read_ok_def l(3) ..
      ultimately show ?thesis
        using l(1) Inr True False by (auto simp: ymo_proto_ws_read_def simp del: ws_parse_loop.simps)
    next
      case notdone: False
      with l Inr False n s(1) send show ?thesis
        by (intro exI [of _ "Inr n"] exI [of _ s1] conjI ws_read_ok_Inr [of _ _ _ _ 0])
          (auto simp: ymo_proto_ws_read_def ws_inv_def simp del: ws_parse_loop.simps)
    qed
  qed
qed

end

text \<open>
  C5: for an application that keeps the contract \<open>ws_app\<close> (its receive callback stays in bounds, may send, and
  does not touch the receiving half of the session; the echo callback keeps it, the library's buffered mode,
  which writes out of bounds, does not), and as long as allocations succeed, no client can make the
  read callback leave its memory: for every non-empty input whose addresses do not wrap, in every state that
  satisfies the session's invariant, as a new one does, the parser and the protocol's own callbacks access only the frame
  buffer and the input; the call consumes at least one byte, or ends the closing handshake by asking to be called
  again; it asks the connection for nothing but to enable transmission and, after a close, to transmit; and the invariant
  holds afterwards.
\<close>

theorem ws_read_safe:
  assumes "ws_inv s" "ws_memory e" "ws_app cb" "input \<noteq> []" "unat rd + length input < 2 ^ 64"
  shows "\<exists>r s'. ymo_proto_ws_read e cb s rd input = Some (r, s') \<and> ws_read_ok s (length input) r s'"
  by (rule ws_app.read_safe [OF assms(3,1,2,4,5)])

theorem ws_read_safe_witness:
  "\<exists>r s'. ymo_proto_ws_read ws_env0 (ws_echo_cb ws_env0) (ymo_ws_session_create ()) 0x1001
     [0x8A, 0x80, 1, 2, 3, 4, 0x82, 0xFF] = Some (r, s') \<and> ws_inv s'"
  using ws_read_safe [OF ws_create_inv ws_env0_memory echo.ws_app_axioms,
      of "[0x8A, 0x80, 1, 2, 3, 4, 0x82, 0xFF]" "0x1001" "()"]
  by (auto simp: ws_read_ok_def)

end
