(* ===== verification/Ws_Server.thy ===== *)
theory Ws_Server
  imports Server_Safe Ws_Safe
begin

text \<open>
  The WebSocket protocol inside the server: the protocol callbacks of \<^verbatim>\<open>ymo_proto_ws.c\<close> as the server calls
  them, with what they ask of their connection carried out by \<^verbatim>\<open>ymo_conn.c\<close> and \<^verbatim>\<open>ymo_write_cb\<close>, and the
  proof that they keep the contract of a protocol.
\<close>

section \<open>The callbacks as the server sees them\<close>

definition run_conn_act :: "nat \<Rightarrow> conn_act \<Rightarrow> 'p ymo_server \<Rightarrow> 'p ymo_server run" where
  "run_conn_act a act s =
     (case act of
        Tx_enable b \<Rightarrow> on_conn a (ymo_conn_tx_enable (of_bool b)) s
      | Rx_enable b \<Rightarrow> on_conn a (ymo_conn_rx_enable (of_bool b)) s
      | Conn_shutdown \<Rightarrow> on_conn a (\<lambda>c. snd (ymo_conn_shutdown (shut_answer (s_config s)) c)) s
      | Tx_now \<Rightarrow> Fault)"

fun run_conn_acts :: "nat \<Rightarrow> conn_act list \<Rightarrow> 'p ymo_server \<Rightarrow> 'p ymo_server run" where
  "run_conn_acts a [] s = Ret s"
| "run_conn_acts a (act # rest) s = run_bind (run_conn_act a act s) (run_conn_acts a rest)"

text \<open>Only a read asks to transmit at once (\<^verbatim>\<open>ymo_conn_tx_now\<close>), which runs the server's write handler.\<close>

fun run_acts :: "'p protos \<Rightarrow> nat \<Rightarrow> conn_act list \<Rightarrow> 'p ymo_server \<Rightarrow> 'p ymo_server run" where
  "run_acts vt a [] s = Ret s"
| "run_acts vt a (act # rest) s =
     run_bind (if act = Tx_now then ymo_write_cb vt a s else run_conn_act a act s) (run_acts vt a rest)"

text \<open>A callback runs on the session of its connection; the session does not look at the connection.\<close>

definition on_session ::
  "nat \<Rightarrow> ('u ws_session \<Rightarrow> ('r \<times> 'u ws_session) option) \<Rightarrow> 'u ws_session ymo_server \<Rightarrow>
   ('r \<times> conn_act list \<times> 'u ws_session ymo_server) run" where
  "on_session a f s = run_bind (get_conn a s) (\<lambda>c.
     case c_proto_data c of
       None \<Rightarrow> Fault
     | Some ws \<Rightarrow>
         (case f (ws\<lparr>acts := []\<rparr>) of
            None \<Rightarrow> Fault
          | Some (r, ws) \<Rightarrow> Ret (r, acts ws, put_conn a (c\<lparr>c_proto_data := Some (ws\<lparr>acts := []\<rparr>)\<rparr>) s)))"

definition ws_conn_init :: "'u \<Rightarrow> nat \<Rightarrow> 'u ws_session ymo_server \<Rightarrow>
  ('u ws_session option \<times> ymo_status \<times> 'u ws_session ymo_server) run" where
  "ws_conn_init u a s = Ret (ymo_proto_ws_conn_init True u, YMO_OKAY, s)"

definition ws_conn_ready ::
  "('u ws_session \<Rightarrow> ymo_status \<times> 'u ws_session) option \<Rightarrow> nat \<Rightarrow> 'u ws_session ymo_server \<Rightarrow>
   (ymo_status \<times> 'u ws_session ymo_server) run" where
  "ws_conn_ready connect a s =
     run_bind (on_session a (\<lambda>ws. Some (ymo_proto_ws_conn_ready connect ws)) s)
       (\<lambda>(st, todo, s). run_bind (run_conn_acts a todo s) (\<lambda>s. Ret (st, s)))"

text \<open>\<open>net_out\<close> gives the answers of \<^verbatim>\<open>sendmsg\<close> in this transmission, after which the socket blocks.\<close>

definition room_answers :: "'p ymo_server \<Rightarrow> (ymo_status + nat) list" where
  "room_answers s = (case net_out s of [] \<Rightarrow> [] | answers # _ \<Rightarrow> answers) @ [Inl EAGAIN]"

definition ws_write :: "nat \<Rightarrow> 'u ws_session ymo_server \<Rightarrow> (ymo_status \<times> 'u ws_session ymo_server) run" where
  "ws_write a s =
     run_bind (on_session a (\<lambda>ws. map_option (\<lambda>(st, wire, ws). (st, ws))
         (ymo_proto_ws_write (ymo_conn_send_buckets (room_answers s)) ws)) (s\<lparr>net_out := tl (net_out s)\<rparr>))
       (\<lambda>(st, todo, s). run_bind (run_conn_acts a todo s) (\<lambda>s. Ret (st, s)))"

definition ws_read ::
  "ws_env \<Rightarrow> 'u ws_recv_cb \<Rightarrow> 'u ws_session protos \<Rightarrow> nat \<Rightarrow> u64 \<Rightarrow> bytes \<Rightarrow> 'u ws_session ymo_server \<Rightarrow>
   ((ymo_status + nat) \<times> 'u ws_session ymo_server) run" where
  "ws_read e cb vt a ptr dat s =
     run_bind (on_session a (\<lambda>ws. ymo_proto_ws_read e cb ws ptr dat) s)
       (\<lambda>(r, todo, s). run_bind (run_acts vt a todo s) (\<lambda>s. Ret (r, s)))"

text \<open>
  The vtable \<^verbatim>\<open>ymo_default_ws_proto\<close>, with sessions that start with the user data \<open>u\<close>.  The read callback
  re-enters the server through \<^verbatim>\<open>ymo_write_cb\<close>, which does not look at the read callback, so that the
  table is built in two stages.  What \<^verbatim>\<open>ymo_proto_ws_conn_cleanup\<close> frees is no part of the server.
\<close>

definition ws_vt_write ::
  "('u ws_session \<Rightarrow> ymo_status \<times> 'u ws_session) option \<Rightarrow> 'u \<Rightarrow> 'u ws_session ymo_proto_vt" where
  "ws_vt_write connect u = \<lparr>init_cb = YMO_OKAY, cleanup_cb = True, conn_init_cb = ws_conn_init u,
     conn_ready_cb = Some (ws_conn_ready connect), conn_cleanup_cb = Some (\<lambda>a pd s. Ret s),
     read_cb = (\<lambda>a ptr dat s. Ret (Inl EAGAIN, s)), write_cb = ws_write\<rparr>"

definition ymo_default_ws_proto ::
  "ws_env \<Rightarrow> 'u ws_recv_cb \<Rightarrow> ('u ws_session \<Rightarrow> ymo_status \<times> 'u ws_session) option \<Rightarrow> 'u \<Rightarrow> 'u ws_session ymo_proto_vt" where
  "ymo_default_ws_proto e cb connect u =
     (ws_vt_write connect u)\<lparr>read_cb := ws_read e cb (\<lambda>_. ws_vt_write connect u)\<rparr>"

lemma ws_write_reenters:
  "ymo_write_cb (\<lambda>_. ymo_default_ws_proto e cb connect u) = ymo_write_cb (\<lambda>_. ws_vt_write connect u)"
proof -
  have v: "conn_cleanup_cb (ymo_default_ws_proto e cb connect u) = conn_cleanup_cb (ws_vt_write connect u)"
      "write_cb (ymo_default_ws_proto e cb connect u) = write_cb (ws_vt_write connect u)"
    by (simp_all add: ymo_default_ws_proto_def)
  have "close_and_free_connection (\<lambda>_. ymo_default_ws_proto e cb connect u) a c s =
      close_and_free_connection (\<lambda>_. ws_vt_write connect u) a c s" for a c s
    unfolding close_and_free_connection_def run_conn_cleanup_def v by (rule refl)
  then have c: "close_and_free_connection (\<lambda>_. ymo_default_ws_proto e cb connect u) =
      close_and_free_connection (\<lambda>_. ws_vt_write connect u)"
    by (intro ext)
  show ?thesis unfolding fun_eq_iff ymo_write_cb_def v c by (intro allI refl)
qed

section \<open>The contract\<close>

text \<open>The state \<open>s'\<close> has the connection at \<open>a\<close> still, with a session that satisfies its invariant.\<close>

definition ws_served :: "nat \<Rightarrow> 'u ws_session ymo_server \<Rightarrow> 'u ws_session ymo_server \<Rightarrow> bool" where
  "ws_served a s s' \<longleftrightarrow> touched a s s' \<and> (\<exists>c ws. conns s' a = Some c \<and> c_proto_data c = Some ws \<and> ws_inv ws)"

lemma ws_inv_acts [simp]: "ws_inv (ws\<lparr>acts := x\<rparr>) = ws_inv ws"
  by (simp add: ws_inv_def ws_core_def)

lemma ws_served_trans: "touched a s t \<Longrightarrow> ws_served a t u \<Longrightarrow> ws_served a s u"
  by (auto simp: ws_served_def intro: touched_trans)

lemma on_session_ok:
  assumes "conns s a = Some c" "c_proto_data c = Some ws" "f (ws\<lparr>acts := []\<rparr>) = Some (r, ws')" "ws_inv ws'"
  shows "\<exists>s'. on_session a f s = Ret (r, acts ws', s') \<and> ws_served a s s'"
proof -
  let ?c = "c\<lparr>c_proto_data := Some (ws'\<lparr>acts := []\<rparr>)\<rparr>"
  have "on_session a f s = Ret (r, acts ws', put_conn a ?c s)" using assms by (simp add: on_session_def get_conn_def)
  moreover have "touched a s (put_conn a ?c s)" using assms(1) by (intro touched_put [of _ _ c]) auto
  ultimately show ?thesis using assms(4) by (auto simp: ws_served_def put_conn_def)
qed

lemma shutdown_keeps:
  "c_state (snd (ymo_conn_shutdown f c)) \<in> {c_state c, YMO_CONN_SHUTDOWN}"
  "c_proto (snd (ymo_conn_shutdown f c)) = c_proto c" "c_fd (snd (ymo_conn_shutdown f c)) = c_fd c"
  "c_proto_data (snd (ymo_conn_shutdown f c)) = c_proto_data c"
  by (auto simp: ymo_conn_shutdown_def conn_defs Let_def)

lemma run_conn_act_ok:
  assumes "ws_served a s0 s" "act \<noteq> Tx_now"
  shows "\<exists>s'. run_conn_act a act s = Ret s' \<and> ws_served a s s'"
proof -
  obtain c ws where c: "conns s a = Some c" "c_proto_data c = Some ws" "ws_inv ws" using assms(1) by (auto simp: ws_served_def)
  have "\<exists>s'. on_conn a f s = Ret s' \<and> ws_served a s s'"
    if "c_state (f c) \<in> {c_state c, YMO_CONN_SHUTDOWN}" "c_proto (f c) = c_proto c" "c_fd (f c) = c_fd c"
      "c_proto_data (f c) = c_proto_data c" for f
    using c that touched_put [of s a c "f c"] by (auto simp: on_conn_def get_conn_def ws_served_def put_conn_def)
  then show ?thesis
    using assms(2) shutdown_keeps [of "shut_answer (s_config s)" c]
    by (cases act) (simp_all add: run_conn_act_def ymo_conn_tx_enable_def ymo_conn_rx_enable_def)
qed

lemma ws_served_refl: "ws_served a s0 s \<Longrightarrow> ws_served a s s"
  by (auto simp: ws_served_def intro: touched_refl)

lemma run_conn_acts_ok:
  "ws_served a s0 s \<Longrightarrow> Tx_now \<notin> set todo \<Longrightarrow> \<exists>s'. run_conn_acts a todo s = Ret s' \<and> ws_served a s s'"
proof (induction todo arbitrary: s s0)
  case Nil
  then show ?case by (auto intro: ws_served_refl)
next
  case (Cons act todo)
  obtain s1 where s1: "run_conn_act a act s = Ret s1" "ws_served a s s1"
    using run_conn_act_ok [OF Cons.prems(1), of act] Cons.prems(2) by auto
  obtain s2 where "run_conn_acts a todo s1 = Ret s2" "ws_served a s1 s2"
    using Cons.IH [OF s1(2)] Cons.prems(2) by auto
  then show ?case using s1 ws_served_trans [of a s s1 s2] by (auto simp: ws_served_def)
qed

lemma send_always_answers: "ymo_net_send_buckets (answers @ [Inl st]) bs \<noteq> None"
proof (induction answers arbitrary: bs)
  case Nil
  show ?case by (simp add: ymo_net_send_buckets.simps [of "[Inl st]"] Let_def)
next
  case (Cons a answers)
  show ?case
  proof (cases a)
    case (Inr n)
    let ?m = "account (min n (length (concat (gather YMO_BUCKET_MAX_IOVEC bs)))) bs"
    from Cons.IH [of ?m] Inr show ?thesis
      by (auto simp: ymo_net_send_buckets.simps [of "Inr n # _"] Let_def)
  qed (simp add: ymo_net_send_buckets.simps [of "Inl _ # _"] Let_def)
qed

text \<open>A transmission that is neither complete nor blocked has failed.\<close>

lemma room_answers_fails:
  "Inl st \<in> set (room_answers s) \<Longrightarrow> st = YMO_OKAY \<or> YMO_IS_BLOCKED st \<or> send_fails s"
  by (cases "net_out s") (auto simp: room_answers_def send_fails_def YMO_IS_BLOCKED_def)

lemma ws_proto_write_ok:
  assumes "ws_inv ws"
  shows "\<exists>st ws'. map_option (\<lambda>(st, wire, ws). (st, ws)) (ymo_proto_ws_write (ymo_conn_send_buckets (room_answers s)) ws) =
      Some (st, ws') \<and> ws_inv ws' \<and> (st = YMO_OKAY \<or> YMO_IS_BLOCKED st \<or> send_fails s) \<and> (\<exists>todo. acts ws' = acts ws @ todo \<and> Tx_now \<notin> set todo)"
proof (cases "send_head ws = []")
  case True
  then show ?thesis using assms by (simp add: ymo_proto_ws_write_def)
next
  case False
  obtain st wire rest where w: "ymo_net_send_buckets (room_answers s) (send_head ws) = Some (st, wire, rest)"
    using send_always_answers [of "case net_out s of [] \<Rightarrow> [] | answers # _ \<Rightarrow> answers" EAGAIN "send_head ws"]
    by (auto simp: room_answers_def)
  have r: "st = YMO_OKAY \<or> sendable rest \<and> (YMO_IS_BLOCKED st \<or> send_fails s)"
    using send_buckets_error [OF _ False w] assms room_answers_fails [of st s] by (auto simp: ws_inv_def)
  with False assms w show ?thesis
    by (auto simp: ymo_proto_ws_write_def ymo_conn_send_buckets_def Let_def ws_inv_def ws_core_def)
qed

lemma ws_write_ok:
  assumes "conns s a = Some c" "c_proto_data c = Some ws" "ws_inv ws"
  shows "\<exists>st s'. ws_write a s = Ret (st, s') \<and> (st = YMO_OKAY \<or> YMO_IS_BLOCKED st \<or> send_fails s) \<and> ws_served a s s'"
proof -
  let ?s = "s\<lparr>net_out := tl (net_out s)\<rparr>"
  have t: "touched a s ?s" using assms(1) by (cases "net_out s") (auto simp: touched_def same_server_def intro!: exI [of _ c])
  obtain st ws' todo where w: "map_option (\<lambda>(st, wire, ws). (st, ws))
        (ymo_proto_ws_write (ymo_conn_send_buckets (room_answers s)) (ws\<lparr>acts := []\<rparr>)) = Some (st, ws')"
      "ws_inv ws'" "acts ws' = todo" "Tx_now \<notin> set todo" "st = YMO_OKAY \<or> YMO_IS_BLOCKED st \<or> send_fails s"
    using ws_proto_write_ok [of "ws\<lparr>acts := []\<rparr>" s] assms(3) by auto
  obtain s1 where s1: "on_session a (\<lambda>ws. map_option (\<lambda>(st, wire, ws). (st, ws))
         (ymo_proto_ws_write (ymo_conn_send_buckets (room_answers s)) ws)) ?s = Ret (st, todo, s1)" "ws_served a ?s s1"
    using on_session_ok [of ?s a c ws "\<lambda>ws. map_option (\<lambda>(st, wire, ws). (st, ws))
        (ymo_proto_ws_write (ymo_conn_send_buckets (room_answers s)) ws)" st ws'] assms(1,2) w(1-3) by auto
  obtain s2 where "run_conn_acts a todo s1 = Ret s2" "ws_served a s1 s2"
    using run_conn_acts_ok [OF s1(2) w(4)] by blast
  then show ?thesis
    using s1 w(5) ws_served_trans [OF t] ws_served_trans [of a ?s s1 s2] by (auto simp: ws_write_def ws_served_def)
qed

text \<open>An application: its receive callback, its connect callback, and memory.\<close>

locale ws_service = ws_app cb for cb :: "'u ws_recv_cb" +
  fixes e :: ws_env and connect :: "('u ws_session \<Rightarrow> ymo_status \<times> 'u ws_session) option"
  assumes memory: "ws_memory e"
    and connect_law: "connect = Some f \<Longrightarrow> \<exists>ws'. f ws = (YMO_OKAY, ws') \<and> ws_sends ws ws'"

begin

lemma ready_ok:
  assumes "conns s a = Some c" "c_proto_data c = Some ws" "ws_inv ws"
  shows "\<exists>s'. ws_conn_ready connect a s = Ret (YMO_OKAY, s') \<and> ws_served a s s'"
proof -
  obtain ws' todo where r: "ymo_proto_ws_conn_ready connect (ws\<lparr>acts := []\<rparr>) = (YMO_OKAY, ws')"
      "ws_inv ws'" "acts ws' = todo" "Tx_now \<notin> set todo"
  proof (cases connect)
    case None
    then show ?thesis using that assms(3) by (simp add: ymo_proto_ws_conn_ready_def)
  next
    case (Some f)
    obtain ws' where "f (ws\<lparr>acts := [Tx_enable True, Rx_enable True]\<rparr>) = (YMO_OKAY, ws')"
        "ws_sends (ws\<lparr>acts := [Tx_enable True, Rx_enable True]\<rparr>) ws'"
      using connect_law [OF Some] by blast
    then show ?thesis
      using that assms(3) Some by (auto simp: ymo_proto_ws_conn_ready_def ws_sends_def ws_inv_def ws_core_def)
  qed
  obtain s1 where s1: "on_session a (\<lambda>ws. Some (ymo_proto_ws_conn_ready connect ws)) s = Ret (YMO_OKAY, todo, s1)"
      "ws_served a s s1"
    using on_session_ok [of s a c ws "\<lambda>ws. Some (ymo_proto_ws_conn_ready connect ws)" YMO_OKAY ws'] assms(1,2) r(1-3) by auto
  obtain s2 where "run_conn_acts a todo s1 = Ret s2" "ws_served a s1 s2"
    using run_conn_acts_ok [OF s1(2) r(4)] by blast
  then show ?thesis
    using s1 ws_served_trans [of a s s1 s2] by (auto simp: ws_conn_ready_def ws_served_def)
qed

lemma contract_but_read:
  assumes "conn_init_cb v = ws_conn_init u" "conn_ready_cb v = Some (ws_conn_ready connect)"
    "conn_cleanup_cb v = Some (\<lambda>a pd s. Ret s)" "write_cb v = ws_write"
    and "\<And>s a c pd ptr dat. conns s a = Some c \<Longrightarrow> c_state c \<noteq> YMO_CONN_CLOSED \<Longrightarrow> c_proto c = pr \<Longrightarrow>
      c_proto_data c = Some pd \<Longrightarrow> ws_inv pd \<Longrightarrow> net_ok s \<Longrightarrow> dat \<noteq> [] \<Longrightarrow> unat ptr + length dat < 2 ^ 64 \<Longrightarrow>
      case read_cb v a ptr dat s of
        Ret (r, s') \<Rightarrow>
          touched a s s' \<and> (\<forall>k. r = Inr k \<longrightarrow> 0 < k \<and> k \<le> length dat) \<and>
            (\<exists>c' pd'. conns s' a = Some c' \<and> c_proto_data c' = Some pd' \<and> ws_inv pd') \<or>
          dropped a s s' \<and> (\<exists>st. r = Inl st \<and> (st = YMO_OKAY \<or> YMO_IS_BLOCKED st))
      | Hang \<Rightarrow> Rcv_eof \<notin> set (net s) \<and> send_fails s
      | Fault \<Rightarrow> False"
  shows "protocol (\<lambda>_. v) pr ws_inv"
proof (unfold_locales, goal_cases)
  case (1 s a c)
  then show ?case
    using assms(1) touched_refl [of s a] ws_create_inv by (auto simp: ws_conn_init_def ymo_proto_ws_conn_init_def)
next
  case (2 ready s a c pd)
  then show ?case using ready_ok [of s a c pd] assms(2) by (auto simp: ws_served_def)
next
  case (3 clean s a c)
  then show ?case using assms(3) touched_refl by auto
next
  case (4 s a c pd)
  then show ?case using ws_write_ok [of s a c pd] assms(4) by (auto simp: ws_served_def)
next
  case (5 s a c pd dat ptr)
  then show ?case by (rule assms(5))
qed

lemma writing_contract: "protocol (\<lambda>_. ws_vt_write connect u) pr ws_inv"
  by (rule contract_but_read) (auto simp: ws_vt_write_def YMO_IS_BLOCKED_def intro: touched_refl)

text \<open>The actions a read asks for: enabling transmission, and at the end perhaps a transmission at once.\<close>

lemma run_acts_Nil: "run_acts vt a [] = Ret"
  by (simp add: fun_eq_iff)

lemma run_acts_enable:
  "run_acts vt a (replicate k (Tx_enable True) @ todo) s =
     run_bind (run_conn_acts a (replicate k (Tx_enable True)) s) (run_acts vt a todo)"
proof (induction k arbitrary: s)
  case (Suc k)
  show ?case by (cases "run_conn_act a (Tx_enable True) s") (simp_all add: Suc)
qed simp

lemma read_ok:
  assumes c: "conns s a = Some c" "c_state c \<noteq> YMO_CONN_CLOSED" "c_proto c = pr" "c_proto_data c = Some ws" "ws_inv ws"
    and net: "net_ok s" and dat: "dat \<noteq> []" "unat ptr + length dat < 2 ^ 64"
  shows "case ws_read e cb (\<lambda>_. ws_vt_write connect u) a ptr dat s of
      Ret (r, s') \<Rightarrow> ws_served a s s' \<and> (\<forall>k. r = Inr k \<longrightarrow> 0 < k \<and> k \<le> length dat) \<or> dropped a s s' \<and> r = Inl EAGAIN
    | Hang \<Rightarrow> Rcv_eof \<notin> set (net s) \<and> send_fails s
    | Fault \<Rightarrow> False"
proof -
  obtain r ws' where r: "ymo_proto_ws_read e cb (ws\<lparr>acts := []\<rparr>) ptr dat = Some (r, ws')"
      "ws_read_ok (ws\<lparr>acts := []\<rparr>) (length dat) r ws'"
    using read_safe [OF _ memory dat, of "ws\<lparr>acts := []\<rparr>"] c(5) by auto
  obtain k where inv: "ws_inv ws'" and k: "case r of
        Inr n \<Rightarrow> 0 < n \<and> n \<le> length dat \<and> acts ws' = replicate k (Tx_enable True)
      | Inl st \<Rightarrow> st = EAGAIN \<and> acts ws' = replicate k (Tx_enable True) @ [Tx_now]"
    using r(2) by (cases r) (auto simp: ws_read_ok_def)
  obtain s1 where s1: "on_session a (\<lambda>ws. ymo_proto_ws_read e cb ws ptr dat) s = Ret (r, acts ws', s1)" "ws_served a s s1"
    using on_session_ok [of s a c ws "\<lambda>ws. ymo_proto_ws_read e cb ws ptr dat" r ws'] c r(1) inv by auto
  obtain s2 where s2: "run_conn_acts a (replicate k (Tx_enable True)) s1 = Ret s2" "ws_served a s1 s2"
    using run_conn_acts_ok [OF s1(2), of "replicate k (Tx_enable True)"] by auto
  have t2: "touched a s s2" "ws_served a s s2"
    using s1(2) s2(2) ws_served_trans [of a s s1 s2] by (auto simp: ws_served_def)
  show ?thesis
  proof (cases r)
    case (Inr n)
    have "run_acts (\<lambda>_. ws_vt_write connect u) a (acts ws') s1 = Ret s2"
      using run_acts_enable [of "\<lambda>_. ws_vt_write connect u" a k "[]" s1] Inr k s2(1) by simp
    then show ?thesis using s1(1) t2 Inr k by (simp add: ws_read_def)
  next
    case (Inl st)
    have todo: "acts ws' = replicate k (Tx_enable True) @ [Tx_now]" "r = Inl EAGAIN" using Inl k by simp_all
    have e: "run_acts (\<lambda>_. ws_vt_write connect u) a (acts ws') s1 =
        run_bind (ymo_write_cb (\<lambda>_. ws_vt_write connect u) a s2) Ret"
      unfolding todo run_acts_enable by (simp add: s2(1) run_acts_Nil)
    have read: "ws_read e cb (\<lambda>_. ws_vt_write connect u) a ptr dat s =
        run_bind (ymo_write_cb (\<lambda>_. ws_vt_write connect u) a s2) (\<lambda>s. Ret (Inl EAGAIN, s))"
      unfolding ws_read_def s1(1) todo(2) using e
      by (cases "ymo_write_cb (\<lambda>_. ws_vt_write connect u) a s2") simp_all
    have at2: "protocol.at pr ws_inv a s2"
      using t2 c by (auto simp: protocol.at_def [OF writing_contract] protocol.live_def [OF writing_contract] ws_served_def touched_def)
    note wc = writing_contract [of u pr]
    from protocol.handled_after [OF wc t2(1)
        protocol.write_handled [OF wc at2 touched_net_ok [OF t2(1) net]]] touched_fails [OF t2(1)]
    show ?thesis
      unfolding read
      by (cases "ymo_write_cb (\<lambda>_. ws_vt_write connect u) a s2")
        (auto simp: protocol.handled_def [OF wc] protocol.at_def [OF wc]
          protocol.live_def [OF wc] ws_served_def)
  qed
qed

lemma ws_contract: "protocol (\<lambda>_. ymo_default_ws_proto e cb connect u) pr ws_inv"
proof (rule contract_but_read)
  fix s :: "'u ws_session ymo_server" and a :: nat and c :: "'u ws_session ymo_conn" and pd :: "'u ws_session" and ptr :: u64 and dat :: bytes
  assume at: "conns s a = Some c" "c_state c \<noteq> YMO_CONN_CLOSED" "c_proto c = pr" "c_proto_data c = Some pd" "ws_inv pd"
    "net_ok s" "dat \<noteq> []" "unat ptr + length dat < 2 ^ 64"
  from read_ok [OF at, of u] show "case read_cb (ymo_default_ws_proto e cb connect u) a ptr dat s of
        Ret (r, s') \<Rightarrow>
          touched a s s' \<and> (\<forall>k. r = Inr k \<longrightarrow> 0 < k \<and> k \<le> length dat) \<and>
            (\<exists>c' pd'. conns s' a = Some c' \<and> c_proto_data c' = Some pd' \<and> ws_inv pd') \<or>
          dropped a s s' \<and> (\<exists>st. r = Inl st \<and> (st = YMO_OKAY \<or> YMO_IS_BLOCKED st))
      | Hang \<Rightarrow> Rcv_eof \<notin> set (net s) \<and> send_fails s
      | Fault \<Rightarrow> False"
    by (cases "ws_read e cb (\<lambda>_. ws_vt_write connect u) a ptr dat s")
      (auto simp: ymo_default_ws_proto_def ws_served_def YMO_IS_BLOCKED_def)
qed (simp_all add: ymo_default_ws_proto_def ws_vt_write_def)

end

sublocale ws_service \<subseteq> serving: protocol "\<lambda>_. ymo_default_ws_proto e cb connect u" pr ws_inv
  for u pr
  by (rule ws_contract)

section \<open>The echo service\<close>

lemma ws_service_echo: "ws_service (ws_echo_cb ws_env0) ws_env0 None"
  by (intro ws_service.intro ws_app_echo ws_env0_memory ws_service_axioms.intro) simp_all

interpretation echo_service: ws_service "ws_echo_cb ws_env0" ws_env0 None
  by (rule ws_service_echo)

section \<open>Property\<close>

text \<open>
  C6: a server that speaks WebSocket, for an application that keeps the contract \<open>ws_service\<close> (its callbacks stay
  in bounds, only look at their message and send; allocations succeed; the echo service keeps it, the library's
  buffered mode, which writes out of bounds, does not), created, initialised and started, survives whatever its clients
  do, on any number of connections and in any order: no handler touches a connection that has been freed or reads or
  writes out of bounds; the count of connections is exact, every connection has a session that keeps its invariant; the event
  loop ends when a stopping server has lost its last connection, and only then; and every handler returns, except in three
  cases, all without an end of the peer's stream: it closes a connection that was idle, or one on which sending
  failed, or the peer sends without pause.
\<close>

theorem ws_server_safe:
  assumes "ws_service cb e connect"
    and "ymo_server_create (\<lambda>_. ymo_default_ws_proto e cb connect u) config pr rb True = (Some s0, [])"
    and "ymo_server_init ans s0 = (YMO_OKAY, s1)" "ymo_server_start None s1 = (YMO_OKAY, s2)"
    and "(server_step (\<lambda>_. ymo_default_ws_proto e cb connect u))\<^sup>*\<^sup>* s2 s"
  shows "unat (no_conn s) = card (dom (conns s)) \<and>
    (\<forall>a c. conns s a = Some c \<longrightarrow> (\<exists>ws. c_proto_data c = Some ws \<and> ws_inv ws)) \<and>
    (Ev_break \<in> set (s_calls s) \<longleftrightarrow> s_state s = YMO_SERVER_STOP_GRACEFUL \<and> conns s = Map.empty) \<and>
    (\<forall>ev answers rooms locked. enabled ev s \<and> net_ok (with_net answers rooms s) \<longrightarrow>
       handle (\<lambda>_. ymo_default_ws_proto e cb connect u) locked ev (with_net answers rooms s) \<noteq> Fault \<and>
       (handle (\<lambda>_. ymo_default_ws_proto e cb connect u) locked ev (with_net answers rooms s) = Hang \<longrightarrow>
          kept_waiting ev (with_net answers rooms s)))"
  using protocol.started_safe [OF ws_service.ws_contract [OF assms(1)] assms(2-5)]
    protocol.started_live [OF ws_service.ws_contract [OF assms(1)] assms(2-5)]
  by blast

theorem ws_server_safe_witness:
  "\<exists>s2 s. (server_step (\<lambda>_. ymo_default_ws_proto ws_env0 (ws_echo_cb ws_env0) None ()))\<^sup>*\<^sup>* s2 s \<and>
     conns s2 64 = None \<and> conns s 64 \<noteq> None \<and> unat (no_conn s) = card (dom (conns s)) \<and>
     handle (\<lambda>_. ymo_default_ws_proto ws_env0 (ws_echo_cb ws_env0) None ()) False (Readable False 64)
       (with_net [Rcv [1, 2], Rcv_eof] [] s) \<noteq> Fault"
proof -
  let ?vt = "\<lambda>_ :: nat. ymo_default_ws_proto ws_env0 (ws_echo_cb ws_env0) None ()"
  obtain s0 s1 s2 where 1: "ymo_server_create ?vt plain_config 0 0x1000 True = (Some s0, [])"
      "ymo_server_init init_works s0 = (YMO_OKAY, s1)" "ymo_server_start None s1 = (YMO_OKAY, s2)"
      "s_state s2 = YMO_SERVER_STARTED" "conns s2 = Map.empty" "recv_buf s2 = 0x1000" "s_proto s2 = 0"
      "s_config s2 = plain_config" "\<not> multiproc s2"
    using plain_started [of ?vt] by (auto simp: ymo_default_ws_proto_def ws_vt_write_def)
  have "\<exists>s. handle ?vt False (Accept False 5 (Some 64)) (with_net [] [] s2) = Ret s \<and> conns s 64 \<noteq> None \<and>
      recv_buf s = 0x1000"
    using 1(4-)
    by (simp add: handle_def with_net_def ymo_accept_cb_def ymo_fd_accept_def ymo_conn_accept_def conn_proto_init_def
        ymo_default_ws_proto_def ws_vt_write_def ws_conn_init_def ws_conn_ready_def on_session_def run_conn_act_def
        ymo_proto_ws_conn_init_def ymo_proto_ws_conn_ready_def ymo_ws_session_create_def
        on_conn_def get_conn_def put_conn_def plain_config_def)
  then obtain s where 2: "handle ?vt False (Accept False 5 (Some 64)) (with_net [] [] s2) = Ret s"
      "conns s 64 \<noteq> None" "recv_buf s = 0x1000"
    by (elim exE conjE)
  have 3: "(server_step ?vt)\<^sup>*\<^sup>* s2 s"
    by (rule small_turn [OF _ 1(6) 2(1)]) (simp add: enabled_def 1)
  have "enabled (Readable False 64) s" using 2 by (simp add: enabled_def)
  with ws_server_safe [OF ws_service_echo 1(1-3) 3] small_input [OF 2(3)]
  show ?thesis using 1(5) 2(2) 3 by (intro exI [of _ s2] exI [of _ s]) simp
qed

end
