(* ===== verification/Spec2Isabelle.thy ===== *)
theory Spec2Isabelle
  imports Stride Trie Queue Yaml_Doc Http_Limits Mqtt_Connect Ws_Upgrade Ws_Server
begin

text \<open>
  \<^bold>\<open>A verification development for libyimmo.\<close>

  libyimmo is an event-driven C library for socket servers.  Its core (\<^verbatim>\<open>src/core\<close>) accepts connections on
  a libev loop and gives the bytes of each of them to a protocol, a table of callbacks; HTTP/1.x, WebSocket
  and MQTT (\<^verbatim>\<open>src/protocol/{http,ws,mqtt}\<close>) are such protocols.  A read callback parses what has arrived into
  the state of its session and asks the connection to write; a write callback hands a chain of buckets to the
  connection, which sends as much as the socket takes; an HTTP response may carry a protocol to which the
  connection then goes over.

  \<^bold>\<open>Conventions.\<close>  \<^verbatim>\<open>Prelude\<close> has the shared vocabulary.  Machine integers are words of their width, in the
  LP64 model, so that they wrap as in C; strings and buffers are lists of bytes; a \<^verbatim>\<open>struct\<close> is a record with
  its members, an \<^verbatim>\<open>enum\<close> a datatype.  Objects that the code shares or frees live in a heap, a partial map
  from addresses.  What C leaves undefined, an access outside a buffer or to an object that is gone, is the
  value \<open>None\<close>, or \<open>Fault\<close> of the type \<open>run\<close>, whose third value \<open>Hang\<close> is a loop that does not end.  Results with
  an error number are sums.  The answers of the operating system (\<^verbatim>\<open>recv\<close>, \<^verbatim>\<open>sendmsg\<close>, \<^verbatim>\<open>accept\<close>, \<^verbatim>\<open>ftell\<close>) are
  arguments or lists that the state carries; calls to libev and libbsat are recorded in order.  Memory is a
  count of the allocations that succeed, or an argument that tells whether one does.

  \<^bold>\<open>The theories\<close>, in the order in which the code builds on its parts:

  \<^item> \<^verbatim>\<open>Util\<close>, \<^verbatim>\<open>Stride\<close> (\<^verbatim>\<open>ymo_util.c\<close>, \<^verbatim>\<open>ymo_util.h\<close>): case folding, counted comparison, Base64, the UTF-8
    validator with its state; folding of whole buffers eight bytes at a time.  The validator accepts exactly
    the well-formed sequences of RFC 3629, in any division into buffers; Base64 text decodes to its input; the
    span of memory that folding touches is given exactly.
  \<^item> \<^verbatim>\<open>Trie\<close> (\<^verbatim>\<open>ymo_trie.c\<close>): the trie of strings, its annotation, its flattening into an array of offsets and
    the search there.  The flattened trie finds exactly the strings that were added, with distinct ids.
  \<^item> \<^verbatim>\<open>Queue\<close> (\<^verbatim>\<open>ymo_queue.c\<close>): doubly linked queues with a pool of nodes, on a heap.  Every sequence of
    operations behaves as on a list, which is the locale \<open>deque\<close> interpreted on the operations of the model;
    freeing a queue ends and releases all it owns.
  \<^item> \<^verbatim>\<open>Blalloc\<close> (\<^verbatim>\<open>ymo_blalloc.c\<close>): the bump allocator.  Its blocks lie in the pool and never overlap, although
    they are not aligned.
  \<^item> \<^verbatim>\<open>Yaml\<close>, \<^verbatim>\<open>Yaml_Doc\<close> (\<^verbatim>\<open>ymo_yaml.c\<close>): documents as linked nodes, built from the events of libyaml.  A
    document with room for its texts is loaded into nodes that print as it and are found by its keys, and
    freeing it leaves no node; a file of many short texts is written past the document's buffer.
  \<^item> \<^verbatim>\<open>Net\<close> (\<^verbatim>\<open>ymo_bucket.c\<close>, \<^verbatim>\<open>ymo_net.c\<close>): chains of buckets and their transmission, plain and over TLS.  The
    locale \<open>stream_sender\<close>, interpreted on both, states that bytes are neither lost, repeated nor reordered;
    with enough answers of the socket a chain is sent completely.
  \<^item> \<^verbatim>\<open>Conn\<close> (\<^verbatim>\<open>ymo_conn.c\<close>), \<^verbatim>\<open>Server\<close> (\<^verbatim>\<open>ymo_server.c\<close>, \<^verbatim>\<open>ymo_proto.h\<close>): connections with their watchers and
    timeouts, and the server from its creation to the graceful stop, with the callbacks libev runs.
    \<^verbatim>\<open>Server_Safe\<close> states the contract of a protocol as the locale \<open>protocol\<close> and proves in it that no event of
    the relation \<open>server_step\<close> touches a freed connection, that connections are counted exactly, and that a
    graceful stop ends the loop when the last one is gone.
  \<^item> \<^verbatim>\<open>Hdr_Hash\<close>, \<^verbatim>\<open>Hdr_Table\<close> (\<^verbatim>\<open>ymo_http_hdr_table.c\<close>): the hash of header names and the chained table of
    headers with values that are joined in managed buffers.  Inserting and looking up refine the locale
    \<open>header_store\<close>; iteration visits every header once.
  \<^item> \<^verbatim>\<open>Http_Parse\<close>, \<^verbatim>\<open>Http_Request\<close> (\<^verbatim>\<open>ymo_http_parse.c\<close>, \<^verbatim>\<open>ymo_http_exchange.c\<close>): the request parser on the
    receive buffer of an exchange.  Request lines, headers and bodies are read correctly however they are
    divided into reads; bodies go to any callback that keeps the contract \<open>body_sink\<close>.
  \<^item> \<^verbatim>\<open>Http_Response\<close> (\<^verbatim>\<open>ymo_http_response.c\<close>): status, headers, the choice between a length and chunks, and
    serialisation.  The bytes of a response's head are given exactly, and chunked bodies decode to their data.
  \<^item> \<^verbatim>\<open>Http_Session\<close> (\<^verbatim>\<open>ymo_http_session.c\<close>, \<^verbatim>\<open>ymo_proto_http.c\<close>): sessions with their queue of responses, and the
    callbacks of the protocol.  \<^verbatim>\<open>Http_Queue\<close>: responses are answered in order and freed once.  \<^verbatim>\<open>Http_Serve\<close>: a
    request is parsed from its first byte and handed whole to the application.  \<^verbatim>\<open>Http_Limits\<close>: error answers,
    buffered bodies, a read that does not end, a block that is too short.
  \<^item> \<^verbatim>\<open>Ws_Frame\<close> (\<^verbatim>\<open>ymo_ws_session.c\<close>, \<^verbatim>\<open>ymo_ws_parse.c\<close>), \<^verbatim>\<open>Ws_Proto\<close> (\<^verbatim>\<open>ymo_proto_ws.c\<close>): frames, the parser with
    its word-wise unmasking, transmission, the callbacks and the closing handshake.  \<^verbatim>\<open>Ws_Client\<close> is the client's
    side as a reference; \<^verbatim>\<open>Ws_Delivery\<close>: every frame reaches the application unmasked, in any division into
    reads; \<^verbatim>\<open>Ws_Safe\<close>: no input makes the parser leave its memory, for every application that keeps the
    contract \<open>ws_app\<close>; \<^verbatim>\<open>Ws_Server\<close>: the protocol fulfils the contract \<open>protocol\<close> of the server (a \<open>sublocale\<close>),
    so that the whole WebSocket server is safe.  \<^verbatim>\<open>Ws_Upgrade\<close>: the handler that answers a handshake in HTTP.
  \<^item> \<^verbatim>\<open>Mqtt\<close>, \<^verbatim>\<open>Mqtt_Connect\<close> (\<^verbatim>\<open>src/protocol/mqtt\<close>): sessions, the packet parser, sending and the callbacks.  A
    CONNECT packet is accepted with all its fields and answered, lengths survive encoding and decoding, the
    session stays consistent; and where lengths from the peer are trusted.

  \<^bold>\<open>Loops.\<close>  Loops over data are structural recursion.  The others run on fuel, and the theorems show that the
  fuel given is enough or take any that is larger than the data: the header parser has one turn per byte and
  one more, the body parser three per byte and three, the WebSocket parser two per byte, since each of them
  consumes a byte or changes its state between two that do; the MQTT read loop needs no more than four; walks
  over linked objects (queues, responses, nodes of a document) have one turn more than there are addresses in
  use.  The server's read loop has one turn for each byte and each answer of the network that is left.  Where
  a loop of the code really does not end, as in the HTTP read callback for a request line that is cut inside
  its query, the theorem is that no amount of fuel suffices.

  \<^bold>\<open>Not modelled.\<close>  Logging, the start-up code, wrappers of the allocator and of \<^verbatim>\<open>getenv\<close>; the set-up of TLS
  contexts, the \<^verbatim>\<open>sendfile\<close> and \<^verbatim>\<open>mmap\<close> variants of buckets, which no build selects, and the optional mutex of
  a connection, which is another build; functions that only read a field; libev, libbsat, libyaml, OpenSSL
  and the C library themselves, of which the models take answers.  The WSGI server (\<^verbatim>\<open>wsgi\<close>) is an application
  of the library whose behaviour is that of CPython.  Tests, examples, benchmarks and the build system are
  not part of the library.  The contents of memory that is never written are arguments (\<open>junk\<close>, \<open>http_env\<close>)
  where the code reads them.
\<close>

end
